(* ===== verification/Prelude.thy ===== *)
theory Prelude
  imports Main "HOL-Library.Word"
begin

text \<open>
  Shared vocabulary of the development: the ways a C function can end other than by
  returning (\<open>stop\<close>), results that are either a stop or a value (\<open>'a res\<close>) with their
  sequencing operator \<open>bnd\<close>, and the list lemmas used by the file and heap models.
\<close>

section \<open>Results of C functions\<close>

text \<open>
  \<open>Err_dump\<close>, \<open>Err_quit\<close>, \<open>Err_sys\<close> are the fatal reports of \<^verbatim>\<open>lib/error.c\<close> and
  \<open>Log_quit\<close>, \<open>Log_sys\<close> those of \<^verbatim>\<open>lib/errorlog.c\<close>; each carries the message given in the
  source. \<open>Waits\<close> is a call that sleeps for ever as long as no other process acts
  (\<open>Sleeps\<close> also has the bytes of the two files of a database at that moment),
  \<open>Diverges\<close> a loop of the source that never ends, and \<open>Undef\<close> an execution that leaves
  the objects the C program owns (a buffer overrun).
\<close>

datatype stop =
    Err_dump string
  | Err_quit string
  | Err_sys string
  | Log_quit string
  | Log_sys string
  | Waits
  | Sleeps string string
  | Diverges
  | Undef string

type_synonym 'a res = "stop + 'a"

definition bnd :: "'e + 'a \<Rightarrow> ('a \<Rightarrow> 'e + 'b) \<Rightarrow> 'e + 'b" where
  "bnd m f = (case m of Inl e \<Rightarrow> Inl e | Inr x \<Rightarrow> f x)"

lemma bnd_simps [simp]:
  "bnd (Inl e) f = Inl e"
  "bnd (Inr x) f = f x"
  by (simp_all add: bnd_def)

lemma bnd_Inr_iff: "bnd m f = Inr y \<longleftrightarrow> (\<exists>x. m = Inr x \<and> f x = Inr y)"
  by (cases m) auto

lemma bnd_Inl_iff: "bnd m f = Inl e \<longleftrightarrow> m = Inl e \<or> (\<exists>x. m = Inr x \<and> f x = Inl e)"
  by (cases m) auto

lemma bnd_assoc: "bnd (bnd m f) g = bnd m (\<lambda>x. bnd (f x) g)"
  by (cases m) auto

lemma bnd_cong [fundef_cong]:
  "m = m' \<Longrightarrow> (\<And>x. m' = Inr x \<Longrightarrow> f x = f' x) \<Longrightarrow> bnd m f = bnd m' f'"
  by (cases m') auto

text \<open>
  Total correctness of a step: \<open>returns m Q\<close> says that \<open>m\<close> returns (it neither stops nor
  diverges) and that its result satisfies \<open>Q\<close>.
\<close>

definition returns :: "'e + 'a \<Rightarrow> ('a \<Rightarrow> bool) \<Rightarrow> bool" where
  "returns m Q \<longleftrightarrow> (\<exists>x. m = Inr x \<and> Q x)"

lemma returns_Inr [simp]: "returns (Inr x) Q \<longleftrightarrow> Q x"
  by (simp add: returns_def)

lemma returns_Inl [simp]: "\<not> returns (Inl e) Q"
  by (simp add: returns_def)

lemma returns_bnd: "returns m P \<Longrightarrow> (\<And>x. P x \<Longrightarrow> returns (f x) Q) \<Longrightarrow> returns (bnd m f) Q"
  by (auto simp: returns_def)

lemma returns_mono: "returns m P \<Longrightarrow> (\<And>x. P x \<Longrightarrow> Q x) \<Longrightarrow> returns m Q"
  by (auto simp: returns_def)

lemma returnsE: "returns m Q \<Longrightarrow> (\<And>x. m = Inr x \<Longrightarrow> Q x \<Longrightarrow> thesis) \<Longrightarrow> thesis"
  by (auto simp: returns_def)

section \<open>Lists\<close>

named_theorems layout_simps \<open>positions and contents of encoded files\<close>

lemma take_drop_append [layout_simps]:
  "i = length xs \<Longrightarrow> n = length ys \<Longrightarrow> take n (drop i (xs @ ys @ zs)) = ys"
  by simp

lemma concat_map_update_split:
  assumes "j < length xs"
  shows "concat (map f xs) = concat (map f (take j xs)) @ f (xs ! j) @ concat (map f (drop (Suc j) xs))"
proof -
  from assms have "xs = take j xs @ xs ! j # drop (Suc j) xs"
    by (rule id_take_nth_drop)
  then have "concat (map f xs) = concat (map f (take j xs @ xs ! j # drop (Suc j) xs))"
    by simp
  then show ?thesis by simp
qed

lemma concat_map_list_update:
  assumes "j < length xs"
  shows "concat (map f (xs[j := x])) =
    concat (map f (take j xs)) @ f x @ concat (map f (drop (Suc j) xs))"
  using concat_map_update_split [of j "xs[j := x]" f] assms by simp

lemma length_concat_take_less:
  assumes "i < j" "j \<le> length xs" "\<And>x. x \<in> set xs \<Longrightarrow> f x \<noteq> []"
  shows "length (concat (map f (take i xs))) < length (concat (map f (take j xs)))"
proof -
  from assms(1,2) have "take j xs = take i xs @ xs ! i # drop (Suc i) (take j xs)"
    using id_take_nth_drop [of i "take j xs"] by (simp add: min_def)
  then have "concat (map f (take j xs)) =
      concat (map f (take i xs)) @ f (xs ! i) @ concat (map f (drop (Suc i) (take j xs)))"
    by (metis append.assoc concat.simps(2) concat_append list.simps(9) map_append)
  moreover from assms have "f (xs ! i) \<noteq> []" by simp
  ultimately show ?thesis by simp
qed

lemma takeWhile_eq_append:
  "(\<And>x. x \<in> set xs \<Longrightarrow> P x) \<Longrightarrow> \<not> P y \<Longrightarrow> takeWhile P (xs @ y # zs) = xs"
  by (induction xs) auto

lemma takeWhile_eq_self: "(\<And>x. x \<in> set xs \<Longrightarrow> P x) \<Longrightarrow> takeWhile P xs = xs"
  by (induction xs) auto

lemma dropWhile_replicate: "P x \<Longrightarrow> dropWhile P (replicate n x @ ys) = dropWhile P ys"
  by (induction n) auto

end
