(* ===== verification/CLib.thy ===== *)
theory CLib
  imports Prelude "HOL-Library.Char_ord"
begin

text \<open>
  The parts of the C standard library the programs use, as the C standard (and, where the
  standard leaves it open, glibc on 64-bit Linux) describes them: character classes,
  \<^verbatim>\<open>%d\<close> conversions of \<^verbatim>\<open>sprintf\<close>, \<^verbatim>\<open>strtol\<close> and its wrappers, strings ended by a
  null byte inside a larger buffer, \<^verbatim>\<open>strchr\<close>.
  A C string passed to a function is its content, a \<open>string\<close> without the ending null.
\<close>

section \<open>Characters\<close>

abbreviation NUL :: char where "NUL \<equiv> CHR 0x00"
abbreviation SPACE :: char where "SPACE \<equiv> CHR '' ''"
abbreviation NEWLINE :: char where "NEWLINE \<equiv> CHR 0x0A"
abbreviation CR :: char where "CR \<equiv> CHR 0x0D"

definition c_isspace :: "char \<Rightarrow> bool" where
  "c_isspace c \<longleftrightarrow> c = SPACE \<or> (9 \<le> (of_char c :: nat) \<and> (of_char c :: nat) \<le> 13)"

definition c_isdigit :: "char \<Rightarrow> bool" where
  "c_isdigit c \<longleftrightarrow> 48 \<le> (of_char c :: nat) \<and> (of_char c :: nat) \<le> 57"

text \<open>The value of a \<^verbatim>\<open>char\<close>, which is signed on this platform.\<close>

definition schar :: "char \<Rightarrow> int" where
  "schar c = (let n = of_char c :: int in if n < 128 then n else n - 256)"

lemma c_isspace_SPACE [simp]: "c_isspace SPACE"
  by (simp add: c_isspace_def)

lemma of_char_eq_iff [simp]: "(of_char c :: nat) = of_char d \<longleftrightarrow> c = d"
  by (metis char_of_char)

section \<open>Decimal conversion\<close>

definition digit :: "nat \<Rightarrow> char" where
  "digit n = char_of (48 + n)"

fun show_nat :: "nat \<Rightarrow> string" where
  "show_nat n = (if n < 10 then [digit n] else show_nat (n div 10) @ [digit (n mod 10)])"

declare show_nat.simps [simp del]

definition show_int :: "int \<Rightarrow> string" where
  "show_int i = (if i < 0 then ''-'' @ show_nat (nat (- i)) else show_nat (nat i))"

text \<open>The field width of \<^verbatim>\<open>%*d\<close>: blanks on the left up to width \<open>w\<close>.\<close>

definition padl :: "nat \<Rightarrow> string \<Rightarrow> string" where
  "padl w s = replicate (w - length s) SPACE @ s"

fun digits_val :: "nat \<Rightarrow> string \<Rightarrow> nat" where
  "digits_val acc [] = acc"
| "digits_val acc (c # cs) =
     (if c_isdigit c then digits_val (10 * acc + (of_char c - 48)) cs else acc)"

definition LONG_MAX :: int where "LONG_MAX = 2 ^ 63 - 1"
definition LONG_MIN :: int where "LONG_MIN = - (2 ^ 63)"

definition clamp_long :: "int \<Rightarrow> int" where
  "clamp_long i = (if i > LONG_MAX then LONG_MAX else if i < LONG_MIN then LONG_MIN else i)"

text \<open>\<^verbatim>\<open>atol(s)\<close> is \<^verbatim>\<open>strtol(s, NULL, 10)\<close>, which saturates; \<^verbatim>\<open>atoi\<close> truncates it to an int.\<close>

definition c_atol :: "string \<Rightarrow> int" where
  "c_atol s =
     (let t = dropWhile c_isspace s in
      case t of
        [] \<Rightarrow> 0
      | c # u \<Rightarrow>
          if c = CHR ''-'' then clamp_long (- int (digits_val 0 u))
          else if c = CHR ''+'' then clamp_long (int (digits_val 0 u))
          else clamp_long (int (digits_val 0 t)))"

definition c_atoi :: "string \<Rightarrow> int" where
  "c_atoi s = sint (word_of_int (c_atol s) :: 32 word)"

lemma of_char_digit [simp]: "n < 10 \<Longrightarrow> (of_char (digit n) :: nat) = 48 + n"
  by (simp add: digit_def)

lemma digit_isdigit [simp]: "n < 10 \<Longrightarrow> c_isdigit (digit n)"
  by (simp add: c_isdigit_def)

lemma digit_not_isspace [simp]: "n < 10 \<Longrightarrow> \<not> c_isspace (digit n)"
proof
  assume n: "n < 10" and "c_isspace (digit n)"
  then have "(of_char (digit n) :: nat) = of_char SPACE \<or> (of_char (digit n) :: nat) \<le> 13"
    by (auto simp: c_isspace_def)
  with n show False by simp
qed

lemma c_isdigit_neqs:
  "c_isdigit c \<Longrightarrow> c \<noteq> CHR '':''" "c_isdigit c \<Longrightarrow> c \<noteq> NUL" "c_isdigit c \<Longrightarrow> c \<noteq> NEWLINE"
  "c_isdigit c \<Longrightarrow> c \<noteq> CHR ''-''" "c_isdigit c \<Longrightarrow> c \<noteq> CHR ''+''" "c_isdigit c \<Longrightarrow> c \<noteq> SPACE"
  by (auto simp: c_isdigit_def)

lemma show_nat_not_Nil [simp]: "show_nat n \<noteq> []"
  by (subst show_nat.simps) simp

lemma show_nat_isdigit: "c \<in> set (show_nat n) \<Longrightarrow> c_isdigit c"
proof (induction n rule: show_nat.induct)
  case (1 n)
  then show ?case by (cases "n < 10") (auto simp: show_nat.simps [of n])
qed

lemma show_nat_no_sep:
  "CHR '':'' \<notin> set (show_nat n)" "NUL \<notin> set (show_nat n)" "NEWLINE \<notin> set (show_nat n)"
  using show_nat_isdigit c_isdigit_neqs by blast+

lemma digits_val_append:
  "(\<And>c. c \<in> set s \<Longrightarrow> c_isdigit c) \<Longrightarrow> digits_val acc (s @ t) = digits_val (digits_val acc s) t"
  by (induction s arbitrary: acc) auto

lemma digits_val_show_nat [simp]: "digits_val 0 (show_nat n) = n"
proof (induction n rule: show_nat.induct)
  case (1 n)
  show ?case
  proof (cases "n < 10")
    case True
    then show ?thesis by (simp add: show_nat.simps [of n])
  next
    case False
    then have "digits_val 0 (show_nat n) =
        digits_val (digits_val 0 (show_nat (n div 10))) [digit (n mod 10)]"
      by (subst show_nat.simps) (simp add: digits_val_append show_nat_isdigit)
    also have "\<dots> = n" using 1 False by simp
    finally show ?thesis .
  qed
qed

lemma length_show_nat_le: "n < 10 ^ k \<Longrightarrow> 0 < k \<Longrightarrow> length (show_nat n) \<le> k"
proof (induction n arbitrary: k rule: show_nat.induct)
  case (1 n)
  show ?case
  proof (cases "n < 10")
    case True
    then show ?thesis using 1 by (simp add: show_nat.simps [of n])
  next
    case False
    from "1.prems" obtain m where k: "k = Suc m" by (cases k) auto
    with "1.prems" False have "n div 10 < 10 ^ m" "0 < m"
      by (auto simp: less_mult_imp_div_less mult.commute intro!: Nat.gr0I)
    with "1.IH" [OF False] have "length (show_nat (n div 10)) \<le> m" by simp
    with False k show ?thesis by (simp add: show_nat.simps [of n])
  qed
qed

lemma length_padl: "length (padl w s) = max w (length s)"
  by (simp add: padl_def)

lemma length_padl_show_nat: "n < 10 ^ w \<Longrightarrow> 0 < w \<Longrightarrow> length (padl w (show_nat n)) = w"
  using length_show_nat_le [of n w] by (simp add: length_padl)

lemma dropWhile_isspace_padl:
  "dropWhile c_isspace (padl w (show_nat n) @ t) = show_nat n @ t"
proof -
  obtain c cs where s: "show_nat n = c # cs" by (cases "show_nat n") auto
  then have "c_isdigit c" using show_nat_isdigit [of c n] by simp
  then have "c \<noteq> SPACE" "\<not> (of_char c :: nat) \<le> 13" by (auto simp: c_isdigit_def)
  then have "\<not> c_isspace c" by (simp add: c_isspace_def)
  with s show ?thesis
    by (simp add: padl_def dropWhile_replicate c_isspace_SPACE)
qed

text \<open>Printing with a field width and reading back with \<^verbatim>\<open>atol\<close> is the identity.\<close>

lemma c_atol_padl:
  assumes "int n \<le> LONG_MAX"
  shows "c_atol (padl w (show_nat n)) = int n"
proof -
  obtain c cs where s: "show_nat n = c # cs" by (cases "show_nat n") auto
  then have "c_isdigit c" using show_nat_isdigit [of c n] by simp
  then have "c \<noteq> CHR ''-''" "c \<noteq> CHR ''+''" by (rule c_isdigit_neqs)+
  moreover have "digits_val 0 (c # cs) = n" using s digits_val_show_nat [of n] by simp
  ultimately show ?thesis
    using assms dropWhile_isspace_padl [of w n "[]"] s
    by (simp add: c_atol_def clamp_long_def LONG_MIN_def)
qed

lemma c_atol_prefix:
  assumes "int n \<le> LONG_MAX" "t = [] \<or> \<not> c_isdigit (hd t)"
  shows "c_atol (show_nat n @ t) = int n"
proof -
  obtain c cs where s: "show_nat n = c # cs" by (cases "show_nat n") auto
  then have "c_isdigit c" using show_nat_isdigit [of c n] by simp
  then have "c \<noteq> CHR ''-''" "c \<noteq> CHR ''+''" by (rule c_isdigit_neqs)+
  moreover have "digits_val 0 (show_nat n @ t) = digits_val n t"
    using digits_val_append [of "show_nat n" 0 t] show_nat_isdigit by simp
  moreover have "digits_val n t = n" using assms(2) by (cases t) auto
  ultimately show ?thesis
    using assms dropWhile_isspace_padl [of 0 n t] s
    by (simp add: c_atol_def clamp_long_def LONG_MIN_def padl_def)
qed

lemma padl_0 [simp]: "padl 0 s = s"
  by (simp add: padl_def)

lemma c_atol_show_nat: "int n \<le> LONG_MAX \<Longrightarrow> c_atol (show_nat n) = int n"
  using c_atol_padl [of n 0] by simp

lemma show_int_nat [simp]: "show_int (int n) = show_nat n"
  by (simp add: show_int_def)

lemma c_atoi_padl:
  assumes "n < 2 ^ 31"
  shows "c_atoi (padl w (show_nat n)) = int n"
proof -
  from assms have "int n < 2 ^ 31" by simp
  then have "int n \<le> LONG_MAX" by (simp add: LONG_MAX_def)
  then have "c_atol (padl w (show_nat n)) = int n" by (rule c_atol_padl)
  moreover have "sint (word_of_int (int n) :: 32 word) = int n"
    unfolding signed_of_int using \<open>int n < 2 ^ 31\<close>
    by (simp add: signed_take_bit_int_eq_self)
  ultimately show ?thesis by (simp add: c_atoi_def)
qed

section \<open>Null-terminated strings in a buffer\<close>

text \<open>The third argument of \<^verbatim>\<open>lseek\<close> and of a seek function of a stream.\<close>

datatype whence = SEEK_SET | SEEK_CUR | SEEK_END

text \<open>\<open>cstr_at buf p\<close> is the C string that starts at offset \<open>p\<close> of the buffer.\<close>

definition cstr_at :: "string \<Rightarrow> nat \<Rightarrow> string" where
  "cstr_at buf p = takeWhile (\<lambda>c. c \<noteq> NUL) (drop p buf)"

definition strchr_at :: "string \<Rightarrow> nat \<Rightarrow> char \<Rightarrow> nat option" where
  "strchr_at buf p c =
     (let t = cstr_at buf p; n = length (takeWhile (\<lambda>x. x \<noteq> c) t)
      in if n < length t then Some (p + n) else None)"

text \<open>Copying \<open>data\<close> over the front of a buffer leaves the bytes behind it as they were.\<close>

definition buf_put :: "string \<Rightarrow> string \<Rightarrow> string" where
  "buf_put buf data = data @ drop (length data) buf"

text \<open>What \<^verbatim>\<open>strncpy\<close> writes: exactly \<open>n\<close> bytes, the string cut or filled with null bytes.\<close>

definition strncpy :: "nat \<Rightarrow> string \<Rightarrow> string" where
  "strncpy n s = take n (s @ replicate n NUL)"

lemma length_strncpy [simp]: "length (strncpy n s) = n"
  by (simp add: strncpy_def)

lemma cstr_at_append:
  "p = length xs \<Longrightarrow> NUL \<notin> set ys \<Longrightarrow> cstr_at (xs @ ys @ NUL # zs) p = ys"
  by (auto simp: cstr_at_def intro: takeWhile_eq_append)

lemma strchr_at_Some:
  assumes "p = length xs" "c \<notin> set ys" "NUL \<notin> set ys" "c \<noteq> NUL"
  shows "strchr_at (xs @ ys @ c # zs) p c = Some (p + length ys)"
proof -
  have 1: "takeWhile (\<lambda>c. c \<noteq> NUL) (ys @ c # zs) = ys @ c # takeWhile (\<lambda>c. c \<noteq> NUL) zs"
    using assms(3,4) by (induction ys) auto
  have "takeWhile (\<lambda>x. x \<noteq> c) (ys @ c # takeWhile (\<lambda>c. c \<noteq> NUL) zs) = ys"
    using assms(2) by (auto intro: takeWhile_eq_append)
  with 1 assms(1) show ?thesis by (simp add: strchr_at_def cstr_at_def)
qed

lemma strchr_at_None:
  assumes "p = length xs" "c \<notin> set ys" "NUL \<notin> set ys"
  shows "strchr_at (xs @ ys @ NUL # zs) p c = None"
proof -
  have "cstr_at (xs @ ys @ NUL # zs) p = ys" using assms by (simp add: cstr_at_append)
  moreover have "takeWhile (\<lambda>x. x \<noteq> c) ys = ys" using assms by (auto intro: takeWhile_eq_self)
  ultimately show ?thesis by (simp only: strchr_at_def Let_def) simp
qed

end
