(* ===== verification/DbFile.thy ===== *)
theory DbFile
  imports CLib
begin

text \<open>
  The kernel objects under the database library: an open regular file with its bytes, this
  process's file offset, the record locks this process holds and those of the others; the
  calls \<^verbatim>\<open>lseek\<close>, \<^verbatim>\<open>read\<close>, \<^verbatim>\<open>write\<close> (and their vector forms, which act on the
  concatenation), and \<^verbatim>\<open>lib/lockreg.c\<close> with the locking macros of \<^verbatim>\<open>include/apue.h\<close>.
  A read or write on a regular file transfers everything up to the end of the file.
\<close>

section \<open>Open files\<close>

datatype lk = F_UNLCK | F_RDLCK | F_WRLCK

text \<open>A region locked by another process: start, length (0: to the end of any file), type.\<close>

type_synonym lreg = "nat \<times> nat \<times> lk"

record cfile =
  cbytes :: string
  cpos :: nat
  clocks :: "nat \<Rightarrow> lk"
  cothers :: "lreg list"

definition seek_base :: "cfile \<Rightarrow> whence \<Rightarrow> int" where
  "seek_base f w = (case w of SEEK_SET \<Rightarrow> 0 | SEEK_CUR \<Rightarrow> int (cpos f) | SEEK_END \<Rightarrow> int (length (cbytes f)))"

definition k_lseek :: "cfile \<Rightarrow> int \<Rightarrow> whence \<Rightarrow> int \<times> cfile" where
  "k_lseek f off w =
     (let p = seek_base f w + off in if p < 0 then (-1, f) else (p, f\<lparr>cpos := nat p\<rparr>))"

definition k_read :: "cfile \<Rightarrow> nat \<Rightarrow> string \<times> cfile" where
  "k_read f n =
     (let d = take n (drop (cpos f) (cbytes f)) in (d, f\<lparr>cpos := cpos f + length d\<rparr>))"

definition put_bytes :: "string \<Rightarrow> nat \<Rightarrow> string \<Rightarrow> string" where
  "put_bytes bs p d =
     take p bs @ replicate (p - length bs) NUL @ d @ drop (p + length d) bs"

definition k_write :: "cfile \<Rightarrow> string \<Rightarrow> nat \<times> cfile" where
  "k_write f d =
     (length d,
      if d = [] then f
      else f\<lparr>cbytes := put_bytes (cbytes f) (cpos f) d, cpos := cpos f + length d\<rparr>)"

section \<open>Record locks\<close>

datatype lcmd = F_SETLK | F_SETLKW

definition in_region :: "nat \<Rightarrow> nat \<Rightarrow> nat \<Rightarrow> bool" where
  "in_region st len b \<longleftrightarrow> st \<le> b \<and> (len = 0 \<or> b < st + len)"

definition overlap :: "nat \<Rightarrow> nat \<Rightarrow> nat \<Rightarrow> nat \<Rightarrow> bool" where
  "overlap s1 l1 s2 l2 \<longleftrightarrow> (l1 = 0 \<or> s2 < s1 + l1) \<and> (l2 = 0 \<or> s1 < s2 + l2)"

definition conflicts :: "lk \<Rightarrow> nat \<Rightarrow> nat \<Rightarrow> lreg \<Rightarrow> bool" where
  "conflicts ty st len r = (case r of (s, l, t) \<Rightarrow>
     overlap st len s l \<and> (ty = F_WRLCK \<and> t \<noteq> F_UNLCK \<or> ty = F_RDLCK \<and> t = F_WRLCK))"

text \<open>
  \<^verbatim>\<open>lock_reg\<close> fills a \<^verbatim>\<open>struct flock\<close> and calls \<^verbatim>\<open>fcntl\<close>. A lock of this process
  replaces the ones it has on the same bytes; \<^verbatim>\<open>F_SETLK\<close> returns \<open>-1\<close> when another
  process is in the way, \<^verbatim>\<open>F_SETLKW\<close> sleeps.
\<close>

definition lock_reg :: "cfile \<Rightarrow> lcmd \<Rightarrow> lk \<Rightarrow> int \<Rightarrow> whence \<Rightarrow> nat \<Rightarrow> (int \<times> cfile) res" where
  "lock_reg f cmd ty off w len =
     (let st = seek_base f w + off in
      if st < 0 then Inr (-1, f)
      else if \<exists>r \<in> set (cothers f). conflicts ty (nat st) len r
      then (case cmd of F_SETLKW \<Rightarrow> Inl Waits | F_SETLK \<Rightarrow> Inr (-1, f))
      else Inr (0, f\<lparr>clocks := (\<lambda>b. if in_region (nat st) len b then ty else clocks f b)\<rparr>))"

definition readw_lock :: "cfile \<Rightarrow> int \<Rightarrow> whence \<Rightarrow> nat \<Rightarrow> (int \<times> cfile) res" where
  "readw_lock f off w len = lock_reg f F_SETLKW F_RDLCK off w len"

definition writew_lock :: "cfile \<Rightarrow> int \<Rightarrow> whence \<Rightarrow> nat \<Rightarrow> (int \<times> cfile) res" where
  "writew_lock f off w len = lock_reg f F_SETLKW F_WRLCK off w len"

definition un_lock :: "cfile \<Rightarrow> int \<Rightarrow> whence \<Rightarrow> nat \<Rightarrow> (int \<times> cfile) res" where
  "un_lock f off w len = lock_reg f F_SETLK F_UNLCK off w len"

section \<open>Facts\<close>

lemma k_lseek_set [simp]:
  "0 \<le> off \<Longrightarrow> k_lseek f off SEEK_SET = (off, f\<lparr>cpos := nat off\<rparr>)"
  by (simp add: k_lseek_def seek_base_def)

lemma k_lseek_cur0 [simp]: "k_lseek f 0 SEEK_CUR = (int (cpos f), f)"
  by (simp add: k_lseek_def seek_base_def)

lemma k_lseek_end0 [simp]:
  "k_lseek f 0 SEEK_END = (int (length (cbytes f)), f\<lparr>cpos := length (cbytes f)\<rparr>)"
  by (simp add: k_lseek_def seek_base_def)

lemma put_bytes_append: "put_bytes bs (length bs) d = bs @ d"
  by (simp add: put_bytes_def)

text \<open>Overwriting a field of a file by one of the same length changes just that field.\<close>

lemma put_bytes_replace [layout_simps]:
  "p = length a \<Longrightarrow> length d = length b \<Longrightarrow> put_bytes (a @ b @ c) p d = a @ d @ c"
  by (simp add: put_bytes_def)

lemma length_put_bytes: "p + length d \<le> length bs \<Longrightarrow> length (put_bytes bs p d) = length bs"
  by (simp add: put_bytes_def)

text \<open>A read of a region that a write does not touch is unchanged by the write.\<close>

lemma read_put_bytes_same:
  "p \<le> length bs \<Longrightarrow> take (length d) (drop p (put_bytes bs p d)) = d"
  by (simp add: put_bytes_def)

lemma read_put_bytes_before:
  "q + n \<le> p \<Longrightarrow> p \<le> length bs \<Longrightarrow> take n (drop q (put_bytes bs p d)) = take n (drop q bs)"
  by (simp add: put_bytes_def take_drop)

lemma lock_reg_free:
  assumes "cothers f = []" "0 \<le> off"
  shows "lock_reg f cmd ty off SEEK_SET len =
    Inr (0, f\<lparr>clocks := (\<lambda>b. if in_region (nat off) len b then ty else clocks f b)\<rparr>)"
  using assms by (simp add: lock_reg_def seek_base_def)

lemma un_lock_SET:
  assumes "0 \<le> off"
  shows "un_lock f off SEEK_SET len =
    Inr (0, f\<lparr>clocks := (\<lambda>b. if in_region (nat off) len b then F_UNLCK else clocks f b)\<rparr>)"
  using assms by (auto simp: un_lock_def lock_reg_def seek_base_def conflicts_def)

end
