(* ===== verification/Db.thy ===== *)
theory Db
  imports DbFile
begin

text \<open>
  \<^verbatim>\<open>db/db.c\<close>: the database library, function by function. The private structure \<open>DB\<close> is a
  record; the state of a process using the library extends it with the two open files that
  the descriptors \<^verbatim>\<open>idxfd\<close> and \<^verbatim>\<open>datfd\<close> refer to. A function of the source that can end in
  \<^verbatim>\<open>err_dump\<close> or \<^verbatim>\<open>err_quit\<close>, or sleep on a lock, returns a \<open>res\<close>.
\<close>

unbundle bit_operations_syntax

section \<open>Constants and the DB structure\<close>

definition IDXLEN_SZ :: nat where "IDXLEN_SZ = 4"
definition SEP :: char where "SEP = CHR '':''"
definition PTR_SZ :: nat where "PTR_SZ = 7"
definition PTR_MAX :: int where "PTR_MAX = 9999999"
definition NHASH_DEF :: nat where "NHASH_DEF = 137"
definition FREE_OFF :: int where "FREE_OFF = 0"
definition HASH_OFF :: int where "HASH_OFF = int PTR_SZ"
definition IDXLEN_MIN :: nat where "IDXLEN_MIN = 6"
definition IDXLEN_MAX :: nat where "IDXLEN_MAX = 1024"
definition DATLEN_MIN :: nat where "DATLEN_MIN = 2"
definition DATLEN_MAX :: nat where "DATLEN_MAX = 1024"

definition DB_INSERT :: int where "DB_INSERT = 1"
definition DB_REPLACE :: int where "DB_REPLACE = 2"
definition DB_STORE :: int where "DB_STORE = 3"

definition ENOENT :: int where "ENOENT = 2"
definition EINVAL :: int where "EINVAL = 22"

record DB =
  idxfd :: int
  datfd :: int
  idxbuf :: string
  datbuf :: string
  dbname :: string
  idxoff :: int
  idxlen :: nat
  datoff :: int
  datlen :: nat
  ptrval :: int
  ptroff :: int
  chainoff :: int
  hashoff :: int
  nhash :: "64 word"
  cnt_delok :: "64 word"
  cnt_delerr :: "64 word"
  cnt_fetchok :: "64 word"
  cnt_fetcherr :: "64 word"
  cnt_nextrec :: "64 word"
  cnt_stor1 :: "64 word"
  cnt_stor2 :: "64 word"
  cnt_stor3 :: "64 word"
  cnt_stor4 :: "64 word"
  cnt_storerr :: "64 word"

record dbst = DB +
  idxf :: cfile
  datf :: cfile
  c_errno :: int

text \<open>
  Offset of the first index record: \<^verbatim>\<open>(nhash + 1) * PTR_SZ + 1\<close>, unsigned arithmetic stored in
  an \<^verbatim>\<open>off_t\<close>.
\<close>

definition rec_start :: "dbst \<Rightarrow> int" where
  "rec_start s = sint ((nhash s + 1) * word_of_nat PTR_SZ + 1 :: 64 word)"

text \<open>The conversion of a signed value to the unsigned \<^verbatim>\<open>size_t\<close>.\<close>

definition size_t :: "int \<Rightarrow> nat" where
  "size_t i = nat (i mod 2 ^ 64)"

text \<open>
  \<^verbatim>\<open>if (lock(...) < 0) err_dump(msg)\<close>, for a lock on the index or on the data file. A process that
  sleeps in \<^verbatim>\<open>fcntl\<close> leaves the files as they are then: \<open>asleep\<close> records their bytes.
\<close>

definition asleep :: "dbst \<Rightarrow> 'a res \<Rightarrow> 'a res" where
  "asleep s m = (if m = Inl Waits then Inl (Sleeps (cbytes (idxf s)) (cbytes (datf s))) else m)"

lemma asleep_simps [simp]:
  "asleep s (Inr x) = Inr x"
  "asleep s (Inl Waits) = Inl (Sleeps (cbytes (idxf s)) (cbytes (datf s)))"
  by (simp_all add: asleep_def)

definition idx_lock :: "dbst \<Rightarrow> (cfile \<Rightarrow> (int \<times> cfile) res) \<Rightarrow> string \<Rightarrow> dbst res" where
  "idx_lock s l msg =
     bnd (asleep s (l (idxf s))) (\<lambda>(r, f). if r < 0 then Inl (Err_dump msg) else Inr (s\<lparr>idxf := f\<rparr>))"

definition dat_lock :: "dbst \<Rightarrow> (cfile \<Rightarrow> (int \<times> cfile) res) \<Rightarrow> string \<Rightarrow> dbst res" where
  "dat_lock s l msg =
     bnd (asleep s (l (datf s))) (\<lambda>(r, f). if r < 0 then Inl (Err_dump msg) else Inr (s\<lparr>datf := f\<rparr>))"

section \<open>Hash values\<close>

text \<open>\<^verbatim>\<open>hval += c * i\<close>: an int product, added modulo \<open>2 ^ 64\<close>.\<close>

fun db_hash_loop :: "64 word \<Rightarrow> int \<Rightarrow> string \<Rightarrow> 64 word" where
  "db_hash_loop hval i [] = hval"
| "db_hash_loop hval i (c # key) = db_hash_loop (hval + word_of_int (schar c * i)) (i + 1) key"

definition db_hash :: "dbst \<Rightarrow> string \<Rightarrow> 64 word" where
  "db_hash s key = db_hash_loop 0 1 key mod nhash s"

text \<open>Offset in the index file of the chain pointer that heads the hash chain of a key.\<close>

definition db_chainoff :: "dbst \<Rightarrow> string \<Rightarrow> int" where
  "db_chainoff s key =
     sint (db_hash s key * word_of_nat PTR_SZ + word_of_int (hashoff s) :: 64 word)"

section \<open>Chain pointers\<close>

definition db_readptr :: "dbst \<Rightarrow> int \<Rightarrow> (int \<times> dbst) res" where
  "db_readptr s offset =
     (let (r, f) = k_lseek (idxf s) offset SEEK_SET in
      if r = -1 then Inl (Err_dump ''_db_readptr: lseek error to ptr field'')
      else let (asciiptr, f) = k_read f PTR_SZ in
      if length asciiptr \<noteq> PTR_SZ then Inl (Err_dump ''_db_readptr: read error of ptr field'')
      else Inr (c_atol asciiptr, s\<lparr>idxf := f\<rparr>))"

definition db_writeptr :: "dbst \<Rightarrow> int \<Rightarrow> int \<Rightarrow> dbst res" where
  "db_writeptr s offset ptr =
     (if ptr < 0 \<or> ptr > PTR_MAX then Inl (Err_quit ''_db_writeptr: invalid ptr'')
      else let asciiptr = padl PTR_SZ (show_int ptr); (r, f) = k_lseek (idxf s) offset SEEK_SET in
      if r = -1 then Inl (Err_dump ''_db_writeptr: lseek error to ptr field'')
      else let (n, f) = k_write f asciiptr in
      if n \<noteq> PTR_SZ then Inl (Err_dump ''_db_writeptr: write error of ptr field'')
      else Inr (s\<lparr>idxf := f\<rparr>))"

section \<open>Index records\<close>

text \<open>
  \<open>db_parseidx\<close> is the second half of \<^verbatim>\<open>_db_readidx\<close>: it splits the record in \<^verbatim>\<open>idxbuf\<close> at
  its separators and sets \<^verbatim>\<open>datoff\<close> and \<^verbatim>\<open>datlen\<close>. The pointers \<^verbatim>\<open>ptr1\<close> and \<^verbatim>\<open>ptr2\<close> are
  offsets into the buffer.
\<close>

definition db_parseidx :: "dbst \<Rightarrow> (int \<times> dbst) res" where
  "db_parseidx s =
     (if idxbuf s ! (idxlen s - 1) \<noteq> NEWLINE then Inl (Err_dump ''_db_readidx: missing newline'')
      else let s = s\<lparr>idxbuf := (idxbuf s)[idxlen s - 1 := NUL]\<rparr> in
      case strchr_at (idxbuf s) 0 SEP of
        None \<Rightarrow> Inl (Err_dump ''_db_readidx: missing first separator'')
      | Some sep1 \<Rightarrow>
        let s = s\<lparr>idxbuf := (idxbuf s)[sep1 := NUL]\<rparr>; ptr1 = sep1 + 1 in
        case strchr_at (idxbuf s) ptr1 SEP of
          None \<Rightarrow> Inl (Err_dump ''_db_readidx: missing second separator'')
        | Some sep2 \<Rightarrow>
          let s = s\<lparr>idxbuf := (idxbuf s)[sep2 := NUL]\<rparr>; ptr2 = sep2 + 1 in
          if strchr_at (idxbuf s) ptr2 SEP \<noteq> None
          then Inl (Err_dump ''_db_readidx: too many separators'')
          else let s = s\<lparr>datoff := c_atol (cstr_at (idxbuf s) ptr1)\<rparr> in
          if datoff s < 0 then Inl (Err_dump ''_db_readidx: starting offset < 0'')
          else let s = s\<lparr>datlen := size_t (c_atol (cstr_at (idxbuf s) ptr2))\<rparr> in
          if datlen s \<le> 0 \<or> datlen s > DATLEN_MAX
          then Inl (Err_dump ''_db_readidx: invalid length'')
          else Inr (ptrval s, s))"

definition db_readidx :: "dbst \<Rightarrow> int \<Rightarrow> (int \<times> dbst) res" where
  "db_readidx s offset =
     (let (r, f) = k_lseek (idxf s) offset (if offset = 0 then SEEK_CUR else SEEK_SET);
          s = s\<lparr>idxoff := r\<rparr> in
      if r = -1 then Inl (Err_dump ''_db_readidx: lseek error'')
      else let (ascii, f) = k_read f (PTR_SZ + IDXLEN_SZ); s = s\<lparr>idxf := f\<rparr> in
      if length ascii \<noteq> PTR_SZ + IDXLEN_SZ then
        (if length ascii = 0 \<and> offset = 0 then Inr (-1, s)
         else Inl (Err_dump ''_db_readidx: readv error of index record''))
      else let s = s\<lparr>ptrval := c_atol (take PTR_SZ ascii),
                     idxlen := size_t (c_atoi (drop PTR_SZ ascii))\<rparr> in
      if idxlen s < IDXLEN_MIN \<or> idxlen s > IDXLEN_MAX
      then Inl (Err_dump ''_db_readidx: invalid length'')
      else let (body, f) = k_read (idxf s) (idxlen s);
               s = s\<lparr>idxf := f, idxbuf := buf_put (idxbuf s) body\<rparr> in
      if length body \<noteq> idxlen s then Inl (Err_dump ''_db_readidx: read error of index record'')
      else db_parseidx s)"

text \<open>
  \<^verbatim>\<open>sprintf\<close> fills \<^verbatim>\<open>idxbuf\<close>, whose size is \<open>IDXLEN_MAX + 2\<close>, before the length is checked.
\<close>

definition idx_print :: "dbst \<Rightarrow> string \<Rightarrow> string" where
  "idx_print s key =
     key @ [SEP] @ show_int (datoff s) @ [SEP] @ show_int (int (datlen s)) @ [NEWLINE]"

definition db_writeidx :: "dbst \<Rightarrow> string \<Rightarrow> int \<Rightarrow> whence \<Rightarrow> int \<Rightarrow> dbst res" where
  "db_writeidx s key offset w ptr =
     (let s = s\<lparr>ptrval := ptr\<rparr> in
      if ptrval s < 0 \<or> ptr > PTR_MAX then Inl (Err_quit ''_db_writeidx: invalid ptr'')
      else let rec = idx_print s key in
      if length rec + 1 > IDXLEN_MAX + 2 then Inl (Undef ''_db_writeidx: idxbuf overrun'')
      else let s = s\<lparr>idxbuf := buf_put (idxbuf s) (rec @ [NUL])\<rparr>; len = length rec in
      if len < IDXLEN_MIN \<or> len > IDXLEN_MAX then Inl (Err_dump ''_db_writeidx: invalid length'')
      else let asciiptrlen = padl PTR_SZ (show_int ptr) @ padl IDXLEN_SZ (show_int (int len)) in
      bnd (if w = SEEK_END
           then idx_lock s (\<lambda>f. writew_lock f (rec_start s) SEEK_SET 0)
                  ''_db_writeidx: writew_lock error''
           else Inr s) (\<lambda>s.
      let (r, f) = k_lseek (idxf s) offset w; s = s\<lparr>idxoff := r\<rparr> in
      if r = -1 then Inl (Err_dump ''_db_writeidx: lseek error'')
      else let (n, f) = k_write f (asciiptrlen @ rec); s = s\<lparr>idxf := f\<rparr> in
      if n \<noteq> PTR_SZ + IDXLEN_SZ + len then Inl (Err_dump ''_db_writeidx: writev error of index record'')
      else if w = SEEK_END
           then idx_lock s (\<lambda>f. un_lock f (rec_start s) SEEK_SET 0)
                  ''_db_writeidx: un_lock error''
           else Inr s))"

section \<open>Data records\<close>

definition db_readdat :: "dbst \<Rightarrow> (string \<times> dbst) res" where
  "db_readdat s =
     (let (r, f) = k_lseek (datf s) (datoff s) SEEK_SET in
      if r = -1 then Inl (Err_dump ''_db_readdat: lseek error'')
      else let (d, f) = k_read f (datlen s); s = s\<lparr>datf := f, datbuf := buf_put (datbuf s) d\<rparr> in
      if length d \<noteq> datlen s then Inl (Err_dump ''_db_readdat: read error'')
      else if datbuf s ! (datlen s - 1) \<noteq> NEWLINE then Inl (Err_dump ''_db_readdat: missing newline'')
      else let s = s\<lparr>datbuf := (datbuf s)[datlen s - 1 := NUL]\<rparr> in
      Inr (cstr_at (datbuf s) 0, s))"

definition db_writedat :: "dbst \<Rightarrow> string \<Rightarrow> int \<Rightarrow> whence \<Rightarrow> dbst res" where
  "db_writedat s data offset w =
     bnd (if w = SEEK_END
          then dat_lock s (\<lambda>f. writew_lock f 0 SEEK_SET 0) ''_db_writedat: writew_lock error''
          else Inr s) (\<lambda>s.
     let (r, f) = k_lseek (datf s) offset w; s = s\<lparr>datoff := r\<rparr> in
     if r = -1 then Inl (Err_dump ''_db_writedat: lseek error'')
     else let s = s\<lparr>datlen := length data + 1\<rparr>; (n, f) = k_write f (data @ [NEWLINE]);
              s = s\<lparr>datf := f\<rparr> in
     if n \<noteq> datlen s then Inl (Err_dump ''_db_writedat: writev error of data record'')
     else if w = SEEK_END
          then dat_lock s (\<lambda>f. un_lock f 0 SEEK_SET 0) ''_db_writedat: un_lock error''
          else Inr s)"

end
