(* ===== verification/DbOps.thy ===== *)
theory DbOps
  imports Db
begin

text \<open>
  \<^verbatim>\<open>db/db.c\<close>, second part: searching a hash chain, the free list, and the calls of
  \<^verbatim>\<open>apue_db.h\<close>. The two loops that follow chain pointers get as fuel one more than the number
  of bytes of the index file: a chain that visits more records visits one twice, and then the
  loop of the source never ends (\<open>Diverges\<close>).
\<close>

section \<open>Finding a record\<close>

fun db_find_loop :: "nat \<Rightarrow> dbst \<Rightarrow> string \<Rightarrow> int \<Rightarrow> (int \<times> dbst) res" where
  "db_find_loop 0 s key offset = Inl Diverges"
| "db_find_loop (Suc fuel) s key offset =
     (if offset = 0 then Inr (0, s)
      else bnd (db_readidx s offset) (\<lambda>(nextoffset, s).
        if cstr_at (idxbuf s) 0 = key then Inr (offset, s)
        else db_find_loop fuel (s\<lparr>ptroff := offset\<rparr>) key nextoffset))"

definition chain_fuel :: "dbst \<Rightarrow> nat" where
  "chain_fuel s = Suc (length (cbytes (idxf s)))"

definition db_find_and_lock :: "dbst \<Rightarrow> string \<Rightarrow> bool \<Rightarrow> (int \<times> dbst) res" where
  "db_find_and_lock s key writelock =
     (let s = s\<lparr>chainoff := db_chainoff s key\<rparr>; s = s\<lparr>ptroff := chainoff s\<rparr> in
      bnd (if writelock
           then idx_lock s (\<lambda>f. writew_lock f (chainoff s) SEEK_SET 1) ''_db_find_and_lock: writew_lock error''
           else idx_lock s (\<lambda>f. readw_lock f (chainoff s) SEEK_SET 1) ''_db_find_and_lock: readw_lock error'')
        (\<lambda>s.
      bnd (db_readptr s (ptroff s)) (\<lambda>(offset, s).
      bnd (db_find_loop (chain_fuel s) s key offset) (\<lambda>(offset, s).
      Inr (if offset = 0 then -1 else 0, s)))))"

text \<open>\<^verbatim>\<open>if (un_lock(db->idxfd, db->chainoff, SEEK_SET, 1) < 0) err_dump(msg)\<close>\<close>

definition chain_unlock :: "dbst \<Rightarrow> string \<Rightarrow> dbst res" where
  "chain_unlock s msg = idx_lock s (\<lambda>f. un_lock f (chainoff s) SEEK_SET 1) msg"

section \<open>db_fetch\<close>

definition db_fetch :: "dbst \<Rightarrow> string \<Rightarrow> (string option \<times> dbst) res" where
  "db_fetch s key =
     bnd (db_find_and_lock s key False) (\<lambda>(rc, s).
     bnd (if rc < 0 then Inr (None, s\<lparr>cnt_fetcherr := cnt_fetcherr s + 1\<rparr>)
          else bnd (db_readdat s) (\<lambda>(ptr, s). Inr (Some ptr, s\<lparr>cnt_fetchok := cnt_fetchok s + 1\<rparr>)))
       (\<lambda>(ptr, s).
     bnd (chain_unlock s ''db_fetch: un_lock error'') (\<lambda>s. Inr (ptr, s))))"

section \<open>db_delete\<close>

text \<open>
  \<^verbatim>\<open>_db_dodelete\<close> passes \<^verbatim>\<open>db->idxbuf\<close> to \<^verbatim>\<open>_db_writeidx\<close> as the key, which prints it into
  \<^verbatim>\<open>db->idxbuf\<close>: the C standard leaves that undefined, the model has the effect of a left to
  right copy, which is to leave the key where it is.
\<close>

definition db_dodelete :: "dbst \<Rightarrow> dbst res" where
  "db_dodelete s =
     (let s = s\<lparr>datbuf := buf_put (datbuf s) (replicate (datlen s - 1) SPACE @ [NUL])\<rparr>;
          s = s\<lparr>idxbuf := buf_put (idxbuf s) (replicate (length (cstr_at (idxbuf s) 0)) SPACE)\<rparr> in
      bnd (idx_lock s (\<lambda>f. writew_lock f FREE_OFF SEEK_SET 1) ''_db_dodelete: writew_lock error'') (\<lambda>s.
      bnd (db_writedat s (cstr_at (datbuf s) 0) (datoff s) SEEK_SET) (\<lambda>s.
      bnd (db_readptr s FREE_OFF) (\<lambda>(freeptr, s).
      let saveptr = ptrval s in
      bnd (db_writeidx s (cstr_at (idxbuf s) 0) (idxoff s) SEEK_SET freeptr) (\<lambda>s.
      bnd (db_writeptr s FREE_OFF (idxoff s)) (\<lambda>s.
      bnd (db_writeptr s (ptroff s) saveptr) (\<lambda>s.
      idx_lock s (\<lambda>f. un_lock f FREE_OFF SEEK_SET 1) ''_db_dodelete: un_lock error'')))))))"

definition db_delete :: "dbst \<Rightarrow> string \<Rightarrow> (int \<times> dbst) res" where
  "db_delete s key =
     bnd (db_find_and_lock s key True) (\<lambda>(rc, s).
     bnd (if rc = 0
          then bnd (db_dodelete s) (\<lambda>s. Inr (0, s\<lparr>cnt_delok := cnt_delok s + 1\<rparr>))
          else Inr (-1, s\<lparr>cnt_delerr := cnt_delerr s + 1\<rparr>)) (\<lambda>(rc, s).
     bnd (chain_unlock s ''db_delete: un_lock error'') (\<lambda>s. Inr (rc, s))))"

section \<open>db_store\<close>

fun db_findfree_loop :: "nat \<Rightarrow> dbst \<Rightarrow> nat \<Rightarrow> nat \<Rightarrow> int \<Rightarrow> int \<Rightarrow> (int \<times> int \<times> dbst) res" where
  "db_findfree_loop 0 s keylen dlen saveoffset offset = Inl Diverges"
| "db_findfree_loop (Suc fuel) s keylen dlen saveoffset offset =
     (if offset = 0 then Inr (saveoffset, 0, s)
      else bnd (db_readidx s offset) (\<lambda>(nextoffset, s).
        if length (cstr_at (idxbuf s) 0) = keylen \<and> datlen s = dlen then Inr (saveoffset, offset, s)
        else db_findfree_loop fuel s keylen dlen offset nextoffset))"

definition db_findfree :: "dbst \<Rightarrow> nat \<Rightarrow> nat \<Rightarrow> (int \<times> dbst) res" where
  "db_findfree s keylen dlen =
     bnd (idx_lock s (\<lambda>f. writew_lock f FREE_OFF SEEK_SET 1) ''_db_findfree: writew_lock error'') (\<lambda>s.
     bnd (db_readptr s FREE_OFF) (\<lambda>(offset, s).
     bnd (db_findfree_loop (chain_fuel s) s keylen dlen FREE_OFF offset) (\<lambda>(saveoffset, offset, s).
     bnd (if offset = 0 then Inr (-1, s)
          else bnd (db_writeptr s saveoffset (ptrval s)) (\<lambda>s. Inr (0, s))) (\<lambda>(rc, s).
     bnd (idx_lock s (\<lambda>f. un_lock f FREE_OFF SEEK_SET 1) ''_db_findfree: un_lock error'') (\<lambda>s.
     Inr (rc, s))))))"

text \<open>The two ways of adding a record: at the ends of the files, and over an empty record.\<close>

definition db_append :: "dbst \<Rightarrow> string \<Rightarrow> string \<Rightarrow> int \<Rightarrow> dbst res" where
  "db_append s key data ptr =
     bnd (db_writedat s data 0 SEEK_END) (\<lambda>s.
     bnd (db_writeidx s key 0 SEEK_END ptr) (\<lambda>s.
     db_writeptr s (chainoff s) (idxoff s)))"

definition db_reuse :: "dbst \<Rightarrow> string \<Rightarrow> string \<Rightarrow> int \<Rightarrow> dbst res" where
  "db_reuse s key data ptr =
     bnd (db_writedat s data (datoff s) SEEK_SET) (\<lambda>s.
     bnd (db_writeidx s key (idxoff s) SEEK_SET ptr) (\<lambda>s.
     db_writeptr s (chainoff s) (idxoff s)))"

definition db_store_new :: "dbst \<Rightarrow> string \<Rightarrow> string \<Rightarrow> int \<Rightarrow> (int \<times> dbst) res" where
  "db_store_new s key data flag =
     (if flag = DB_REPLACE
      then Inr (-1, s\<lparr>cnt_storerr := cnt_storerr s + 1, c_errno := ENOENT\<rparr>)
      else bnd (db_readptr s (chainoff s)) (\<lambda>(ptr, s).
      bnd (db_findfree s (length key) (length data + 1)) (\<lambda>(rc, s).
      if rc < 0
      then bnd (db_append s key data ptr) (\<lambda>s. Inr (0, s\<lparr>cnt_stor1 := cnt_stor1 s + 1\<rparr>))
      else bnd (db_reuse s key data ptr) (\<lambda>s. Inr (0, s\<lparr>cnt_stor2 := cnt_stor2 s + 1\<rparr>)))))"

definition db_store_found :: "dbst \<Rightarrow> string \<Rightarrow> string \<Rightarrow> int \<Rightarrow> (int \<times> dbst) res" where
  "db_store_found s key data flag =
     (if flag = DB_INSERT then Inr (1, s\<lparr>cnt_storerr := cnt_storerr s + 1\<rparr>)
      else if length data + 1 \<noteq> datlen s
      then bnd (db_dodelete s) (\<lambda>s.
           bnd (db_readptr s (chainoff s)) (\<lambda>(ptr, s).
           bnd (db_append s key data ptr) (\<lambda>s. Inr (0, s\<lparr>cnt_stor3 := cnt_stor3 s + 1\<rparr>))))
      else bnd (db_writedat s data (datoff s) SEEK_SET) (\<lambda>s.
           Inr (0, s\<lparr>cnt_stor4 := cnt_stor4 s + 1\<rparr>)))"

definition db_store :: "dbst \<Rightarrow> string \<Rightarrow> string \<Rightarrow> int \<Rightarrow> (int \<times> dbst) res" where
  "db_store s key data flag =
     (if flag \<noteq> DB_INSERT \<and> flag \<noteq> DB_REPLACE \<and> flag \<noteq> DB_STORE
      then Inr (-1, s\<lparr>c_errno := EINVAL\<rparr>)
      else if length data + 1 < DATLEN_MIN \<or> length data + 1 > DATLEN_MAX
      then Inl (Err_dump ''db_store: invalid data length'')
      else bnd (db_find_and_lock s key True) (\<lambda>(rc, s).
      bnd (if rc < 0 then db_store_new s key data flag else db_store_found s key data flag) (\<lambda>(rc, s).
      bnd (chain_unlock s ''db_store: un_lock error'') (\<lambda>s. Inr (rc, s)))))"

section \<open>Sequential access\<close>

definition db_rewind :: "dbst \<Rightarrow> dbst res" where
  "db_rewind s =
     (let (r, f) = k_lseek (idxf s) (rec_start s) SEEK_SET; s = s\<lparr>idxoff := r, idxf := f\<rparr> in
      if r = -1 then Inl (Err_dump ''db_rewind: lseek error'') else Inr s)"

text \<open>
  The \<^verbatim>\<open>do ... while\<close> of \<^verbatim>\<open>db_nextrec\<close> that skips empty records; \<open>False\<close> is the end of the
  index file. Every round reads at least one byte, so the fuel is never used up.
\<close>

fun db_nextrec_loop :: "nat \<Rightarrow> dbst \<Rightarrow> (bool \<times> dbst) res" where
  "db_nextrec_loop 0 s = Inl Diverges"
| "db_nextrec_loop (Suc fuel) s =
     bnd (db_readidx s 0) (\<lambda>(r, s).
       if r < 0 then Inr (False, s)
       else if list_all (\<lambda>c. c = SPACE) (cstr_at (idxbuf s) 0) then db_nextrec_loop fuel s
       else Inr (True, s))"

definition db_nextrec :: "dbst \<Rightarrow> ((string \<times> string) option \<times> dbst) res" where
  "db_nextrec s =
     bnd (idx_lock s (\<lambda>f. readw_lock f FREE_OFF SEEK_SET 1) ''db_nextrec: readw_lock error'') (\<lambda>s.
     bnd (db_nextrec_loop (chain_fuel s) s) (\<lambda>(found, s).
     bnd (if \<not> found then Inr (None, s)
          else let key = cstr_at (idxbuf s) 0 in
               bnd (db_readdat s) (\<lambda>(ptr, s).
               Inr (Some (key, ptr), s\<lparr>cnt_nextrec := cnt_nextrec s + 1\<rparr>))) (\<lambda>(res, s).
     bnd (idx_lock s (\<lambda>f. un_lock f FREE_OFF SEEK_SET 1) ''db_nextrec: un_lock error'') (\<lambda>s.
     Inr (res, s)))))"

end
