(* ===== verification/DbOpen.thy ===== *)
theory DbOpen
  imports DbOps
begin

text \<open>
  \<^verbatim>\<open>db_open\<close>, \<^verbatim>\<open>_db_alloc\<close>, \<^verbatim>\<open>_db_free\<close> and \<^verbatim>\<open>db_close\<close> of \<^verbatim>\<open>db/db.c\<close> over a file system:
  the bytes of each file, the descriptors in use and the regions that other processes have
  locked. While a database is open its two files live in the handle's \<open>idxf\<close> and \<open>datf\<close>;
  closing it puts their bytes back. Permission bits and running out of memory are left out.
\<close>

section \<open>The file system\<close>

record fsys =
  fs_files :: "string \<Rightarrow> string option"
  fs_fds :: "int list"
  fs_locks :: "string \<Rightarrow> lreg list"

definition O_CREAT :: "32 word" where "O_CREAT = 0x40"
definition O_EXCL :: "32 word" where "O_EXCL = 0x80"
definition O_TRUNC :: "32 word" where "O_TRUNC = 0x200"
definition O_RDONLY :: "32 word" where "O_RDONLY = 0"
definition O_WRONLY :: "32 word" where "O_WRONLY = 1"
definition O_RDWR :: "32 word" where "O_RDWR = 2"
definition O_ACCMODE :: "32 word" where "O_ACCMODE = 3"

text \<open>The lowest descriptor that is not in use.\<close>

fun lowest_free :: "nat \<Rightarrow> int \<Rightarrow> int list \<Rightarrow> int" where
  "lowest_free 0 fd used = fd"
| "lowest_free (Suc n) fd used = (if fd \<in> set used then lowest_free n (fd + 1) used else fd)"

text \<open>\<^verbatim>\<open>open\<close>: a descriptor and the open file, or \<open>-1\<close>.\<close>

definition k_open :: "fsys \<Rightarrow> string \<Rightarrow> 32 word \<Rightarrow> int \<times> cfile \<times> fsys" where
  "k_open sys path oflag =
     (let fd = lowest_free (length (fs_fds sys)) 0 (fs_fds sys);
          opened = (\<lambda>bs. (fd, \<lparr>cbytes = bs, cpos = 0, clocks = (\<lambda>_. F_UNLCK), cothers = fs_locks sys path\<rparr>,
                     sys\<lparr>fs_files := (fs_files sys)(path \<mapsto> bs), fs_fds := fd # fs_fds sys\<rparr>));
          failed = (-1, \<lparr>cbytes = [], cpos = 0, clocks = (\<lambda>_. F_UNLCK), cothers = []\<rparr>, sys)
      in case fs_files sys path of
           None \<Rightarrow> if oflag AND O_CREAT \<noteq> 0 then opened [] else failed
         | Some bs \<Rightarrow>
             if oflag AND O_CREAT \<noteq> 0 \<and> oflag AND O_EXCL \<noteq> 0 then failed
             else if oflag AND O_TRUNC \<noteq> 0 then opened [] else opened bs)"

definition k_close :: "fsys \<Rightarrow> int \<Rightarrow> fsys" where
  "k_close sys fd = sys\<lparr>fs_fds := removeAll fd (fs_fds sys)\<rparr>"

section \<open>Allocating and freeing handles\<close>

definition no_file :: cfile where
  "no_file = \<lparr>cbytes = [], cpos = 0, clocks = (\<lambda>_. F_UNLCK), cothers = []\<rparr>"

definition db_alloc :: "nat \<Rightarrow> dbst" where
  "db_alloc namelen =
     \<lparr>idxfd = -1, datfd = -1,
      idxbuf = replicate (IDXLEN_MAX + 2) NUL, datbuf = replicate (DATLEN_MAX + 2) NUL,
      dbname = replicate (namelen + 5) NUL,
      idxoff = 0, idxlen = 0, datoff = 0, datlen = 0, ptrval = 0, ptroff = 0, chainoff = 0,
      hashoff = 0, nhash = 0,
      cnt_delok = 0, cnt_delerr = 0, cnt_fetchok = 0, cnt_fetcherr = 0, cnt_nextrec = 0,
      cnt_stor1 = 0, cnt_stor2 = 0, cnt_stor3 = 0, cnt_stor4 = 0, cnt_storerr = 0,
      idxf = no_file, datf = no_file, c_errno = 0\<rparr>"

definition db_free :: "dbst \<Rightarrow> fsys \<Rightarrow> fsys" where
  "db_free s sys =
     (let sys = (if idxfd s \<ge> 0 then k_close sys (idxfd s) else sys) in
      if datfd s \<ge> 0 then k_close sys (datfd s) else sys)"

text \<open>
  Closing a handle: the bytes of its files are what the file system has for their paths.
\<close>

definition db_close :: "string \<Rightarrow> dbst \<Rightarrow> fsys \<Rightarrow> fsys" where
  "db_close path s sys =
     (let sys = sys\<lparr>fs_files := (fs_files sys)(path @ ''.idx'' \<mapsto> cbytes (idxf s),
                                               path @ ''.dat'' \<mapsto> cbytes (datf s))\<rparr>
      in db_free s sys)"

section \<open>db_open\<close>

text \<open>
  \<^verbatim>\<open>fcntl\<close> gives a write lock only to a descriptor that was opened for writing (\<^verbatim>\<open>EBADF\<close> otherwise).
  The operations of the other theories are those on a handle whose descriptors can be read and
  written, \<open>O_RDWR\<close>; the locks are the first of them that fail on another one.
\<close>

definition writew_lock_fd :: "32 word \<Rightarrow> cfile \<Rightarrow> int \<Rightarrow> whence \<Rightarrow> nat \<Rightarrow> (int \<times> cfile) res" where
  "writew_lock_fd oflag f off w len =
     (if oflag AND O_ACCMODE = O_WRONLY \<or> oflag AND O_ACCMODE = O_RDWR then writew_lock f off w len else Inr (-1, f))"

text \<open>The initial index file: one free list pointer and \<open>NHASH_DEF\<close> chain pointers, all 0.\<close>

definition db_init_index :: "32 word \<Rightarrow> dbst \<Rightarrow> dbst res" where
  "db_init_index oflag s =
     bnd (idx_lock s (\<lambda>f. writew_lock_fd oflag f 0 SEEK_SET 0) ''db_open: writew_lock error'') (\<lambda>s.
     bnd (if length (cbytes (idxf s)) = 0
          then let asciiptr = padl PTR_SZ (show_nat 0);
                   hash = concat (replicate (NHASH_DEF + 1) asciiptr) @ [NEWLINE];
                   (n, f) = k_write (idxf s) hash in
               if n \<noteq> length hash then Inl (Err_dump ''db_open: index file init write error'')
               else Inr (s\<lparr>idxf := f\<rparr>)
          else Inr s) (\<lambda>s.
     idx_lock s (\<lambda>f. un_lock f 0 SEEK_SET 0) ''db_open: un_lock error''))"

definition db_open :: "fsys \<Rightarrow> string \<Rightarrow> 32 word \<Rightarrow> (dbst option \<times> fsys) res" where
  "db_open sys pathname oflag =
     (let s = db_alloc (length pathname);
          s = s\<lparr>nhash := word_of_nat NHASH_DEF, hashoff := HASH_OFF, dbname := pathname @ ''.idx''\<rparr>;
          (fd, f, sys) = k_open sys (dbname s) oflag;
          s = s\<lparr>idxfd := fd, idxf := f, dbname := take (length pathname) (dbname s) @ ''.dat''\<rparr>;
          (fd, f, sys) = k_open sys (dbname s) oflag;
          s = s\<lparr>datfd := fd, datf := f\<rparr>
      in if idxfd s < 0 \<or> datfd s < 0 then Inr (None, db_free s sys)
         else bnd (if oflag AND (O_CREAT OR O_TRUNC) = O_CREAT OR O_TRUNC
                   then db_init_index oflag s else Inr s) (\<lambda>s.
              bnd (db_rewind s) (\<lambda>s. Inr (Some s, sys))))"

end
