(* ===== verification/DbLayout.thy ===== *)
theory DbLayout
  imports DbOpen
begin

text \<open>
  The format of the two files, as functions from structured contents to bytes, and the
  low-level functions of \<^verbatim>\<open>db.c\<close> computed on such files: reading or writing a chain pointer is
  reading or writing one slot of the structure, reading an index record loads it into the
  handle, writing one replaces or appends it. These are exact equations, so later proofs
  execute the C code symbolically on structured contents and never look at bytes again.
\<close>

section \<open>Structured contents\<close>

record irec =
  ir_ptr :: nat
  ir_key :: string
  ir_off :: nat
  ir_len :: nat

lemmas db_consts = PTR_SZ_def PTR_MAX_def IDXLEN_SZ_def IDXLEN_MIN_def IDXLEN_MAX_def
  DATLEN_MIN_def DATLEN_MAX_def NHASH_DEF_def FREE_OFF_def HASH_OFF_def SEP_def

definition ptr_field :: "nat \<Rightarrow> string" where
  "ptr_field p = padl PTR_SZ (show_nat p)"

definition irec_body :: "irec \<Rightarrow> string" where
  "irec_body r = ir_key r @ [SEP] @ show_nat (ir_off r) @ [SEP] @ show_nat (ir_len r) @ [NEWLINE]"

definition irec_bytes :: "irec \<Rightarrow> string" where
  "irec_bytes r = ptr_field (ir_ptr r) @ padl IDXLEN_SZ (show_nat (length (irec_body r))) @ irec_body r"

definition idx_layout :: "nat list \<Rightarrow> irec list \<Rightarrow> string" where
  "idx_layout H R = concat (map ptr_field H) @ [NEWLINE] @ concat (map irec_bytes R)"

definition rec_off :: "irec list \<Rightarrow> nat \<Rightarrow> nat" where
  "rec_off R j = 967 + length (concat (map irec_bytes (take j R)))"

definition wf_irec :: "irec \<Rightarrow> bool" where
  "wf_irec r \<longleftrightarrow> SEP \<notin> set (ir_key r) \<and> NUL \<notin> set (ir_key r) \<and>
     IDXLEN_MIN \<le> length (irec_body r) \<and> length (irec_body r) \<le> IDXLEN_MAX \<and>
     0 < ir_len r \<and> ir_len r \<le> DATLEN_MAX \<and> int (ir_ptr r) \<le> PTR_MAX \<and> int (ir_off r) \<le> LONG_MAX"

definition wf_heads :: "nat list \<Rightarrow> bool" where
  "wf_heads H \<longleftrightarrow> length H = NHASH_DEF + 1 \<and> (\<forall>p \<in> set H. int p \<le> PTR_MAX)"

lemma length_ptr_field [simp]: "int p \<le> PTR_MAX \<Longrightarrow> length (ptr_field p) = 7"
  unfolding ptr_field_def PTR_SZ_def by (rule length_padl_show_nat) (auto simp: PTR_MAX_def)

lemma c_atol_ptr_field [simp]: "int p \<le> PTR_MAX \<Longrightarrow> c_atol (ptr_field p) = int p"
  unfolding ptr_field_def by (rule c_atol_padl) (simp add: PTR_MAX_def LONG_MAX_def)

lemma length_len_field:
  "n \<le> IDXLEN_MAX \<Longrightarrow> length (padl IDXLEN_SZ (show_nat n)) = 4"
  unfolding IDXLEN_SZ_def by (rule length_padl_show_nat) (auto simp: IDXLEN_MAX_def)

lemma length_irec_bytes:
  "wf_irec r \<Longrightarrow> length (irec_bytes r) = 11 + length (irec_body r)"
  by (simp add: irec_bytes_def wf_irec_def length_len_field)

lemma irec_body_not_Nil [simp]: "irec_body r \<noteq> []"
  by (simp add: irec_body_def)

lemma irec_bytes_not_Nil [simp]: "irec_bytes r \<noteq> []"
  by (simp add: irec_bytes_def)

lemma length_heads:
  "wf_heads H \<Longrightarrow> length (concat (map ptr_field H)) = 966"
proof -
  assume H: "wf_heads H"
  have "length (concat (map ptr_field xs)) = 7 * length xs" if "\<forall>p \<in> set xs. int p \<le> PTR_MAX" for xs
    using that by (induction xs) auto
  with H show ?thesis by (simp add: wf_heads_def NHASH_DEF_def)
qed

section \<open>Positions\<close>

lemma rec_off_pos [simp]: "0 < rec_off R j" "rec_off R j \<noteq> 0"
  by (simp_all add: rec_off_def)

lemma rec_off_ge: "967 \<le> rec_off R j"
  by (simp add: rec_off_def)

lemma rec_off_less: "i < j \<Longrightarrow> j \<le> length R \<Longrightarrow> rec_off R i < rec_off R j"
  unfolding rec_off_def by (simp add: length_concat_take_less)

lemma rec_off_inj: "i \<le> length R \<Longrightarrow> j \<le> length R \<Longrightarrow> rec_off R i = rec_off R j \<longleftrightarrow> i = j"
  using rec_off_less [of i j R] rec_off_less [of j i R] by (cases i j rule: linorder_cases) auto

lemma rec_off_length: "wf_heads H \<Longrightarrow> rec_off R (length R) = length (idx_layout H R)"
  by (simp add: rec_off_def idx_layout_def length_heads)

lemma drop_rec_off:
  assumes "wf_heads H" "j < length R"
  shows "drop (rec_off R j) (idx_layout H R) =
    irec_bytes (R ! j) @ concat (map irec_bytes (drop (Suc j) R))"
proof -
  have "idx_layout H R = (concat (map ptr_field H) @ [NEWLINE] @ concat (map irec_bytes (take j R))) @
      irec_bytes (R ! j) @ concat (map irec_bytes (drop (Suc j) R))"
    using assms(2) by (simp add: idx_layout_def concat_map_update_split)
  moreover have "length (concat (map ptr_field H) @ [NEWLINE] @ concat (map irec_bytes (take j R))) = rec_off R j"
    using length_heads [OF assms(1)] by (simp add: rec_off_def)
  ultimately show ?thesis by (metis append_eq_conv_conj)
qed

text \<open>Changing a record for one of the same length moves no other record.\<close>

lemma rec_off_update:
  assumes "length (irec_bytes r) = length (irec_bytes (R ! j))" "j < length R" "i \<le> length R"
  shows "rec_off (R[j := r]) i = rec_off R i"
proof (cases "j < i")
  case True
  have "length (concat (map irec_bytes ((take i R)[j := r]))) = length (concat (map irec_bytes (take i R)))"
    using concat_map_list_update [of j "take i R" irec_bytes r]
      concat_map_update_split [of j "take i R" irec_bytes] assms True
    by simp
  then show ?thesis by (simp add: rec_off_def take_update_swap)
next
  case False
  then show ?thesis by (simp add: rec_off_def)
qed

lemma rec_off_append: "i \<le> length R \<Longrightarrow> rec_off (R @ xs) i = rec_off R i"
  by (simp add: rec_off_def)

section \<open>Chain pointer slots\<close>

text \<open>
  A chain pointer lives in slot \<open>Head 0\<close> (the free list), \<open>Head (Suc i)\<close> (hash chain \<open>i\<close>) or
  \<open>Rec j\<close> (the front of record \<open>j\<close>).
\<close>

datatype slot = Head nat | Rec nat

primrec slot_off :: "irec list \<Rightarrow> slot \<Rightarrow> nat" where
  "slot_off R (Head k) = 7 * k"
| "slot_off R (Rec j) = rec_off R j"

primrec slot_ok :: "nat list \<Rightarrow> irec list \<Rightarrow> slot \<Rightarrow> bool" where
  "slot_ok H R (Head k) = (k < length H)"
| "slot_ok H R (Rec j) = (j < length R)"

primrec slot_get :: "nat list \<Rightarrow> irec list \<Rightarrow> slot \<Rightarrow> nat" where
  "slot_get H R (Head k) = H ! k"
| "slot_get H R (Rec j) = ir_ptr (R ! j)"

primrec put_head :: "slot \<Rightarrow> nat \<Rightarrow> nat list \<Rightarrow> nat list" where
  "put_head (Head k) p H = H[k := p]"
| "put_head (Rec j) p H = H"

primrec put_rec :: "slot \<Rightarrow> nat \<Rightarrow> irec list \<Rightarrow> irec list" where
  "put_rec (Head k) p R = R"
| "put_rec (Rec j) p R = R[j := (R ! j)\<lparr>ir_ptr := p\<rparr>]"

lemma irec_body_ptr [simp]: "irec_body (r\<lparr>ir_ptr := p\<rparr>) = irec_body r"
  by (simp add: irec_body_def)

lemma irec_bytes_ptr:
  "irec_bytes (r\<lparr>ir_ptr := p\<rparr>) = ptr_field p @ padl IDXLEN_SZ (show_nat (length (irec_body r))) @ irec_body r"
  by (simp add: irec_bytes_def)

lemma slot_split:
  assumes "wf_heads H" "slot_ok H R sl"
  obtains a b where
    "\<And>p. idx_layout (put_head sl p H) (put_rec sl p R) = a @ ptr_field p @ b"
    "idx_layout H R = a @ ptr_field (slot_get H R sl) @ b" "length a = slot_off R sl"
proof (cases sl)
  case (Head k)
  let ?a = "concat (map ptr_field (take k H))"
  have len: "length ?a = 7 * k"
  proof -
    have "length (concat (map ptr_field xs)) = 7 * length xs" if "\<forall>p \<in> set xs. int p \<le> PTR_MAX" for xs
      using that by (induction xs) auto
    moreover have "\<forall>p \<in> set (take k H). int p \<le> PTR_MAX"
      using assms(1) by (auto simp: wf_heads_def dest: in_set_takeD)
    ultimately show ?thesis using assms Head by simp
  qed
  show ?thesis
  proof (rule that [of ?a "concat (map ptr_field (drop (Suc k) H)) @ [NEWLINE] @ concat (map irec_bytes R)"])
    fix p
    show "idx_layout (put_head sl p H) (put_rec sl p R) =
        ?a @ ptr_field p @ concat (map ptr_field (drop (Suc k) H)) @ [NEWLINE] @ concat (map irec_bytes R)"
      using Head assms(2) by (simp add: idx_layout_def concat_map_list_update)
  next
    show "idx_layout H R = ?a @ ptr_field (slot_get H R sl) @
        concat (map ptr_field (drop (Suc k) H)) @ [NEWLINE] @ concat (map irec_bytes R)"
      using Head assms(2) by (simp add: idx_layout_def concat_map_update_split)
  next
    show "length ?a = slot_off R sl" using Head len by simp
  qed
next
  case (Rec j)
  let ?a = "concat (map ptr_field H) @ [NEWLINE] @ concat (map irec_bytes (take j R))"
  let ?b = "padl IDXLEN_SZ (show_nat (length (irec_body (R ! j)))) @ irec_body (R ! j) @
    concat (map irec_bytes (drop (Suc j) R))"
  show ?thesis
  proof (rule that [of ?a ?b])
    fix p
    show "idx_layout (put_head sl p H) (put_rec sl p R) = ?a @ ptr_field p @ ?b"
      using Rec assms(2) by (simp add: idx_layout_def concat_map_list_update irec_bytes_ptr)
  next
    show "idx_layout H R = ?a @ ptr_field (slot_get H R sl) @ ?b"
      using Rec assms(2) by (simp add: idx_layout_def concat_map_update_split irec_bytes_def)
  next
    show "length ?a = slot_off R sl"
      using Rec length_heads [OF assms(1)] by (simp add: rec_off_def)
  qed
qed

lemma slot_get_le:
  assumes "wf_heads H" "slot_ok H R sl" "\<forall>r \<in> set R. wf_irec r"
  shows "int (slot_get H R sl) \<le> PTR_MAX"
  using assms by (cases sl) (auto simp: wf_heads_def wf_irec_def)

lemma length_irec_bytes_ptr:
  "wf_irec r \<Longrightarrow> int p \<le> PTR_MAX \<Longrightarrow> length (irec_bytes (r\<lparr>ir_ptr := p\<rparr>)) = length (irec_bytes r)"
  by (simp add: irec_bytes_ptr irec_bytes_def wf_irec_def)

end
