(* ===== verification/DbExec.thy ===== *)
theory DbExec
  imports DbLayout
begin

text \<open>
  Symbolic execution of the low-level functions of \<^verbatim>\<open>db.c\<close> on files in the layout of theory
  \<open>DbLayout\<close>: each returns, and the equation gives the state it returns in.
\<close>

named_theorems db_exec \<open>exact results of the low-level database functions\<close>

section \<open>Chain pointers\<close>

lemma db_readptr_slot [db_exec]:
  assumes "cbytes (idxf s) = idx_layout H R" "wf_heads H" "\<forall>r \<in> set R. wf_irec r" "slot_ok H R sl"
    "off = int (slot_off R sl)"
  shows "db_readptr s off =
    Inr (int (slot_get H R sl), s\<lparr>idxf := (idxf s)\<lparr>cpos := slot_off R sl + 7\<rparr>\<rparr>)"
proof -
  obtain a b where eq: "idx_layout H R = a @ ptr_field (slot_get H R sl) @ b"
    and a: "length a = slot_off R sl"
    using slot_split [OF assms(2,4)] by metis
  have le: "int (slot_get H R sl) \<le> PTR_MAX" using assms by (intro slot_get_le)
  have "take 7 (drop (slot_off R sl) (idx_layout H R)) = ptr_field (slot_get H R sl)"
    using eq a le by simp
  moreover have "slot_off R sl + 7 \<le> length (idx_layout H R)" using eq a le by simp
  ultimately show ?thesis
    using assms(1,5) le by (simp add: db_readptr_def k_read_def PTR_SZ_def Let_def)
qed

lemma db_writeptr_slot [db_exec]:
  assumes "cbytes (idxf s) = idx_layout H R" "wf_heads H" "\<forall>r \<in> set R. wf_irec r" "slot_ok H R sl"
    "off = int (slot_off R sl)" "q = int p" "int p \<le> PTR_MAX"
  shows "db_writeptr s off q =
    Inr (s\<lparr>idxf := (idxf s)\<lparr>cbytes := idx_layout (put_head sl p H) (put_rec sl p R),
                              cpos := slot_off R sl + 7\<rparr>\<rparr>)"
proof -
  obtain a b where put: "idx_layout (put_head sl p H) (put_rec sl p R) = a @ ptr_field p @ b"
    and eq: "idx_layout H R = a @ ptr_field (slot_get H R sl) @ b"
    and a: "length a = slot_off R sl"
    using slot_split [OF assms(2,4)] by metis
  have le: "int (slot_get H R sl) \<le> PTR_MAX" using assms by (intro slot_get_le)
  have "put_bytes (idx_layout H R) (slot_off R sl) (ptr_field p) = a @ ptr_field p @ b"
    using eq a le assms(7) by (simp add: put_bytes_replace)
  moreover have "ptr_field p \<noteq> []" using assms(7) length_ptr_field [of p] by (metis list.size(3) zero_neq_numeral)
  ultimately show ?thesis
    using assms(1,5,6,7) put
    by (simp add: db_writeptr_def k_write_def Let_def ptr_field_def [symmetric])
      (simp add: PTR_SZ_def)
qed

section \<open>Locks\<close>

definition clocked :: "cfile \<Rightarrow> nat \<Rightarrow> nat \<Rightarrow> lk \<Rightarrow> cfile" where
  "clocked f st len ty = f\<lparr>clocks := (\<lambda>b. if in_region st len b then ty else clocks f b)\<rparr>"

lemma clocked_simps [simp]:
  "cbytes (clocked f st len ty) = cbytes f" "cpos (clocked f st len ty) = cpos f"
  "cothers (clocked f st len ty) = cothers f"
  "clocks (clocked f st len ty) b = (if in_region st len b then ty else clocks f b)"
  by (simp_all add: clocked_def)

lemma idx_lock_free [db_exec]:
  assumes "cothers (idxf s) = []" "0 \<le> off"
  shows "idx_lock s (\<lambda>f. writew_lock f off SEEK_SET len) msg = Inr (s\<lparr>idxf := clocked (idxf s) (nat off) len F_WRLCK\<rparr>)"
    and "idx_lock s (\<lambda>f. readw_lock f off SEEK_SET len) msg = Inr (s\<lparr>idxf := clocked (idxf s) (nat off) len F_RDLCK\<rparr>)"
    and "idx_lock s (\<lambda>f. un_lock f off SEEK_SET len) msg = Inr (s\<lparr>idxf := clocked (idxf s) (nat off) len F_UNLCK\<rparr>)"
  using assms
  by (simp_all add: idx_lock_def writew_lock_def readw_lock_def un_lock_def lock_reg_free clocked_def)

lemma dat_lock_free [db_exec]:
  assumes "cothers (datf s) = []" "0 \<le> off"
  shows "dat_lock s (\<lambda>f. writew_lock f off SEEK_SET len) msg = Inr (s\<lparr>datf := clocked (datf s) (nat off) len F_WRLCK\<rparr>)"
    and "dat_lock s (\<lambda>f. un_lock f off SEEK_SET len) msg = Inr (s\<lparr>datf := clocked (datf s) (nat off) len F_UNLCK\<rparr>)"
  using assms
  by (simp_all add: dat_lock_def writew_lock_def un_lock_def lock_reg_free clocked_def)

section \<open>Reading index records\<close>

text \<open>The buffer after \<^verbatim>\<open>_db_readidx\<close>: key, offset and length, each ended by a null byte.\<close>

definition loaded_buf :: "string \<Rightarrow> irec \<Rightarrow> string" where
  "loaded_buf buf r = ir_key r @ [NUL] @ show_nat (ir_off r) @ [NUL] @ show_nat (ir_len r) @ [NUL] @
     drop (length (irec_body r)) buf"

definition loaded :: "dbst \<Rightarrow> irec \<Rightarrow> nat \<Rightarrow> dbst" where
  "loaded s r p = s\<lparr>idxoff := int p, ptrval := int (ir_ptr r), idxlen := length (irec_body r),
     datoff := int (ir_off r), datlen := ir_len r, idxbuf := loaded_buf (idxbuf s) r,
     idxf := (idxf s)\<lparr>cpos := p + length (irec_bytes r)\<rparr>\<rparr>"

lemma size_t_id: "0 \<le> i \<Longrightarrow> i \<le> LONG_MAX \<Longrightarrow> size_t i = nat i"
  by (simp add: size_t_def LONG_MAX_def)

lemma db_parseidx_body:
  assumes wf: "wf_irec r" and buf: "idxbuf s = irec_body r @ t" and len: "idxlen s = length (irec_body r)"
  shows "db_parseidx s = Inr (ptrval s, s\<lparr>datoff := int (ir_off r), datlen := ir_len r,
      idxbuf := ir_key r @ [NUL] @ show_nat (ir_off r) @ [NUL] @ show_nat (ir_len r) @ [NUL] @ t\<rparr>)"
proof -
  let ?k = "ir_key r" and ?o = "show_nat (ir_off r)" and ?l = "show_nat (ir_len r)"
  let ?n = "length ?k + length ?o + length ?l + 2"
  have k: "CHR '':'' \<notin> set ?k" "NUL \<notin> set ?k" using wf by (auto simp: wf_irec_def SEP_def)
  have body: "irec_body r = ?k @ CHR '':'' # ?o @ CHR '':'' # ?l @ [NEWLINE]" by (simp add: irec_body_def SEP_def)
  have n: "idxlen s - 1 = ?n" using len body by simp
  have b0: "idxbuf s = (?k @ CHR '':'' # ?o @ CHR '':'' # ?l) @ NEWLINE # t" using buf body by simp
  have nl: "idxbuf s ! ?n = NEWLINE"
    unfolding b0 by (simp add: nth_append)
  have b1: "(idxbuf s)[?n := NUL] = ?k @ CHR '':'' # ?o @ CHR '':'' # ?l @ NUL # t"
    unfolding b0 by (simp add: list_update_append)
  have s1: "strchr_at (?k @ CHR '':'' # ?o @ CHR '':'' # ?l @ NUL # t) 0 (CHR '':'') = Some (length ?k)"
    using strchr_at_Some [of 0 "[]" "CHR '':''" ?k "?o @ CHR '':'' # ?l @ NUL # t"] k by simp
  have b2: "(?k @ CHR '':'' # ?o @ CHR '':'' # ?l @ NUL # t)[length ?k := NUL] =
      ?k @ NUL # ?o @ CHR '':'' # ?l @ NUL # t"
    by (simp add: list_update_append)
  have s2: "strchr_at (?k @ NUL # ?o @ CHR '':'' # ?l @ NUL # t) (length ?k + 1) (CHR '':'') =
      Some (length ?k + 1 + length ?o)"
    using strchr_at_Some [of "length ?k + 1" "?k @ [NUL]" "CHR '':''" ?o "?l @ NUL # t"] show_nat_no_sep
    by simp
  have b3: "(?k @ NUL # ?o @ CHR '':'' # ?l @ NUL # t)[length ?k + 1 + length ?o := NUL] =
      ?k @ NUL # ?o @ NUL # ?l @ NUL # t"
    by (simp add: list_update_append)
  have s3: "strchr_at (?k @ NUL # ?o @ NUL # ?l @ NUL # t) (length ?k + 1 + length ?o + 1) (CHR '':'') = None"
    using strchr_at_None [of "length ?k + 1 + length ?o + 1" "?k @ NUL # ?o @ [NUL]" "CHR '':''" ?l t] show_nat_no_sep
    by simp
  have c1: "cstr_at (?k @ NUL # ?o @ NUL # ?l @ NUL # t) (length ?k + 1) = ?o"
    using cstr_at_append [of "length ?k + 1" "?k @ [NUL]" ?o "?l @ NUL # t"] show_nat_no_sep by simp
  have c2: "cstr_at (?k @ NUL # ?o @ NUL # ?l @ NUL # t) (length ?k + 1 + length ?o + 1) = ?l"
    using cstr_at_append [of "length ?k + 1 + length ?o + 1" "?k @ NUL # ?o @ [NUL]" ?l t] show_nat_no_sep
    by simp
  have v: "c_atol ?o = int (ir_off r)" "c_atol ?l = int (ir_len r)" "size_t (int (ir_len r)) = ir_len r"
    "0 < ir_len r" "ir_len r \<le> DATLEN_MAX"
    using wf by (auto simp: wf_irec_def c_atol_show_nat LONG_MAX_def DATLEN_MAX_def size_t_id)
  show ?thesis
    unfolding db_parseidx_def n SEP_def
    using nl b1 s1 b2 s2 b3 s3 c1 c2 v
    by simp
qed

definition idx_sized :: "irec \<Rightarrow> bool" where
  "idx_sized r \<longleftrightarrow> int (ir_ptr r) \<le> PTR_MAX \<and> IDXLEN_MIN \<le> length (irec_body r) \<and> length (irec_body r) \<le> IDXLEN_MAX"

text \<open>The handle when the bytes of record \<open>r\<close> at \<open>p\<close> have been read and are about to be split.\<close>

definition read_raw :: "dbst \<Rightarrow> irec \<Rightarrow> nat \<Rightarrow> dbst" where
  "read_raw s r p = s\<lparr>idxoff := int p, ptrval := int (ir_ptr r), idxlen := length (irec_body r),
    idxf := (idxf s)\<lparr>cpos := p + 11 + length (irec_body r)\<rparr>,
    idxbuf := irec_body r @ drop (length (irec_body r)) (idxbuf s)\<rparr>"

lemma db_readidx_raw:
  assumes wf: "idx_sized r" and at: "drop p (cbytes (idxf s)) = irec_bytes r @ rest"
    and off: "off = int p \<and> p \<noteq> 0 \<or> off = 0 \<and> cpos (idxf s) = p"
  shows "db_readidx s off = db_parseidx (read_raw s r p)"
proof -
  let ?len = "length (irec_body r)"
  have wf': "int (ir_ptr r) \<le> PTR_MAX" "?len \<le> IDXLEN_MAX" "IDXLEN_MIN \<le> ?len"
    using wf by (auto simp: idx_sized_def)
  have seek: "k_lseek (idxf s) off (if off = 0 then SEEK_CUR else SEEK_SET) = (int p, (idxf s)\<lparr>cpos := p\<rparr>)"
    using off by auto
  let ?lf = "padl IDXLEN_SZ (show_nat ?len)"
  have l4: "length ?lf = 4" using wf'(2) by (rule length_len_field)
  have bytes: "drop p (cbytes (idxf s)) = (ptr_field (ir_ptr r) @ ?lf) @ irec_body r @ rest"
    using at by (simp add: irec_bytes_def)
  have l11: "length (ptr_field (ir_ptr r) @ ?lf) = 11" using l4 wf'(1) by simp
  define front where "front = ptr_field (ir_ptr r) @ ?lf"
  have "take 11 (drop p (cbytes (idxf s))) = front"
    unfolding bytes front_def using l11 by simp
  then have rd1: "k_read ((idxf s)\<lparr>cpos := p\<rparr>) (PTR_SZ + IDXLEN_SZ) =
      (front, (idxf s)\<lparr>cpos := p + 11\<rparr>)"
    using l11 by (simp add: k_read_def PTR_SZ_def IDXLEN_SZ_def front_def)
  have "drop (p + 11) (cbytes (idxf s)) = drop 11 (drop p (cbytes (idxf s)))" by (simp add: add.commute)
  also have "\<dots> = irec_body r @ rest" unfolding bytes using l11 by simp
  finally have rd2: "k_read ((idxf s)\<lparr>cpos := p + 11\<rparr>) ?len =
      (irec_body r, (idxf s)\<lparr>cpos := p + 11 + ?len\<rparr>)"
    by (simp add: k_read_def Let_def)
  have halves: "take PTR_SZ front = ptr_field (ir_ptr r)" "drop PTR_SZ front = ?lf"
    "length front = PTR_SZ + IDXLEN_SZ"
    using wf'(1) l4 by (simp_all add: front_def PTR_SZ_def IDXLEN_SZ_def)
  have len_val: "size_t (c_atoi ?lf) = ?len"
    using wf'(2) c_atoi_padl [of ?len IDXLEN_SZ] by (simp add: IDXLEN_MAX_def size_t_def)
  show ?thesis
    unfolding db_readidx_def seek
    using rd2 len_val wf'
    by (simp add: rd1 halves read_raw_def buf_put_def Let_def)
qed

lemma db_readidx_rec:
  assumes wf: "wf_irec r" and at: "drop p (cbytes (idxf s)) = irec_bytes r @ rest"
    and off: "off = int p \<and> p \<noteq> 0 \<or> off = 0 \<and> cpos (idxf s) = p"
  shows "db_readidx s off = Inr (int (ir_ptr r), loaded s r p)"
proof -
  have "idx_sized r" using wf by (simp add: wf_irec_def idx_sized_def)
  then have "db_readidx s off = db_parseidx (read_raw s r p)" by (rule db_readidx_raw [OF _ at off])
  also have "\<dots> = Inr (ptrval (read_raw s r p), (read_raw s r p)\<lparr>datoff := int (ir_off r), datlen := ir_len r,
      idxbuf := ir_key r @ [NUL] @ show_nat (ir_off r) @ [NUL] @ show_nat (ir_len r) @ [NUL] @
        drop (length (irec_body r)) (idxbuf s)\<rparr>)"
    by (rule db_parseidx_body [OF wf]) (simp_all add: read_raw_def)
  finally show ?thesis
    using length_irec_bytes [OF wf] by (simp add: read_raw_def loaded_def loaded_buf_def add.assoc)
qed

lemma db_readidx_layout [db_exec]:
  assumes "cbytes (idxf s) = idx_layout H R" "wf_heads H" "\<forall>r \<in> set R. wf_irec r" "j < length R"
    "off = int (rec_off R j) \<or> off = 0 \<and> cpos (idxf s) = rec_off R j"
  shows "db_readidx s off = Inr (int (ir_ptr (R ! j)), loaded s (R ! j) (rec_off R j))"
  using assms drop_rec_off [OF assms(2,4)] by (intro db_readidx_rec) auto

text \<open>At the end of the index file, \<^verbatim>\<open>_db_readidx(db, 0)\<close> reports the end.\<close>

lemma db_readidx_eof [db_exec]:
  assumes "cpos (idxf s) = length (cbytes (idxf s))"
  shows "db_readidx s 0 = Inr (-1, s\<lparr>idxoff := int (length (cbytes (idxf s)))\<rparr>)"
  using assms by (simp add: db_readidx_def k_read_def PTR_SZ_def)

lemma loaded_simps [simp]:
  "idxoff (loaded s r p) = int p" "ptrval (loaded s r p) = int (ir_ptr r)"
  "datoff (loaded s r p) = int (ir_off r)" "datlen (loaded s r p) = ir_len r"
  "cbytes (idxf (loaded s r p)) = cbytes (idxf s)" "clocks (idxf (loaded s r p)) = clocks (idxf s)"
  "cothers (idxf (loaded s r p)) = cothers (idxf s)" "datf (loaded s r p) = datf s"
  "cpos (idxf (loaded s r p)) = p + length (irec_bytes r)"
  "nhash (loaded s r p) = nhash s" "hashoff (loaded s r p) = hashoff s"
  "chainoff (loaded s r p) = chainoff s" "ptroff (loaded s r p) = ptroff s"
  "c_errno (loaded s r p) = c_errno s"
  by (simp_all add: loaded_def)

lemma loaded_key [simp]: "wf_irec r \<Longrightarrow> cstr_at (idxbuf (loaded s r p)) 0 = ir_key r"
  using cstr_at_append [of 0 "[]" "ir_key r"]
  by (simp add: loaded_def loaded_buf_def wf_irec_def)

section \<open>Writing index records\<close>

text \<open>The handle after \<^verbatim>\<open>_db_writeidx\<close> printed record \<open>r\<close> into its buffer and wrote it at \<open>p\<close>.\<close>

definition written :: "dbst \<Rightarrow> irec \<Rightarrow> nat \<Rightarrow> cfile \<Rightarrow> dbst" where
  "written s r p f = s\<lparr>ptrval := int (ir_ptr r), idxbuf := buf_put (idxbuf s) (irec_body r @ [NUL]),
     idxoff := int p, idxf := f\<rparr>"

lemma written_simps [simp]:
  "idxoff (written s r p f) = int p" "ptrval (written s r p f) = int (ir_ptr r)"
  "idxf (written s r p f) = f" "datf (written s r p f) = datf s"
  "nhash (written s r p f) = nhash s" "hashoff (written s r p f) = hashoff s"
  "chainoff (written s r p f) = chainoff s" "ptroff (written s r p f) = ptroff s"
  "datoff (written s r p f) = datoff s" "datlen (written s r p f) = datlen s"
  by (simp_all add: written_def)

lemma irec_head_print:
  assumes "wf_irec r"
  shows "padl PTR_SZ (show_int (int (ir_ptr r))) @ padl IDXLEN_SZ (show_int (int (length (irec_body r)))) @
    irec_body r = irec_bytes r"
  by (simp add: irec_bytes_def ptr_field_def)

lemma db_writeidx_set [db_exec]:
  assumes wf: "wf_irec r" and at: "cbytes (idxf s) = idx_layout H R" "wf_heads H" "j < length R"
    and len: "length (irec_bytes r) = length (irec_bytes (R ! j))"
    and args: "key = ir_key r" "off = int (rec_off R j)" "ptr = int (ir_ptr r)"
      "datoff s = int (ir_off r)" "datlen s = ir_len r"
  shows "db_writeidx s key off SEEK_SET ptr =
    Inr (written s r (rec_off R j) ((idxf s)\<lparr>cbytes := idx_layout H (R[j := r]),
      cpos := rec_off R j + length (irec_bytes r)\<rparr>))"
proof -
  let ?a = "concat (map ptr_field H) @ [NEWLINE] @ concat (map irec_bytes (take j R))"
  let ?c = "concat (map irec_bytes (drop (Suc j) R))"
  have la: "length ?a = rec_off R j" using length_heads [OF at(2)] by (simp add: rec_off_def)
  have old: "idx_layout H R = ?a @ irec_bytes (R ! j) @ ?c"
    using at(3) by (simp add: idx_layout_def concat_map_update_split)
  have new: "idx_layout H (R[j := r]) = ?a @ irec_bytes r @ ?c"
    using at(3) by (simp add: idx_layout_def concat_map_list_update)
  have "put_bytes (idx_layout H R) (rec_off R j) (irec_bytes r) = idx_layout H (R[j := r])"
    unfolding old new by (rule put_bytes_replace [OF la [symmetric] len])
  then have wr: "k_write ((idxf s)\<lparr>cpos := rec_off R j\<rparr>) (irec_bytes r) = (length (irec_bytes r),
      (idxf s)\<lparr>cbytes := idx_layout H (R[j := r]), cpos := rec_off R j + length (irec_bytes r)\<rparr>)"
    using at(1) by (simp add: k_write_def)
  have body: "idx_print (s\<lparr>ptrval := q\<rparr>) (ir_key r) = irec_body r" for q
    using args by (simp add: irec_body_def idx_print_def)
  have b: "int (ir_ptr r) \<le> PTR_MAX" "length (irec_body r) \<le> IDXLEN_MAX" "IDXLEN_MIN \<le> length (irec_body r)"
    using wf by (auto simp: wf_irec_def)
  have tot: "length (irec_bytes r) = PTR_SZ + IDXLEN_SZ + length (irec_body r)"
    using length_irec_bytes [OF wf] by (simp add: PTR_SZ_def IDXLEN_SZ_def)
  show ?thesis
    unfolding db_writeidx_def
    using args b wr tot by (simp add: body irec_head_print [OF wf, simplified] written_def Let_def)
qed

lemma rec_start_137: "nhash s = 137 \<Longrightarrow> rec_start s = 967"
  by (simp add: rec_start_def PTR_SZ_def)

lemma db_writeidx_end [db_exec]:
  assumes wf: "wf_irec r" and at: "cbytes (idxf s) = idx_layout H R" "wf_heads H"
    and hd: "nhash s = 137" "cothers (idxf s) = []"
    and args: "key = ir_key r" "ptr = int (ir_ptr r)"
      "datoff s = int (ir_off r)" "datlen s = ir_len r"
  shows "db_writeidx s key 0 SEEK_END ptr =
    Inr (written s r (rec_off R (length R)) (clocked ((idxf s)\<lparr>cbytes := idx_layout H (R @ [r]),
      cpos := rec_off R (length R) + length (irec_bytes r)\<rparr>) 967 0 F_UNLCK))"
proof -
  have new: "idx_layout H (R @ [r]) = idx_layout H R @ irec_bytes r" by (simp add: idx_layout_def)
  have lr: "length (idx_layout H R) = rec_off R (length R)" using rec_off_length [OF at(2), of R] by simp
  have body: "idx_print (s\<lparr>ptrval := q\<rparr>) (ir_key r) = irec_body r" for q
    using args by (simp add: irec_body_def idx_print_def)
  have b: "int (ir_ptr r) \<le> PTR_MAX" "length (irec_body r) \<le> IDXLEN_MAX" "IDXLEN_MIN \<le> length (irec_body r)"
    using wf by (auto simp: wf_irec_def)
  have tot: "length (irec_bytes r) = PTR_SZ + IDXLEN_SZ + length (irec_body r)"
    using length_irec_bytes [OF wf] by (simp add: PTR_SZ_def IDXLEN_SZ_def)
  have parts: "length (padl PTR_SZ (show_nat (ir_ptr r))) = PTR_SZ"
    "length (padl IDXLEN_SZ (show_nat (length (irec_body r)))) = IDXLEN_SZ"
    using b length_ptr_field [of "ir_ptr r"] length_len_field [of "length (irec_body r)"]
    by (simp_all add: ptr_field_def PTR_SZ_def IDXLEN_SZ_def)
  have lk: "clocked ((clocked f 967 0 F_WRLCK)\<lparr>cbytes := x, cpos := y\<rparr>) 967 0 F_UNLCK =
      clocked (f\<lparr>cbytes := x, cpos := y\<rparr>) 967 0 F_UNLCK" for f :: cfile and x y
    by (cases f) (auto simp: clocked_def)
  show ?thesis
    unfolding db_writeidx_def
    using args b tot hd at(1) lr parts
    by (simp add: body irec_head_print [OF wf, simplified] written_def Let_def idx_lock_free rec_start_137 k_write_def
        put_bytes_append [of "idx_layout H R", unfolded lr] new lk)
qed

section \<open>Data records\<close>

definition dat_layout :: "string list \<Rightarrow> string" where
  "dat_layout D = concat (map (\<lambda>d. d @ [NEWLINE]) D)"

definition dat_off :: "string list \<Rightarrow> nat \<Rightarrow> nat" where
  "dat_off D j = length (dat_layout (take j D))"

lemma dat_off_length: "dat_off D (length D) = length (dat_layout D)"
  by (simp add: dat_off_def)

lemma dat_off_append: "j \<le> length D \<Longrightarrow> dat_off (D @ xs) j = dat_off D j"
  by (simp add: dat_off_def)

lemma dat_off_update:
  assumes "length d = length (D ! j)" "j < length D" "i \<le> length D"
  shows "dat_off (D[j := d]) i = dat_off D i"
proof (cases "j < i")
  case True
  have "length (dat_layout ((take i D)[j := d])) = length (dat_layout (take i D))"
    using concat_map_list_update [of j "take i D" "\<lambda>d. d @ [NEWLINE]" d]
      concat_map_update_split [of j "take i D" "\<lambda>d. d @ [NEWLINE]"] assms True
    by (simp add: dat_layout_def)
  then show ?thesis by (simp add: dat_off_def take_update_swap)
next
  case False
  then show ?thesis by (simp add: dat_off_def)
qed

lemma dat_layout_split:
  assumes "j < length D"
  shows "dat_layout D = dat_layout (take j D) @ (D ! j @ [NEWLINE]) @ dat_layout (drop (Suc j) D)"
  unfolding dat_layout_def using concat_map_update_split [OF assms, of "\<lambda>d. d @ [NEWLINE]"] by simp

lemma db_readdat_layout [db_exec]:
  assumes "cbytes (datf s) = dat_layout D" "j < length D" "NUL \<notin> set (D ! j)"
    "datoff s = int (dat_off D j)" "datlen s = length (D ! j) + 1"
  shows "db_readdat s = Inr (D ! j, s\<lparr>datf := (datf s)\<lparr>cpos := dat_off D j + length (D ! j) + 1\<rparr>,
    datbuf := D ! j @ NUL # drop (length (D ! j) + 1) (datbuf s)\<rparr>)"
proof -
  let ?d = "D ! j"
  have "drop (dat_off D j) (dat_layout D) = (?d @ [NEWLINE]) @ dat_layout (drop (Suc j) D)"
    using dat_layout_split [OF assms(2)] by (simp add: dat_off_def)
  then have rd: "k_read ((datf s)\<lparr>cpos := dat_off D j\<rparr>) (length ?d + 1) =
      (?d @ [NEWLINE], (datf s)\<lparr>cpos := dat_off D j + length ?d + 1\<rparr>)"
    using assms(1) by (simp add: k_read_def Let_def)
  have "cstr_at (?d @ NUL # drop (length ?d + 1) (datbuf s)) 0 = ?d"
    using cstr_at_append [of 0 "[]" ?d] assms(3) by simp
  then show ?thesis
    using assms(4,5) rd by (simp add: db_readdat_def buf_put_def nth_append list_update_append Let_def)
qed

lemma db_writedat_set [db_exec]:
  assumes "cbytes (datf s) = dat_layout D" "j < length D" "off = int (dat_off D j)"
    "length data = length (D ! j)"
  shows "db_writedat s data off SEEK_SET = Inr (s\<lparr>datoff := off, datlen := length data + 1,
    datf := (datf s)\<lparr>cbytes := dat_layout (D[j := data]), cpos := dat_off D j + length data + 1\<rparr>\<rparr>)"
proof -
  have new: "dat_layout (D[j := data]) =
      dat_layout (take j D) @ (data @ [NEWLINE]) @ dat_layout (drop (Suc j) D)"
    using dat_layout_split [of j "D[j := data]"] assms(2) by simp
  have "put_bytes (dat_layout D) (dat_off D j) (data @ [NEWLINE]) = dat_layout (D[j := data])"
    unfolding new dat_layout_split [OF assms(2)]
    by (rule put_bytes_replace) (simp_all add: dat_off_def assms)
  then show ?thesis
    using assms(1,3) by (simp add: db_writedat_def k_write_def)
qed

lemma db_writedat_end [db_exec]:
  assumes "cbytes (datf s) = dat_layout D" "cothers (datf s) = []"
  shows "db_writedat s data 0 SEEK_END = Inr (s\<lparr>datoff := int (dat_off D (length D)), datlen := length data + 1,
    datf := clocked ((datf s)\<lparr>cbytes := dat_layout (D @ [data]), cpos := dat_off D (length D) + length data + 1\<rparr>)
      0 0 F_UNLCK\<rparr>)"
proof -
  have new: "dat_layout (D @ [data]) = dat_layout D @ data @ [NEWLINE]" by (simp add: dat_layout_def)
  have lk: "clocked ((clocked f 0 0 F_WRLCK)\<lparr>cbytes := x, cpos := y\<rparr>) 0 0 F_UNLCK =
      clocked (f\<lparr>cbytes := x, cpos := y\<rparr>) 0 0 F_UNLCK" for f :: cfile and x y
    by (cases f) (auto simp: clocked_def)
  show ?thesis
    using assms
    by (simp add: db_writedat_def dat_lock_free k_write_def put_bytes_append new lk dat_off_length)
qed

end
