(* ===== verification/DbInv.thy ===== *)
theory DbInv
  imports DbExec
begin

text \<open>
  The invariant of a database on structured contents, and the elementary changes of it. Record
  number \<open>j\<close> of the index file owns data record \<open>j\<close>. The chain headed by slot \<open>Head k\<close> is a
  list \<open>cs k\<close> of record numbers: \<open>cs 0\<close> is the free list and \<open>cs (Suc h)\<close> holds the records
  whose key has hash value \<open>h\<close>. \<open>X\<close> is the set of records on no chain, which is empty
  between calls.
\<close>

section \<open>Chains\<close>

primrec chain :: "irec list \<Rightarrow> nat \<Rightarrow> nat list \<Rightarrow> bool" where
  "chain R p [] = (p = 0)"
| "chain R p (j # js) = (j < length R \<and> p = rec_off R j \<and> chain R (ir_ptr (R ! j)) js)"

definition pred_slot :: "nat \<Rightarrow> nat list \<Rightarrow> slot" where
  "pred_slot k pre = (if pre = [] then Head k else Rec (last pre))"

lemma chain_bound: "chain R p js \<Longrightarrow> j \<in> set js \<Longrightarrow> j < length R"
  by (induction js arbitrary: p) auto

lemma chain_cong:
  assumes "\<And>j. j \<in> set js \<Longrightarrow> j < length R' \<and> rec_off R' j = rec_off R j \<and> ir_ptr (R' ! j) = ir_ptr (R ! j)"
    and "chain R p js"
  shows "chain R' p js"
  using assms by (induction js arbitrary: p) auto

lemma chain_suffix: "chain R p (pre @ j # post) \<Longrightarrow> chain R (ir_ptr (R ! j)) post"
  by (induction pre arbitrary: p) auto

text \<open>Unlinking \<open>j\<close>: its successor pointer goes into the slot that pointed to it.\<close>

lemma chain_unlink_rec:
  assumes "chain R p (pre @ j # post)" "distinct (pre @ j # post)" "pre \<noteq> []"
    and same: "\<And>i. i < length R \<Longrightarrow> rec_off R' i = rec_off R i" "length R' = length R"
    and ptrs: "ir_ptr (R' ! last pre) = ir_ptr (R ! j)"
      "\<And>i. i < length R \<Longrightarrow> i \<noteq> last pre \<Longrightarrow> ir_ptr (R' ! i) = ir_ptr (R ! i)"
  shows "chain R' p (pre @ post)"
  using assms(1-3) ptrs
proof (induction pre arbitrary: p)
  case Nil
  then show ?case by simp
next
  case (Cons i pre)
  have i: "i < length R" "p = rec_off R i" "chain R (ir_ptr (R ! i)) (pre @ j # post)"
    using Cons.prems(1) by simp_all
  show ?case
  proof (cases "pre = []")
    case True
    have post: "chain R (ir_ptr (R ! j)) post" "i \<notin> set post" using i(3) True Cons.prems(2) by simp_all
    have "chain R' (ir_ptr (R ! j)) post"
    proof (rule chain_cong [OF _ post(1)])
      fix l assume "l \<in> set post"
      then have "l < length R" "l \<noteq> last (i # pre)" using chain_bound [OF post(1)] post(2) True by auto
      then show "l < length R' \<and> rec_off R' l = rec_off R l \<and> ir_ptr (R' ! l) = ir_ptr (R ! l)"
        using same Cons.prems(5) by simp
    qed
    then show ?thesis using i same True Cons.prems(4) by simp
  next
    case False
    have "chain R' (ir_ptr (R ! i)) (pre @ post)"
      by (rule Cons.IH [OF i(3)]) (use Cons.prems False in simp_all)
    moreover have "last pre \<in> set pre" "i \<notin> set pre" using False Cons.prems(2) by simp_all
    then have "i \<noteq> last (i # pre)" using False by auto
    ultimately show ?thesis using i same Cons.prems(5) by simp
  qed
qed

section \<open>The invariant\<close>

definition key_hash :: "string \<Rightarrow> nat" where
  "key_hash key = unat (db_hash_loop 0 1 key mod 137)"

lemma key_hash_less: "key_hash key < 137"
proof -
  have "db_hash_loop 0 1 key mod 137 < (137 :: 64 word)" by (rule word_mod_less_divisor) simp
  then show ?thesis by (simp add: key_hash_def word_less_nat_alt)
qed

definition wf_links :: "nat list \<Rightarrow> irec list \<Rightarrow> (nat \<Rightarrow> nat list) \<Rightarrow> nat set \<Rightarrow> bool" where
  "wf_links H R cs X \<longleftrightarrow>
     (\<forall>k < 138. chain R (H ! k) (cs k) \<and> distinct (cs k)) \<and>
     (\<forall>k < 138. \<forall>l < 138. k \<noteq> l \<longrightarrow> set (cs k) \<inter> set (cs l) = {}) \<and>
     (\<forall>j < length R. j \<in> X \<or> (\<exists>k < 138. j \<in> set (cs k))) \<and>
     (\<forall>k < 138. set (cs k) \<inter> X = {})"

definition wf_keys :: "irec list \<Rightarrow> (nat \<Rightarrow> nat list) \<Rightarrow> bool" where
  "wf_keys R cs \<longleftrightarrow>
     (\<forall>h < 137. (\<forall>j \<in> set (cs (Suc h)). key_hash (ir_key (R ! j)) = h) \<and>
                inj_on (\<lambda>j. ir_key (R ! j)) (set (cs (Suc h)))) \<and>
     (\<forall>j \<in> set (cs 0). set (ir_key (R ! j)) \<subseteq> {SPACE})"

definition wf_data :: "irec list \<Rightarrow> string list \<Rightarrow> bool" where
  "wf_data R D \<longleftrightarrow> length D = length R \<and>
     (\<forall>j < length R. ir_off (R ! j) = dat_off D j \<and> ir_len (R ! j) = length (D ! j) + 1 \<and> NUL \<notin> set (D ! j))"

definition store_inv :: "nat list \<Rightarrow> irec list \<Rightarrow> string list \<Rightarrow> (nat \<Rightarrow> nat list) \<Rightarrow> nat set \<Rightarrow> bool" where
  "store_inv H R D cs X \<longleftrightarrow> wf_heads H \<and> (\<forall>r \<in> set R. wf_irec r) \<and> wf_data R D \<and>
     wf_links H R cs X \<and> wf_keys R cs"

text \<open>The map a database stands for: the record of the key's chain that has the key.\<close>

definition dbmap :: "irec list \<Rightarrow> string list \<Rightarrow> (nat \<Rightarrow> nat list) \<Rightarrow> string \<Rightarrow> string option" where
  "dbmap R D cs key =
     map_option (\<lambda>j. D ! j) (List.find (\<lambda>j. ir_key (R ! j) = key) (cs (Suc (key_hash key))))"

lemma find_append_Cons:
  "\<not> P j \<Longrightarrow> List.find P (pre @ j # post) = List.find P (pre @ post)"
  by (induction pre) auto

lemma find_None_iff': "List.find P xs = None \<longleftrightarrow> (\<forall>x \<in> set xs. \<not> P x)"
  by (auto simp: find_None_iff)

lemma find_cong': "(\<And>x. x \<in> set xs \<Longrightarrow> P x = Q x) \<Longrightarrow> List.find P xs = List.find Q xs"
  by (induction xs) auto

section \<open>Unlinking a record\<close>

lemma length_put [simp]:
  "length (put_rec sl p R) = length R" "length (put_head sl p H) = length H"
  by (cases sl; simp)+

lemma put_rec_other: "sl \<noteq> Rec i \<Longrightarrow> put_rec sl p R ! i = R ! i"
  by (cases sl) auto

lemma put_rec_nth:
  assumes "i < length R"
  shows "ir_key (put_rec sl p R ! i) = ir_key (R ! i)" "ir_off (put_rec sl p R ! i) = ir_off (R ! i)"
    "ir_len (put_rec sl p R ! i) = ir_len (R ! i)" "ir_ptr (put_rec (Rec i) p R ! i) = p"
  using assms by (cases "sl = Rec i"; simp add: put_rec_other)+

lemma put_head_other: "sl \<noteq> Head k \<Longrightarrow> put_head sl p H ! k = H ! k"
  by (cases sl) auto

lemma wf_irec_ptr: "wf_irec r \<Longrightarrow> int p \<le> PTR_MAX \<Longrightarrow> wf_irec (r\<lparr>ir_ptr := p\<rparr>)"
  by (simp add: wf_irec_def)

lemma put_rec_wf:
  assumes "\<forall>r \<in> set R. wf_irec r" "int p \<le> PTR_MAX" "slot_ok H R sl"
  shows "\<forall>r \<in> set (put_rec sl p R). wf_irec r"
    and "i \<le> length R \<Longrightarrow> rec_off (put_rec sl p R) i = rec_off R i"
proof -
  show "\<forall>r \<in> set (put_rec sl p R). wf_irec r"
    using assms by (cases sl) (auto simp: wf_irec_ptr dest!: set_update_subset_insert [THEN subsetD])
  show "rec_off (put_rec sl p R) i = rec_off R i" if "i \<le> length R"
    using assms that by (cases sl) (auto simp: rec_off_update length_irec_bytes_ptr)
qed

lemma put_head_wf:
  "wf_heads H \<Longrightarrow> int p \<le> PTR_MAX \<Longrightarrow> wf_heads (put_head sl p H)"
  by (cases sl) (auto simp: wf_heads_def dest!: set_update_subset_insert [THEN subsetD])

lemma pred_slot_ok:
  assumes "chain R p (pre @ j # post)" "k < length H"
  shows "slot_ok H R (pred_slot k pre)" "slot_off R (pred_slot k pre) = (if pre = [] then 7 * k else rec_off R (last pre))"
  using assms chain_bound [OF assms(1), of "last pre"] by (auto simp: pred_slot_def)

lemma chain_unlink:
  assumes "chain R (H ! k) (pre @ j # post)" "distinct (pre @ j # post)" "k < length H"
    and wf: "\<forall>r \<in> set R. wf_irec r"
  shows "chain (put_rec (pred_slot k pre) (ir_ptr (R ! j)) R) (put_head (pred_slot k pre) (ir_ptr (R ! j)) H ! k)
    (pre @ post)"
proof (cases "pre = []")
  case True
  then show ?thesis using assms by (simp add: pred_slot_def)
next
  case False
  have j: "j < length R" "last pre < length R"
    using chain_bound [OF assms(1)] False by simp_all
  have p: "int (ir_ptr (R ! j)) \<le> PTR_MAX" using wf j by (auto simp: wf_irec_def)
  have ok: "slot_ok H R (Rec (last pre))" using j by simp
  have "chain (put_rec (Rec (last pre)) (ir_ptr (R ! j)) R) (H ! k) (pre @ post)"
    by (rule chain_unlink_rec [OF assms(1,2) False])
      (use j put_rec_wf(2) [OF wf p ok] in \<open>simp_all del: put_rec.simps add: put_rec_nth put_rec_other\<close>)
  then show ?thesis using False by (simp add: pred_slot_def)
qed

lemma chain_put_other:
  assumes "chain R (H ! l) js" "sl \<noteq> Head l" "\<And>i. i \<in> set js \<Longrightarrow> sl \<noteq> Rec i"
    and "\<forall>r \<in> set R. wf_irec r" "int p \<le> PTR_MAX" "slot_ok H R sl"
  shows "chain (put_rec sl p R) (put_head sl p H ! l) js"
  unfolding put_head_other [OF assms(2)]
  by (rule chain_cong [OF _ assms(1)])
    (use assms chain_bound [OF assms(1)] put_rec_wf(2) [OF assms(4-6)] in \<open>auto simp: put_rec_other less_imp_le\<close>)

lemma pred_slot_neq:
  "l \<noteq> k \<Longrightarrow> pred_slot k pre \<noteq> Head l"
  "set pre \<inter> set js = {} \<Longrightarrow> i \<in> set js \<Longrightarrow> pred_slot k pre \<noteq> Rec i"
proof -
  show "l \<noteq> k \<Longrightarrow> pred_slot k pre \<noteq> Head l" by (simp add: pred_slot_def)
  show "pred_slot k pre \<noteq> Rec i" if "set pre \<inter> set js = {}" "i \<in> set js"
    using that last_in_set [of pre] by (cases "pre = []") (auto simp: pred_slot_def disjoint_iff)
qed

lemma store_invD:
  assumes "store_inv H R D cs X"
  shows "wf_heads H" "\<forall>r \<in> set R. wf_irec r" "wf_data R D" "wf_links H R cs X" "wf_keys R cs"
    "length H = 138" "length D = length R"
  using assms by (auto simp: store_inv_def wf_heads_def NHASH_DEF_def wf_data_def)

lemma wf_linksD:
  assumes "wf_links H R cs X"
  shows "k < 138 \<Longrightarrow> chain R (H ! k) (cs k)" "k < 138 \<Longrightarrow> distinct (cs k)"
    "k < 138 \<Longrightarrow> l < 138 \<Longrightarrow> k \<noteq> l \<Longrightarrow> set (cs k) \<inter> set (cs l) = {}"
    "j < length R \<Longrightarrow> j \<in> X \<or> (\<exists>k < 138. j \<in> set (cs k))"
    "k < 138 \<Longrightarrow> set (cs k) \<inter> X = {}"
  using assms by (auto simp: wf_links_def)

lemma put_rec_wf_data: "wf_data R D \<Longrightarrow> wf_data (put_rec sl p R) D"
  by (simp add: wf_data_def put_rec_nth)

lemma put_rec_wf_keys:
  assumes "wf_keys R cs" "\<And>k j. k < 138 \<Longrightarrow> j \<in> set (cs k) \<Longrightarrow> j < length R"
    "\<And>k. set (cs' k) \<subseteq> set (cs k)"
  shows "wf_keys (put_rec sl p R) cs'"
proof -
  have key: "ir_key (put_rec sl p R ! j) = ir_key (R ! j)" if "k < 138" "j \<in> set (cs' k)" for k j
    using that assms(2,3) by (intro put_rec_nth) blast
  show ?thesis
    unfolding wf_keys_def
  proof (intro conjI allI impI ballI)
    fix h :: nat and j assume h: "h < 137" and "j \<in> set (cs' (Suc h))"
    then show "key_hash (ir_key (put_rec sl p R ! j)) = h"
      using key [of "Suc h" j] assms(1,3) by (auto simp: wf_keys_def)
  next
    fix h :: nat assume h: "h < 137"
    have "inj_on (\<lambda>j. ir_key (R ! j)) (set (cs' (Suc h)))"
      using assms(1,3) h by (auto simp: wf_keys_def intro: inj_on_subset)
    then show "inj_on (\<lambda>j. ir_key (put_rec sl p R ! j)) (set (cs' (Suc h)))"
      using inj_on_cong [of "set (cs' (Suc h))" "\<lambda>j. ir_key (put_rec sl p R ! j)" "\<lambda>j. ir_key (R ! j)"]
        key [of "Suc h"] h by simp
  next
    fix j assume "j \<in> set (cs' 0)"
    then have "j \<in> set (cs 0)" "ir_key (put_rec sl p R ! j) = ir_key (R ! j)"
      using key [of 0 j] assms(3) [of 0] by auto
    then show "set (ir_key (put_rec sl p R ! j)) \<subseteq> {SPACE}"
      using assms(1) by (simp add: wf_keys_def)
  qed
qed

lemma unlink_inv:
  assumes inv: "store_inv H R D cs X" and k: "k < 138" "cs k = pre @ j # post"
  defines "sl \<equiv> pred_slot k pre" and "p \<equiv> ir_ptr (R ! j)"
  shows "store_inv (put_head sl p H) (put_rec sl p R) D (cs(k := pre @ post)) (insert j X)"
proof -
  note wf = store_invD [OF inv] and links = wf_linksD [OF store_invD(4) [OF inv]]
  have ch: "chain R (H ! k) (pre @ j # post)" and dst: "distinct (pre @ j # post)"
    using links(1,2) [OF k(1)] k(2) by auto
  have j: "j < length R" using chain_bound [OF ch] by simp
  have p: "int p \<le> PTR_MAX" using wf(2) j by (auto simp: p_def wf_irec_def)
  have ok: "slot_ok H R sl" using pred_slot_ok(1) [OF ch] k wf(6) by (simp add: sl_def)
  have others: "chain (put_rec sl p R) (put_head sl p H ! l) (cs l)" if l: "l < 138" "l \<noteq> k" for l
  proof (rule chain_put_other [OF links(1) [OF l(1)] _ _ wf(2) p ok])
    show "sl \<noteq> Head l" using l pred_slot_neq(1) by (simp add: sl_def)
    show "sl \<noteq> Rec i" if "i \<in> set (cs l)" for i
      using links(3) [OF l(1) k(1) l(2)] k(2) that pred_slot_neq(2) [of pre "cs l" i k] by (auto simp: sl_def)
  qed
  have mine: "chain (put_rec sl p R) (put_head sl p H ! k) (pre @ post)"
    unfolding sl_def p_def using ch dst k wf by (intro chain_unlink) auto
  have "wf_links (put_head sl p H) (put_rec sl p R) (cs(k := pre @ post)) (insert j X)"
    unfolding wf_links_def
  proof (intro conjI allI impI)
    fix l :: nat assume l: "l < 138"
    show "chain (put_rec sl p R) (put_head sl p H ! l) ((cs(k := pre @ post)) l)"
      using mine others l by (cases "l = k") auto
    show "distinct ((cs(k := pre @ post)) l)" using dst links(2) [OF l] by auto
    have "j \<notin> set (cs l)" if "l \<noteq> k" using links(3) [OF l k(1) that] k(2) by auto
    then show "set ((cs(k := pre @ post)) l) \<inter> insert j X = {}"
      using dst links(5) [OF l] k(2) by auto
  next
    fix l m :: nat assume "l < 138" "m < 138" "l \<noteq> m"
    then show "set ((cs(k := pre @ post)) l) \<inter> set ((cs(k := pre @ post)) m) = {}"
      using links(3) [of l m] k(2) by auto
  next
    fix i assume "i < length (put_rec sl p R)"
    then have "i \<in> X \<or> (\<exists>l < 138. i \<in> set (cs l))" using links(4) by simp
    then show "i \<in> insert j X \<or> (\<exists>l < 138. i \<in> set ((cs(k := pre @ post)) l))"
    proof (elim disjE exE conjE)
      fix l assume "l < 138" "i \<in> set (cs l)"
      then show ?thesis using k by (cases "l = k") auto
    qed simp
  qed
  moreover have "wf_keys (put_rec sl p R) (cs(k := pre @ post))"
    by (rule put_rec_wf_keys [OF wf(5)]) (use chain_bound [OF links(1)] k(2) in \<open>auto split: if_splits\<close>)
  ultimately show ?thesis
    using wf p ok by (simp add: store_inv_def put_head_wf put_rec_wf(1) put_rec_wf_data)
qed

section \<open>Changing a record that is on no chain\<close>

lemma set_rec_inv:
  assumes inv: "store_inv H R D cs X" and j: "j \<in> X" "j < length R"
    and r: "wf_irec r" "length (irec_bytes r) = length (irec_bytes (R ! j))"
      "ir_off r = ir_off (R ! j)" "ir_len r = ir_len (R ! j)"
  shows "store_inv H (R[j := r]) D cs X"
proof -
  note wf = store_invD [OF inv] and links = wf_linksD [OF store_invD(4) [OF inv]]
  have nj: "j \<notin> set (cs k)" if "k < 138" for k using links(5) [OF that] j by auto
  have "chain (R[j := r]) (H ! k) (cs k)" if k: "k < 138" for k
  proof (rule chain_cong [OF _ links(1) [OF k]])
    fix i assume i: "i \<in> set (cs k)"
    then have "i < length R" "i \<noteq> j" using chain_bound [OF links(1) [OF k]] nj [OF k] by auto
    then show "i < length (R[j := r]) \<and> rec_off (R[j := r]) i = rec_off R i \<and>
        ir_ptr (R[j := r] ! i) = ir_ptr (R ! i)"
      using rec_off_update [OF r(2) j(2), of i] by simp
  qed
  then have "wf_links H (R[j := r]) cs X" using wf(4) by (auto simp: wf_links_def)
  moreover have "wf_keys (R[j := r]) cs"
  proof -
    have eq: "ir_key (R[j := r] ! i) = ir_key (R ! i)" if "k < 138" "i \<in> set (cs k)" for k i
      using nj [OF that(1)] that(2) by (metis nth_list_update_neq)
    have "inj_on (\<lambda>i. ir_key (R[j := r] ! i)) (set (cs (Suc h)))" if "h < 137" for h
      using wf(5) that eq [of "Suc h"] by (auto simp: wf_keys_def inj_on_def)
    then show ?thesis using wf(5) eq [of "Suc _"] eq [of 0] by (auto simp: wf_keys_def)
  qed
  moreover have "\<forall>r \<in> set (R[j := r]). wf_irec r"
    using wf(2) r(1) by (auto dest!: set_update_subset_insert [THEN subsetD])
  moreover have "wf_data (R[j := r]) D"
    using wf(3) r j by (auto simp: wf_data_def nth_list_update)
  ultimately show ?thesis using wf by (simp add: store_inv_def)
qed

lemma set_dat_inv:
  assumes inv: "store_inv H R D cs X" and d: "j < length R" "length d = length (D ! j)" "NUL \<notin> set d"
  shows "store_inv H R (D[j := d]) cs X"
  using store_invD [OF inv] d by (auto simp: store_inv_def wf_data_def nth_list_update dat_off_update)

lemma append_inv:
  assumes inv: "store_inv H R D cs X" and r: "wf_irec r" "ir_off r = dat_off D (length D)"
      "ir_len r = length d + 1" "NUL \<notin> set d"
  shows "store_inv H (R @ [r]) (D @ [d]) cs (insert (length R) X)"
proof -
  note wf = store_invD [OF inv] and links = wf_linksD [OF store_invD(4) [OF inv]]
  have lt: "i < length R" if "k < 138" "i \<in> set (cs k)" for k i
    using chain_bound [OF links(1)] that by blast
  have "chain (R @ [r]) (H ! k) (cs k)" if k: "k < 138" for k
    by (rule chain_cong [OF _ links(1) [OF k]]) (use lt [OF k] in \<open>simp add: rec_off_append nth_append less_SucI less_imp_le\<close>)
  moreover have "j \<in> insert (length R) X \<or> (\<exists>k < 138. j \<in> set (cs k))" if "j < length (R @ [r])" for j
    using links(4) [of j] that by (cases "j = length R") auto
  ultimately have "wf_links H (R @ [r]) cs (insert (length R) X)"
    using wf(4) lt by (fastforce simp: wf_links_def)
  moreover have "wf_keys (R @ [r]) cs"
  proof -
    have eq: "ir_key ((R @ [r]) ! i) = ir_key (R ! i)" if "k < 138" "i \<in> set (cs k)" for k i
      using lt [OF that] by (simp add: nth_append)
    have "inj_on (\<lambda>i. ir_key ((R @ [r]) ! i)) (set (cs (Suc h)))" if "h < 137" for h
      using wf(5) that eq [of "Suc h"] by (auto simp: wf_keys_def inj_on_def)
    then show ?thesis using wf(5) eq [of "Suc _"] eq [of 0] by (auto simp: wf_keys_def)
  qed
  moreover have "wf_data (R @ [r]) (D @ [d])"
    using wf(3) r by (auto simp: wf_data_def nth_append dat_off_append less_Suc_eq)
  ultimately show ?thesis using wf r by (simp add: store_inv_def)
qed

section \<open>Putting a record at the front of a chain\<close>

lemma push_inv:
  assumes inv: "store_inv H R D cs X" and k: "k < 138" and j: "j \<in> X" "j < length R"
    and ptr: "ir_ptr (R ! j) = H ! k" "int (rec_off R j) \<le> PTR_MAX"
    and key: "\<And>h. k = Suc h \<Longrightarrow> key_hash (ir_key (R ! j)) = h \<and> (\<forall>i \<in> set (cs k). ir_key (R ! i) \<noteq> ir_key (R ! j))"
      "k = 0 \<Longrightarrow> set (ir_key (R ! j)) \<subseteq> {SPACE}"
  shows "store_inv (H[k := rec_off R j]) R D (cs(k := j # cs k)) (X - {j})"
proof -
  note wf = store_invD [OF inv] and links = wf_linksD [OF store_invD(4) [OF inv]]
  have nj: "j \<notin> set (cs l)" if "l < 138" for l using links(5) [OF that] j by auto
  have other: "k' < 138 \<Longrightarrow> k' \<noteq> k \<Longrightarrow> (cs(k := j # cs k)) k' = cs k'" for k' by simp
  have "wf_heads (H[k := rec_off R j])"
    using wf(1) ptr(2) by (auto simp: wf_heads_def dest!: set_update_subset_insert [THEN subsetD])
  moreover have "wf_links (H[k := rec_off R j]) R (cs(k := j # cs k)) (X - {j})"
    unfolding wf_links_def
  proof (intro conjI allI impI)
    fix l :: nat assume l: "l < 138"
    show "chain R (H[k := rec_off R j] ! l) ((cs(k := j # cs k)) l)"
      using links(1) [OF l] links(1) [OF k] l k j ptr wf(6) by (cases "l = k") simp_all
    show "distinct ((cs(k := j # cs k)) l)" using links(2) [OF l] nj [OF l] by (cases "l = k") simp_all
    show "set ((cs(k := j # cs k)) l) \<inter> (X - {j}) = {}"
      using links(5) [OF l] by (cases "l = k") auto
  next
    fix l m :: nat assume "l < 138" "m < 138" "l \<noteq> m"
    then show "set ((cs(k := j # cs k)) l) \<inter> set ((cs(k := j # cs k)) m) = {}"
      using links(3) [of l m] nj [of l] nj [of m] by (cases "l = k"; cases "m = k") simp_all
  next
    fix i assume "i < length R"
    then consider "i \<in> X" | l where "l < 138" "i \<in> set (cs l)" using links(4) by blast
    then show "i \<in> X - {j} \<or> (\<exists>l < 138. i \<in> set ((cs(k := j # cs k)) l))"
    proof cases
      case 1
      then show ?thesis using k by (cases "i = j") (auto intro!: exI [of _ k])
    next
      case 2
      then have "i \<in> set ((cs(k := j # cs k)) l)" by (cases "l = k") simp_all
      with 2 show ?thesis by blast
    qed
  qed
  moreover have "wf_keys R (cs(k := j # cs k))"
  proof (cases k)
    case 0
    then show ?thesis using wf(5) key(2) by (simp add: wf_keys_def)
  next
    case (Suc h)
    note kh = key(1) [OF Suc]
    have "inj_on (\<lambda>i. ir_key (R ! i)) (set (cs k))"
      using wf(5) k Suc by (simp add: wf_keys_def)
    with kh have "inj_on (\<lambda>i. ir_key (R ! i)) (insert j (set (cs k)))"
      by (auto simp: inj_on_insert)
    then show ?thesis using wf(5) kh Suc unfolding wf_keys_def by (simp del: inj_on_insert)
  qed
  ultimately show ?thesis using wf by (simp add: store_inv_def)
qed

section \<open>What the changes do to the map\<close>

lemma dbmap_cong:
  assumes "\<And>k j. k < 138 \<Longrightarrow> j \<in> set (cs k) \<Longrightarrow> ir_key (R' ! j) = ir_key (R ! j) \<and> D' ! j = D ! j"
  shows "dbmap R' D' cs = dbmap R D cs"
proof
  fix key
  let ?c = "cs (Suc (key_hash key))"
  have k: "Suc (key_hash key) < 138" using key_hash_less [of key] by simp
  have "List.find (\<lambda>j. ir_key (R' ! j) = key) ?c = List.find (\<lambda>j. ir_key (R ! j) = key) ?c"
    using assms [OF k] by (intro find_cong') simp
  moreover have "D' ! j = D ! j" if "List.find (\<lambda>j. ir_key (R ! j) = key) ?c = Some j" for j
    using that assms [OF k] by (auto simp: find_Some_iff)
  ultimately show "dbmap R' D' cs key = dbmap R D cs key"
    by (cases "List.find (\<lambda>j. ir_key (R ! j) = key) ?c") (auto simp: dbmap_def)
qed

lemma dbmap_unlink_free: "dbmap R D (cs(0 := js)) = dbmap R D cs"
  by (rule ext) (simp add: dbmap_def)

lemma dbmap_unlink:
  assumes inv: "store_inv H R D cs X" and k: "h < 137" "cs (Suc h) = pre @ j # post"
  shows "dbmap R D (cs(Suc h := pre @ post)) = (dbmap R D cs)(ir_key (R ! j) := None)"
proof
  fix key
  note keys = store_invD(5) [OF inv]
  have hj: "key_hash (ir_key (R ! j)) = h" using keys k by (simp add: wf_keys_def)
  have inj: "inj_on (\<lambda>j. ir_key (R ! j)) (set (pre @ j # post))" using keys k by (metis wf_keys_def)
  have dst: "distinct (pre @ j # post)"
    using wf_linksD(2) [OF store_invD(4) [OF inv], of "Suc h"] k by simp
  have uniq: "ir_key (R ! i) \<noteq> ir_key (R ! j)" if "i \<in> set (pre @ post)" for i
    using inj_onD [OF inj, of i j] that dst by auto
  show "dbmap R D (cs(Suc h := pre @ post)) key = ((dbmap R D cs)(ir_key (R ! j) := None)) key"
  proof (cases "key = ir_key (R ! j)")
    case True
    then have "List.find (\<lambda>i. ir_key (R ! i) = key) (pre @ post) = None"
      using uniq by (auto simp: find_None_iff')
    then show ?thesis using True hj by (simp add: dbmap_def)
  next
    case False
    then have "List.find (\<lambda>i. ir_key (R ! i) = key) (pre @ j # post) =
        List.find (\<lambda>i. ir_key (R ! i) = key) (pre @ post)"
      by (intro find_append_Cons) simp
    then show ?thesis using False k by (auto simp: dbmap_def)
  qed
qed

lemma dbmap_push:
  assumes "key_hash (ir_key (R ! j)) = h"
  shows "dbmap R D (cs(Suc h := j # cs (Suc h))) = (dbmap R D cs)(ir_key (R ! j) \<mapsto> D ! j)"
  using assms by (auto simp: dbmap_def fun_eq_iff)

lemma dbmap_put_rec:
  assumes "\<And>k j. k < 138 \<Longrightarrow> j \<in> set (cs k) \<Longrightarrow> j < length R"
  shows "dbmap (put_rec sl p R) D cs = dbmap R D cs"
  using assms by (intro dbmap_cong) (simp add: put_rec_nth)

end
