(* ===== verification/DbChange.thy ===== *)
theory DbChange
  imports DbInv
begin

text \<open>
  The three changes that the calls of \<^verbatim>\<open>db.c\<close> make to structured contents as a whole: a record
  is deleted (it becomes an empty record at the front of the free list), an empty record is used
  again, a record is added at the end. Each keeps the invariant and changes the map at one key.
\<close>

section \<open>Records\<close>

text \<open>The keys for which the format works: no separator, no terminator, room for the numbers.\<close>

definition key_ok :: "string \<Rightarrow> bool" where
  "key_ok key \<longleftrightarrow> key \<noteq> [] \<and> SEP \<notin> set key \<and> NUL \<notin> set key \<and> length key \<le> 998"

definition data_ok :: "string \<Rightarrow> bool" where
  "data_ok d \<longleftrightarrow> d \<noteq> [] \<and> NUL \<notin> set d \<and> length d < DATLEN_MAX"

lemma length_irec_body:
  "length (irec_body r) = length (ir_key r) + length (show_nat (ir_off r)) + length (show_nat (ir_len r)) + 3"
  by (simp add: irec_body_def)

lemma wf_irec_key_ok:
  assumes "key_ok (ir_key r)" "0 < ir_len r" "ir_len r \<le> DATLEN_MAX" "int (ir_ptr r) \<le> PTR_MAX"
    "int (ir_off r) \<le> LONG_MAX"
  shows "wf_irec r"
proof -
  have "length (show_nat (ir_off r)) \<le> 19"
    using assms(5) by (intro length_show_nat_le) (simp_all add: LONG_MAX_def)
  moreover have "length (show_nat (ir_len r)) \<le> 4"
    using assms(3) by (intro length_show_nat_le) (simp_all add: DATLEN_MAX_def)
  moreover have "Suc 0 \<le> length (show_nat n)" for n by (simp add: Suc_le_eq)
  note this [of "ir_off r"] this [of "ir_len r"]
  moreover have "Suc 0 \<le> length (ir_key r)" using assms(1) by (simp add: key_ok_def Suc_le_eq)
  ultimately show ?thesis
    using assms by (simp add: wf_irec_def key_ok_def length_irec_body IDXLEN_MIN_def IDXLEN_MAX_def)
qed

lemma wf_irec_rekey:
  assumes "wf_irec r" "length key = length (ir_key r)" "SEP \<notin> set key" "NUL \<notin> set key" "int p \<le> PTR_MAX"
  shows "wf_irec (r\<lparr>ir_ptr := p, ir_key := key\<rparr>)"
    "length (irec_bytes (r\<lparr>ir_ptr := p, ir_key := key\<rparr>)) = length (irec_bytes r)"
proof -
  show wf: "wf_irec (r\<lparr>ir_ptr := p, ir_key := key\<rparr>)"
    using assms by (simp add: wf_irec_def length_irec_body)
  show "length (irec_bytes (r\<lparr>ir_ptr := p, ir_key := key\<rparr>)) = length (irec_bytes r)"
    using length_irec_bytes [OF wf] length_irec_bytes [OF assms(1)] assms(2) by (simp add: length_irec_body)
qed

lemma chain_off_le:
  assumes "chain R p (pre @ j # post)" "\<forall>r \<in> set R. wf_irec r" "int p \<le> PTR_MAX"
  shows "int (rec_off R j) \<le> PTR_MAX"
  using assms by (induction pre arbitrary: p) (auto simp: wf_irec_def)

lemma put_swap:
  "sl \<noteq> Head k \<Longrightarrow> put_head sl p (H[k := q]) = (put_head sl p H)[k := q]"
  "sl \<noteq> Rec j \<Longrightarrow> put_rec sl p (R[j := r]) = (put_rec sl p R)[j := r]"
  by (cases sl; simp add: list_update_swap)+

lemma heads_le: "wf_heads H \<Longrightarrow> k < 138 \<Longrightarrow> int (H ! k) \<le> PTR_MAX"
  by (simp add: wf_heads_def NHASH_DEF_def)

section \<open>Deleting\<close>

definition blank :: "irec \<Rightarrow> nat \<Rightarrow> irec" where
  "blank r p = r\<lparr>ir_ptr := p, ir_key := replicate (length (ir_key r)) SPACE\<rparr>"

lemma blank_simps [simp]:
  "ir_ptr (blank r p) = p" "ir_key (blank r p) = replicate (length (ir_key r)) SPACE"
  "ir_off (blank r p) = ir_off r" "ir_len (blank r p) = ir_len r"
  by (simp_all add: blank_def)

lemma blank_wf:
  assumes "wf_irec r" "int p \<le> PTR_MAX"
  shows "wf_irec (blank r p)" "length (irec_bytes (blank r p)) = length (irec_bytes r)"
  unfolding blank_def by (rule wf_irec_rekey [OF assms(1) _ _ _ assms(2)]; simp add: SEP_def)+

lemma delete_inv:
  assumes inv: "store_inv H R D cs X" and k: "h < 137" "cs (Suc h) = pre @ j # post"
  defines "sl \<equiv> pred_slot (Suc h) pre" and "d \<equiv> replicate (length (D ! j)) SPACE"
    and "R1 \<equiv> R[j := blank (R ! j) (H ! 0)]" and "cs1 \<equiv> cs(Suc h := pre @ post, 0 := j # cs 0)"
  defines "H2 \<equiv> put_head sl (ir_ptr (R ! j)) (H[0 := rec_off R j])" and "R2 \<equiv> put_rec sl (ir_ptr (R ! j)) R1"
  shows "store_inv H2 R2 (D[j := d]) cs1 X"
    and "dbmap R2 (D[j := d]) cs1 = (dbmap R D cs)(ir_key (R ! j) := None)"
proof -
  note wf = store_invD [OF inv] and l = wf_linksD [OF store_invD(4) [OF inv]]
  let ?p = "ir_ptr (R ! j)" and ?k = "Suc h" and ?X = "insert j X" and ?cs = "cs(Suc h := pre @ post)"
  have kk: "?k < 138" using k(1) by simp
  have ch: "chain R (H ! ?k) (pre @ j # post)" and dst: "distinct (pre @ j # post)"
    using l(1,2) [OF kk] k(2) by simp_all
  have j: "j < length R" using chain_bound [OF ch] by simp
  have wfj: "wf_irec (R ! j)" "int ?p \<le> PTR_MAX" using wf(2) j by (auto simp: wf_irec_def)
  have off: "int (rec_off R j) \<le> PTR_MAX" by (rule chain_off_le [OF ch wf(2) heads_le [OF wf(1) kk]])
  have slj: "sl \<noteq> Rec j" "sl \<noteq> Head 0"
    using dst last_in_set [of pre] by (auto simp: sl_def pred_slot_def split: if_splits)
  have ok: "slot_ok H R sl" using pred_slot_ok(1) [OF ch] kk wf(6) by (simp add: sl_def)
  define Ha Ra where "Ha = put_head sl ?p H" and "Ra = put_rec sl ?p R"
  have H2: "H2 = Ha[0 := rec_off R j]" and R2: "R2 = Ra[j := blank (R ! j) (H ! 0)]"
    using slj by (simp_all add: H2_def R2_def R1_def Ha_def Ra_def put_swap)
  have raj: "Ra ! j = R ! j" "Ha ! 0 = H ! 0" "length Ra = length R"
    using slj by (simp_all add: Ra_def Ha_def put_rec_other put_head_other)
  have a: "store_inv Ha Ra D ?cs ?X" unfolding Ha_def Ra_def sl_def by (rule unlink_inv [OF inv kk k(2)])
  have b: "store_inv Ha Ra (D[j := d]) ?cs ?X"
    by (rule set_dat_inv [OF a]) (use j raj in \<open>simp_all add: d_def\<close>)
  have c: "store_inv Ha R2 (D[j := d]) ?cs ?X"
    unfolding R2 by (rule set_rec_inv [OF b]) (use j raj blank_wf [OF wfj(1) heads_le [OF wf(1)]] in simp_all)
  have roff: "rec_off R2 j = rec_off R j"
  proof -
    have "rec_off R2 j = rec_off Ra j"
      unfolding R2 by (rule rec_off_update) (use j raj blank_wf [OF wfj(1) heads_le [OF wf(1)]] in simp_all)
    also have "\<dots> = rec_off R j"
      unfolding Ra_def by (rule put_rec_wf(2) [OF wf(2) wfj(2) ok]) (use j in simp)
    finally show ?thesis .
  qed
  have rj: "R2 ! j = blank (R ! j) (H ! 0)" "length R2 = length R" using j raj by (simp_all add: R2)
  have "store_inv (Ha[0 := rec_off R2 j]) R2 (D[j := d]) (?cs(0 := j # ?cs 0)) (?X - {j})"
    by (rule push_inv [OF c]) (use j rj raj off roff in auto)
  moreover have "?X - {j} = X" using l(5) [OF kk] k(2) by auto
  ultimately show "store_inv H2 R2 (D[j := d]) cs1 X" by (simp add: H2 roff cs1_def)
  have "dbmap R2 (D[j := d]) cs1 = dbmap R2 (D[j := d]) ?cs"
    unfolding cs1_def by (rule dbmap_unlink_free)
  also have "\<dots> = dbmap R D ?cs"
  proof (rule dbmap_cong)
    fix m i assume m: "m < 138" "i \<in> set (?cs m)"
    have "i < length R" "i \<noteq> j"
      using m wf_linksD(5) [OF store_invD(4) [OF c] m(1)] chain_bound [OF l(1) [OF m(1)]] chain_bound [OF ch]
      by (auto split: if_splits)
    then show "ir_key (R2 ! i) = ir_key (R ! i) \<and> D[j := d] ! i = D ! i"
      by (simp add: R2 Ra_def put_rec_nth)
  qed
  also have "\<dots> = (dbmap R D cs)(ir_key (R ! j) := None)" by (rule dbmap_unlink [OF inv k])
  finally show "dbmap R2 (D[j := d]) cs1 = (dbmap R D cs)(ir_key (R ! j) := None)" .
qed

section \<open>Taking an empty record off the free list\<close>

lemma take_free_inv:
  assumes inv: "store_inv H R D cs X" and k: "cs 0 = pre @ j # post"
  defines "sl \<equiv> pred_slot 0 pre" and "p \<equiv> ir_ptr (R ! j)"
  shows "store_inv (put_head sl p H) (put_rec sl p R) D (cs(0 := pre @ post)) (insert j X)"
    and "dbmap (put_rec sl p R) D (cs(0 := pre @ post)) = dbmap R D cs"
    and "k \<noteq> 0 \<Longrightarrow> put_head sl p H ! k = H ! k" and "put_rec sl p R ! j = R ! j" and "j < length R"
proof -
  note l = wf_linksD [OF store_invD(4) [OF inv]]
  show "store_inv (put_head sl p H) (put_rec sl p R) D (cs(0 := pre @ post)) (insert j X)"
    unfolding sl_def p_def by (rule unlink_inv [OF inv _ k]) simp
  have "dbmap (put_rec sl p R) D (cs(0 := pre @ post)) = dbmap (put_rec sl p R) D cs"
    by (rule dbmap_unlink_free)
  also have "\<dots> = dbmap R D cs"
    by (rule dbmap_put_rec) (use chain_bound [OF l(1)] in blast)
  finally show "dbmap (put_rec sl p R) D (cs(0 := pre @ post)) = dbmap R D cs" .
  show "put_head sl p H ! k = H ! k" if "k \<noteq> 0"
    using that by (intro put_head_other) (simp add: sl_def pred_slot_def)
  have ch: "chain R (H ! 0) (pre @ j # post)" "distinct (pre @ j # post)" using l(1,2) [of 0] k by simp_all
  then show "j < length R" using chain_bound by fastforce
  show "put_rec sl p R ! j = R ! j"
    using ch(2) last_in_set [of pre] by (intro put_rec_other) (auto simp: sl_def pred_slot_def split: if_splits)
qed

section \<open>Adding a record\<close>

text \<open>The record that is on no chain gets the key, and goes to the front of the key's chain.\<close>

lemma link_inv:
  assumes inv: "store_inv H R D cs X" and j: "j \<in> X" "j < length R" "int (rec_off R j) \<le> PTR_MAX"
    and h: "h = key_hash (ir_key (R ! j))" "ir_ptr (R ! j) = H ! Suc h"
    and new: "\<forall>i \<in> set (cs (Suc h)). ir_key (R ! i) \<noteq> ir_key (R ! j)"
  shows "store_inv (H[Suc h := rec_off R j]) R D (cs(Suc h := j # cs (Suc h))) (X - {j})"
    and "dbmap R D (cs(Suc h := j # cs (Suc h))) = (dbmap R D cs)(ir_key (R ! j) \<mapsto> D ! j)"
proof -
  have "Suc h < 138" using key_hash_less h(1) by simp
  then show "store_inv (H[Suc h := rec_off R j]) R D (cs(Suc h := j # cs (Suc h))) (X - {j})"
    using h new by (intro push_inv [OF inv _ j(1,2) h(2) j(3)]) auto
  show "dbmap R D (cs(Suc h := j # cs (Suc h))) = (dbmap R D cs)(ir_key (R ! j) \<mapsto> D ! j)"
    by (rule dbmap_push) (use h in simp)
qed

lemma reuse_inv:
  assumes inv: "store_inv H R D cs X" and j: "j \<in> X" "j < length R" "int (rec_off R j) \<le> PTR_MAX"
    and key: "key_ok key" "length key = length (ir_key (R ! j))" "\<forall>i \<in> set (cs (Suc (key_hash key))). ir_key (R ! i) \<noteq> key"
    and d: "NUL \<notin> set d" "length d = length (D ! j)"
  defines "k \<equiv> Suc (key_hash key)"
  defines "R1 \<equiv> R[j := (R ! j)\<lparr>ir_ptr := H ! k, ir_key := key\<rparr>]"
  shows "store_inv (H[k := rec_off R j]) R1 (D[j := d]) (cs(k := j # cs k)) (X - {j})"
    and "dbmap R1 (D[j := d]) (cs(k := j # cs k)) = (dbmap R D cs)(key \<mapsto> d)"
proof -
  note wf = store_invD [OF inv] and l = wf_linksD [OF store_invD(4) [OF inv]]
  have k: "k < 138" using key_hash_less [of key] by (simp add: k_def)
  have nj: "i \<noteq> j" if "m < 138" "i \<in> set (cs m)" for m i using l(5) [OF that(1)] that(2) j(1) by auto
  have wfj: "wf_irec (R ! j)" using wf(2) j(2) by simp
  note rk = wf_irec_rekey [OF wfj key(2) _ _ heads_le [OF wf(1) k]]
  have a: "store_inv H R (D[j := d]) cs X" by (rule set_dat_inv [OF inv j(2) d(2,1)])
  have b: "store_inv H R1 (D[j := d]) cs X"
    unfolding R1_def by (rule set_rec_inv [OF a j(1,2)]) (use rk key(1) in \<open>simp_all add: key_ok_def\<close>)
  have roff: "rec_off R1 j = rec_off R j"
    unfolding R1_def by (rule rec_off_update) (use rk key(1) j in \<open>simp_all add: key_ok_def\<close>)
  have r1: "R1 ! j = (R ! j)\<lparr>ir_ptr := H ! k, ir_key := key\<rparr>" "length R1 = length R" "D[j := d] ! j = d"
    using j(2) wf(7) by (simp_all add: R1_def)
  have "\<forall>i \<in> set (cs k). ir_key (R1 ! i) \<noteq> key" using key(3) nj [OF k] by (metis R1_def k_def nth_list_update_neq)
  note link = link_inv [OF b j(1), of "key_hash key"]
  then show "store_inv (H[k := rec_off R j]) R1 (D[j := d]) (cs(k := j # cs k)) (X - {j})"
    using link(1) [folded k_def] j roff r1 \<open>\<forall>i \<in> set (cs k). ir_key (R1 ! i) \<noteq> key\<close> by simp
  have "dbmap R1 (D[j := d]) (cs(k := j # cs k)) = (dbmap R1 (D[j := d]) cs)(key \<mapsto> d)"
    using link(2) [folded k_def] j roff r1 \<open>\<forall>i \<in> set (cs k). ir_key (R1 ! i) \<noteq> key\<close> by simp
  also have "dbmap R1 (D[j := d]) cs = dbmap R D cs"
    by (rule dbmap_cong) (use nj in \<open>metis R1_def nth_list_update_neq\<close>)
  finally show "dbmap R1 (D[j := d]) (cs(k := j # cs k)) = (dbmap R D cs)(key \<mapsto> d)" .
qed

definition new_irec :: "nat list \<Rightarrow> string list \<Rightarrow> string \<Rightarrow> string \<Rightarrow> irec" where
  "new_irec H D key d =
     \<lparr>ir_ptr = H ! Suc (key_hash key), ir_key = key, ir_off = dat_off D (length D), ir_len = length d + 1\<rparr>"

lemma new_irec_simps [simp]:
  "ir_ptr (new_irec H D key d) = H ! Suc (key_hash key)" "ir_key (new_irec H D key d) = key"
  "ir_off (new_irec H D key d) = dat_off D (length D)" "ir_len (new_irec H D key d) = length d + 1"
  by (simp_all add: new_irec_def)

lemma new_irec_wf:
  assumes "wf_heads H" "key_ok key" "data_ok d" "int (length (dat_layout D)) \<le> LONG_MAX"
  shows "wf_irec (new_irec H D key d)"
  using assms heads_le [OF assms(1), of "Suc (key_hash key)"] key_hash_less [of key]
  by (intro wf_irec_key_ok) (simp_all add: data_ok_def dat_off_length)

lemma add_inv:
  assumes inv: "store_inv H R D cs X" and key: "key_ok key" "\<forall>i \<in> set (cs (Suc (key_hash key))). ir_key (R ! i) \<noteq> key"
    and d: "data_ok d" and room: "int (length (idx_layout H R)) \<le> PTR_MAX" "int (length (dat_layout D)) \<le> LONG_MAX"
  defines "k \<equiv> Suc (key_hash key)" and "r \<equiv> new_irec H D key d"
  shows "store_inv (H[k := rec_off R (length R)]) (R @ [r]) (D @ [d]) (cs(k := length R # cs k)) (X - {length R})"
    and "dbmap (R @ [r]) (D @ [d]) (cs(k := length R # cs k)) = (dbmap R D cs)(key \<mapsto> d)"
proof -
  note wf = store_invD [OF inv] and l = wf_linksD [OF store_invD(4) [OF inv]]
  have k: "k < 138" using key_hash_less [of key] by (simp add: k_def)
  have lt: "i < length R" if "m < 138" "i \<in> set (cs m)" for m i using chain_bound [OF l(1)] that by blast
  have a: "store_inv H (R @ [r]) (D @ [d]) cs (insert (length R) X)"
    by (rule append_inv [OF inv])
      (use new_irec_wf [OF wf(1) key(1) d room(2)] d in \<open>simp_all add: r_def data_ok_def\<close>)
  have roff: "rec_off (R @ [r]) (length R) = rec_off R (length R)" by (simp add: rec_off_append)
  have off: "int (rec_off R (length R)) \<le> PTR_MAX" using room(1) rec_off_length [OF wf(1), of R] by simp
  have r1: "(R @ [r]) ! length R = r" "(D @ [d]) ! length R = d" using wf(7) by (simp_all add: nth_append)
  have fresh: "\<forall>i \<in> set (cs k). ir_key ((R @ [r]) ! i) \<noteq> key" using key(2) lt [OF k] by (auto simp: nth_append k_def)
  note link = link_inv [OF a, of "length R" "key_hash key"]
  show "store_inv (H[k := rec_off R (length R)]) (R @ [r]) (D @ [d]) (cs(k := length R # cs k)) (X - {length R})"
    using link(1) [folded k_def] roff off r1 fresh by (simp add: r_def k_def)
  have "dbmap (R @ [r]) (D @ [d]) (cs(k := length R # cs k)) = (dbmap (R @ [r]) (D @ [d]) cs)(key \<mapsto> d)"
    using link(2) [folded k_def] roff off r1 fresh by (simp add: r_def k_def)
  also have "dbmap (R @ [r]) (D @ [d]) cs = dbmap R D cs"
    by (rule dbmap_cong) (use lt wf(7) in \<open>simp add: nth_append\<close>)
  finally show "dbmap (R @ [r]) (D @ [d]) (cs(k := length R # cs k)) = (dbmap R D cs)(key \<mapsto> d)" .
qed

end
