(* ===== verification/DbCorrect.thy ===== *)
theory DbCorrect
  imports DbChange
begin

text \<open>
  The operations of the database library against the map of theory \<open>DbInv\<close>: searching a
  chain, deleting, finding an empty record, adding a record, and then the calls of
  \<^verbatim>\<open>apue_db.h\<close>. Every lemma is total: it says that the C function returns.
\<close>

section \<open>States\<close>

definition db_inv :: "dbst \<Rightarrow> nat list \<Rightarrow> irec list \<Rightarrow> string list \<Rightarrow> (nat \<Rightarrow> nat list) \<Rightarrow> nat set \<Rightarrow> bool" where
  "db_inv s H R D cs X \<longleftrightarrow>
     cbytes (idxf s) = idx_layout H R \<and> cbytes (datf s) = dat_layout D \<and>
     cothers (idxf s) = [] \<and> cothers (datf s) = [] \<and> nhash s = 137 \<and> hashoff s = 7 \<and>
     store_inv H R D cs X"

text \<open>No byte of the index file outside \<open>B\<close>, and no byte of the data file, is locked.\<close>

definition unl :: "nat set \<Rightarrow> dbst \<Rightarrow> bool" where
  "unl B s \<longleftrightarrow> (\<forall>b. b \<notin> B \<longrightarrow> clocks (idxf s) b = F_UNLCK) \<and> (\<forall>b. clocks (datf s) b = F_UNLCK)"

text \<open>Scanning moves the index file's offset and loads records into the handle; the rest stays.\<close>

definition kept :: "dbst \<Rightarrow> dbst \<Rightarrow> bool" where
  "kept s s' \<longleftrightarrow> cbytes (idxf s') = cbytes (idxf s) \<and> clocks (idxf s') = clocks (idxf s) \<and>
     cothers (idxf s') = cothers (idxf s) \<and> datf s' = datf s \<and> nhash s' = nhash s \<and>
     hashoff s' = hashoff s \<and> chainoff s' = chainoff s \<and> c_errno s' = c_errno s"

lemma kept_refl [simp]: "kept s s"
  by (simp add: kept_def)

lemma kept_trans: "kept s t \<Longrightarrow> kept t u \<Longrightarrow> kept s u"
  by (simp add: kept_def)

lemma kept_db_inv: "kept s s' \<Longrightarrow> db_inv s H R D cs X \<Longrightarrow> db_inv s' H R D cs X"
  by (simp add: kept_def db_inv_def)

lemma kept_unl: "kept s s' \<Longrightarrow> unl B s \<Longrightarrow> unl B s'"
  by (simp add: kept_def unl_def)

definition at_rec :: "dbst \<Rightarrow> irec list \<Rightarrow> nat \<Rightarrow> bool" where
  "at_rec s R j \<longleftrightarrow> idxoff s = int (rec_off R j) \<and> ptrval s = int (ir_ptr (R ! j)) \<and>
     datoff s = int (ir_off (R ! j)) \<and> datlen s = ir_len (R ! j) \<and> cstr_at (idxbuf s) 0 = ir_key (R ! j)"

lemma db_invD:
  assumes "db_inv s H R D cs X"
  shows "cbytes (idxf s) = idx_layout H R" "cbytes (datf s) = dat_layout D"
    "cothers (idxf s) = []" "cothers (datf s) = []" "nhash s = 137" "hashoff s = 7"
    "store_inv H R D cs X" "wf_heads H" "\<forall>r \<in> set R. wf_irec r" "wf_data R D" "length H = 138"
    "length D = length R"
  using assms store_invD [of H R D cs X] by (simp_all add: db_inv_def)

section \<open>Following a chain\<close>

lemma loaded_at_rec:
  assumes "wf_irec (R ! j)"
  shows "kept s (loaded s (R ! j) (rec_off R j))" "at_rec (loaded s (R ! j) (rec_off R j)) R j"
  using assms by (simp_all add: kept_def at_rec_def)

text \<open>
  The outcome of a search of the chain \<open>js\<close> for a record with property \<open>P\<close>: offset 0 and no such
  record, or the offset of record \<open>j\<close>, which is loaded (\<open>A j\<close>), and in \<open>sv\<close> the offset of the
  record before it (\<open>sv0\<close> when it is the first).
\<close>

definition search_res :: "irec list \<Rightarrow> nat list \<Rightarrow> (nat \<Rightarrow> bool) \<Rightarrow> (nat \<Rightarrow> bool) \<Rightarrow> int \<Rightarrow> int \<Rightarrow> int \<Rightarrow> bool" where
  "search_res R js P A sv0 off sv \<longleftrightarrow>
     (\<forall>j \<in> set js. \<not> P j) \<and> off = 0 \<or>
     (\<exists>pre j post. js = pre @ j # post \<and> P j \<and> A j \<and> off = int (rec_off R j) \<and>
       sv = (if pre = [] then sv0 else int (rec_off R (last pre))))"

lemma search_res_here:
  "P i \<Longrightarrow> A i \<Longrightarrow> search_res R (i # js) P A sv (int (rec_off R i)) sv"
  unfolding search_res_def by (intro disjI2 exI [of _ "[]"] exI [of _ i] exI [of _ js]) simp

lemma search_res_next:
  assumes "\<not> P i" "search_res R js P A (int (rec_off R i)) off sv"
  shows "search_res R (i # js) P A sv0 off sv"
  using assms(2) unfolding search_res_def
proof (elim disjE exE conjE)
  fix pre j post
  assume "js = pre @ j # post" "P j" "A j" "off = int (rec_off R j)"
    "sv = (if pre = [] then int (rec_off R i) else int (rec_off R (last pre)))"
  then show "(\<forall>j \<in> set (i # js). \<not> P j) \<and> off = 0 \<or>
     (\<exists>pre j post. i # js = pre @ j # post \<and> P j \<and> A j \<and> off = int (rec_off R j) \<and>
       sv = (if pre = [] then sv0 else int (rec_off R (last pre))))"
    by (intro disjI2 exI [of _ "i # pre"] exI [of _ j] exI [of _ post]) simp
qed (use assms(1) in simp)

lemma db_find_loop_chain:
  assumes "cbytes (idxf s) = idx_layout H R" "wf_heads H" "\<forall>r \<in> set R. wf_irec r"
    and "chain R p js" "length js < fuel"
  shows "returns (db_find_loop fuel s key (int p)) (\<lambda>(off, s'). kept s s' \<and>
    search_res R js (\<lambda>j. ir_key (R ! j) = key) (at_rec s' R) (ptroff s) off (ptroff s'))"
  using assms
proof (induction js arbitrary: p s fuel)
  case Nil
  then show ?case by (cases fuel) (auto simp: search_res_def)
next
  case (Cons i js)
  from Cons.prems(5) obtain n where n: "fuel = Suc n" "length js < n" by (cases fuel) auto
  have i: "i < length R" "p = rec_off R i" "chain R (ir_ptr (R ! i)) js" using Cons.prems(4) by simp_all
  have wf: "wf_irec (R ! i)" using Cons.prems(3) i(1) by simp
  let ?t = "loaded s (R ! i) (rec_off R i)"
  have rd: "db_readidx s (int p) = Inr (int (ir_ptr (R ! i)), ?t)"
    using Cons.prems(1-3) i by (intro db_readidx_layout) auto
  note t = loaded_at_rec [where s = s, OF wf]
  show ?case
  proof (cases "ir_key (R ! i) = key")
    case True
    then have "db_find_loop fuel s key (int p) = Inr (int p, ?t)"
      using n rd i wf by simp
    moreover have "search_res R (i # js) (\<lambda>j. ir_key (R ! j) = key) (at_rec ?t R) (ptroff s) (int (rec_off R i)) (ptroff ?t)"
      using search_res_here [of "\<lambda>j. ir_key (R ! j) = key" i "at_rec ?t R" R js "ptroff s"] True t(2) by simp
    ultimately show ?thesis using t(1) i by simp
  next
    case False
    let ?u = "?t\<lparr>ptroff := int p\<rparr>"
    have eq: "db_find_loop fuel s key (int p) = db_find_loop n ?u key (int (ir_ptr (R ! i)))"
      using n rd i wf False by simp
    have ku: "kept s ?u" using t(1) by (simp add: kept_def)
    have "returns (db_find_loop n ?u key (int (ir_ptr (R ! i)))) (\<lambda>(off, s'). kept ?u s' \<and>
        search_res R js (\<lambda>j. ir_key (R ! j) = key) (at_rec s' R) (ptroff ?u) off (ptroff s'))"
      using Cons.prems i n ku by (intro Cons.IH) (simp_all add: kept_def)
    then show ?thesis
      unfolding eq
      by (rule returns_mono) (use kept_trans [OF ku] search_res_next False i in \<open>auto simp del: at_rec_def\<close>)
  qed
qed

lemma db_findfree_loop_chain:
  assumes "cbytes (idxf s) = idx_layout H R" "wf_heads H" "\<forall>r \<in> set R. wf_irec r"
    and "chain R p js" "length js < fuel"
  shows "returns (db_findfree_loop fuel s keylen dlen sv0 (int p)) (\<lambda>(sv, off, s'). kept s s' \<and>
    search_res R js (\<lambda>j. length (ir_key (R ! j)) = keylen \<and> ir_len (R ! j) = dlen) (at_rec s' R) sv0 off sv)"
  using assms
proof (induction js arbitrary: p s fuel sv0)
  case Nil
  then show ?case by (cases fuel) (auto simp: search_res_def)
next
  case (Cons i js)
  let ?P = "\<lambda>j. length (ir_key (R ! j)) = keylen \<and> ir_len (R ! j) = dlen"
  from Cons.prems(5) obtain n where n: "fuel = Suc n" "length js < n" by (cases fuel) auto
  have i: "i < length R" "p = rec_off R i" "chain R (ir_ptr (R ! i)) js" using Cons.prems(4) by simp_all
  have wf: "wf_irec (R ! i)" using Cons.prems(3) i(1) by simp
  let ?t = "loaded s (R ! i) (rec_off R i)"
  have rd: "db_readidx s (int p) = Inr (int (ir_ptr (R ! i)), ?t)"
    using Cons.prems(1-3) i by (intro db_readidx_layout) auto
  note t = loaded_at_rec [where s = s, OF wf]
  show ?case
  proof (cases "?P i")
    case True
    then have "db_findfree_loop fuel s keylen dlen sv0 (int p) = Inr (sv0, int p, ?t)"
      using n rd i wf by simp
    moreover have "search_res R (i # js) ?P (at_rec ?t R) sv0 (int (rec_off R i)) sv0"
      using search_res_here [of ?P i "at_rec ?t R" R js sv0] True t(2) by simp
    ultimately show ?thesis using t(1) i by simp
  next
    case False
    then have eq: "db_findfree_loop fuel s keylen dlen sv0 (int p) =
        db_findfree_loop n ?t keylen dlen (int p) (int (ir_ptr (R ! i)))"
      using n rd i wf by auto
    have "returns (db_findfree_loop n ?t keylen dlen (int p) (int (ir_ptr (R ! i)))) (\<lambda>(sv, off, s'). kept ?t s' \<and>
        search_res R js ?P (at_rec s' R) (int p) off sv)"
      using Cons.prems i n by (intro Cons.IH) simp_all
    then show ?thesis
      unfolding eq
      by (rule returns_mono) (use kept_trans [OF t(1)] search_res_next [of ?P, OF False] i in auto)
  qed
qed

section \<open>Finding a record\<close>

lemma db_chainoff_hash:
  assumes "nhash s = 137" "hashoff s = 7"
  shows "db_chainoff s key = int (7 * Suc (key_hash key))"
proof -
  have h: "key_hash key < 137" by (rule key_hash_less)
  have "db_hash s key = word_of_nat (key_hash key)" using assms by (simp add: db_hash_def key_hash_def)
  then have "db_chainoff s key = sint (word_of_nat (7 * Suc (key_hash key)) :: 64 word)"
    using assms(2) by (simp add: db_chainoff_def PTR_SZ_def algebra_simps)
  also have "\<dots> = int (7 * Suc (key_hash key))"
    unfolding signed_of_nat using h by (simp add: signed_take_bit_int_eq_self)
  finally show ?thesis .
qed

lemma chain_short:
  assumes "store_inv H R D cs X" "k < 138"
  shows "length (cs k) < Suc (length (idx_layout H R))"
proof -
  have "length xs \<le> length (concat (map irec_bytes xs))" for xs
  proof (induction xs)
    case (Cons x xs)
    have "0 < length (irec_bytes x)" by simp
    with Cons show ?case by (simp only: list.map concat.simps length_append list.size)
  qed simp
  then have "length R \<le> length (idx_layout H R)" by (simp add: idx_layout_def trans_le_add2 le_SucI)
  moreover have "length (cs k) \<le> length R"
  proof -
    note l = wf_linksD [OF store_invD(4) [OF assms(1)]]
    have "set (cs k) \<subseteq> {..<length R}" using chain_bound [OF l(1) [OF assms(2)]] by auto
    then have "card (set (cs k)) \<le> length R" using card_mono [of "{..<length R}"] by auto
    then show ?thesis using distinct_card [OF l(2) [OF assms(2)]] by simp
  qed
  ultimately show ?thesis by simp
qed

lemma db_find_and_lock_spec:
  fixes key :: string
  assumes inv: "db_inv s H R D cs X" and unl: "unl {} s"
  defines "c \<equiv> 7 * Suc (key_hash key)" and "k \<equiv> Suc (key_hash key)"
  shows "returns (db_find_and_lock s key wl) (\<lambda>(rc, s'). db_inv s' H R D cs X \<and> unl {c} s' \<and> chainoff s' = int c \<and> c_errno s' = c_errno s \<and>
    ((\<forall>j \<in> set (cs k). ir_key (R ! j) \<noteq> key) \<and> rc = -1 \<or>
     (\<exists>pre j post. cs k = pre @ j # post \<and> ir_key (R ! j) = key \<and> at_rec s' R j \<and> rc = 0 \<and>
       ptroff s' = int (slot_off R (pred_slot k pre)))))"
proof -
  note d = db_invD [OF inv] and l = wf_linksD [OF store_invD(4) [OF db_invD(7) [OF inv]]]
  have k: "k < 138" using key_hash_less [of key] by (simp add: k_def)
  have c: "db_chainoff s key = int c" using d(5,6) by (simp add: db_chainoff_hash c_def)
  define t where "t = s\<lparr>chainoff := int c, ptroff := int c,
    idxf := (clocked (idxf s) c 1 (if wl then F_WRLCK else F_RDLCK))\<lparr>cpos := c + 7\<rparr>\<rparr>"
  have c7: "c = 7 * k" by (simp add: c_def k_def)
  have ck: "slot_off R (Head k) = c" "slot_ok H R (Head k)" using k d(11) by (simp_all add: c_def k_def)
  have rd: "db_readptr (t\<lparr>idxf := clocked (idxf s) c 1 (if wl then F_WRLCK else F_RDLCK)\<rparr>) (int c) = Inr (int (H ! k), t)"
    using db_readptr_slot [of "t\<lparr>idxf := clocked (idxf s) c 1 (if wl then F_WRLCK else F_RDLCK)\<rparr>" H R "Head k" "int c"]
      d ck(2) c7 by (simp add: t_def)
  have t_inv: "db_inv t H R D cs X" using inv by (simp add: t_def db_inv_def)
  have t_unl: "unl {c} t" using unl by (simp add: t_def unl_def in_region_def)
  have fuel: "chain_fuel t = Suc (length (idx_layout H R))" using d(1) by (simp add: chain_fuel_def t_def)
  have eq: "db_find_and_lock s key wl = bnd (db_find_loop (chain_fuel t) t key (int (H ! k)))
      (\<lambda>(offset, s). Inr (if offset = 0 then -1 else 0, s))"
    using rd d(3) by (cases wl) (simp_all add: db_find_and_lock_def c idx_lock_free t_def Let_def)
  show ?thesis
    unfolding eq
  proof (rule returns_bnd [OF db_find_loop_chain [OF db_invD(1) [OF t_inv] d(8,9) l(1) [OF k]]])
    show "length (cs k) < chain_fuel t" unfolding fuel by (rule chain_short [OF d(7) k])
    fix x :: "int \<times> dbst"
    assume "case x of (off, s') \<Rightarrow> kept t s' \<and>
      search_res R (cs k) (\<lambda>j. ir_key (R ! j) = key) (at_rec s' R) (ptroff t) off (ptroff s')"
    then obtain off s' where x: "x = (off, s')" and kp: "kept t s'"
      and sr: "search_res R (cs k) (\<lambda>j. ir_key (R ! j) = key) (at_rec s' R) (int c) off (ptroff s')"
      by (auto simp: t_def)
    have base: "db_inv s' H R D cs X" "unl {c} s'" "chainoff s' = int c" "c_errno s' = c_errno s"
      using kept_db_inv [OF kp t_inv] kept_unl [OF kp t_unl] kp by (simp_all add: kept_def t_def)
    from sr show "returns (case x of (offset, s) \<Rightarrow> Inr (if offset = 0 then -1 else 0, s))
      (\<lambda>(rc, s'). db_inv s' H R D cs X \<and> unl {c} s' \<and> chainoff s' = int c \<and> c_errno s' = c_errno s \<and>
        ((\<forall>j \<in> set (cs k). ir_key (R ! j) \<noteq> key) \<and> rc = -1 \<or>
         (\<exists>pre j post. cs k = pre @ j # post \<and> ir_key (R ! j) = key \<and> at_rec s' R j \<and> rc = 0 \<and>
           ptroff s' = int (slot_off R (pred_slot k pre)))))"
      unfolding search_res_def
    proof (elim disjE exE conjE)
      fix pre j post
      assume *: "cs k = pre @ j # post" "ir_key (R ! j) = key" "at_rec s' R j" "off = int (rec_off R j)"
        "ptroff s' = (if pre = [] then int c else int (rec_off R (last pre)))"
      then have "ptroff s' = int (slot_off R (pred_slot k pre))" using ck by (simp add: pred_slot_def)
      with *(1-3) have "\<exists>pre j post. cs k = pre @ j # post \<and> ir_key (R ! j) = key \<and> at_rec s' R j \<and>
        ptroff s' = int (slot_off R (pred_slot k pre))" by blast
      with *(4) base show ?thesis by (simp add: x)
    qed (use base in \<open>auto simp: x\<close>)
  qed
qed


section \<open>The parts of the calls\<close>

lemma unl_unlocked:
  assumes "unl {b} s" "clocks (datf t) = clocks (datf s)"
    "\<And>x. clocks (idxf t) x = (if in_region b 1 x then F_UNLCK else clocks (idxf s) x)"
  shows "unl {} t"
  using assms by (auto simp: unl_def in_region_def)

text \<open>What the parts of a call under the chain lock at byte \<open>c\<close> leave as they found it.\<close>

definition during :: "nat \<Rightarrow> dbst \<Rightarrow> dbst \<Rightarrow> bool" where
  "during c s s' \<longleftrightarrow> unl {c} s' \<and> chainoff s' = chainoff s \<and> c_errno s' = c_errno s"

text \<open>How much the two files have grown, at most.\<close>

definition grows :: "nat \<Rightarrow> nat \<Rightarrow> dbst \<Rightarrow> dbst \<Rightarrow> bool" where
  "grows a b s s' \<longleftrightarrow> length (cbytes (idxf s')) \<le> length (cbytes (idxf s)) + a \<and>
     length (cbytes (datf s')) \<le> length (cbytes (datf s)) + b"

lemma takeWhile_overwrite:
  "P x \<Longrightarrow> takeWhile P (replicate (length (takeWhile P xs)) x @ drop (length (takeWhile P xs)) xs) =
    replicate (length (takeWhile P xs)) x"
  by (induction xs) auto

lemma cstr_at_blanked:
  "cstr_at buf 0 = key \<Longrightarrow> cstr_at (buf_put buf (replicate (length key) SPACE)) 0 = replicate (length key) SPACE"
  using takeWhile_overwrite [of "\<lambda>c. c \<noteq> NUL" SPACE buf] by (auto simp: cstr_at_def buf_put_def)

lemma db_dodelete_spec:
  assumes inv: "db_inv s H R D cs X" and unl: "unl {c} s" and c: "0 < c"
    and k: "h < 137" "cs (Suc h) = pre @ j # post"
    and at: "at_rec s R j" "ptroff s = int (slot_off R (pred_slot (Suc h) pre))"
  shows "returns (db_dodelete s) (\<lambda>s'. \<exists>H' R' D' cs'. db_inv s' H' R' D' cs' X \<and> during c s s' \<and>
    dbmap R' D' cs' = (dbmap R D cs)(ir_key (R ! j) := None) \<and>
    set (cs' (Suc h)) = set pre \<union> set post \<and> (\<forall>i < length R. i \<noteq> j \<longrightarrow> ir_key (R' ! i) = ir_key (R ! i)) \<and>
    grows 0 0 s s')"
proof -
  note d = db_invD [OF inv] and l = wf_linksD [OF store_invD(4) [OF db_invD(7) [OF inv]]]
  let ?sl = "pred_slot (Suc h) pre" and ?d = "replicate (length (D ! j)) SPACE" and ?r = "blank (R ! j) (H ! 0)"
  have kk: "Suc h < 138" using k(1) by simp
  have ch: "chain R (H ! Suc h) (pre @ j # post)" and dst: "distinct (pre @ j # post)"
    using l(1,2) [OF kk] k(2) by simp_all
  have j: "j < length R" using chain_bound [OF ch] by simp
  have wfj: "wf_irec (R ! j)" "int (ir_ptr (R ! j)) \<le> PTR_MAX" using d(9) j by (auto simp: wf_irec_def)
  have h0: "int (H ! 0) \<le> PTR_MAX" by (rule heads_le [OF d(8)]) simp
  have off: "int (rec_off R j) \<le> PTR_MAX" by (rule chain_off_le [OF ch d(9) heads_le [OF d(8) kk]])
  have dj: "ir_off (R ! j) = dat_off D j" "ir_len (R ! j) = length (D ! j) + 1" "NUL \<notin> set (D ! j)" "length D = length R"
    using d(10) j by (auto simp: wf_data_def)
  have a: "idxoff s = int (rec_off R j)" "ptrval s = int (ir_ptr (R ! j))" "datoff s = int (dat_off D j)"
    "datlen s = length (D ! j) + 1" "cstr_at (idxbuf s) 0 = ir_key (R ! j)"
    using at(1) dj by (simp_all add: at_rec_def)
  let ?H1 = "H[0 := rec_off R j]" and ?R1 = "R[j := ?r]" and ?D1 = "D[j := ?d]"
  note bw = blank_wf [OF wfj(1) h0]
  have wf1: "\<forall>r \<in> set ?R1. wf_irec r" "wf_heads ?H1"
    using d(8,9) bw off by (auto simp: wf_heads_def dest!: set_update_subset_insert [THEN subsetD])
  have sl: "slot_ok H R ?sl" "slot_off ?R1 ?sl = slot_off R ?sl"
  proof -
    show "slot_ok H R ?sl" using pred_slot_ok(1) [OF ch] kk d(11) by simp
    then show "slot_off ?R1 ?sl = slot_off R ?sl"
      using rec_off_update [OF bw(2) j] by (cases ?sl) simp_all
  qed
  then have sl1: "slot_ok ?H1 ?R1 ?sl" by (cases ?sl) simp_all
  define sd where "sd = s\<lparr>datbuf := buf_put (datbuf s) (replicate (datlen s - 1) SPACE @ [NUL])\<rparr>"
  define s0 where "s0 = sd\<lparr>idxbuf := buf_put (idxbuf sd) (replicate (length (cstr_at (idxbuf sd) 0)) SPACE)\<rparr>"
  note s0_defs = s0_def sd_def
  define s1 where "s1 = s0\<lparr>idxf := clocked (idxf s) 0 1 F_WRLCK\<rparr>"
  define s2 where "s2 = s1\<lparr>datf := (datf s)\<lparr>cbytes := dat_layout ?D1, cpos := dat_off D j + length (D ! j) + 1\<rparr>\<rparr>"
  define s3 where "s3 = s2\<lparr>idxf := (idxf s1)\<lparr>cpos := 7\<rparr>\<rparr>"
  define s4 where "s4 = written s3 ?r (rec_off R j) ((idxf s3)\<lparr>cbytes := idx_layout H ?R1,
      cpos := rec_off R j + length (irec_bytes ?r)\<rparr>)"
  define s5 where "s5 = s4\<lparr>idxf := (idxf s4)\<lparr>cbytes := idx_layout ?H1 ?R1, cpos := 7\<rparr>\<rparr>"
  define s6 where "s6 = s5\<lparr>idxf := (idxf s5)\<lparr>cbytes := idx_layout (put_head ?sl (ir_ptr (R ! j)) ?H1)
      (put_rec ?sl (ir_ptr (R ! j)) ?R1), cpos := slot_off R ?sl + 7\<rparr>\<rparr>"
  define s7 where "s7 = s6\<lparr>idxf := clocked (idxf s6) 0 1 F_UNLCK\<rparr>"
  have ib: "cstr_at (idxbuf s0) 0 = ir_key ?r"
    using a(5) by (simp add: s0_defs cstr_at_blanked)
  have db: "cstr_at (datbuf s0) 0 = ?d"
    using cstr_at_append [of 0 "[]" ?d] a(4) by (simp add: s0_defs buf_put_def)
  have e1: "idx_lock s0 (\<lambda>f. writew_lock f FREE_OFF SEEK_SET 1) m = Inr s1" for m
    using d(3) by (simp add: idx_lock_free s1_def FREE_OFF_def s0_defs)
  have e2: "db_writedat s1 (cstr_at (datbuf s1) 0) (datoff s1) SEEK_SET = Inr s2"
    using db_writedat_set [of s1 D j "datoff s1" ?d] d(2) db a j dj by (simp add: s1_def s2_def s0_defs)
  have e3: "db_readptr s2 FREE_OFF = Inr (int (H ! 0), s3)"
    using db_readptr_slot [of s2 H R "Head 0" 0] d by (simp add: s3_def s2_def s1_def s0_defs FREE_OFF_def)
  have e4: "db_writeidx s3 (cstr_at (idxbuf s3) 0) (idxoff s3) SEEK_SET (int (H ! 0)) = Inr s4"
    using db_writeidx_set [OF bw(1) _ d(8) j bw(2), of s3 "cstr_at (idxbuf s3) 0" "idxoff s3" "int (H ! 0)"] ib d(1) a dj
    by (simp add: s4_def s3_def s2_def s1_def s0_defs)
  have e5: "db_writeptr s4 FREE_OFF (idxoff s4) = Inr s5"
    using db_writeptr_slot [of s4 H ?R1 "Head 0" FREE_OFF "idxoff s4" "rec_off R j"] d wf1 off
    by (simp add: s5_def s4_def FREE_OFF_def)
  have e6: "db_writeptr s5 (ptroff s5) (ptrval s3) = Inr s6"
    using db_writeptr_slot [of s5 ?H1 ?R1 ?sl "ptroff s5" "ptrval s3" "ir_ptr (R ! j)"] wf1 sl sl1 at(2) a wfj
    by (simp add: s6_def s5_def s4_def s3_def s2_def s1_def s0_defs)
  have e7: "idx_lock s6 (\<lambda>f. un_lock f FREE_OFF SEEK_SET 1) m = Inr s7" for m
    using d(3) by (simp add: idx_lock_free s7_def FREE_OFF_def s6_def s5_def s4_def s3_def s2_def s1_def s0_defs)
  have eq: "db_dodelete s = Inr s7"
    unfolding db_dodelete_def Let_def sd_def [symmetric] s0_def [symmetric]
    by (simp add: e1 e2 e3 e4 e5 e6 e7 del: One_nat_def)
  have lay: "db_inv s7 (put_head ?sl (ir_ptr (R ! j)) ?H1) (put_rec ?sl (ir_ptr (R ! j)) ?R1) ?D1
      (cs(Suc h := pre @ post, 0 := j # cs 0)) X"
    using delete_inv(1) [OF d(7) k] d
    by (simp add: db_inv_def s7_def s6_def s5_def s4_def s3_def s2_def s1_def s0_defs)
  have dur: "during c s s7"
    using unl c by (simp add: during_def unl_def s7_def s6_def s5_def s4_def s3_def s2_def s1_def s0_defs written_def in_region_def)
  have lens: "length (cbytes (idxf s7)) = length (cbytes (idxf s))" "length (cbytes (datf s7)) = length (cbytes (datf s))"
  proof -
    have "rec_off (put_rec ?sl (ir_ptr (R ! j)) ?R1) (length R) = rec_off R (length R)"
      using put_rec_wf(2) [OF wf1(1) wfj(2) sl1, of "length R"] rec_off_update [OF bw(2) j, of "length R"] by simp
    then show "length (cbytes (idxf s7)) = length (cbytes (idxf s))"
      using rec_off_length [OF d(8), of R] db_invD(1) [OF lay] rec_off_length [OF db_invD(8) [OF lay], of "put_rec ?sl (ir_ptr (R ! j)) ?R1"] d(1)
      by simp
    have "dat_off ?D1 (length D) = dat_off D (length D)" by (rule dat_off_update) (use j dj in simp_all)
    then show "length (cbytes (datf s7)) = length (cbytes (datf s))"
      using dat_off_length [of ?D1] dat_off_length [of D] db_invD(2) [OF lay] d(2) by simp
  qed
  show ?thesis
    unfolding eq returns_Inr
    using lay dur lens delete_inv(2) [OF d(7) k] j
    by (intro exI conjI) (assumption | simp add: put_rec_nth grows_def)+
qed


lemma db_findfree_spec:
  assumes inv: "db_inv s H R D cs {}" and unl: "unl {c} s" and c: "0 < c"
  shows "returns (db_findfree s keylen dlen) (\<lambda>(rc, s'). during c s s' \<and>
    grows 0 0 s s' \<and>
    (rc = -1 \<and> db_inv s' H R D cs {} \<or>
     rc = 0 \<and> (\<exists>H' R' cs' j. db_inv s' H' R' D cs' {j} \<and> j < length R' \<and> length R' = length R \<and>
       dbmap R' D cs' = dbmap R D cs \<and> (\<forall>k. k \<noteq> 0 \<longrightarrow> H' ! k = H ! k \<and> cs' k = cs k) \<and>
       (\<forall>i < length R. ir_key (R' ! i) = ir_key (R ! i)) \<and> int (rec_off R' j) \<le> PTR_MAX \<and>
       idxoff s' = int (rec_off R' j) \<and> datoff s' = int (ir_off (R' ! j)) \<and>
       length (ir_key (R' ! j)) = keylen \<and> ir_len (R' ! j) = dlen)))"
proof -
  note d = db_invD [OF inv] and l = wf_linksD [OF store_invD(4) [OF db_invD(7) [OF inv]]]
  let ?P = "\<lambda>j. length (ir_key (R ! j)) = keylen \<and> ir_len (R ! j) = dlen"
  define s1 where "s1 = s\<lparr>idxf := clocked (idxf s) 0 1 F_WRLCK\<rparr>"
  define s2 where "s2 = s1\<lparr>idxf := (idxf s1)\<lparr>cpos := 7\<rparr>\<rparr>"
  have e1: "idx_lock s (\<lambda>f. writew_lock f FREE_OFF SEEK_SET 1) m = Inr s1" for m
    using d(3) by (simp add: idx_lock_free s1_def FREE_OFF_def)
  have e2: "db_readptr s1 FREE_OFF = Inr (int (H ! 0), s2)"
    using db_readptr_slot [of s1 H R "Head 0" 0] d by (simp add: s2_def s1_def FREE_OFF_def)
  have s2_inv: "db_inv s2 H R D cs {}" using inv by (simp add: db_inv_def s2_def s1_def)
  have s2_dur: "unl {c, 0} s2" "chainoff s2 = chainoff s" "c_errno s2 = c_errno s"
    using unl c by (simp_all add: unl_def s2_def s1_def in_region_def)
  have fuel: "length (cs 0) < chain_fuel s2"
    using chain_short [OF d(7), of 0] d(1) by (simp add: chain_fuel_def s2_def s1_def)
  have loop: "returns (db_findfree_loop (chain_fuel s2) s2 keylen dlen 0 (int (H ! 0))) (\<lambda>(sv, off, s'). kept s2 s' \<and>
    search_res R (cs 0) ?P (at_rec s' R) 0 off sv)"
    by (rule db_findfree_loop_chain [OF db_invD(1) [OF s2_inv] d(8,9) l(1) fuel]) simp
  then obtain sv off s3 where e3: "db_findfree_loop (chain_fuel s2) s2 keylen dlen FREE_OFF (int (H ! 0)) = Inr (sv, off, s3)"
    and kp: "kept s2 s3" and sr: "search_res R (cs 0) ?P (at_rec s3 R) 0 off sv"
    unfolding FREE_OFF_def returns_def by blast
  have s3_inv: "db_inv s3 H R D cs {}" and s3_unl: "unl {c, 0} s3"
    using kept_db_inv [OF kp s2_inv] kept_unl [OF kp s2_dur(1)] by simp_all
  have errno: "c_errno s3 = c_errno s" using kp s2_dur(3) by (simp add: kept_def)
  have eq: "db_findfree s keylen dlen =
      bnd (if off = 0 then Inr (-1, s3) else bnd (db_writeptr s3 sv (ptrval s3)) (\<lambda>s. Inr (0, s))) (\<lambda>(rc, s).
      bnd (idx_lock s (\<lambda>f. un_lock f FREE_OFF SEEK_SET 1) ''_db_findfree: un_lock error'') (\<lambda>s. Inr (rc, s)))"
    by (simp add: db_findfree_def e1 e2 e3 del: One_nat_def)
  from sr show ?thesis
    unfolding search_res_def
  proof (elim disjE exE conjE)
    assume "off = 0"
    then show ?thesis
      unfolding eq using db_invD(3) [OF s3_inv] s3_inv s3_unl c kp errno s2_dur
      by (simp add: idx_lock_free FREE_OFF_def db_inv_def during_def unl_def in_region_def kept_def s2_def s1_def grows_def)
  next
    fix pre j post
    assume f: "cs 0 = pre @ j # post" "length (ir_key (R ! j)) = keylen" "ir_len (R ! j) = dlen" "at_rec s3 R j"
      "off = int (rec_off R j)" "sv = (if pre = [] then 0 else int (rec_off R (last pre)))"
    note tf = take_free_inv [OF d(7) f(1)]
    let ?sl = "pred_slot 0 pre" and ?p = "ir_ptr (R ! j)"
    have wfj: "int ?p \<le> PTR_MAX" using d(9) tf(5) by (auto simp: wf_irec_def)
    have ch: "chain R (H ! 0) (pre @ j # post)" using l(1) [of 0] f(1) by simp
    have ok: "slot_ok H R ?sl" "sv = int (slot_off R ?sl)"
      using pred_slot_ok [OF ch, of 0 H] d(11) f(6) by simp_all
    define s4 where "s4 = s3\<lparr>idxf := (idxf s3)\<lparr>cbytes := idx_layout (put_head ?sl ?p H) (put_rec ?sl ?p R),
        cpos := slot_off R ?sl + 7\<rparr>\<rparr>"
    have e4: "db_writeptr s3 sv (ptrval s3) = Inr s4"
      using db_writeptr_slot [of s3 H R ?sl sv "ptrval s3" ?p] db_invD [OF s3_inv] ok wfj f(4)
      by (simp add: s4_def at_rec_def)
    have roff: "rec_off (put_rec ?sl ?p R) i = rec_off R i" if "i \<le> length R" for i
      using put_rec_wf(2) [OF d(9) wfj ok(1)] that by simp
    have s4_inv: "db_inv s4 (put_head ?sl ?p H) (put_rec ?sl ?p R) D (cs(0 := pre @ post)) {j}"
      using db_invD [OF s3_inv] tf(1) by (simp add: db_inv_def s4_def)
    have len: "length (cbytes (idxf s4)) = length (cbytes (idxf s))"
      using rec_off_length [OF db_invD(8) [OF s4_inv], of "put_rec ?sl ?p R"] rec_off_length [OF d(8), of R] d(1) roff [of "length R"]
      by (simp add: s4_def)
    define s5 where "s5 = s4\<lparr>idxf := clocked (idxf s4) 0 1 F_UNLCK\<rparr>"
    have e5: "idx_lock s4 (\<lambda>f. un_lock f FREE_OFF SEEK_SET 1) m = Inr s5" for m
      using db_invD(3) [OF s4_inv] by (simp add: idx_lock_free FREE_OFF_def s5_def)
    have eq2: "db_findfree s keylen dlen = Inr (0, s5)"
      unfolding eq using f(5) by (simp add: e4 e5 del: One_nat_def)
    have s5_inv: "db_inv s5 (put_head ?sl ?p H) (put_rec ?sl ?p R) D (cs(0 := pre @ post)) {j}"
      using s4_inv by (simp add: db_inv_def s5_def)
    have "during c s s5" "grows 0 0 s s5"
      using s3_unl c kp errno s2_dur len
      by (simp_all add: during_def unl_def in_region_def kept_def s5_def s4_def s2_def s1_def grows_def)
    moreover have "int (rec_off R j) \<le> PTR_MAX" by (rule chain_off_le [OF ch d(9) heads_le [OF d(8)]]) simp
    moreover have "idxoff s5 = int (rec_off R j)" "datoff s5 = int (ir_off (R ! j))"
      using f(4) by (simp_all add: s5_def s4_def at_rec_def)
    ultimately show ?thesis
      unfolding eq2 returns_Inr prod.case using s5_inv tf f(2,3) roff [of j]
      by (intro conjI disjI2 exI [of _ "put_head ?sl ?p H"] exI [of _ "put_rec ?sl ?p R"]
          exI [of _ "cs(0 := pre @ post)"] exI [of _ j]) (simp_all add: put_rec_nth)
  qed
qed

lemma heads_update: "wf_heads H \<Longrightarrow> int p \<le> PTR_MAX \<Longrightarrow> wf_heads (H[k := p])"
  by (auto simp: wf_heads_def dest!: set_update_subset_insert [THEN subsetD])

lemma length_idx_layout_heads:
  "wf_heads H \<Longrightarrow> wf_heads H' \<Longrightarrow> length (idx_layout H' R) = length (idx_layout H R)"
  using rec_off_length [of H R] rec_off_length [of H' R] by simp

lemma db_reuse_spec:
  fixes key :: string
  defines "k \<equiv> Suc (key_hash key)"
  assumes inv: "db_inv s H R D cs {j}" and unl: "unl {7 * k} s" "chainoff s = int (7 * k)"
    and at: "idxoff s = int (rec_off R j)" "datoff s = int (ir_off (R ! j))" "j < length R" "int (rec_off R j) \<le> PTR_MAX"
    and key: "key_ok key" "length key = length (ir_key (R ! j))" "\<forall>i \<in> set (cs k). ir_key (R ! i) \<noteq> key"
    and d: "data_ok d" "length d + 1 = ir_len (R ! j)" and ptr: "ptr = int (H ! k)"
  shows "returns (db_reuse s key d ptr) (\<lambda>s'. during (7 * k) s s' \<and> grows 0 0 s s' \<and>
    (\<exists>H' R' D' cs'. db_inv s' H' R' D' cs' {} \<and> dbmap R' D' cs' = (dbmap R D cs)(key \<mapsto> d)))"
proof -
  note i = db_invD [OF inv]
  have k: "k < 138" using key_hash_less [of key] by (simp add: k_def)
  have wfj: "wf_irec (R ! j)" using i(9) at(3) by simp
  have dj: "ir_off (R ! j) = dat_off D j" "length (D ! j) = length d" "length D = length R"
    using i(10) at(3) d(2) by (auto simp: wf_data_def)
  let ?r = "(R ! j)\<lparr>ir_ptr := H ! k, ir_key := key\<rparr>" and ?D1 = "D[j := d]"
  have rk: "wf_irec ?r" "length (irec_bytes ?r) = length (irec_bytes (R ! j))"
    by (rule wf_irec_rekey [OF wfj key(2) _ _ heads_le [OF i(8) k]]; use key(1) in \<open>simp add: key_ok_def\<close>)+
  have wf1: "\<forall>r \<in> set (R[j := ?r]). wf_irec r"
    using i(9) rk by (auto dest!: set_update_subset_insert [THEN subsetD])
  have roff: "rec_off (R[j := ?r]) j = rec_off R j"
    using rec_off_update [OF rk(2) at(3), of j] at(3) by simp
  define s1 where "s1 = s\<lparr>datlen := length d + 1,
    datf := (datf s)\<lparr>cbytes := dat_layout ?D1, cpos := dat_off D j + length d + 1\<rparr>\<rparr>"
  define s2 where "s2 = written s1 ?r (rec_off R j) ((idxf s1)\<lparr>cbytes := idx_layout H (R[j := ?r]),
      cpos := rec_off R j + length (irec_bytes ?r)\<rparr>)"
  define s3 where "s3 = s2\<lparr>idxf := (idxf s2)\<lparr>cbytes := idx_layout (H[k := rec_off R j]) (R[j := ?r]), cpos := 7 * k + 7\<rparr>\<rparr>"
  have e1: "db_writedat s d (datoff s) SEEK_SET = Inr s1"
    using db_writedat_set [of s D j "datoff s" d] i at dj by (simp add: s1_def)
  have e2: "db_writeidx s1 key (idxoff s1) SEEK_SET ptr = Inr s2"
    using db_writeidx_set [OF rk(1) _ i(8) at(3) rk(2), of s1 key "idxoff s1" ptr] i(1) at dj d(2) ptr
    by (simp add: s2_def s1_def)
  have e3: "db_writeptr s2 (chainoff s2) (idxoff s2) = Inr s3"
    using db_writeptr_slot [of s2 H "R[j := ?r]" "Head k" "chainoff s2" "idxoff s2" "rec_off R j"] i(8,11) wf1 at(4) unl(2) k
    by (simp add: s3_def s2_def s1_def)
  have eq: "db_reuse s key d ptr = Inr s3" by (simp add: db_reuse_def e1 e2 e3)
  note ru = reuse_inv [OF i(7) _ at(3,4) key(1,2) key(3) [unfolded k_def], of d, folded k_def]
  have "db_inv s3 (H[k := rec_off R j]) (R[j := ?r]) ?D1 (cs(k := j # cs k)) {}"
    using ru(1) i d dj by (simp add: db_inv_def s3_def s2_def s1_def data_ok_def written_def)
  moreover have "during (7 * k) s s3"
    using unl by (simp add: during_def unl_def s3_def s2_def s1_def written_def)
  moreover have "dbmap (R[j := ?r]) ?D1 (cs(k := j # cs k)) = (dbmap R D cs)(key \<mapsto> d)"
    using ru(2) d dj by (simp add: data_ok_def)
  moreover have "grows 0 0 s s3"
  proof -
    have "rec_off (R[j := ?r]) (length R) = rec_off R (length R)" "dat_off ?D1 (length D) = dat_off D (length D)"
      using rec_off_update [OF rk(2) at(3)] dat_off_update [of d D j "length D"] at(3) dj by simp_all
    then show ?thesis
      using rec_off_length [OF i(8)] rec_off_length [OF i(8), of "R[j := ?r]"] dat_off_length [of ?D1] dat_off_length [of D] i(1,2)
        length_idx_layout_heads [OF i(8) heads_update [OF i(8) at(4)]]
      by (simp add: grows_def s3_def s2_def s1_def)
  qed
  ultimately show ?thesis unfolding eq returns_Inr by blast
qed

lemma db_append_spec:
  fixes key :: string
  defines "k \<equiv> Suc (key_hash key)"
  assumes inv: "db_inv s H R D cs {}" and unl: "unl {7 * k} s" "chainoff s = int (7 * k)"
    and key: "key_ok key" "\<forall>i \<in> set (cs k). ir_key (R ! i) \<noteq> key"
    and d: "data_ok d" and ptr: "ptr = int (H ! k)"
    and room: "int (length (cbytes (idxf s))) \<le> PTR_MAX" "int (length (cbytes (datf s))) \<le> LONG_MAX"
  shows "returns (db_append s key d ptr) (\<lambda>s'. during (7 * k) s s' \<and> grows 1035 1024 s s' \<and>
    (\<exists>H' R' D' cs'. db_inv s' H' R' D' cs' {} \<and> dbmap R' D' cs' = (dbmap R D cs)(key \<mapsto> d)))"
proof -
  note i = db_invD [OF inv]
  have k: "k < 138" using key_hash_less [of key] by (simp add: k_def)
  let ?r = "new_irec H D key d" and ?p = "rec_off R (length R)"
  have room': "int (length (idx_layout H R)) \<le> PTR_MAX" "int (length (dat_layout D)) \<le> LONG_MAX" using room i(1,2) by simp_all
  have wfr: "wf_irec ?r" by (rule new_irec_wf [OF i(8) key(1) d room'(2)])
  have p: "int ?p \<le> PTR_MAX" using room'(1) rec_off_length [OF i(8), of R] by simp
  define s1 where "s1 = s\<lparr>datoff := int (dat_off D (length D)), datlen := length d + 1,
    datf := clocked ((datf s)\<lparr>cbytes := dat_layout (D @ [d]), cpos := dat_off D (length D) + length d + 1\<rparr>) 0 0 F_UNLCK\<rparr>"
  define s2 where "s2 = written s1 ?r ?p (clocked ((idxf s1)\<lparr>cbytes := idx_layout H (R @ [?r]),
      cpos := ?p + length (irec_bytes ?r)\<rparr>) 967 0 F_UNLCK)"
  define s3 where "s3 = s2\<lparr>idxf := (idxf s2)\<lparr>cbytes := idx_layout (H[k := ?p]) (R @ [?r]), cpos := 7 * k + 7\<rparr>\<rparr>"
  have e1: "db_writedat s d 0 SEEK_END = Inr s1"
    using db_writedat_end [OF i(2,4)] by (simp add: s1_def)
  have e2: "db_writeidx s1 key 0 SEEK_END ptr = Inr s2"
    using db_writeidx_end [OF wfr _ i(8), of s1 R key ptr] i ptr by (simp add: s2_def s1_def k_def)
  have e3: "db_writeptr s2 (chainoff s2) (idxoff s2) = Inr s3"
    using db_writeptr_slot [of s2 H "R @ [?r]" "Head k" "chainoff s2" "idxoff s2" ?p] i(8,9,11) wfr p unl(2) k
    by (simp add: s3_def s2_def s1_def)
  have eq: "db_append s key d ptr = Inr s3" by (simp add: db_append_def e1 e2 e3)
  note ad = add_inv [OF i(7) key(1) key(2) [unfolded k_def] d room', folded k_def]
  have "db_inv s3 (H[k := ?p]) (R @ [?r]) (D @ [d]) (cs(k := length R # cs k)) {}"
    using ad(1) i by (simp add: db_inv_def s3_def s2_def s1_def written_def)
  moreover have "during (7 * k) s s3"
    using unl by (simp add: during_def unl_def s3_def s2_def s1_def written_def)
  moreover have "grows 1035 1024 s s3"
    using i(1,2) length_irec_bytes [OF wfr] wfr d length_idx_layout_heads [OF i(8) heads_update [OF i(8) p]]
    by (simp add: grows_def s3_def s2_def s1_def idx_layout_def dat_layout_def wf_irec_def IDXLEN_MAX_def data_ok_def DATLEN_MAX_def)
  ultimately show ?thesis unfolding eq returns_Inr using ad(2) by blast
qed

end
