(* ===== verification/DbApi.thy ===== *)
theory DbApi
  imports DbCorrect
begin

text \<open>
  The calls of \<^verbatim>\<open>apue_db.h\<close> refine operations on a finite map from keys to data. \<open>db_rep n s m\<close>
  says that the files behind the handle \<open>s\<close> stand for the map \<open>m\<close>, that no other process has
  a lock and this one has none, and that \<open>n\<close> more records fit below \<open>PTR_MAX\<close>.
\<close>

definition db_room :: "nat \<Rightarrow> dbst \<Rightarrow> bool" where
  "db_room n s \<longleftrightarrow> int (length (cbytes (idxf s)) + 1035 * n) \<le> PTR_MAX + 1035 \<and>
     int (length (cbytes (datf s)) + 1024 * n) \<le> LONG_MAX"

definition db_corr :: "dbst \<Rightarrow> (string \<rightharpoonup> string) \<Rightarrow> bool" where
  "db_corr s m \<longleftrightarrow> (\<exists>H R D cs. db_inv s H R D cs {} \<and> m = dbmap R D cs)"

lemma db_corr_cong:
  assumes "db_corr s m" "cbytes (idxf s') = cbytes (idxf s)" "cbytes (datf s') = cbytes (datf s)"
    "cothers (idxf s') = cothers (idxf s)" "cothers (datf s') = cothers (datf s)" "nhash s' = nhash s" "hashoff s' = hashoff s"
  shows "db_corr s' m"
  using assms by (simp add: db_corr_def db_inv_def)

lemma db_corrI: "db_inv s H R D cs {} \<Longrightarrow> m = dbmap R D cs \<Longrightarrow> db_corr s m"
  by (auto simp: db_corr_def)

definition db_rep :: "nat \<Rightarrow> dbst \<Rightarrow> (string \<rightharpoonup> string) \<Rightarrow> bool" where
  "db_rep n s m \<longleftrightarrow> db_corr s m \<and> unl {} s \<and> db_room n s"

text \<open>The same while this process holds the lock on the chain at byte \<open>c\<close>.\<close>

definition db_repc :: "nat \<Rightarrow> nat \<Rightarrow> dbst \<Rightarrow> (string \<rightharpoonup> string) \<Rightarrow> bool" where
  "db_repc c n s m \<longleftrightarrow> db_corr s m \<and> unl {c} s \<and> chainoff s = int c \<and> db_room n s"

lemma grows_room: "grows 0 0 s s' \<Longrightarrow> db_room n s \<Longrightarrow> db_room n s'"
  by (simp add: grows_def db_room_def)

lemma grows_room_Suc: "grows 1035 1024 s s' \<Longrightarrow> db_room (Suc n) s \<Longrightarrow> db_room n s'"
  by (simp add: grows_def db_room_def)

lemma db_room_le: "db_room n s \<Longrightarrow> m \<le> n \<Longrightarrow> db_room m s"
  by (simp add: db_room_def)

lemma chain_unlock_spec:
  assumes "db_repc c n s m" "0 < c"
  shows "returns (chain_unlock s msg) (\<lambda>s'. db_rep n s' m \<and> c_errno s' = c_errno s)"
proof -
  let ?s = "s\<lparr>idxf := clocked (idxf s) c 1 F_UNLCK\<rparr>"
  have c: "chainoff s = int c" "cothers (idxf s) = []" using assms(1) by (auto simp: db_repc_def db_corr_def db_inv_def)
  have eq: "chain_unlock s msg = Inr ?s" using c by (simp add: chain_unlock_def idx_lock_free)
  have "db_rep n ?s m"
    using assms(1) db_corr_cong [of s m ?s]
    by (auto simp: db_rep_def db_repc_def unl_def in_region_def db_room_def)
  then show ?thesis unfolding eq by simp
qed

lemma chain_byte_pos [simp]: "0 < 7 + 7 * (n :: nat)"
  by simp

lemma db_repc_count:
  "db_repc c n (s\<lparr>cnt_delok := x\<rparr>) m = db_repc c n s m" "db_repc c n (s\<lparr>cnt_delerr := x\<rparr>) m = db_repc c n s m"
  "db_repc c n (s\<lparr>cnt_storerr := x\<rparr>) m = db_repc c n s m" "db_repc c n (s\<lparr>cnt_stor1 := x\<rparr>) m = db_repc c n s m"
  "db_repc c n (s\<lparr>cnt_stor2 := x\<rparr>) m = db_repc c n s m" "db_repc c n (s\<lparr>cnt_stor3 := x\<rparr>) m = db_repc c n s m"
  "db_repc c n (s\<lparr>cnt_stor4 := x\<rparr>) m = db_repc c n s m" "db_repc c n (s\<lparr>c_errno := e\<rparr>) m = db_repc c n s m"
  by (simp_all add: db_repc_def db_corr_def db_inv_def unl_def db_room_def)

lemma db_repcI:
  "db_inv s H R D cs {} \<Longrightarrow> during c s0 s \<Longrightarrow> chainoff s0 = int c \<Longrightarrow> db_room n s \<Longrightarrow> db_repc c n s (dbmap R D cs)"
  by (auto simp: db_repc_def during_def intro: db_corrI)

lemma returns_repc:
  assumes "returns r (\<lambda>s'. during c s s' \<and> grows a b s s' \<and> (\<exists>H R D cs. db_inv s' H R D cs {} \<and> dbmap R D cs = m))"
    "chainoff s = int c" "\<And>s'. grows a b s s' \<Longrightarrow> db_room n s'"
  shows "returns r (\<lambda>s'. db_repc c n s' m \<and> c_errno s' = c_errno s)"
  using assms(1)
proof (rule returns_mono, elim conjE exE)
  fix s' H R D cs assume *: "during c s s'" "grows a b s s'" "db_inv s' H R D cs {}" "dbmap R D cs = m"
  then show "db_repc c n s' m \<and> c_errno s' = c_errno s"
    using db_repcI [OF *(3,1) assms(2,3)] by (simp add: during_def)
qed

text \<open>The end of a call: the chain is unlocked, whatever the result.\<close>

lemma unlock_after:
  assumes "returns r (\<lambda>(x, s'). Q x \<and> db_repc c n s' m \<and> c_errno s' = e)" "0 < c"
  shows "returns (bnd r (\<lambda>(x, s). bnd (chain_unlock s msg) (\<lambda>s. Inr (x, s)))) (\<lambda>(x, s'). Q x \<and> db_rep n s' m \<and> c_errno s' = e)"
  using assms(1)
proof (rule returns_bnd, clarify)
  fix x s assume *: "Q x" "db_repc c n s m" "e = c_errno s"
  show "returns (bnd (chain_unlock s msg) (\<lambda>s. Inr (x, s))) (\<lambda>(x, s'). Q x \<and> db_rep n s' m \<and> c_errno s' = c_errno s)"
    by (rule returns_bnd [OF chain_unlock_spec [OF *(2) assms(2)]]) (use * in simp)
qed

section \<open>Searching\<close>

lemma dbmap_found:
  assumes inv: "store_inv H R D cs X" and k: "cs (Suc (key_hash key)) = pre @ j # post" "ir_key (R ! j) = key"
  shows "dbmap R D cs key = Some (D ! j)"
    and "i \<in> set pre \<union> set post \<Longrightarrow> ir_key (R ! i) \<noteq> key"
proof -
  have "inj_on (\<lambda>j. ir_key (R ! j)) (set (pre @ j # post))" "distinct (pre @ j # post)"
    using store_invD(5) [OF inv] wf_linksD(2) [OF store_invD(4) [OF inv], of "Suc (key_hash key)"] key_hash_less [of key] k(1)
    unfolding wf_keys_def by (metis, simp)
  then have other: "ir_key (R ! i) \<noteq> key" if "i \<in> set pre \<union> set post" for i
    using inj_onD [of "\<lambda>j. ir_key (R ! j)" "set (pre @ j # post)" i j] that k(2) by auto
  then show "i \<in> set pre \<union> set post \<Longrightarrow> ir_key (R ! i) \<noteq> key" by simp
  have "List.find (\<lambda>j. ir_key (R ! j) = key) (pre @ j # post) = Some j"
    using other k(2) by (induction pre) auto
  then show "dbmap R D cs key = Some (D ! j)" by (simp add: dbmap_def k(1))
qed

lemma dbmap_missing:
  "\<forall>j \<in> set (cs (Suc (key_hash key))). ir_key (R ! j) \<noteq> key \<Longrightarrow> dbmap R D cs key = None"
  by (auto simp: dbmap_def find_None_iff')

text \<open>What a search leaves: the outcome, and the state for the rest of the call.\<close>

definition searched :: "int \<Rightarrow> dbst \<Rightarrow> nat list \<Rightarrow> irec list \<Rightarrow> string list \<Rightarrow> (nat \<Rightarrow> nat list) \<Rightarrow> string \<Rightarrow> bool" where
  "searched rc s H R D cs key \<longleftrightarrow> (let k = Suc (key_hash key) in
     (rc = -1 \<and> dbmap R D cs key = None \<and> (\<forall>j \<in> set (cs k). ir_key (R ! j) \<noteq> key)) \<or>
     (rc = 0 \<and> (\<exists>pre j post. cs k = pre @ j # post \<and> ir_key (R ! j) = key \<and> at_rec s R j \<and>
        dbmap R D cs key = Some (D ! j) \<and> ptroff s = int (slot_off R (pred_slot k pre)) \<and> j < length R)))"

lemma find_and_lock:
  assumes "db_rep n s m"
  obtains rc s' H R D cs where "db_find_and_lock s key wl = Inr (rc, s')" "db_inv s' H R D cs {}" "m = dbmap R D cs"
    "unl {7 * Suc (key_hash key)} s'" "chainoff s' = int (7 * Suc (key_hash key))" "c_errno s' = c_errno s"
    "db_room n s'" "searched rc s' H R D cs key"
proof -
  obtain H R D cs where inv: "db_inv s H R D cs {}" "unl {} s" and m: "m = dbmap R D cs" and room: "db_room n s"
    using assms by (auto simp: db_rep_def db_corr_def)
  obtain rc s' where res: "db_find_and_lock s key wl = Inr (rc, s')"
    and inv': "db_inv s' H R D cs {}" "unl {7 * Suc (key_hash key)} s'" "chainoff s' = int (7 * Suc (key_hash key))"
      "c_errno s' = c_errno s"
    and alt: "(\<forall>j \<in> set (cs (Suc (key_hash key))). ir_key (R ! j) \<noteq> key) \<and> rc = -1 \<or>
     (\<exists>pre j post. cs (Suc (key_hash key)) = pre @ j # post \<and> ir_key (R ! j) = key \<and> at_rec s' R j \<and> rc = 0 \<and>
       ptroff s' = int (slot_off R (pred_slot (Suc (key_hash key)) pre)))"
    using db_find_and_lock_spec [OF inv, of key wl] unfolding returns_def by blast
  have st: "store_inv H R D cs {}" by (rule db_invD(7) [OF inv(1)])
  have "searched rc s' H R D cs key"
    using alt
  proof (elim disjE exE conjE)
    assume "\<forall>j \<in> set (cs (Suc (key_hash key))). ir_key (R ! j) \<noteq> key" "rc = -1"
    then show ?thesis using dbmap_missing by (simp add: searched_def)
  next
    fix pre j post
    assume *: "cs (Suc (key_hash key)) = pre @ j # post" "ir_key (R ! j) = key" "at_rec s' R j" "rc = 0"
      "ptroff s' = int (slot_off R (pred_slot (Suc (key_hash key)) pre))"
    have "j < length R"
      using chain_bound [OF wf_linksD(1) [OF store_invD(4) [OF st], of "Suc (key_hash key)"], of j] key_hash_less [of key] *(1)
      by simp
    then show ?thesis
      using * dbmap_found(1) [OF st *(1,2)] unfolding searched_def Let_def by blast
  qed
  moreover have "db_room n s'" using room inv(1) inv'(1) by (simp add: db_room_def db_inv_def)
  ultimately show ?thesis using that res inv' m by blast
qed

section \<open>db_fetch\<close>

lemma db_fetch_spec:
  assumes "db_rep n s m"
  shows "returns (db_fetch s key) (\<lambda>(v, s'). v = m key \<and> db_rep n s' m \<and> c_errno s' = c_errno s)"
proof -
  let ?c = "7 * Suc (key_hash key)"
  obtain rc s1 H R D cs where e1: "db_find_and_lock s key False = Inr (rc, s1)" and inv: "db_inv s1 H R D cs {}"
    and m: "m = dbmap R D cs" and s1: "unl {?c} s1" "chainoff s1 = int ?c" "db_room n s1" "c_errno s1 = c_errno s"
    and f: "searched rc s1 H R D cs key"
    using find_and_lock [OF assms, of key False] by metis
  note i = db_invD [OF inv] and cor = db_corrI [OF inv m]
  obtain v s2 where e2: "(if rc < 0 then Inr (None, s1\<lparr>cnt_fetcherr := cnt_fetcherr s1 + 1\<rparr>)
          else bnd (db_readdat s1) (\<lambda>(ptr, s). Inr (Some ptr, s\<lparr>cnt_fetchok := cnt_fetchok s + 1\<rparr>))) = Inr (v, s2)"
    and v: "v = m key" and s2: "db_repc ?c n s2 m" "c_errno s2 = c_errno s"
    using f unfolding searched_def Let_def
  proof (elim disjE exE conjE)
    assume "rc = -1" "dbmap R D cs key = None"
    then show ?thesis
      using m inv s1 by (intro that [of None "s1\<lparr>cnt_fetcherr := cnt_fetcherr s1 + 1\<rparr>"])
        (auto simp: db_repc_def unl_def db_room_def intro!: db_corr_cong [OF cor [unfolded m]])
  next
    fix pre j post
    assume *: "rc = 0" "at_rec s1 R j" "dbmap R D cs key = Some (D ! j)" "j < length R"
    have "j < length D" "NUL \<notin> set (D ! j)" "datoff s1 = int (dat_off D j)" "datlen s1 = length (D ! j) + 1"
      using i(10) *(2,4) by (auto simp: wf_data_def at_rec_def)
    note rd = db_readdat_layout [OF i(2) this]
    let ?t = "s1\<lparr>datf := (datf s1)\<lparr>cpos := dat_off D j + length (D ! j) + 1\<rparr>,
      datbuf := D ! j @ NUL # drop (length (D ! j) + 1) (datbuf s1), cnt_fetchok := cnt_fetchok s1 + 1\<rparr>"
    have "db_corr ?t m" by (rule db_corr_cong [OF cor]) simp_all
    then have "db_repc ?c n ?t m" using s1 by (simp add: db_repc_def unl_def db_room_def)
    then show ?thesis using rd * m s1(4) by (intro that [of "Some (D ! j)" ?t]) simp_all
  qed
  show ?thesis
    unfolding db_fetch_def e1 bnd_simps(2) prod.case e2
    using unlock_after [of "Inr (v, s2)" "\<lambda>v. v = m key" ?c n m "c_errno s" "''db_fetch: un_lock error''"] v s2 by simp
qed

section \<open>db_delete\<close>

lemma db_delete_spec:
  assumes "db_rep n s m"
  shows "returns (db_delete s key) (\<lambda>(rc, s'). rc = (if m key = None then -1 else 0) \<and>
    db_rep n s' (m(key := None)) \<and> c_errno s' = c_errno s)"
proof -
  let ?h = "key_hash key" and ?c = "7 * Suc (key_hash key)"
  obtain rc s1 H R D cs where e1: "db_find_and_lock s key True = Inr (rc, s1)" and inv: "db_inv s1 H R D cs {}"
    and m: "m = dbmap R D cs" and s1: "unl {?c} s1" "chainoff s1 = int ?c" "db_room n s1" "c_errno s1 = c_errno s"
    and f: "searched rc s1 H R D cs key"
    using find_and_lock [OF assms, of key True] by metis
  have "returns (if rc = 0 then bnd (db_dodelete s1) (\<lambda>s. Inr (0 :: int, s\<lparr>cnt_delok := cnt_delok s + 1\<rparr>))
          else Inr (-1, s1\<lparr>cnt_delerr := cnt_delerr s1 + 1\<rparr>))
      (\<lambda>(rc, s'). rc = (if m key = None then -1 else 0) \<and> db_repc ?c n s' (m(key := None)) \<and> c_errno s' = c_errno s)"
    using f unfolding searched_def Let_def
  proof (elim disjE exE conjE)
    assume "rc = -1" "dbmap R D cs key = None"
    then show ?thesis
      using s1(4) db_repcI [OF inv _ s1(2,3)] s1(1,2) by (simp add: m db_repc_count fun_upd_idem during_def)
  next
    fix pre j post
    assume *: "rc = 0" "cs (Suc ?h) = pre @ j # post" "at_rec s1 R j" "dbmap R D cs key = Some (D ! j)"
      "ptroff s1 = int (slot_off R (pred_slot (Suc ?h) pre))" "ir_key (R ! j) = key"
    have "returns (db_dodelete s1) (\<lambda>s'. db_repc ?c n s' (m(key := None)) \<and> c_errno s' = c_errno s1)"
      by (rule returns_repc [OF returns_mono [OF db_dodelete_spec [OF inv s1(1) _ key_hash_less *(2,3,5)]], where a = 0 and b = 0])
        (use s1(2,3) grows_room in \<open>auto simp: m *(6)\<close>)
    then have "returns (bnd (db_dodelete s1) (\<lambda>s. Inr (0 :: int, s\<lparr>cnt_delok := cnt_delok s + 1\<rparr>)))
        (\<lambda>(rc, s'). rc = 0 \<and> db_repc ?c n s' (m(key := None)) \<and> c_errno s' = c_errno s)"
      by (rule returns_bnd) (simp add: db_repc_count s1(4))
    then show ?thesis using *(1,4) by (simp add: m)
  qed
  then show ?thesis
    unfolding db_delete_def e1 bnd_simps prod.case by (rule unlock_after) simp
qed

section \<open>db_store\<close>

lemma dbmap_overwrite:
  assumes inv: "store_inv H R D cs X" and k: "cs (Suc (key_hash key)) = pre @ j # post" "ir_key (R ! j) = key"
    and d: "length d = length (D ! j)" "NUL \<notin> set d" and j: "j < length R"
  shows "store_inv H R (D[j := d]) cs X" "dbmap R (D[j := d]) cs = (dbmap R D cs)(key \<mapsto> d)"
proof -
  note wf = store_invD [OF inv] and l = wf_linksD [OF store_invD(4) [OF inv]]
  show inv': "store_inv H R (D[j := d]) cs X" by (rule set_dat_inv [OF inv j d])
  show "dbmap R (D[j := d]) cs = (dbmap R D cs)(key \<mapsto> d)"
  proof
    fix key'
    show "dbmap R (D[j := d]) cs key' = ((dbmap R D cs)(key \<mapsto> d)) key'"
    proof (cases "key' = key")
      case True
      then show ?thesis using dbmap_found(1) [OF inv' k] j wf(7) by simp
    next
      case False
      have "D[j := d] ! i = D ! i" if "List.find (\<lambda>j. ir_key (R ! j) = key') (cs (Suc (key_hash key'))) = Some i" for i
        using that False k(2) by (cases "i = j") (auto simp: find_Some_iff)
      then show ?thesis
        using False by (cases "List.find (\<lambda>j. ir_key (R ! j) = key') (cs (Suc (key_hash key')))") (auto simp: dbmap_def)
    qed
  qed
qed

text \<open>What \<^verbatim>\<open>db_store\<close> returns and does, as a function of the map.\<close>

definition store_rc :: "int \<Rightarrow> string option \<Rightarrow> int" where
  "store_rc flag old = (case old of None \<Rightarrow> if flag = DB_REPLACE then -1 else 0 | Some d \<Rightarrow> if flag = DB_INSERT then 1 else 0)"

definition store_map :: "int \<Rightarrow> (string \<rightharpoonup> string) \<Rightarrow> string \<Rightarrow> string \<Rightarrow> (string \<rightharpoonup> string)" where
  "store_map flag m key d = (if store_rc flag (m key) = 0 then m(key \<mapsto> d) else m)"

definition store_errno :: "int \<Rightarrow> string option \<Rightarrow> int \<Rightarrow> int" where
  "store_errno flag old e = (if store_rc flag old = -1 then ENOENT else e)"

lemma db_readptr_head:
  assumes "db_inv s H R D cs X" "k < 138" "off = int (7 * k)"
  shows "db_readptr s off = Inr (int (H ! k), s\<lparr>idxf := (idxf s)\<lparr>cpos := 7 * k + 7\<rparr>\<rparr>)"
  using db_readptr_slot [of s H R "Head k" off] db_invD [OF assms(1)] assms(2,3) by simp

lemma db_inv_cpos: "db_inv (s\<lparr>idxf := (idxf s)\<lparr>cpos := p\<rparr>\<rparr>) H R D cs X = db_inv s H R D cs X"
  by (simp add: db_inv_def)


definition stored :: "nat \<Rightarrow> nat \<Rightarrow> dbst \<Rightarrow> (string \<rightharpoonup> string) \<Rightarrow> string \<Rightarrow> string \<Rightarrow> int \<Rightarrow> int \<times> dbst \<Rightarrow> bool" where
  "stored c n s m key d flag r \<longleftrightarrow> fst r = store_rc flag (m key) \<and> db_repc c n (snd r) (store_map flag m key d) \<and>
     c_errno (snd r) = store_errno flag (m key) (c_errno s)"

lemma db_store_new_spec:
  fixes key :: string
  defines "k \<equiv> Suc (key_hash key)"
  assumes inv: "db_inv s H R D cs {}" and m: "m = dbmap R D cs" "m key = None" "\<forall>j \<in> set (cs k). ir_key (R ! j) \<noteq> key"
    and s: "unl {7 * k} s" "chainoff s = int (7 * k)" "db_room (Suc n) s"
    and args: "key_ok key" "data_ok d"
  shows "returns (db_store_new s key d flag) (stored (7 * k) n s m key d flag)"
proof (cases "flag = DB_REPLACE")
  case True
  have "db_repc (7 * k) n s m" using inv m s by (auto simp: db_repc_def db_corr_def intro: db_room_le)
  then show ?thesis
    using True m by (simp add: db_store_new_def stored_def store_rc_def store_map_def store_errno_def db_repc_count)
next
  case False
  have k: "k < 138" using key_hash_less [of key] by (simp add: k_def)
  have kpos: "0 < 7 * k" by (simp add: k_def)
  define s1 where "s1 = s\<lparr>idxf := (idxf s)\<lparr>cpos := 7 * k + 7\<rparr>\<rparr>"
  have e1: "db_readptr s (chainoff s) = Inr (int (H ! k), s1)"
    using db_readptr_head [OF inv k s(2)] by (simp add: s1_def)
  have s1: "db_inv s1 H R D cs {}" "unl {7 * k} s1" "chainoff s1 = int (7 * k)" "db_room (Suc n) s1" "c_errno s1 = c_errno s"
    using inv s by (simp_all add: s1_def db_inv_cpos unl_def db_room_def)
  obtain rc s2 where e2: "db_findfree s1 (length key) (length d + 1) = Inr (rc, s2)" and dur: "during (7 * k) s1 s2" "grows 0 0 s1 s2"
    and alt: "rc = -1 \<and> db_inv s2 H R D cs {} \<or>
     rc = 0 \<and> (\<exists>H' R' cs' j. db_inv s2 H' R' D cs' {j} \<and> j < length R' \<and> length R' = length R \<and>
       dbmap R' D cs' = dbmap R D cs \<and> (\<forall>k. k \<noteq> 0 \<longrightarrow> H' ! k = H ! k \<and> cs' k = cs k) \<and>
       (\<forall>i < length R. ir_key (R' ! i) = ir_key (R ! i)) \<and> int (rec_off R' j) \<le> PTR_MAX \<and>
       idxoff s2 = int (rec_off R' j) \<and> datoff s2 = int (ir_off (R' ! j)) \<and>
       length (ir_key (R' ! j)) = length key \<and> ir_len (R' ! j) = length d + 1)"
    using db_findfree_spec [OF s1(1,2) kpos, of "length key" "length d + 1"] unfolding returns_def by blast
  have s2: "unl {7 * k} s2" "chainoff s2 = int (7 * k)" "c_errno s2 = c_errno s" "db_room (Suc n) s2"
    using dur s1 grows_room by (auto simp: during_def)
  have fin: "stored (7 * k) n s m key d flag (0, s3)" if "db_repc (7 * k) n s3 (m(key \<mapsto> d))" "c_errno s3 = c_errno s" for s3
    using that m(2) False by (simp add: stored_def store_rc_def store_map_def store_errno_def)
  have eq: "db_store_new s key d flag = (if rc < 0
      then bnd (db_append s2 key d (int (H ! k))) (\<lambda>s. Inr (0, s\<lparr>cnt_stor1 := cnt_stor1 s + 1\<rparr>))
      else bnd (db_reuse s2 key d (int (H ! k))) (\<lambda>s. Inr (0, s\<lparr>cnt_stor2 := cnt_stor2 s + 1\<rparr>)))"
    using False by (simp add: db_store_new_def e1 e2 [simplified])
  from alt show ?thesis
  proof (elim disjE exE conjE)
    assume "rc = -1" and i2: "db_inv s2 H R D cs {}"
    have room: "int (length (cbytes (idxf s2))) \<le> PTR_MAX" "int (length (cbytes (datf s2))) \<le> LONG_MAX"
      using s2(4) by (simp_all add: db_room_def)
    have "returns (db_append s2 key d (int (H ! k))) (\<lambda>s3. db_repc (7 * k) n s3 (m(key \<mapsto> d)) \<and> c_errno s3 = c_errno s)"
      unfolding s2(3) [symmetric] m(1)
      by (rule returns_repc [OF db_append_spec [OF i2 s2(1,2) [unfolded k_def] args(1) m(3) [unfolded k_def] args(2) _ room, folded k_def]])
        (use s2 grows_room_Suc in auto)
    then show ?thesis
      unfolding eq using \<open>rc = -1\<close> by (auto intro!: returns_bnd fin simp: db_repc_count)
  next
    fix H' R' cs' j
    assume "rc = 0" and i2: "db_inv s2 H' R' D cs' {j}" and j: "j < length R'" "length R' = length R"
      and same: "dbmap R' D cs' = dbmap R D cs" "\<forall>k. k \<noteq> 0 \<longrightarrow> H' ! k = H ! k \<and> cs' k = cs k"
        "\<forall>i < length R. ir_key (R' ! i) = ir_key (R ! i)"
      and at: "int (rec_off R' j) \<le> PTR_MAX" "idxoff s2 = int (rec_off R' j)" "datoff s2 = int (ir_off (R' ! j))"
        "length (ir_key (R' ! j)) = length key" "ir_len (R' ! j) = length d + 1"
    have new: "\<forall>i \<in> set (cs' k). ir_key (R' ! i) \<noteq> key"
      using m(3) same(2,3) chain_bound [OF wf_linksD(1) [OF store_invD(4) [OF db_invD(7) [OF inv]] k]] by (simp add: k_def)
    have "returns (db_reuse s2 key d (int (H ! k))) (\<lambda>s3. db_repc (7 * k) n s3 (m(key \<mapsto> d)) \<and> c_errno s3 = c_errno s)"
      unfolding s2(3) [symmetric] m(1) same(1) [symmetric]
      by (rule returns_repc [OF db_reuse_spec [OF i2 s2(1,2) [unfolded k_def] at(2,3) j(1) at(1) args(1) at(4) [symmetric]
            new [unfolded k_def] args(2) at(5) [symmetric], folded k_def]])
        (use s2 same(2) in \<open>auto simp: k_def intro: grows_room db_room_le\<close>)
    then show ?thesis
      unfolding eq using \<open>rc = 0\<close> by (auto intro!: returns_bnd fin simp: db_repc_count)
  qed
qed

lemma db_store_found_spec:
  fixes key :: string
  defines "k \<equiv> Suc (key_hash key)"
  assumes inv: "db_inv s H R D cs {}" and m: "m = dbmap R D cs" "m key = Some (D ! j)"
    and f: "cs k = pre @ j # post" "ir_key (R ! j) = key" "at_rec s R j" "ptroff s = int (slot_off R (pred_slot k pre))" "j < length R"
    and s: "unl {7 * k} s" "chainoff s = int (7 * k)" "db_room (Suc n) s"
    and args: "key_ok key" "data_ok d"
  shows "returns (db_store_found s key d flag) (stored (7 * k) n s m key d flag)"
proof -
  note i = db_invD [OF inv]
  have k: "k < 138" using key_hash_less [of key] by (simp add: k_def)
  have dj: "j < length D" "datoff s = int (dat_off D j)" "datlen s = length (D ! j) + 1"
    using i(10) f(3,5) by (auto simp: wf_data_def at_rec_def)
  have fin: "stored (7 * k) n s m key d flag (0, s3)"
    if "flag \<noteq> DB_INSERT" "db_repc (7 * k) n s3 (m(key \<mapsto> d))" "c_errno s3 = c_errno s" for s3
    using that m(2) by (simp add: stored_def store_rc_def store_map_def store_errno_def)
  consider (ins) "flag = DB_INSERT" | (same) "flag \<noteq> DB_INSERT" "length d = length (D ! j)"
    | (diff) "flag \<noteq> DB_INSERT" "length d \<noteq> length (D ! j)" by blast
  then show ?thesis
  proof cases
    case ins
    have "db_repc (7 * k) n s m" using inv m s by (auto simp: db_repc_def db_corr_def intro: db_room_le)
    then show ?thesis
      using ins m by (simp add: db_store_found_def stored_def store_rc_def store_map_def store_errno_def db_repc_count)
  next
    case same
    note ov = dbmap_overwrite [OF i(7) f(1,2) [unfolded k_def] same(2) _ f(5)]
    let ?s = "s\<lparr>datlen := length d + 1, datf := (datf s)\<lparr>cbytes := dat_layout (D[j := d]), cpos := dat_off D j + length d + 1\<rparr>\<rparr>"
    have e1: "db_writedat s d (datoff s) SEEK_SET = Inr ?s"
      using db_writedat_set [OF i(2) dj(1,2) same(2)] by simp
    have "db_inv ?s H R (D[j := d]) cs {}" using i ov(1) args(2) by (simp add: db_inv_def data_ok_def)
    moreover have "unl {7 * k} ?s" "chainoff ?s = int (7 * k)" using s by (simp_all add: unl_def)
    moreover have "db_room n ?s"
    proof -
      have "dat_off (D[j := d]) (length D) = dat_off D (length D)" using dat_off_update [OF same(2) dj(1), of "length D"] by simp
      then have "length (dat_layout (D[j := d])) = length (dat_layout D)" by (simp add: dat_off_def)
      then show ?thesis using s(3) i(2) by (simp add: db_room_def)
    qed
    ultimately have "db_repc (7 * k) n ?s (m(key \<mapsto> d))"
      using ov(2) args(2) m(1) unfolding db_repc_def data_ok_def by (metis db_corrI)
    then show ?thesis
      using same(1) same(2) dj(3) fin [OF same(1)] by (simp add: db_store_found_def e1 db_repc_count)
  next
    case diff
    have "0 < 7 * k" by (simp add: k_def)
    from db_dodelete_spec [OF inv s(1) this key_hash_less f(1,3,4) [unfolded k_def]]
    obtain s1 H' R' D' cs' where e1: "db_dodelete s = Inr s1" and i1: "db_inv s1 H' R' D' cs' {}"
      and dur: "during (7 * k) s s1" "grows 0 0 s s1" and m1: "dbmap R' D' cs' = m(key := None)"
      and set: "set (cs' k) = set pre \<union> set post" and keys: "\<forall>i < length R. i \<noteq> j \<longrightarrow> ir_key (R' ! i) = ir_key (R ! i)"
      unfolding returns_def m(1) f(2) k_def by blast
    have new: "\<forall>i \<in> set (cs' k). ir_key (R' ! i) \<noteq> key"
    proof
      fix l assume l: "l \<in> set (cs' k)"
      have ne: "ir_key (R ! l) \<noteq> key" using dbmap_found(2) [OF i(7) f(1,2) [unfolded k_def]] l set by blast
      moreover have "l < length R"
        using chain_bound [OF wf_linksD(1) [OF store_invD(4) [OF i(7)] k], of l] l set f(1) by auto
      ultimately show "ir_key (R' ! l) \<noteq> key" using keys f(2) by auto
    qed
    define s2 where "s2 = s1\<lparr>idxf := (idxf s1)\<lparr>cpos := 7 * k + 7\<rparr>\<rparr>"
    have c1: "chainoff s1 = int (7 * k)" using dur s by (simp add: during_def)
    have e2: "db_readptr s1 (chainoff s1) = Inr (int (H' ! k), s2)"
      using db_readptr_head [OF i1 k c1] by (simp add: s2_def)
    have s2: "db_inv s2 H' R' D' cs' {}" "unl {7 * k} s2" "chainoff s2 = int (7 * k)" "c_errno s2 = c_errno s" "db_room (Suc n) s2"
      using i1 dur c1 grows_room [OF dur(2) s(3)] by (simp_all add: s2_def db_inv_cpos during_def unl_def db_room_def)
    have room: "int (length (cbytes (idxf s2))) \<le> PTR_MAX" "int (length (cbytes (datf s2))) \<le> LONG_MAX"
      using s2(5) by (simp_all add: db_room_def)
    have "returns (db_append s2 key d (int (H' ! k))) (\<lambda>s3. db_repc (7 * k) n s3 (m(key \<mapsto> d)) \<and> c_errno s3 = c_errno s)"
      unfolding s2(4) [symmetric]
      by (rule returns_repc [OF db_append_spec [OF s2(1-3) [unfolded k_def] args(1) new [unfolded k_def] args(2) _ room, folded k_def, unfolded m1 fun_upd_upd]])
        (use s2 grows_room_Suc in auto)
    then show ?thesis
      using diff dj(3) by (auto simp: db_store_found_def e1 e2 db_repc_count intro!: returns_bnd fin)
  qed
qed

definition store_flag :: "int \<Rightarrow> bool" where
  "store_flag flag \<longleftrightarrow> flag = DB_INSERT \<or> flag = DB_REPLACE \<or> flag = DB_STORE"

lemma db_store_spec:
  assumes "db_rep (Suc n) s m" "key_ok key" "data_ok d" "store_flag flag"
  shows "returns (db_store s key d flag) (\<lambda>(rc, s'). rc = store_rc flag (m key) \<and>
    db_rep n s' (store_map flag m key d) \<and> c_errno s' = store_errno flag (m key) (c_errno s))"
proof -
  let ?c = "7 * Suc (key_hash key)"
  obtain rc s1 H R D cs where e1: "db_find_and_lock s key True = Inr (rc, s1)" and inv: "db_inv s1 H R D cs {}"
    and m: "m = dbmap R D cs" and s1: "unl {?c} s1" "chainoff s1 = int ?c" "db_room (Suc n) s1" "c_errno s1 = c_errno s"
    and f: "searched rc s1 H R D cs key"
    using find_and_lock [OF assms(1), of key True] by metis
  have st: "returns (if rc < 0 then db_store_new s1 key d flag else db_store_found s1 key d flag) (stored ?c n s1 m key d flag)"
    using f unfolding searched_def Let_def
    by (elim disjE exE conjE)
      (use db_store_new_spec [OF inv m _ _ s1(1-3) assms(2,3)] db_store_found_spec [OF inv m _ _ _ _ _ _ s1(1-3) assms(2,3)] in
        \<open>simp_all add: m\<close>)
  have "\<not> length d + 1 < DATLEN_MIN" "\<not> length d + 1 > DATLEN_MAX"
    using assms(3) by (cases d; simp add: data_ok_def DATLEN_MIN_def)+
  moreover have "returns (if rc < 0 then db_store_new s1 key d flag else db_store_found s1 key d flag)
      (\<lambda>(rc, s'). rc = store_rc flag (m key) \<and> db_repc ?c n s' (store_map flag m key d) \<and>
        c_errno s' = store_errno flag (m key) (c_errno s))"
    using st by (rule returns_mono) (auto simp: stored_def s1(4))
  ultimately show ?thesis
    using assms(4) unlock_after [of "if rc < 0 then db_store_new s1 key d flag else db_store_found s1 key d flag"
      "\<lambda>rc. rc = store_rc flag (m key)" ?c n "store_map flag m key d" "store_errno flag (m key) (c_errno s)" "''db_store: un_lock error''"]
    unfolding db_store_def store_flag_def e1 bnd_simps prod.case by auto
qed

end
