(* ===== verification/DbScan.thy ===== *)
theory DbScan
  imports DbApi
begin

text \<open>
  Opening databases, and sequential access. \<^verbatim>\<open>db_open\<close> makes a handle for the empty map when
  it creates the files, and a handle for the map that the files hold otherwise; after
  \<^verbatim>\<open>db_rewind\<close>, repeated calls of \<^verbatim>\<open>db_nextrec\<close> visit the records with a key that is not all
  blanks, each once.
\<close>

section \<open>Creating a database\<close>

lemma empty_inv: "store_inv (replicate 138 0) [] [] (\<lambda>_. []) {}"
  by (simp add: store_inv_def wf_heads_def NHASH_DEF_def PTR_MAX_def wf_data_def wf_links_def wf_keys_def)

lemma empty_layout: "idx_layout (replicate 138 0) [] = concat (replicate 138 (padl PTR_SZ (show_nat 0))) @ [NEWLINE]"
  by (simp add: idx_layout_def ptr_field_def del: replicate.simps)

lemma length_empty_layout: "length (idx_layout (replicate 138 0) []) = 967"
  using rec_off_length [OF store_invD(1) [OF empty_inv], of "[]"] by (simp add: rec_off_def)

lemma db_corr_empty:
  assumes "cbytes (idxf s) = idx_layout (replicate 138 0) []" "cbytes (datf s) = []"
    "cothers (idxf s) = []" "cothers (datf s) = []" "nhash s = 137" "hashoff s = 7"
  shows "db_corr s Map.empty"
  unfolding db_corr_def db_inv_def
  using assms empty_inv
  by (intro exI [of _ "replicate 138 0"] exI [of _ "[]"] exI [of _ "\<lambda>_. []"]) (auto simp: dat_layout_def dbmap_def)

lemma db_init_index_spec:
  assumes "cbytes (idxf s) = []" "cpos (idxf s) = 0" "cothers (idxf s) = []" "\<And>b. clocks (idxf s) b = F_UNLCK"
    and "oflag AND O_ACCMODE = O_RDWR"
  shows "db_init_index oflag s = Inr (s\<lparr>idxf := (idxf s)\<lparr>cbytes := idx_layout (replicate 138 0) [], cpos := 967\<rparr>\<rparr>)"
proof -
  have lk: "clocked ((clocked (idxf s) 0 0 F_WRLCK)\<lparr>cbytes := x, cpos := y\<rparr>) 0 0 F_UNLCK =
      (idxf s)\<lparr>cbytes := x, cpos := y\<rparr>" for x y
    using assms(4) by (cases "idxf s") (auto simp: clocked_def in_region_def)
  have "put_bytes [] 0 d = d" for d by (simp add: put_bytes_def)
  then show ?thesis
    using assms(1-3,5) lk length_empty_layout
    by (simp add: db_init_index_def writew_lock_fd_def idx_lock_free k_write_def empty_layout NHASH_DEF_def Let_def del: replicate.simps)
qed

lemma db_rewind_spec:
  assumes "nhash s = 137"
  shows "db_rewind s = Inr (s\<lparr>idxoff := 967, idxf := (idxf s)\<lparr>cpos := 967\<rparr>\<rparr>)"
  using assms by (simp add: db_rewind_def rec_start_137)

lemma lowest_free_ge: "0 \<le> fd \<Longrightarrow> 0 \<le> lowest_free n fd used"
  by (induction n fd used rule: lowest_free.induct) auto

lemma k_open_trunc:
  assumes "oflag AND O_CREAT \<noteq> 0" "oflag AND O_TRUNC \<noteq> 0" "oflag AND O_EXCL = 0 \<or> fs_files sys p = None"
  shows "k_open sys p oflag =
    (lowest_free (length (fs_fds sys)) 0 (fs_fds sys),
     \<lparr>cbytes = [], cpos = 0, clocks = (\<lambda>_. F_UNLCK), cothers = fs_locks sys p\<rparr>,
     sys\<lparr>fs_files := (fs_files sys)(p \<mapsto> []), fs_fds := lowest_free (length (fs_fds sys)) 0 (fs_fds sys) # fs_fds sys\<rparr>)"
  using assms by (cases "fs_files sys p") (auto simp: k_open_def Let_def)

lemma db_open_new_spec:
  assumes flags: "oflag AND (O_CREAT OR O_TRUNC) = O_CREAT OR O_TRUNC" and rdwr: "oflag AND O_ACCMODE = O_RDWR"
    and new: "oflag AND O_EXCL = 0 \<or> fs_files sys (path @ ''.idx'') = None \<and> fs_files sys (path @ ''.dat'') = None"
    and locks: "fs_locks sys (path @ ''.idx'') = []" "fs_locks sys (path @ ''.dat'') = []"
  shows "returns (db_open sys path oflag) (\<lambda>(h, sys'). \<exists>s. h = Some s \<and> db_rep 9000 s Map.empty)"
proof -
  have "oflag AND O_CREAT = (oflag AND (O_CREAT OR O_TRUNC)) AND O_CREAT" "oflag AND O_TRUNC = (oflag AND (O_CREAT OR O_TRUNC)) AND O_TRUNC"
    by (simp_all add: O_CREAT_def O_TRUNC_def and.assoc)
  then have bits: "oflag AND O_CREAT \<noteq> 0" "oflag AND O_TRUNC \<noteq> 0"
    unfolding flags by (simp_all add: O_CREAT_def O_TRUNC_def)
  define fresh where "fresh = (\<lambda>p. \<lparr>cbytes = [], cpos = 0, clocks = (\<lambda>_. F_UNLCK), cothers = fs_locks sys p\<rparr>)"
  obtain fd1 sys1 where o1: "k_open sys (path @ ''.idx'') oflag = (fd1, fresh (path @ ''.idx''), sys1)" "0 \<le> fd1"
    and s1: "fs_files sys1 = (fs_files sys)(path @ ''.idx'' \<mapsto> [])" "fs_locks sys1 = fs_locks sys"
    using bits new lowest_free_ge [of 0] by (auto simp: k_open_trunc fresh_def)
  obtain fd2 sys2 where o2: "k_open sys1 (path @ ''.dat'') oflag = (fd2, fresh (path @ ''.dat''), sys2)" "0 \<le> fd2"
    using bits new lowest_free_ge [of 0] s1 by (auto simp: k_open_trunc fresh_def)
  define s where "s = (db_alloc (length path))\<lparr>nhash := word_of_nat NHASH_DEF, hashoff := HASH_OFF, dbname := path @ ''.dat'',
    idxfd := fd1, idxf := fresh (path @ ''.idx''), datfd := fd2, datf := fresh (path @ ''.dat'')\<rparr>"
  have hd: "nhash s = 137" "hashoff s = 7" by (simp_all add: s_def NHASH_DEF_def HASH_OFF_def PTR_SZ_def)
  let ?t = "s\<lparr>idxoff := 967, idxf := (idxf s)\<lparr>cbytes := idx_layout (replicate 138 0) [], cpos := 967\<rparr>\<rparr>"
  have "db_open sys path oflag = Inr (Some ?t, sys2)"
    using o1 o2 flags rdwr locks
    by (simp add: db_open_def Let_def s_def db_init_index_spec db_rewind_spec NHASH_DEF_def fresh_def)
  moreover have "db_corr ?t Map.empty"
    by (rule db_corr_empty) (simp_all add: hd, simp_all add: s_def fresh_def locks)
  then have "db_rep 9000 ?t Map.empty"
    using length_empty_layout by (simp add: db_rep_def unl_def db_room_def PTR_MAX_def LONG_MAX_def s_def fresh_def)
  ultimately show ?thesis by simp
qed

text \<open>Without permission to write, the write lock fails.\<close>

lemma db_open_rdonly:
  assumes flags: "oflag AND (O_CREAT OR O_TRUNC) = O_CREAT OR O_TRUNC" and rdonly: "oflag AND O_ACCMODE = O_RDONLY"
    and new: "oflag AND O_EXCL = 0 \<or> fs_files sys (path @ ''.idx'') = None \<and> fs_files sys (path @ ''.dat'') = None"
  shows "db_open sys path oflag = Inl (Err_dump ''db_open: writew_lock error'')"
proof -
  have "oflag AND O_CREAT = (oflag AND (O_CREAT OR O_TRUNC)) AND O_CREAT" "oflag AND O_TRUNC = (oflag AND (O_CREAT OR O_TRUNC)) AND O_TRUNC"
    by (simp_all add: O_CREAT_def O_TRUNC_def and.assoc)
  then have bits: "oflag AND O_CREAT \<noteq> 0" "oflag AND O_TRUNC \<noteq> 0"
    unfolding flags by (simp_all add: O_CREAT_def O_TRUNC_def)
  obtain fd1 f1 sys1 where o1: "k_open sys (path @ ''.idx'') oflag = (fd1, f1, sys1)" "0 \<le> fd1"
    and s1: "fs_files sys1 = (fs_files sys)(path @ ''.idx'' \<mapsto> [])"
    using bits new lowest_free_ge [of 0] by (auto simp: k_open_trunc)
  obtain fd2 f2 sys2 where o2: "k_open sys1 (path @ ''.dat'') oflag = (fd2, f2, sys2)" "0 \<le> fd2"
    using bits new lowest_free_ge [of 0] s1 by (auto simp: k_open_trunc)
  have "\<not> (oflag AND O_ACCMODE = O_WRONLY \<or> oflag AND O_ACCMODE = O_RDWR)"
    by (simp add: rdonly O_RDONLY_def O_WRONLY_def O_RDWR_def)
  then have "db_init_index oflag s = Inl (Err_dump ''db_open: writew_lock error'')" for s
    by (simp only: db_init_index_def writew_lock_fd_def if_False idx_lock_def asleep_simps bnd_simps case_prod_conv) simp
  with o1 o2 flags show ?thesis by (simp add: db_open_def Let_def)
qed

section \<open>Opening an existing database\<close>

lemma db_open_existing_spec:
  assumes flags: "oflag AND (O_CREAT OR O_TRUNC) = 0"
    and rep: "db_rep n s0 m"
    and files: "fs_files sys (path @ ''.idx'') = Some (cbytes (idxf s0))" "fs_files sys (path @ ''.dat'') = Some (cbytes (datf s0))"
    and locks: "fs_locks sys (path @ ''.idx'') = []" "fs_locks sys (path @ ''.dat'') = []"
  shows "returns (db_open sys path oflag) (\<lambda>(h, sys'). \<exists>s. h = Some s \<and> db_rep n s m)"
proof -
  have "oflag AND O_CREAT = (oflag AND (O_CREAT OR O_TRUNC)) AND O_CREAT" "oflag AND O_TRUNC = (oflag AND (O_CREAT OR O_TRUNC)) AND O_TRUNC"
    by (simp_all add: O_CREAT_def O_TRUNC_def and.assoc)
  then have bits: "oflag AND O_CREAT = 0" "oflag AND O_TRUNC = 0"
    unfolding flags by simp_all
  have nz: "(0 :: 32 word) \<noteq> O_CREAT OR O_TRUNC" by (simp add: O_CREAT_def O_TRUNC_def)
  define fresh where "fresh = (\<lambda>bs. \<lparr>cbytes = bs, cpos = 0, clocks = (\<lambda>_. F_UNLCK), cothers = []\<rparr>)"
  obtain fd1 sys1 where o1: "k_open sys (path @ ''.idx'') oflag = (fd1, fresh (cbytes (idxf s0)), sys1)" "0 \<le> fd1"
    and s1: "fs_files sys1 (path @ ''.dat'') = Some (cbytes (datf s0))" "fs_locks sys1 = fs_locks sys"
    using bits files locks lowest_free_ge by (auto simp: k_open_def fresh_def Let_def)
  obtain fd2 sys2 where o2: "k_open sys1 (path @ ''.dat'') oflag = (fd2, fresh (cbytes (datf s0)), sys2)" "0 \<le> fd2"
    using bits lowest_free_ge s1 locks by (auto simp: k_open_def fresh_def Let_def)
  define s where "s = (db_alloc (length path))\<lparr>nhash := word_of_nat NHASH_DEF, hashoff := HASH_OFF, dbname := path @ ''.dat'',
    idxfd := fd1, idxf := fresh (cbytes (idxf s0)), datfd := fd2, datf := fresh (cbytes (datf s0))\<rparr>"
  have hd: "nhash s = 137" "hashoff s = 7" by (simp_all add: s_def NHASH_DEF_def HASH_OFF_def PTR_SZ_def)
  let ?t = "s\<lparr>idxoff := 967, idxf := (idxf s)\<lparr>cpos := 967\<rparr>\<rparr>"
  have "db_open sys path oflag = Inr (Some ?t, sys2)"
    using o1 o2 flags nz
    by (simp add: db_open_def Let_def s_def db_rewind_spec NHASH_DEF_def)
  moreover have "db_corr ?t m"
    by (rule db_corr_cong [of s0]) (use rep in \<open>auto simp: db_rep_def db_corr_def db_inv_def hd\<close>,
        simp_all add: s_def fresh_def)
  then have "db_rep n ?t m"
    using rep by (simp add: db_rep_def unl_def db_room_def s_def fresh_def)
  ultimately show ?thesis by simp
qed


lemma db_close_files:
  "fs_files (db_close path s sys) (path @ ''.idx'') = Some (cbytes (idxf s))"
  "fs_files (db_close path s sys) (path @ ''.dat'') = Some (cbytes (datf s))"
  "fs_locks (db_close path s sys) = fs_locks sys"
  by (simp_all add: db_close_def db_free_def k_close_def Let_def)

section \<open>Sequential access\<close>

text \<open>The records from number \<open>i\<close> on that \<^verbatim>\<open>db_nextrec\<close> reports, in file order.\<close>

definition all_blank :: "string \<Rightarrow> bool" where
  "all_blank key \<longleftrightarrow> list_all (\<lambda>c. c = SPACE) key"

definition visible :: "irec list \<Rightarrow> nat \<Rightarrow> nat list" where
  "visible R i = filter (\<lambda>j. \<not> all_blank (ir_key (R ! j))) [i..<length R]"

lemma visible_step:
  "i < length R \<Longrightarrow> visible R i = (if all_blank (ir_key (R ! i)) then visible R (Suc i) else i # visible R (Suc i))"
  by (simp add: visible_def upt_conv_Cons)

lemma visible_end: "length R \<le> i \<Longrightarrow> visible R i = []"
  by (simp add: visible_def)

lemma loaded_kept_file: "cbytes (idxf (loaded s r p)) = cbytes (idxf s)"
  by simp

lemma rec_off_Suc: "i < length R \<Longrightarrow> rec_off R (Suc i) = rec_off R i + length (irec_bytes (R ! i))"
  by (simp add: rec_off_def take_Suc_conv_app_nth)

lemma db_nextrec_loop_spec:
  assumes "cbytes (idxf s) = idx_layout H R" "wf_heads H" "\<forall>r \<in> set R. wf_irec r"
    and "cpos (idxf s) = rec_off R i" "i \<le> length R" "length R - i < fuel"
  shows "returns (db_nextrec_loop fuel s) (\<lambda>(found, s'). kept s s' \<and>
    (case visible R i of
       [] \<Rightarrow> \<not> found \<and> cpos (idxf s') = rec_off R (length R)
     | j # js \<Rightarrow> found \<and> at_rec s' R j \<and> j < length R \<and> visible R (Suc j) = js \<and> cpos (idxf s') = rec_off R (Suc j)))"
  using assms
proof (induction "length R - i" arbitrary: i s fuel)
  case 0
  then obtain n where n: "fuel = Suc n" by (cases fuel) auto
  have "db_readidx s 0 = Inr (-1, s\<lparr>idxoff := int (length (cbytes (idxf s)))\<rparr>)"
    using 0 rec_off_length [of H R] by (intro db_readidx_eof) simp
  then show ?case using 0 n by (simp add: visible_end kept_def)
next
  case (Suc d)
  then obtain n where n: "fuel = Suc n" by (cases fuel) auto
  have i: "i < length R" using Suc.hyps(2) by simp
  let ?t = "loaded s (R ! i) (rec_off R i)"
  have rd: "db_readidx s 0 = Inr (int (ir_ptr (R ! i)), ?t)"
    using Suc.prems i by (intro db_readidx_layout) auto
  have wf: "wf_irec (R ! i)" using Suc.prems(3) i by simp
  note t = loaded_at_rec [where s = s, OF wf]
  have pos: "cpos (idxf ?t) = rec_off R (Suc i)" using i by (simp add: rec_off_Suc)
  show ?case
  proof (cases "all_blank (ir_key (R ! i))")
    case True
    have "returns (db_nextrec_loop n ?t) (\<lambda>(found, s'). kept ?t s' \<and>
      (case visible R (Suc i) of
         [] \<Rightarrow> \<not> found \<and> cpos (idxf s') = rec_off R (length R)
       | j # js \<Rightarrow> found \<and> at_rec s' R j \<and> j < length R \<and> visible R (Suc j) = js \<and> cpos (idxf s') = rec_off R (Suc j)))"
      using Suc.prems Suc.hyps(2) i pos n by (intro Suc.hyps(1)) auto
    then show ?thesis
      using n rd wf True i by (auto simp: all_blank_def visible_step elim!: returns_mono dest: kept_trans [OF t(1)])
  next
    case False
    then show ?thesis
      using n rd wf i t pos by (simp add: all_blank_def visible_step)
  qed
qed

lemma length_le_rec_off: "length R \<le> rec_off R (length R)"
proof -
  have "length xs \<le> length (concat (map irec_bytes xs))" for xs
  proof (induction xs)
    case (Cons x xs)
    have "0 < length (irec_bytes x)" by simp
    with Cons show ?case by (simp only: list.map concat.simps length_append list.size)
  qed simp
  then show ?thesis by (simp add: rec_off_def trans_le_add2)
qed

text \<open>
  One call: \<open>db_at s H R D cs i\<close> says that the offset of the index file is at record \<open>i\<close>.
\<close>

definition db_at :: "dbst \<Rightarrow> nat list \<Rightarrow> irec list \<Rightarrow> string list \<Rightarrow> (nat \<Rightarrow> nat list) \<Rightarrow> nat \<Rightarrow> bool" where
  "db_at s H R D cs i \<longleftrightarrow> db_inv s H R D cs {} \<and> unl {} s \<and> i \<le> length R \<and> cpos (idxf s) = rec_off R i"

lemma db_nextrec_spec:
  assumes "db_at s H R D cs i"
  shows "returns (db_nextrec s) (\<lambda>(v, s'). cbytes (idxf s') = cbytes (idxf s) \<and> cbytes (datf s') = cbytes (datf s) \<and>
    (case visible R i of
       [] \<Rightarrow> v = None \<and> db_at s' H R D cs (length R)
     | j # js \<Rightarrow> v = Some (ir_key (R ! j), D ! j) \<and> db_at s' H R D cs (Suc j) \<and> visible R (Suc j) = js))"
proof -
  have inv: "db_inv s H R D cs {}" and unl: "unl {} s" and i: "i \<le> length R" "cpos (idxf s) = rec_off R i"
    using assms by (simp_all add: db_at_def)
  note d = db_invD [OF inv]
  define s1 where "s1 = s\<lparr>idxf := clocked (idxf s) 0 1 F_RDLCK\<rparr>"
  have e1: "idx_lock s (\<lambda>f. readw_lock f FREE_OFF SEEK_SET 1) m = Inr s1" for m
    using d(3) by (simp add: idx_lock_free s1_def FREE_OFF_def)
  have fuel: "length R - i < chain_fuel s1"
    using rec_off_length [OF d(8), of R] d(1) length_le_rec_off [of R] by (simp add: chain_fuel_def s1_def)
  have "returns (db_nextrec_loop (chain_fuel s1) s1) (\<lambda>(found, s'). kept s1 s' \<and>
    (case visible R i of
       [] \<Rightarrow> \<not> found \<and> cpos (idxf s') = rec_off R (length R)
     | j # js \<Rightarrow> found \<and> at_rec s' R j \<and> j < length R \<and> visible R (Suc j) = js \<and> cpos (idxf s') = rec_off R (Suc j)))"
    by (rule db_nextrec_loop_spec [OF _ d(8,9) _ i(1) fuel]) (simp_all add: s1_def d(1) i)
  then obtain found s2 where e2: "db_nextrec_loop (chain_fuel s1) s1 = Inr (found, s2)" and kp: "kept s1 s2"
    and r: "case visible R i of
       [] \<Rightarrow> \<not> found \<and> cpos (idxf s2) = rec_off R (length R)
     | j # js \<Rightarrow> found \<and> at_rec s2 R j \<and> j < length R \<and> visible R (Suc j) = js \<and> cpos (idxf s2) = rec_off R (Suc j)"
    unfolding returns_def by blast
  have s2: "db_inv s2 H R D cs {}" "unl {0} s2"
    using kp inv unl by (auto simp: kept_def s1_def db_inv_def unl_def in_region_def)
  note d2 = db_invD [OF s2(1)]
  have fin: "idx_lock t (\<lambda>f. un_lock f FREE_OFF SEEK_SET 1) m = Inr (t\<lparr>idxf := clocked (idxf t) 0 1 F_UNLCK\<rparr>)"
    "l \<le> length R \<Longrightarrow> cpos (idxf t) = rec_off R l \<Longrightarrow> db_at (t\<lparr>idxf := clocked (idxf t) 0 1 F_UNLCK\<rparr>) H R D cs l"
    if "db_inv t H R D cs {}" "unl {0} t" for t m l
    using that db_invD(3) [OF that(1)]
    by (auto simp: idx_lock_free FREE_OFF_def db_at_def db_inv_def unl_def in_region_def)
  have eq: "db_nextrec s = bnd (if \<not> found then Inr (None, s2)
          else let key = cstr_at (idxbuf s2) 0 in
               bnd (db_readdat s2) (\<lambda>(ptr, s).
               Inr (Some (key, ptr), s\<lparr>cnt_nextrec := cnt_nextrec s + 1\<rparr>))) (\<lambda>(res, s).
     bnd (idx_lock s (\<lambda>f. un_lock f FREE_OFF SEEK_SET 1) ''db_nextrec: un_lock error'') (\<lambda>s. Inr (res, s)))"
    by (simp add: db_nextrec_def e1 e2 del: One_nat_def)
  have files: "cbytes (idxf s2) = cbytes (idxf s)" "cbytes (datf s2) = cbytes (datf s)" using d d2 by simp_all
  show ?thesis
  proof (cases "visible R i")
    case Nil
    then show ?thesis
      unfolding eq using r fin [OF s2] files by (simp del: One_nat_def)
  next
    case (Cons j js)
    then have j: "found" "at_rec s2 R j" "j < length R" "visible R (Suc j) = js" "cpos (idxf s2) = rec_off R (Suc j)"
      using r by simp_all
    have dj: "j < length D" "NUL \<notin> set (D ! j)" "datoff s2 = int (dat_off D j)" "datlen s2 = length (D ! j) + 1"
      using d2(10) j(2,3) by (auto simp: wf_data_def at_rec_def)
    define t where "t = s2\<lparr>datf := (datf s2)\<lparr>cpos := dat_off D j + length (D ! j) + 1\<rparr>,
      datbuf := D ! j @ NUL # drop (length (D ! j) + 1) (datbuf s2), cnt_nextrec := cnt_nextrec s2 + 1\<rparr>"
    have t: "db_inv t H R D cs {}" "unl {0} t" "cpos (idxf t) = rec_off R (Suc j)"
      "cbytes (idxf t) = cbytes (idxf s2)" "cbytes (datf t) = cbytes (datf s2)"
      using s2 j(5) by (simp_all add: t_def db_inv_def unl_def)
    have "db_nextrec s = Inr (Some (ir_key (R ! j), D ! j), t\<lparr>idxf := clocked (idxf t) 0 1 F_UNLCK\<rparr>)"
      unfolding eq using j(1,2) db_readdat_layout [OF d2(2) dj] fin(1) [OF t(1,2)]
      by (simp add: at_rec_def t_def [symmetric] del: One_nat_def) 
    then show ?thesis
      using Cons j fin(2) [OF t(1,2) _ t(3)] files t(4,5) by simp
  qed
qed


text \<open>
  The loop of a program that reads a whole database:
  \<^verbatim>\<open>db_rewind(db); while ((ptr = db_nextrec(db, key)) != NULL) ...\<close>
\<close>

fun db_scan_loop :: "nat \<Rightarrow> dbst \<Rightarrow> ((string \<times> string) list \<times> dbst) res" where
  "db_scan_loop 0 s = Inl Diverges"
| "db_scan_loop (Suc fuel) s =
     bnd (db_nextrec s) (\<lambda>(v, s). case v of None \<Rightarrow> Inr ([], s)
       | Some kd \<Rightarrow> bnd (db_scan_loop fuel s) (\<lambda>(kds, s). Inr (kd # kds, s)))"

definition db_scan :: "dbst \<Rightarrow> ((string \<times> string) list \<times> dbst) res" where
  "db_scan s = bnd (db_rewind s) (\<lambda>s. db_scan_loop (chain_fuel s) s)"

lemma db_scan_loop_spec:
  assumes "db_at s H R D cs i" "length (visible R i) < fuel"
  shows "returns (db_scan_loop fuel s) (\<lambda>(kds, s'). kds = map (\<lambda>j. (ir_key (R ! j), D ! j)) (visible R i) \<and>
    db_at s' H R D cs (length R))"
  using assms
proof (induction fuel arbitrary: s i)
  case (Suc fuel)
  obtain v s1 where e1: "db_nextrec s = Inr (v, s1)" and
    r: "case visible R i of
       [] \<Rightarrow> v = None \<and> db_at s1 H R D cs (length R)
     | j # js \<Rightarrow> v = Some (ir_key (R ! j), D ! j) \<and> db_at s1 H R D cs (Suc j) \<and> visible R (Suc j) = js"
    using db_nextrec_spec [OF Suc.prems(1)] unfolding returns_def by blast
  show ?case
  proof (cases "visible R i")
    case Nil
    then show ?thesis using e1 r by simp
  next
    case (Cons j js)
    then have v: "v = Some (ir_key (R ! j), D ! j)" and at: "db_at s1 H R D cs (Suc j)" and js: "visible R (Suc j) = js"
      using r by simp_all
    have "returns (db_scan_loop fuel s1) (\<lambda>(kds, s'). kds = map (\<lambda>j. (ir_key (R ! j), D ! j)) js \<and> db_at s' H R D cs (length R))"
      using Suc.IH [OF at] js Cons Suc.prems(2) by simp
    then show ?thesis
      using Cons by (auto simp: e1 v intro!: returns_bnd)
  qed
qed simp

lemma visible_keys:
  assumes inv: "store_inv H R D cs {}"
  defines "kds \<equiv> map (\<lambda>j. (ir_key (R ! j), D ! j)) (visible R 0)"
  shows "distinct (map fst kds)" "map_of kds = dbmap R D cs |` {key. \<not> all_blank key}"
proof -
  note wf = store_invD [OF inv] and l = wf_linksD [OF store_invD(4) [OF inv]]
  have on: "j \<in> set (cs (Suc (key_hash (ir_key (R ! j)))))" if "j \<in> set (visible R 0)" for j
  proof -
    have j: "j < length R" "\<not> all_blank (ir_key (R ! j))" using that by (auto simp: visible_def)
    then obtain k where k: "k < 138" "j \<in> set (cs k)" using l(4) by blast
    then obtain h where "k = Suc h" using wf(5) j(2) by (cases k) (auto simp: wf_keys_def all_blank_def list_all_iff)
    then show ?thesis using k wf(5) by (auto simp: wf_keys_def)
  qed
  have uniq: "i = j" if "i \<in> set (visible R 0)" "j \<in> set (visible R 0)" "ir_key (R ! i) = ir_key (R ! j)" for i j
  proof -
    have "inj_on (\<lambda>j. ir_key (R ! j)) (set (cs (Suc (key_hash (ir_key (R ! j))))))"
      using wf(5) key_hash_less by (simp add: wf_keys_def)
    then show ?thesis using on [OF that(1)] on [OF that(2)] that(3) by (auto dest: inj_onD)
  qed
  have "distinct (visible R 0)" by (simp add: visible_def)
  then show dist: "distinct (map fst kds)"
    using uniq by (auto simp: kds_def comp_def distinct_map inj_on_def)
  show "map_of kds = dbmap R D cs |` {key. \<not> all_blank key}"
  proof
    fix key
    show "map_of kds key = (dbmap R D cs |` {key. \<not> all_blank key}) key"
    proof (cases "\<exists>j \<in> set (visible R 0). ir_key (R ! j) = key")
      case True
      then obtain j where j: "j \<in> set (visible R 0)" "ir_key (R ! j) = key" by blast
      then have "map_of kds key = Some (D ! j)" using dist by (auto simp: kds_def intro!: map_of_is_SomeI)
      moreover obtain pre post where "cs (Suc (key_hash key)) = pre @ j # post"
        using split_list [OF on [OF j(1)]] j(2) by auto
      then have "dbmap R D cs key = Some (D ! j)" by (rule dbmap_found(1) [OF inv _ j(2)])
      ultimately show ?thesis using j by (auto simp: visible_def)
    next
      case False
      then have "map_of kds key = None" by (auto simp: kds_def map_of_eq_None_iff)
      moreover have "dbmap R D cs key = None" if "\<not> all_blank key"
      proof (rule dbmap_missing, rule ballI)
        fix j assume "j \<in> set (cs (Suc (key_hash key)))"
        then have "j < length R" using chain_bound [OF l(1), of "Suc (key_hash key)"] key_hash_less [of key] by simp
        then show "ir_key (R ! j) \<noteq> key" using False that by (auto simp: visible_def)
      qed
      ultimately show ?thesis by (simp add: restrict_map_def)
    qed
  qed
qed

lemma db_scan_spec:
  assumes "db_rep n s m"
  shows "returns (db_scan s) (\<lambda>(kds, s'). distinct (map fst kds) \<and> map_of kds = m |` {key. \<not> all_blank key} \<and> db_rep n s' m)"
proof -
  obtain H R D cs where inv: "db_inv s H R D cs {}" and unl: "unl {} s" and m: "m = dbmap R D cs" and room: "db_room n s"
    using assms by (auto simp: db_rep_def db_corr_def)
  note d = db_invD [OF inv]
  define s1 where "s1 = s\<lparr>idxoff := 967, idxf := (idxf s)\<lparr>cpos := 967\<rparr>\<rparr>"
  have e1: "db_rewind s = Inr s1" using d(5) by (simp add: db_rewind_spec s1_def)
  have at: "db_at s1 H R D cs 0" using inv unl by (simp add: db_at_def s1_def db_inv_def unl_def rec_off_def)
  have "length (visible R 0) \<le> length R" unfolding visible_def by (rule order_trans [OF length_filter_le]) simp
  then have "length (visible R 0) < chain_fuel s1"
    using rec_off_length [OF d(8), of R] d(1) length_le_rec_off [of R] by (simp add: chain_fuel_def s1_def)
  note sc = db_scan_loop_spec [OF at this]
  show ?thesis
    unfolding db_scan_def e1 bnd_simps
  proof (rule returns_mono [OF sc], clarify)
    fix s' assume "db_at s' H R D cs (length R)"
    then have i2: "db_inv s' H R D cs {}" "unl {} s'" by (simp_all add: db_at_def)
    have "db_room n s'" using room inv i2(1) by (simp add: db_room_def db_inv_def)
    then show "distinct (map fst (map (\<lambda>j. (ir_key (R ! j), D ! j)) (visible R 0))) \<and>
        map_of (map (\<lambda>j. (ir_key (R ! j), D ! j)) (visible R 0)) = m |` {key. \<not> all_blank key} \<and> db_rep n s' m"
      using visible_keys [OF d(7)] i2 db_corrI [OF i2(1) m] m by (simp add: db_rep_def)
  qed
qed

end
