(* ===== verification/DbSpec.thy ===== *)
theory DbSpec
  imports DbScan
begin

text \<open>
  What the database library promises: the contract \<open>kv_store\<close> of a persistent map with the
  return codes of \<^verbatim>\<open>db_store\<close> and \<^verbatim>\<open>db_delete\<close>, the facts a client may use, the proof that
  the model of \<^verbatim>\<open>db.c\<close> has the contract, the program \<^verbatim>\<open>db/t4.c\<close>, locking, and the behaviour
  outside the contract.
\<close>

section \<open>The contract and its clients\<close>

text \<open>
  A client that inserts records one after the other, each with the message to give up with.
\<close>

fun load_all :: "('s \<Rightarrow> string \<Rightarrow> string \<Rightarrow> int \<Rightarrow> (int \<times> 's) res) \<Rightarrow> 's \<Rightarrow> ((string \<times> string) \<times> string) list \<Rightarrow> 's res" where
  "load_all put s [] = Inr s"
| "load_all put s (((key, d), msg) # kvs) =
     bnd (put s key d DB_INSERT) (\<lambda>(rc, s). if rc \<noteq> 0 then Inl (Err_quit msg) else load_all put s kvs)"

locale kv_store =
  fixes rep :: "nat \<Rightarrow> 's \<Rightarrow> (string \<rightharpoonup> string) \<Rightarrow> bool"
    and put :: "'s \<Rightarrow> string \<Rightarrow> string \<Rightarrow> int \<Rightarrow> (int \<times> 's) res"
    and get :: "'s \<Rightarrow> string \<Rightarrow> (string option \<times> 's) res"
    and del :: "'s \<Rightarrow> string \<Rightarrow> (int \<times> 's) res"
    and fits :: "string \<Rightarrow> string \<Rightarrow> bool"
  assumes put_law: "rep (Suc n) s m \<Longrightarrow> fits key d \<Longrightarrow> store_flag flag \<Longrightarrow>
      returns (put s key d flag) (\<lambda>(rc, s'). rc = store_rc flag (m key) \<and> rep n s' (store_map flag m key d))"
    and get_law: "rep n s m \<Longrightarrow> returns (get s key) (\<lambda>(v, s'). v = m key \<and> rep n s' m)"
    and del_law: "rep n s m \<Longrightarrow> returns (del s key) (\<lambda>(rc, s'). rc = (if m key = None then -1 else 0) \<and> rep n s' (m(key := None)))"
begin

text \<open>A stored record is what a later fetch returns, and no other key is affected.\<close>

lemma put_get:
  assumes "rep (Suc n) s m" "fits key d"
  shows "returns (bnd (put s key d DB_STORE) (\<lambda>(rc, s). get s key'))
    (\<lambda>(v, s'). v = (if key' = key then Some d else m key') \<and> rep n s' (m(key \<mapsto> d)))"
proof (rule returns_bnd [OF put_law [OF assms, of DB_STORE]])
  show "store_flag DB_STORE" by (simp add: store_flag_def)
  fix x :: "int \<times> 's"
  assume "case x of (rc, s') \<Rightarrow> rc = store_rc DB_STORE (m key) \<and> rep n s' (store_map DB_STORE m key d)"
  then have "rep n (snd x) (m(key \<mapsto> d))"
    by (auto simp: store_map_def store_rc_def DB_STORE_def DB_REPLACE_def DB_INSERT_def split: option.splits)
  then show "returns (case x of (rc, s) \<Rightarrow> get s key')
      (\<lambda>(v, s'). v = (if key' = key then Some d else m key') \<and> rep n s' (m(key \<mapsto> d)))"
    using get_law [of n "snd x" "m(key \<mapsto> d)" key'] by (auto simp: case_prod_unfold elim: returns_mono)
qed

text \<open>Inserting a list of records with distinct new keys succeeds at every record.\<close>

lemma load:
  assumes "rep (length kvs + n) s m" "distinct (map (fst \<circ> fst) kvs)"
    "\<And>key d msg. ((key, d), msg) \<in> set kvs \<Longrightarrow> fits key d \<and> m key = None"
  shows "returns (load_all put s kvs) (\<lambda>s'. rep n s' (m ++ map_of (map fst kvs)))"
  using assms
proof (induction kvs arbitrary: s m)
  case (Cons kv kvs)
  obtain key d msg where kv: "kv = ((key, d), msg)" by (metis surj_pair)
  have fits: "fits key d" "m key = None" using Cons.prems(3) [of key d msg] by (simp_all add: kv)
  obtain s1 where e: "put s key d DB_INSERT = Inr (0, s1)" and r: "rep (length kvs + n) s1 (m(key \<mapsto> d))"
    using put_law [of "length kvs + n" s m key d DB_INSERT] Cons.prems(1) fits
    by (auto simp: returns_def store_rc_def store_map_def store_flag_def DB_INSERT_def DB_REPLACE_def split: if_splits)
  have new: "fits key' d' \<and> (m(key \<mapsto> d)) key' = None" if "((key', d'), msg') \<in> set kvs" for key' d' msg'
    using Cons.prems(2) Cons.prems(3) [of key' d' msg'] that by (force simp: kv)
  have "key \<notin> dom (map_of (map fst kvs))"
    using Cons.prems(2) by (auto simp: kv dom_map_of_conv_image_fst image_image)
  then have eq: "m(key \<mapsto> d) ++ map_of (map fst kvs) = m ++ map_of (map fst (kv # kvs))"
    by (simp add: kv map_add_upd_left)
  have "returns (load_all put s1 kvs) (\<lambda>s'. rep n s' (m(key \<mapsto> d) ++ map_of (map fst kvs)))"
    by (rule Cons.IH [OF r _ new]) (use Cons.prems(2) in simp_all)
  then have "returns (load_all put s1 kvs) (\<lambda>s'. rep n s' (m ++ map_of (map fst (kv # kvs))))"
    by (simp only: eq)
  moreover have "load_all put s (kv # kvs) = load_all put s1 kvs" by (simp add: kv e)
  ultimately show ?case by (simp only:)
qed simp

end


section \<open>The library has the contract\<close>

interpretation kv: kv_store db_rep db_store db_fetch db_delete "\<lambda>key d. key_ok key \<and> data_ok d"
proof (unfold_locales, goal_cases)
  case (1 n s m key d flag)
  then show ?case using db_store_spec [of n s m key d flag] by (auto elim: returns_mono)
next
  case (2 n s m key)
  then show ?case using db_fetch_spec [of n s m key] by (auto elim: returns_mono)
next
  case (3 n s m key)
  then show ?case using db_delete_spec [of n s m key] by (auto elim: returns_mono)
qed

text \<open>The handle of a database that has just been created, for use in examples.\<close>

definition start_db :: dbst where
  "start_db = (db_alloc 0)\<lparr>nhash := 137, hashoff := 7,
     idxf := no_file\<lparr>cbytes := idx_layout (replicate 138 0) []\<rparr>\<rparr>"

lemma start_db_rep: "db_rep 9000 start_db Map.empty"
proof -
  have "db_corr start_db Map.empty"
    by (rule db_corr_empty) (simp_all add: start_db_def db_alloc_def no_file_def)
  then show ?thesis
    using length_empty_layout
    by (simp add: db_rep_def unl_def db_room_def PTR_MAX_def LONG_MAX_def) (simp add: start_db_def db_alloc_def no_file_def)
qed

lemma db_rep_le: "db_rep n s m \<Longrightarrow> k \<le> n \<Longrightarrow> db_rep k s m"
  by (auto simp: db_rep_def intro: db_room_le)

lemma sample_ok [simp]: "key_ok ''beta''" "data_ok ''Data for beta''"
  by (simp_all add: key_ok_def data_ok_def SEP_def DATLEN_MAX_def)

text \<open>A database with one record.\<close>

lemma one_record: "\<exists>s. db_rep 8999 s [''beta'' \<mapsto> ''Data for beta'']"
  using db_store_spec [of 8999 start_db Map.empty "''beta''" "''Data for beta''" DB_INSERT] start_db_rep
  by (auto simp: returns_def store_flag_def store_map_def store_rc_def DB_INSERT_def DB_REPLACE_def)

section \<open>t4.c\<close>

definition t4_records :: "((string \<times> string) \<times> string) list" where
  "t4_records =
    [((''Alpha'', ''data1''), ''db_store error for alpha''),
     ((''beta'', ''Data for beta''), ''db_store error for beta''),
     ((''gamma'', ''record3''), ''db_store error for gamma'')]"

definition t4_main :: "fsys \<Rightarrow> fsys res" where
  "t4_main sys =
     bnd (db_open sys ''db4'' (O_RDWR OR O_CREAT OR O_TRUNC)) (\<lambda>(h, sys).
     case h of None \<Rightarrow> Inl (Err_sys ''db_open error'')
     | Some s \<Rightarrow> bnd (load_all db_store s t4_records) (\<lambda>s. Inr (db_close ''db4'' s sys)))"

lemma t4_flags: "(O_RDWR OR O_CREAT OR O_TRUNC) AND (O_CREAT OR O_TRUNC) = O_CREAT OR O_TRUNC"
    "(O_RDWR OR O_CREAT OR O_TRUNC) AND O_EXCL = 0" "O_RDWR AND (O_CREAT OR O_TRUNC) = 0"
    "(O_RDWR OR O_CREAT OR O_TRUNC) AND O_ACCMODE = O_RDWR"
  by (simp_all add: O_RDWR_def O_CREAT_def O_TRUNC_def O_EXCL_def O_ACCMODE_def)

lemma k_open_locks: "k_open sys p oflag = (fd, f, sys') \<Longrightarrow> fs_locks sys' = fs_locks sys"
  by (auto simp: k_open_def Let_def split: option.splits if_splits)

lemma db_free_locks: "fs_locks (db_free s sys) = fs_locks sys"
  by (simp add: db_free_def k_close_def Let_def)

lemma db_open_locks:
  "db_open sys path oflag = Inr (h, sys') \<Longrightarrow> fs_locks sys' = fs_locks sys"
  by (auto simp: db_open_def Let_def bnd_Inr_iff db_free_locks dest!: k_open_locks split: prod.splits if_splits)


lemma t4_main_spec:
  assumes "fs_locks sys = (\<lambda>_. [])"
  shows "returns (t4_main sys) (\<lambda>sys'.
    returns (db_open sys' ''db4'' O_RDWR) (\<lambda>(h, _). \<exists>s. h = Some s \<and>
      db_rep 8997 s [''Alpha'' \<mapsto> ''data1'', ''beta'' \<mapsto> ''Data for beta'', ''gamma'' \<mapsto> ''record3'']))"
proof -
  let ?m = "[''Alpha'' \<mapsto> ''data1'', ''beta'' \<mapsto> ''Data for beta'', ''gamma'' \<mapsto> ''record3'']"
  obtain s sys1 where o: "db_open sys ''db4'' (O_RDWR OR O_CREAT OR O_TRUNC) = Inr (Some s, sys1)" and r: "db_rep 9000 s Map.empty"
    using db_open_new_spec [OF t4_flags(1,4), of sys "''db4''"] t4_flags(2) assms by (auto simp: returns_def)
  have locks: "fs_locks sys1 = (\<lambda>_. [])" using db_open_locks [OF o] assms by simp
  have "returns (load_all db_store s t4_records) (\<lambda>s'. db_rep 8997 s' (Map.empty ++ map_of (map fst t4_records)))"
    using r by (intro kv.load) (auto simp: t4_records_def key_ok_def data_ok_def SEP_def DATLEN_MAX_def)
  moreover have "Map.empty ++ map_of (map fst t4_records) = ?m" by (simp add: t4_records_def fun_upd_twist)
  ultimately obtain s2 where e: "load_all db_store s t4_records = Inr s2" and r2: "db_rep 8997 s2 ?m"
    by (auto simp: returns_def)
  have "returns (db_open (db_close ''db4'' s2 sys1) ''db4'' O_RDWR) (\<lambda>(h, sys'). \<exists>s. h = Some s \<and> db_rep 8997 s ?m)"
    using db_close_files [of "''db4''" s2 sys1] locks by (intro db_open_existing_spec [OF t4_flags(3) r2]) simp_all
  then show ?thesis by (simp add: t4_main_def o e)
qed

section \<open>Locking\<close>

lemma db_find_and_lock_waits:
  assumes "0 \<le> db_chainoff s key" "(nat (db_chainoff s key), 1, t) \<in> set (cothers (idxf s))" "t = F_WRLCK \<or> wl \<and> t = F_RDLCK"
  shows "db_find_and_lock s key wl = Inl (Sleeps (cbytes (idxf s)) (cbytes (datf s)))"
proof -
  have c: "conflicts (if wl then F_WRLCK else F_RDLCK) (nat (db_chainoff s key)) 1 (nat (db_chainoff s key), 1, t)"
    using assms(3) by (auto simp: conflicts_def overlap_def)
  then have "idx_lock (s\<lparr>chainoff := db_chainoff s key, ptroff := db_chainoff s key\<rparr>)
      (\<lambda>f. (if wl then writew_lock else readw_lock) f (db_chainoff s key) SEEK_SET 1) msg = Inl (Sleeps (cbytes (idxf s)) (cbytes (datf s)))" for msg
    using assms(1,2) by (cases wl) (auto simp: idx_lock_def writew_lock_def readw_lock_def lock_reg_def seek_base_def Let_def)
  from this [of "''_db_find_and_lock: writew_lock error''"] this [of "''_db_find_and_lock: readw_lock error''"]
  show ?thesis by (cases wl) (simp_all add: db_find_and_lock_def Let_def)
qed

section \<open>Outside the contract\<close>

text \<open>A key with a separator in it can be written, and then the record cannot be read.\<close>

lemma first_sep: "c \<in> set xs \<Longrightarrow> \<exists>a b. xs = a @ c # b \<and> c \<notin> set a"
  by (rule split_list_first)

lemma db_parseidx_sep:
  assumes buf: "idxbuf s = irec_body r @ t" and len: "idxlen s = length (irec_body r)"
    and key: "SEP \<in> set (ir_key r)" "NUL \<notin> set (ir_key r)"
  shows "db_parseidx s = Inl (Err_dump ''_db_readidx: too many separators'')"
proof -
  let ?c = "CHR '':''" and ?o = "show_nat (ir_off r)" and ?l = "show_nat (ir_len r)"
  obtain a b where ab: "ir_key r = a @ ?c # b" "?c \<notin> set a" using first_sep [OF key(1)] by (auto simp: SEP_def)
  obtain a2 b2 where ab2: "b @ ?c # ?o @ ?c # ?l = a2 @ ?c # b2" "?c \<notin> set a2"
    using first_sep [of ?c "b @ ?c # ?o @ ?c # ?l"] by auto
  have more: "?c \<in> set b2"
  proof -
    have "count_list (b @ ?c # ?o @ ?c # ?l) ?c \<ge> 2" by simp
    then have "count_list b2 ?c \<ge> 1" unfolding ab2(1) using ab2(2) by (simp add: count_list_0_iff)
    then show ?thesis by (metis count_list_0_iff not_one_le_zero)
  qed
  have nul: "NUL \<notin> set a" "NUL \<notin> set a2" "NUL \<notin> set b2"
  proof -
    show "NUL \<notin> set a" using key(2) ab by simp
    have "NUL \<notin> set (b @ ?c # ?o @ ?c # ?l)" using key(2) ab show_nat_no_sep by simp
    then show "NUL \<notin> set a2" "NUL \<notin> set b2" unfolding ab2(1) by simp_all
  qed
  have b0: "idxbuf s = (a @ ?c # a2 @ ?c # b2) @ NEWLINE # t"
    using buf ab ab2(1) by (simp add: irec_body_def SEP_def)
  have n: "idxlen s - 1 = length (a @ ?c # a2 @ ?c # b2)"
  proof -
    have "irec_body r = (a @ ?c # a2 @ ?c # b2) @ [NEWLINE]" using ab ab2(1) by (simp add: irec_body_def SEP_def)
    then show ?thesis using len by simp
  qed
  have b1: "(idxbuf s)[idxlen s - 1 := NUL] = a @ ?c # a2 @ ?c # b2 @ NUL # t"
    unfolding b0 n by (simp add: list_update_append)
  have s1: "strchr_at (a @ ?c # a2 @ ?c # b2 @ NUL # t) 0 ?c = Some (length a)"
    using strchr_at_Some [of 0 "[]" ?c a] ab nul by simp
  have b2': "(a @ ?c # a2 @ ?c # b2 @ NUL # t)[length a := NUL] = a @ NUL # a2 @ ?c # b2 @ NUL # t"
    by (simp add: list_update_append)
  have s2: "strchr_at (a @ NUL # a2 @ ?c # b2 @ NUL # t) (length a + 1) ?c = Some (length a + 1 + length a2)"
    using strchr_at_Some [of "length a + 1" "a @ [NUL]" ?c a2 "b2 @ NUL # t"] ab2 nul by simp
  have b3: "(a @ NUL # a2 @ ?c # b2 @ NUL # t)[length a + 1 + length a2 := NUL] = a @ NUL # a2 @ NUL # b2 @ NUL # t"
    by (simp add: list_update_append)
  have s3: "strchr_at (a @ NUL # a2 @ NUL # b2 @ NUL # t) (length a + 1 + length a2 + 1) ?c \<noteq> None"
  proof -
    obtain a3 b3 where ab3: "b2 = a3 @ ?c # b3" "?c \<notin> set a3" using first_sep [OF more] by auto
    show ?thesis
      using strchr_at_Some [of "length a + 1 + length a2 + 1" "a @ NUL # a2 @ [NUL]" ?c a3 "b3 @ NUL # t"] ab3 nul by simp
  qed
  have nl: "idxbuf s ! (idxlen s - 1) = NEWLINE" unfolding b0 n by (simp add: nth_append)
  show ?thesis
    unfolding db_parseidx_def SEP_def using nl b1 s1 b2' s2 b3 s3 by simp
qed

lemma db_writeidx_raw:
  assumes r: "idx_sized r" and hd: "nhash s = 137" "cothers (idxf s) = []"
    and args: "datoff s = int (ir_off r)" "datlen s = ir_len r"
  shows "db_writeidx s (ir_key r) 0 SEEK_END (int (ir_ptr r)) =
    Inr (written s r (length (cbytes (idxf s))) (clocked ((idxf s)\<lparr>cbytes := cbytes (idxf s) @ irec_bytes r,
      cpos := length (cbytes (idxf s)) + length (irec_bytes r)\<rparr>) 967 0 F_UNLCK))"
proof -
  have body: "idx_print (s\<lparr>ptrval := q\<rparr>) (ir_key r) = irec_body r" for q
    using args by (simp add: irec_body_def idx_print_def)
  have b: "int (ir_ptr r) \<le> PTR_MAX" "length (irec_body r) \<le> IDXLEN_MAX" "IDXLEN_MIN \<le> length (irec_body r)"
    using r by (auto simp: idx_sized_def)
  have parts: "length (padl PTR_SZ (show_nat (ir_ptr r))) = PTR_SZ"
    "length (padl IDXLEN_SZ (show_nat (length (irec_body r)))) = IDXLEN_SZ"
    using b length_ptr_field [of "ir_ptr r"] length_len_field [of "length (irec_body r)"]
    by (simp_all add: ptr_field_def PTR_SZ_def IDXLEN_SZ_def)
  then have tot: "length (irec_bytes r) = PTR_SZ + IDXLEN_SZ + length (irec_body r)"
    by (simp add: irec_bytes_def ptr_field_def)
  have lk: "clocked ((clocked f 967 0 F_WRLCK)\<lparr>cbytes := x, cpos := y\<rparr>) 967 0 F_UNLCK =
      clocked (f\<lparr>cbytes := x, cpos := y\<rparr>) 967 0 F_UNLCK" for f :: cfile and x y
    by (cases f) (auto simp: clocked_def)
  have bytes: "padl PTR_SZ (show_nat (ir_ptr r)) @ padl IDXLEN_SZ (show_nat (length (irec_body r))) @ irec_body r = irec_bytes r"
    by (simp add: irec_bytes_def ptr_field_def)
  show ?thesis
    unfolding db_writeidx_def
    using args b tot hd parts
    by (simp add: body bytes written_def Let_def idx_lock_free rec_start_137 k_write_def put_bytes_append lk)
qed

lemma separator_spec:
  assumes key: "SEP \<in> set (ir_key r)" "NUL \<notin> set (ir_key r)" and r: "idx_sized r"
    and hd: "nhash s = 137" "cothers (idxf s) = []" "datoff s = int (ir_off r)" "datlen s = ir_len r" "cbytes (idxf s) \<noteq> []"
  shows "returns (db_writeidx s (ir_key r) 0 SEEK_END (int (ir_ptr r)))
    (\<lambda>s'. db_readidx s' (idxoff s') = Inl (Err_dump ''_db_readidx: too many separators''))"
proof -
  let ?s = "written s r (length (cbytes (idxf s))) (clocked ((idxf s)\<lparr>cbytes := cbytes (idxf s) @ irec_bytes r,
      cpos := length (cbytes (idxf s)) + length (irec_bytes r)\<rparr>) 967 0 F_UNLCK)"
  have "db_readidx ?s (idxoff ?s) = db_parseidx (read_raw ?s r (length (cbytes (idxf s))))"
    using hd(5) by (intro db_readidx_raw [OF r, where rest = "[]"]) simp_all
  also have "\<dots> = Inl (Err_dump ''_db_readidx: too many separators'')"
    by (rule db_parseidx_sep [OF _ _ key]) (simp_all add: read_raw_def)
  finally show ?thesis using db_writeidx_raw [OF r hd(1-4)] by simp
qed

text \<open>A database created without \<^verbatim>\<open>O_TRUNC\<close> gets no hash table.\<close>

lemma k_open_creat:
  "oflag AND O_CREAT \<noteq> 0 \<Longrightarrow> fs_files sys p = None \<Longrightarrow> k_open sys p oflag =
    (lowest_free (length (fs_fds sys)) 0 (fs_fds sys),
     \<lparr>cbytes = [], cpos = 0, clocks = (\<lambda>_. F_UNLCK), cothers = fs_locks sys p\<rparr>,
     sys\<lparr>fs_files := (fs_files sys)(p \<mapsto> []), fs_fds := lowest_free (length (fs_fds sys)) 0 (fs_fds sys) # fs_fds sys\<rparr>)"
  by (simp add: k_open_def Let_def)

lemma creat_only_spec:
  assumes flags: "oflag AND O_CREAT \<noteq> 0" "oflag AND O_TRUNC = 0"
    and new: "fs_files sys (path @ ''.idx'') = None" "fs_files sys (path @ ''.dat'') = None" "fs_locks sys = (\<lambda>_. [])"
  shows "returns (db_open sys path oflag) (\<lambda>(h, _). \<exists>s. h = Some s \<and>
    (\<forall>key. db_fetch s key = Inl (Err_dump ''_db_readptr: read error of ptr field'')))"
proof -
  let ?fd1 = "lowest_free (length (fs_fds sys)) 0 (fs_fds sys)"
  have "oflag AND (O_CREAT OR O_TRUNC) \<noteq> O_CREAT OR O_TRUNC"
  proof
    assume "oflag AND (O_CREAT OR O_TRUNC) = O_CREAT OR O_TRUNC"
    then have "(oflag AND (O_CREAT OR O_TRUNC)) AND O_TRUNC = (O_CREAT OR O_TRUNC) AND O_TRUNC" by simp
    then show False using flags(2) by (simp add: and.assoc O_CREAT_def O_TRUNC_def)
  qed
  moreover have "0 \<le> ?fd1" "0 \<le> lowest_free (Suc (length (fs_fds sys))) 0 (?fd1 # fs_fds sys)"
    by (simp_all only: lowest_free_ge order_refl)
  ultimately obtain s sys' where o: "db_open sys path oflag = Inr (Some s, sys')"
    and s: "nhash s = 137" "hashoff s = 7" "cbytes (idxf s) = []" "cothers (idxf s) = []"
    using flags new by (simp add: db_open_def Let_def k_open_creat db_rewind_spec NHASH_DEF_def HASH_OFF_def PTR_SZ_def del: lowest_free.simps)
  have "db_fetch s key = Inl (Err_dump ''_db_readptr: read error of ptr field'')" for key
    using s db_chainoff_hash [OF s(1,2), of key]
    by (simp add: db_fetch_def db_find_and_lock_def Let_def idx_lock_free db_readptr_def k_read_def PTR_SZ_def)
  then show ?thesis by (simp add: o)
qed


section \<open>Properties\<close>

text \<open>
  C1. \<^verbatim>\<open>db_store\<close> refines the update of a finite map: for a key without a separator and data of
  a legal length it always returns; the result, \<^verbatim>\<open>errno\<close> and the map after the call are those
  of the flag (\<^verbatim>\<open>DB_INSERT\<close> keeps an existing record and returns 1, \<^verbatim>\<open>DB_REPLACE\<close> of a missing
  key returns -1 with \<^verbatim>\<open>ENOENT\<close>, everything else stores and returns 0), and no lock is left.
\<close>

theorem db_store_refines:
  assumes "db_rep (Suc n) s m" "key_ok key" "data_ok d" "store_flag flag"
  shows "\<exists>s'. db_store s key d flag = Inr (store_rc flag (m key), s') \<and>
    db_rep n s' (store_map flag m key d) \<and> c_errno s' = store_errno flag (m key) (c_errno s)"
  using db_store_spec [OF assms] by (auto simp: returns_def)

theorem db_store_refines_witness:
  "\<exists>s'. db_store start_db ''beta'' ''Data for beta'' DB_INSERT = Inr (0, s') \<and>
    db_rep 8999 s' [''beta'' \<mapsto> ''Data for beta'']"
  using db_store_refines [of 8999 start_db Map.empty "''beta''" "''Data for beta''" DB_INSERT] start_db_rep
  by (auto simp: store_flag_def store_map_def store_rc_def DB_INSERT_def DB_REPLACE_def)

text \<open>
  C2. \<^verbatim>\<open>db_fetch\<close> returns the data stored under the key, or \<^verbatim>\<open>NULL\<close> when there is none; the
  database stands for the same map afterwards and no lock is left. This holds for every key.
\<close>

theorem db_fetch_refines:
  assumes "db_rep n s m"
  shows "\<exists>s'. db_fetch s key = Inr (m key, s') \<and> db_rep n s' m"
  using db_fetch_spec [OF assms, of key] by (auto simp: returns_def)

theorem db_fetch_refines_witness:
  "\<exists>s s'. db_rep 8999 s [''beta'' \<mapsto> ''Data for beta''] \<and> db_fetch s ''beta'' = Inr (Some ''Data for beta'', s')"
  using one_record db_fetch_refines [of 8999 _ "[''beta'' \<mapsto> ''Data for beta'']" "''beta''"] by fastforce

text \<open>
  C3. \<^verbatim>\<open>db_delete\<close> removes the key from the map: it returns 0 when there was a record and -1
  when there was none, and leaves no lock.
\<close>

theorem db_delete_refines:
  assumes "db_rep n s m"
  shows "\<exists>s'. db_delete s key = Inr (if m key = None then -1 else 0, s') \<and> db_rep n s' (m(key := None))"
  using db_delete_spec [OF assms, of key] by (auto simp: returns_def)

theorem db_delete_refines_witness:
  "\<exists>s s'. db_rep 8999 s [''beta'' \<mapsto> ''Data for beta''] \<and> db_delete s ''beta'' = Inr (0, s') \<and> db_rep 8999 s' Map.empty"
  using one_record db_delete_refines [of 8999 _ "[''beta'' \<mapsto> ''Data for beta'']" "''beta''"] by fastforce

text \<open>
  C4. \<^verbatim>\<open>db_rewind\<close> followed by \<^verbatim>\<open>db_nextrec\<close> until it returns \<^verbatim>\<open>NULL\<close> reports every record of
  the map whose key is not all blanks, each key once with its data, and nothing else, whatever
  empty records the files contain.
\<close>

theorem db_scan_complete:
  assumes "db_rep n s m"
  shows "\<exists>kds s'. db_scan s = Inr (kds, s') \<and> distinct (map fst kds) \<and>
    map_of kds = m |` {key. \<not> all_blank key} \<and> db_rep n s' m"
  using db_scan_spec [OF assms] by (auto simp: returns_def)

theorem db_scan_complete_witness:
  "\<exists>s kds s'. db_rep 8999 s [''beta'' \<mapsto> ''Data for beta''] \<and> db_scan s = Inr (kds, s') \<and>
    map_of kds ''beta'' = Some ''Data for beta''"
proof -
  obtain s where s: "db_rep 8999 s [''beta'' \<mapsto> ''Data for beta'']" using one_record by blast
  from db_scan_complete [OF s] obtain kds s' where "db_scan s = Inr (kds, s')"
    "map_of kds = [''beta'' \<mapsto> ''Data for beta''] |` {key. \<not> all_blank key}" by blast
  with s show ?thesis by (auto simp: all_blank_def)
qed

text \<open>
  C5. Opening with \<^verbatim>\<open>O_RDWR | O_CREAT | O_TRUNC\<close> (and, with \<^verbatim>\<open>O_EXCL\<close>, when there are no such files)
  succeeds and gives a handle for the empty database with room for 9000 records; with
  \<^verbatim>\<open>O_RDONLY\<close> in place of \<^verbatim>\<open>O_RDWR\<close> the write lock on the new index file fails and ends the process. With \<^verbatim>\<open>O_CREAT\<close> but
  without \<^verbatim>\<open>O_TRUNC\<close>, \<^verbatim>\<open>db_open\<close> creates the two files and returns a handle too, for reading or for both, but does
  not write the hash table: every \<^verbatim>\<open>db_fetch\<close> then ends the process.
\<close>

theorem db_open_creates:
  assumes "fs_locks sys (path @ ''.idx'') = []" "fs_locks sys (path @ ''.dat'') = []"
  shows "(oflag AND (O_CREAT OR O_TRUNC) = O_CREAT OR O_TRUNC \<and> oflag AND O_ACCMODE = O_RDWR \<and>
      (oflag AND O_EXCL = 0 \<or> fs_files sys (path @ ''.idx'') = None \<and> fs_files sys (path @ ''.dat'') = None) \<longrightarrow>
      (\<exists>s sys'. db_open sys path oflag = Inr (Some s, sys') \<and> db_rep 9000 s Map.empty)) \<and>
    (oflag AND (O_CREAT OR O_TRUNC) = O_CREAT OR O_TRUNC \<and> oflag AND O_ACCMODE = O_RDONLY \<and>
      (oflag AND O_EXCL = 0 \<or> fs_files sys (path @ ''.idx'') = None \<and> fs_files sys (path @ ''.dat'') = None) \<longrightarrow>
      db_open sys path oflag = Inl (Err_dump ''db_open: writew_lock error'')) \<and>
    (oflag AND O_CREAT \<noteq> 0 \<and> oflag AND O_TRUNC = 0 \<and> oflag AND O_ACCMODE \<in> {O_RDONLY, O_RDWR} \<and> fs_locks sys = (\<lambda>_. []) \<and>
      fs_files sys (path @ ''.idx'') = None \<and> fs_files sys (path @ ''.dat'') = None \<longrightarrow>
      (\<exists>s sys'. db_open sys path oflag = Inr (Some s, sys') \<and>
        (\<forall>key. db_fetch s key = Inl (Err_dump ''_db_readptr: read error of ptr field''))))"
  using db_open_new_spec [of oflag sys path] db_open_rdonly [of oflag sys path] creat_only_spec [of oflag sys path] assms by (auto simp: returns_def)

theorem db_open_creates_witness:
  "\<exists>s sys' t sys''. db_open \<lparr>fs_files = Map.empty, fs_fds = [0, 1, 2], fs_locks = (\<lambda>_. [])\<rparr> ''db4''
      (O_RDWR OR O_CREAT OR O_TRUNC) = Inr (Some s, sys') \<and> db_rep 9000 s Map.empty \<and>
    db_open \<lparr>fs_files = Map.empty, fs_fds = [0, 1, 2], fs_locks = (\<lambda>_. [])\<rparr> ''db4'' (O_RDWR OR O_CREAT) = Inr (Some t, sys'') \<and>
    db_fetch t ''beta'' = Inl (Err_dump ''_db_readptr: read error of ptr field'') \<and>
    db_open \<lparr>fs_files = Map.empty, fs_fds = [0, 1, 2], fs_locks = (\<lambda>_. [])\<rparr> ''db4'' (O_RDONLY OR O_CREAT OR O_TRUNC) =
      Inl (Err_dump ''db_open: writew_lock error'')"
proof -
  let ?sys = "\<lparr>fs_files = Map.empty, fs_fds = [0, 1, 2], fs_locks = (\<lambda>_. [])\<rparr>"
  from db_open_creates [of ?sys "''db4''" "O_RDWR OR O_CREAT OR O_TRUNC"] obtain s sys' where
    "db_open ?sys ''db4'' (O_RDWR OR O_CREAT OR O_TRUNC) = Inr (Some s, sys')" "db_rep 9000 s Map.empty"
    by (auto simp: t4_flags)
  moreover from db_open_creates [of ?sys "''db4''" "O_RDWR OR O_CREAT"] obtain t sys'' where
    "db_open ?sys ''db4'' (O_RDWR OR O_CREAT) = Inr (Some t, sys'')"
    "db_fetch t ''beta'' = Inl (Err_dump ''_db_readptr: read error of ptr field'')"
    by (auto simp: O_RDWR_def O_CREAT_def O_TRUNC_def O_ACCMODE_def)
  moreover from db_open_creates [of ?sys "''db4''" "O_RDONLY OR O_CREAT OR O_TRUNC"]
  have "db_open ?sys ''db4'' (O_RDONLY OR O_CREAT OR O_TRUNC) = Inl (Err_dump ''db_open: writew_lock error'')"
    by (simp add: O_RDONLY_def O_CREAT_def O_TRUNC_def O_ACCMODE_def O_EXCL_def)
  ultimately show ?thesis by blast
qed

text \<open>
  C6. The map survives closing and opening: after \<^verbatim>\<open>db_close\<close>, opening the same path without
  \<^verbatim>\<open>O_CREAT\<close> and \<^verbatim>\<open>O_TRUNC\<close> gives a handle for the map the database stood for.
\<close>

theorem db_close_open:
  assumes "db_rep n s m" "fs_locks sys = (\<lambda>_. [])" "oflag AND (O_CREAT OR O_TRUNC) = 0"
  shows "\<exists>s' sys'. db_open (db_close path s sys) path oflag = Inr (Some s', sys') \<and> db_rep n s' m"
  using db_open_existing_spec [OF assms(3,1), of "db_close path s sys" path] db_close_files [of path s sys] assms(2)
  by (auto simp: returns_def)

theorem db_close_open_witness:
  "\<exists>s s' sys'. db_rep 8999 s [''beta'' \<mapsto> ''Data for beta''] \<and>
    db_open (db_close ''db4'' s \<lparr>fs_files = Map.empty, fs_fds = [0, 1, 2], fs_locks = (\<lambda>_. [])\<rparr>) ''db4'' O_RDWR
      = Inr (Some s', sys') \<and> db_rep 8999 s' [''beta'' \<mapsto> ''Data for beta'']"
  using one_record
    db_close_open [of 8999 _ "[''beta'' \<mapsto> ''Data for beta'']" "\<lparr>fs_files = Map.empty, fs_fds = [0, 1, 2], fs_locks = (\<lambda>_. [])\<rparr>" O_RDWR "''db4''"]
    t4_flags(3) by (metis fsys.select_convs(3))

text \<open>
  The program \<^verbatim>\<open>t4.c\<close> never reaches one of its error exits when no other process has locks,
  and a database opened on its files afterwards stands for exactly its three records.
\<close>

theorem t4_main_stores:
  assumes "fs_locks sys = (\<lambda>_. [])"
  shows "\<exists>sys' s sys''. t4_main sys = Inr sys' \<and> db_open sys' ''db4'' O_RDWR = Inr (Some s, sys'') \<and>
    db_rep 8997 s [''Alpha'' \<mapsto> ''data1'', ''beta'' \<mapsto> ''Data for beta'', ''gamma'' \<mapsto> ''record3'']"
  using t4_main_spec [OF assms] by (auto simp: returns_def)

theorem t4_main_stores_witness:
  "\<exists>sys'. t4_main \<lparr>fs_files = Map.empty, fs_fds = [0, 1, 2], fs_locks = (\<lambda>_. [])\<rparr> = Inr sys'"
  using t4_main_stores [of "\<lparr>fs_files = Map.empty, fs_fds = [0, 1, 2], fs_locks = (\<lambda>_. [])\<rparr>"] by auto

text \<open>The contract of a key-value store, through the interpretation of its locale.\<close>

lemma db_store_fetch:
  assumes "db_rep (Suc n) s m" "key_ok key" "data_ok d"
  shows "returns (bnd (db_store s key d DB_STORE) (\<lambda>(rc, s). db_fetch s key'))
    (\<lambda>(v, s'). v = (if key' = key then Some d else m key') \<and> db_rep n s' (m(key \<mapsto> d)))"
  using assms by (intro kv.put_get) simp_all

text \<open>
  C9. Mutual exclusion on a chain: while another process has the write lock on the chain of the
  key, \<^verbatim>\<open>db_fetch\<close>, \<^verbatim>\<open>db_delete\<close> and \<^verbatim>\<open>db_store\<close> all sleep, and at that moment both files have
  exactly the bytes that they had before the call.
\<close>

theorem db_chain_locked:
  assumes "0 \<le> db_chainoff s key" "(nat (db_chainoff s key), 1, F_WRLCK) \<in> set (cothers (idxf s))"
    and "store_flag flag" "data_ok d"
  shows "db_fetch s key = Inl (Sleeps (cbytes (idxf s)) (cbytes (datf s))) \<and>
    db_delete s key = Inl (Sleeps (cbytes (idxf s)) (cbytes (datf s))) \<and>
    db_store s key d flag = Inl (Sleeps (cbytes (idxf s)) (cbytes (datf s)))"
proof -
  have "\<not> length d + 1 < DATLEN_MIN" "\<not> length d + 1 > DATLEN_MAX"
    using assms(4) by (cases d; simp add: data_ok_def DATLEN_MIN_def)+
  then show ?thesis
    using db_find_and_lock_waits [OF assms(1,2)] assms(3)
    by (auto simp: db_fetch_def db_delete_def db_store_def store_flag_def)
qed

theorem db_chain_locked_witness:
  "db_fetch (start_db\<lparr>idxf := (idxf start_db)\<lparr>cothers := [(7 * Suc (key_hash ''beta''), 1, F_WRLCK)]\<rparr>\<rparr>) ''beta'' =
    Inl (Sleeps (cbytes (idxf start_db)) [])"
proof -
  let ?s = "start_db\<lparr>idxf := (idxf start_db)\<lparr>cothers := [(7 * Suc (key_hash ''beta''), 1, F_WRLCK)]\<rparr>\<rparr>"
  have "db_chainoff ?s ''beta'' = int (7 * Suc (key_hash ''beta''))"
    by (rule db_chainoff_hash) (simp_all add: start_db_def)
  then show ?thesis
    using db_chain_locked [of ?s "''beta''" DB_STORE "''Data for beta''"]
    by (simp add: store_flag_def) (simp add: start_db_def db_alloc_def no_file_def)
qed

text \<open>
  C10. A key with the separator in it breaks the database: \<^verbatim>\<open>_db_writeidx\<close> appends the record
  without complaint, and every later \<^verbatim>\<open>_db_readidx\<close> of it ends the process with
  \<^verbatim>\<open>err_dump\<close>, so that no key of that chain can be searched for past it.
\<close>

theorem separator_key_unreadable:
  assumes "SEP \<in> set (ir_key r)" "NUL \<notin> set (ir_key r)" "idx_sized r"
    and "nhash s = 137" "cothers (idxf s) = []" "datoff s = int (ir_off r)" "datlen s = ir_len r" "cbytes (idxf s) \<noteq> []"
  shows "\<exists>s'. db_writeidx s (ir_key r) 0 SEEK_END (int (ir_ptr r)) = Inr s' \<and>
    db_readidx s' (idxoff s') = Inl (Err_dump ''_db_readidx: too many separators'')"
  using separator_spec [OF assms] by (auto simp: returns_def)

theorem separator_key_unreadable_witness:
  "\<exists>s'. db_writeidx (start_db\<lparr>datlen := 6\<rparr>) ''a:b'' 0 SEEK_END 0 = Inr s' \<and>
    db_readidx s' (idxoff s') = Inl (Err_dump ''_db_readidx: too many separators'')"
proof -
  have "idx_layout (replicate 138 0) [] \<noteq> []" using length_empty_layout by (metis list.size(3) zero_neq_numeral)
  moreover have "idx_sized \<lparr>ir_ptr = 0, ir_key = ''a:b'', ir_off = 0, ir_len = 6\<rparr>"
    by (simp add: idx_sized_def length_irec_body PTR_MAX_def IDXLEN_MIN_def IDXLEN_MAX_def show_nat.simps)
  ultimately show ?thesis
    using separator_key_unreadable [of "\<lparr>ir_ptr = 0, ir_key = ''a:b'', ir_off = 0, ir_len = 6\<rparr>" "start_db\<lparr>datlen := 6\<rparr>"]
    by (simp add: SEP_def start_db_def db_alloc_def no_file_def)
qed

end
