(* ===== verification/Stream.thy ===== *)
theory Stream
  imports CLib
begin

text \<open>
  Sockets as seen by one process, and the functions that read and write an exact number of
  bytes: \<^verbatim>\<open>readn\<close> and \<^verbatim>\<open>writen\<close> of \<^verbatim>\<open>lib\<close>, \<^verbatim>\<open>tread\<close> and \<^verbatim>\<open>treadn\<close> of
  \<^verbatim>\<open>printer/util.c\<close>. What arrives on a socket is a list of events; what the kernel does with
  writes is a list of outcomes. Both lists are arbitrary, so a theorem about every stream is a
  theorem about every peer.
\<close>

section \<open>Streams\<close>

text \<open>
  \<open>RData d\<close> is data that arrives together, \<open>RErr e\<close> a read that fails, \<open>RTimeout\<close> a period in
  which nothing arrives; after the list comes the end of the file. \<open>WCount k\<close> is a write that
  takes at most \<open>k\<close> bytes; after the list every write takes all.
\<close>

datatype rd = RData string | RErr int | RTimeout
datatype wr = WCount nat | WErr int

record stream =
  s_in :: "rd list"
  s_out :: string
  s_wr :: "wr list"

definition ETIME :: int where "ETIME = 62"

text \<open>\<^verbatim>\<open>read(fd, buf, n)\<close>: the error number, or the bytes read (none at the end of the file).\<close>

fun rd_read :: "nat \<Rightarrow> rd list \<Rightarrow> (int + string) \<times> rd list" where
  "rd_read n [] = (Inr [], [])"
| "rd_read n (RData d # r) =
     (if length d \<le> n then (Inr d, r) else (Inr (take n d), RData (drop n d) # r))"
| "rd_read n (RErr e # r) = (Inl e, r)"
| "rd_read n (RTimeout # r) = rd_read n r"

definition s_read :: "nat \<Rightarrow> stream \<Rightarrow> (int + string) \<times> stream" where
  "s_read n s = (let (r, i) = rd_read n (s_in s) in (r, s\<lparr>s_in := i\<rparr>))"

definition s_write :: "string \<Rightarrow> stream \<Rightarrow> (int + nat) \<times> stream" where
  "s_write d s = (case s_wr s of
       [] \<Rightarrow> (Inr (length d), s\<lparr>s_out := s_out s @ d\<rparr>)
     | WCount k # r \<Rightarrow> let m = min k (length d) in (Inr m, s\<lparr>s_out := s_out s @ take m d, s_wr := r\<rparr>)
     | WErr e # r \<Rightarrow> (Inl e, s\<lparr>s_wr := r\<rparr>))"

section \<open>readn and writen\<close>

function readn_loop :: "nat \<Rightarrow> nat \<Rightarrow> string \<Rightarrow> stream \<Rightarrow> (int + string) \<times> stream" where
  "readn_loop n nleft buf s =
     (if nleft = 0 then (Inr buf, s)
      else case s_read nleft s of
        (Inl e, s) \<Rightarrow> if nleft = n then (Inl e, s) else (Inr buf, s)
      | (Inr d, s) \<Rightarrow> if d = [] then (Inr buf, s) else readn_loop n (nleft - length d) (buf @ d) s)"
  by pat_completeness auto
termination by (relation "measure (\<lambda>(n, nleft, buf, s). nleft)") auto

definition readn :: "nat \<Rightarrow> stream \<Rightarrow> (int + string) \<times> stream" where
  "readn n s = readn_loop n n [] s"

function writen_loop :: "nat \<Rightarrow> string \<Rightarrow> stream \<Rightarrow> (int + nat) \<times> stream" where
  "writen_loop n rest s =
     (if rest = [] then (Inr n, s)
      else case s_write rest s of
        (Inl e, s) \<Rightarrow> if length rest = n then (Inl e, s) else (Inr (n - length rest), s)
      | (Inr k, s) \<Rightarrow> if k = 0 then (Inr (n - length rest), s) else writen_loop n (drop k rest) s)"
  by pat_completeness auto
termination by (relation "measure (\<lambda>(n, rest, s). length rest)") auto

definition writen :: "string \<Rightarrow> stream \<Rightarrow> (int + nat) \<times> stream" where
  "writen d s = writen_loop (length d) d s"

declare readn_loop.simps [simp del] writen_loop.simps [simp del]

section \<open>tread and treadn\<close>

definition tread :: "nat \<Rightarrow> stream \<Rightarrow> (int + string) \<times> stream" where
  "tread n s = (case s_in s of
       RTimeout # r \<Rightarrow> (Inl ETIME, s\<lparr>s_in := r\<rparr>)
     | _ \<Rightarrow> s_read n s)"

function treadn_loop :: "nat \<Rightarrow> nat \<Rightarrow> string \<Rightarrow> stream \<Rightarrow> (int + string) \<times> stream" where
  "treadn_loop n nleft buf s =
     (if nleft = 0 then (Inr buf, s)
      else case tread nleft s of
        (Inl e, s) \<Rightarrow> if nleft = n then (Inl e, s) else (Inr buf, s)
      | (Inr d, s) \<Rightarrow> if d = [] then (Inr buf, s) else treadn_loop n (nleft - length d) (buf @ d) s)"
  by pat_completeness auto
termination by (relation "measure (\<lambda>(n, nleft, buf, s). nleft)") auto

declare treadn_loop.simps [simp del]

definition treadn :: "nat \<Rightarrow> stream \<Rightarrow> (int + string) \<times> stream" where
  "treadn n s = treadn_loop n n [] s"

section \<open>Facts\<close>

text \<open>All the bytes that will arrive.\<close>

fun arriving :: "rd list \<Rightarrow> string" where
  "arriving [] = []"
| "arriving (RData d # r) = d @ arriving r"
| "arriving (RErr e # r) = arriving r"
| "arriving (RTimeout # r) = arriving r"

lemma rd_read_conserves:
  "rd_read n i = (Inr d, j) \<Longrightarrow> arriving i = d @ arriving j \<and> length d \<le> n"
  "rd_read n i = (Inl e, j) \<Longrightarrow> arriving i = arriving j"
  by (induction n i rule: rd_read.induct) (auto split: if_splits)

lemma s_read_conserves:
  "s_read n s = (Inr d, t) \<Longrightarrow> arriving (s_in s) = d @ arriving (s_in t) \<and> length d \<le> n \<and> s_out t = s_out s \<and> s_wr t = s_wr s"
  "s_read n s = (Inl e, t) \<Longrightarrow> arriving (s_in s) = arriving (s_in t) \<and> s_out t = s_out s \<and> s_wr t = s_wr s"
  using rd_read_conserves by (auto simp: s_read_def split: prod.splits)

lemma tread_conserves:
  "tread n s = (Inr d, t) \<Longrightarrow> arriving (s_in s) = d @ arriving (s_in t) \<and> length d \<le> n \<and> s_out t = s_out s \<and> s_wr t = s_wr s"
  "tread n s = (Inl e, t) \<Longrightarrow> arriving (s_in s) = arriving (s_in t) \<and> s_out t = s_out s \<and> s_wr t = s_wr s"
proof -
  show "tread n s = (Inr d, t) \<Longrightarrow> arriving (s_in s) = d @ arriving (s_in t) \<and> length d \<le> n \<and> s_out t = s_out s \<and> s_wr t = s_wr s"
    by (auto simp: tread_def dest: s_read_conserves(1) split: list.splits rd.splits)
  show "tread n s = (Inl e, t) \<Longrightarrow> arriving (s_in s) = arriving (s_in t) \<and> s_out t = s_out s \<and> s_wr t = s_wr s"
    by (auto simp: tread_def dest: s_read_conserves(2) split: list.splits rd.splits)
qed

text \<open>A stream on which only data arrives, each time some.\<close>

definition steady :: "rd list \<Rightarrow> bool" where
  "steady i \<longleftrightarrow> (\<forall>x \<in> set i. \<exists>d. x = RData d \<and> d \<noteq> [])"

lemma steady_read:
  assumes "steady (s_in s)" "0 < n"
  shows "\<exists>d t. s_read n s = (Inr d, t) \<and> steady (s_in t) \<and> (d = [] \<longleftrightarrow> arriving (s_in s) = [])"
  using assms by (cases "s_in s") (auto simp: s_read_def steady_def)

lemma steady_tread: "steady (s_in s) \<Longrightarrow> tread n s = s_read n s"
  by (auto simp: tread_def steady_def split: list.splits rd.splits)


section \<open>Exact readers\<close>

text \<open>
  \<^verbatim>\<open>readn\<close> and \<^verbatim>\<open>treadn\<close> are the same loop over different ways of reading once. The contract
  of one read is that it neither loses nor invents bytes and respects the limit.
\<close>

locale exact_reader =
  fixes read1 :: "nat \<Rightarrow> stream \<Rightarrow> (int + string) \<times> stream"
    and loop :: "nat \<Rightarrow> nat \<Rightarrow> string \<Rightarrow> stream \<Rightarrow> (int + string) \<times> stream"
  assumes loop_eq: "loop n nleft buf s =
     (if nleft = 0 then (Inr buf, s)
      else case read1 nleft s of
        (Inl e, s) \<Rightarrow> if nleft = n then (Inl e, s) else (Inr buf, s)
      | (Inr d, s) \<Rightarrow> if d = [] then (Inr buf, s) else loop n (nleft - length d) (buf @ d) s)"
    and read1_data: "read1 n s = (Inr d, t) \<Longrightarrow> arriving (s_in s) = d @ arriving (s_in t) \<and> length d \<le> n \<and> s_out t = s_out s \<and> s_wr t = s_wr s"
    and read1_error: "read1 n s = (Inl e, t) \<Longrightarrow> arriving (s_in s) = arriving (s_in t) \<and> s_out t = s_out s \<and> s_wr t = s_wr s"
    and read1_steady: "steady (s_in s) \<Longrightarrow> 0 < n \<Longrightarrow> \<exists>d t. read1 n s = (Inr d, t) \<and> steady (s_in t) \<and> (d = [] \<longleftrightarrow> arriving (s_in s) = [])"
begin

lemma loop_done: "loop n 0 buf s = (Inr buf, s)"
  by (simp add: loop_eq)

lemma loop_conserves:
  assumes "loop n nleft buf s = (r, t)" "nleft \<le> n"
  shows "(case r of
      Inr d \<Rightarrow> \<exists>e. d = buf @ e \<and> length e \<le> nleft \<and> arriving (s_in s) = e @ arriving (s_in t)
    | Inl e \<Rightarrow> nleft = n \<and> arriving (s_in t) = arriving (s_in s)) \<and> s_out t = s_out s \<and> s_wr t = s_wr s"
  using assms
proof (induction nleft arbitrary: buf s rule: less_induct)
  case (less nleft)
  show ?case
  proof (cases "nleft = 0")
    case False
    obtain x s1 where rd: "read1 nleft s = (x, s1)" by (metis surj_pair)
    show ?thesis
    proof (cases x)
      case (Inl e)
      then show ?thesis
        using less.prems rd False read1_error [OF rd [unfolded Inl]] by (auto simp: loop_eq [of n nleft] split: if_splits)
    next
      case (Inr d)
      note c = read1_data [OF rd [unfolded Inr]]
      show ?thesis
      proof (cases "d = []")
        case True
        then show ?thesis using less.prems rd False Inr c by (auto simp: loop_eq [of n nleft])
      next
        case d: False
        then have "loop n (nleft - length d) (buf @ d) s1 = (r, t)"
          using less.prems(1) rd False Inr by (simp add: loop_eq [of n nleft])
        moreover have "nleft - length d < nleft" using d False by simp
        ultimately show ?thesis
          using less.IH [of "nleft - length d" "buf @ d" s1] less.prems(2) c d by (cases r) auto
      qed
    qed
  qed (use less.prems in \<open>auto simp: loop_done\<close>)
qed

text \<open>When only data arrives, the loop delivers as much as was asked for, or everything.\<close>

lemma loop_steady:
  assumes "steady (s_in s)"
  shows "\<exists>t. loop n nleft buf s = (Inr (buf @ take nleft (arriving (s_in s))), t) \<and>
    arriving (s_in t) = drop nleft (arriving (s_in s)) \<and> steady (s_in t)"
  using assms
proof (induction nleft arbitrary: buf s rule: less_induct)
  case (less nleft)
  show ?case
  proof (cases "nleft = 0")
    case False
    then have "0 < nleft" by simp
    from read1_steady [OF less.prems this]
    obtain d s1 where rd: "read1 nleft s = (Inr d, s1)" "steady (s_in s1)" "d = [] \<longleftrightarrow> arriving (s_in s) = []" by blast
    note c = read1_data [OF rd(1)]
    show ?thesis
    proof (cases "d = []")
      case True
      then have e: "arriving (s_in s) = []" using rd(3) by blast
      then have "arriving (s_in s1) = []" using c by (metis append_is_Nil_conv)
      moreover have "loop n nleft buf s = (Inr buf, s1)" using True rd(1) False by (subst loop_eq) simp
      ultimately show ?thesis using rd(2) e by simp
    next
      case d: False
      then have "nleft - length d < nleft" using False by simp
      from less.IH [OF this rd(2), of "buf @ d"] obtain t where
        t: "loop n (nleft - length d) (buf @ d) s1 = (Inr ((buf @ d) @ take (nleft - length d) (arriving (s_in s1))), t)"
          "arriving (s_in t) = drop (nleft - length d) (arriving (s_in s1))" "steady (s_in t)" by blast
      have "loop n nleft buf s = (Inr ((buf @ d) @ take (nleft - length d) (arriving (s_in s1))), t)"
        using rd(1) d False t(1) by (simp add: loop_eq [of n nleft])
      moreover have "take nleft (arriving (s_in s)) = d @ take (nleft - length d) (arriving (s_in s1))"
        "drop nleft (arriving (s_in s)) = drop (nleft - length d) (arriving (s_in s1))"
        using c by simp_all
      ultimately show ?thesis using t(2,3) by simp
    qed
  qed (use less.prems in \<open>simp add: loop_done\<close>)
qed

end

interpretation rn: exact_reader s_read readn_loop
proof (unfold_locales, goal_cases)
  case 1
  show ?case by (rule readn_loop.simps)
next
  case 4
  then show ?case using steady_read by blast
qed (use s_read_conserves in blast)+

interpretation tn: exact_reader tread treadn_loop
proof (unfold_locales, goal_cases)
  case 1
  show ?case by (rule treadn_loop.simps)
next
  case 4
  then show ?case using steady_read by (simp add: steady_tread)
qed (use tread_conserves in blast)+

section \<open>Exact writing\<close>

lemma writen_loop_spec:
  assumes "writen_loop n rest s = (r, t)" "length rest \<le> n"
  shows "s_in t = s_in s \<and> (case r of
      Inr k \<Rightarrow> n - length rest \<le> k \<and> k \<le> n \<and> s_out t = s_out s @ take (k - (n - length rest)) rest
    | Inl e \<Rightarrow> length rest = n \<and> s_out t = s_out s)"
  using assms
proof (induction n rest s arbitrary: r t rule: writen_loop.induct)
  case (1 n rest s)
  show ?case
  proof (cases "rest = []")
    case False
    obtain x s1 where wr: "s_write rest s = (x, s1)" by (metis surj_pair)
    show ?thesis
    proof (cases x)
      case (Inl e)
      then have "s_out s1 = s_out s" "s_in s1 = s_in s" using wr by (auto simp: s_write_def Let_def split: list.splits wr.splits)
      then show ?thesis
        using 1(2,3) wr False Inl by (auto simp: writen_loop.simps [of n rest] split: if_splits)
    next
      case (Inr k)
      then have w: "s_out s1 = s_out s @ take k rest" "k \<le> length rest" "s_in s1 = s_in s"
        using wr by (auto simp: s_write_def Let_def split: list.splits wr.splits)
      show ?thesis
      proof (cases "k = 0")
        case True
        then show ?thesis using 1(2,3) wr False Inr w by (auto simp: writen_loop.simps [of n rest])
      next
        case k: False
        then have e: "writen_loop n (drop k rest) s1 = (r, t)"
          using 1(2) wr False Inr by (simp add: writen_loop.simps [of n rest])
        have "length (drop k rest) \<le> n" using 1(3) by simp
        from 1(1) [OF False wr [symmetric] Inr k e this] show ?thesis
          using w k 1(3) by (cases r) (auto simp: take_add [symmetric])
      qed
    qed
  qed (use 1(2,3) in \<open>auto simp: writen_loop.simps\<close>)
qed

text \<open>Writes that make progress and do not fail.\<close>

definition progressing :: "wr list \<Rightarrow> bool" where
  "progressing w \<longleftrightarrow> (\<forall>x \<in> set w. \<exists>k. x = WCount k \<and> 0 < k)"

lemma writen_loop_all:
  assumes "progressing (s_wr s)" "length rest \<le> n"
  shows "\<exists>t. writen_loop n rest s = (Inr n, t) \<and> s_out t = s_out s @ rest \<and> s_in t = s_in s \<and> progressing (s_wr t)"
  using assms
proof (induction n rest s rule: writen_loop.induct)
  case (1 n rest s)
  show ?case
  proof (cases "rest = []")
    case False
    then obtain k s1 where wr: "s_write rest s = (Inr k, s1)" "0 < k" "k \<le> length rest" "s_out s1 = s_out s @ take k rest"
        "s_in s1 = s_in s" "progressing (s_wr s1)"
      using 1(2) by (cases "s_wr s") (auto simp: s_write_def progressing_def Let_def)
    have "length (drop k rest) \<le> n" using 1(3) by simp
    from 1(1) [OF False wr(1) [symmetric] refl _ wr(6) this] show ?thesis
      using wr False by (auto simp: writen_loop.simps [of n rest])
  qed (use 1(2) in \<open>simp add: writen_loop.simps\<close>)
qed


section \<open>Properties\<close>

text \<open>
  C13. Nothing is lost on any stream, with errors and timeouts. \<^verbatim>\<open>readn\<close> and \<^verbatim>\<open>treadn\<close> return at most
  \<open>n\<close> bytes, what they return and what is left is what was there, and when they return -1 no byte has
  been taken. Where only data arrives they return exactly the first \<open>n\<close> bytes, or all when there are
  fewer, however the data is cut into pieces. When \<^verbatim>\<open>writen\<close> returns a count, exactly that many first
  bytes of the buffer have gone out (the whole buffer, if every write makes progress); when it
  returns -1, none has.
\<close>

theorem exact_io:
  "(case readn n s of (Inr d, t) \<Rightarrow> length d \<le> n \<and> d @ arriving (s_in t) = arriving (s_in s)
     | (Inl e, t) \<Rightarrow> arriving (s_in t) = arriving (s_in s)) \<and>
   (case treadn n s of (Inr d, t) \<Rightarrow> length d \<le> n \<and> d @ arriving (s_in t) = arriving (s_in s)
     | (Inl e, t) \<Rightarrow> arriving (s_in t) = arriving (s_in s)) \<and>
   (steady (s_in s) \<longrightarrow> (\<exists>t u. readn n s = (Inr (take n (arriving (s_in s))), t) \<and> arriving (s_in t) = drop n (arriving (s_in s)) \<and>
      treadn n s = (Inr (take n (arriving (s_in s))), u) \<and> arriving (s_in u) = drop n (arriving (s_in s)))) \<and>
   (case writen d s of (Inr k, t) \<Rightarrow> k \<le> length d \<and> s_out t = s_out s @ take k d \<and> s_in t = s_in s
     | (Inl e, t) \<Rightarrow> s_out t = s_out s \<and> s_in t = s_in s) \<and>
   (progressing (s_wr s) \<longrightarrow> fst (writen d s) = Inr (length d))"
proof (intro conjI)
  show "case readn n s of (Inr d, t) \<Rightarrow> length d \<le> n \<and> d @ arriving (s_in t) = arriving (s_in s)
      | (Inl e, t) \<Rightarrow> arriving (s_in t) = arriving (s_in s)"
    using rn.loop_conserves [of n n "[]" s] by (auto simp: readn_def split: prod.splits sum.splits)
  show "case treadn n s of (Inr d, t) \<Rightarrow> length d \<le> n \<and> d @ arriving (s_in t) = arriving (s_in s)
      | (Inl e, t) \<Rightarrow> arriving (s_in t) = arriving (s_in s)"
    using tn.loop_conserves [of n n "[]" s] by (auto simp: treadn_def split: prod.splits sum.splits)
  show "steady (s_in s) \<longrightarrow> (\<exists>t u. readn n s = (Inr (take n (arriving (s_in s))), t) \<and> arriving (s_in t) = drop n (arriving (s_in s)) \<and>
      treadn n s = (Inr (take n (arriving (s_in s))), u) \<and> arriving (s_in u) = drop n (arriving (s_in s)))"
    using rn.loop_steady [of s n n "[]"] tn.loop_steady [of s n n "[]"] by (auto simp: readn_def treadn_def)
  obtain r t where e: "writen d s = (r, t)" by (metis surj_pair)
  then show "case writen d s of (Inr k, t) \<Rightarrow> k \<le> length d \<and> s_out t = s_out s @ take k d \<and> s_in t = s_in s
      | (Inl e, t) \<Rightarrow> s_out t = s_out s \<and> s_in t = s_in s"
    using writen_loop_spec [of "length d" d s r t] by (cases r) (auto simp: writen_def)
  show "progressing (s_wr s) \<longrightarrow> fst (writen d s) = Inr (length d)"
    using writen_loop_all [of s d "length d"] by (auto simp: writen_def)
qed

theorem exact_io_witness:
  "fst (writen ''abcdef'' \<lparr>s_in = [], s_out = [], s_wr = [WCount 2, WCount 1]\<rparr>) = Inr 6 \<and>
   fst (readn 5 \<lparr>s_in = [RData ''abc'', RData ''defg''], s_out = [], s_wr = []\<rparr>) = Inr ''abcde''"
proof
  show "fst (writen ''abcdef'' \<lparr>s_in = [], s_out = [], s_wr = [WCount 2, WCount 1]\<rparr>) = Inr 6"
    using exact_io [where s = "\<lparr>s_in = [], s_out = [], s_wr = [WCount 2, WCount 1]\<rparr>" and d = "''abcdef''" and n = 0]
    by (simp add: progressing_def)
  show "fst (readn 5 \<lparr>s_in = [RData ''abc'', RData ''defg''], s_out = [], s_wr = []\<rparr>) = Inr ''abcde''"
    using exact_io [where s = "\<lparr>s_in = [RData ''abc'', RData ''defg''], s_out = [], s_wr = []\<rparr>" and d = "[]" and n = 5]
    by (auto simp: steady_def)
qed

end
