(* ===== verification/DList.thy ===== *)
theory DList
  imports Stream
begin

text \<open>
  Doubly linked lists in a heap, for the job queues of \<^verbatim>\<open>printer/printd.c\<close> and
  \<^verbatim>\<open>threads/rwlock.c\<close> and the worker list of the print server. Addresses are natural numbers,
  0 is \<^verbatim>\<open>NULL\<close>; the link fields of all nodes are two functions.
\<close>

section \<open>Lists in a heap\<close>

record dlist =
  dhead :: nat
  dtail :: nat
  dnext :: "nat \<Rightarrow> nat"
  dprev :: "nat \<Rightarrow> nat"

abbreviation (input) NULL :: nat where "NULL \<equiv> 0"

definition first :: "nat list \<Rightarrow> nat \<Rightarrow> nat" where
  "first xs q = (if xs = [] then q else hd xs)"

definition final :: "nat \<Rightarrow> nat list \<Rightarrow> nat" where
  "final p xs = (if xs = [] then p else last xs)"

text \<open>The nodes \<open>xs\<close> are linked in this order, after \<open>p\<close> and before \<open>q\<close>.\<close>

primrec seg :: "(nat \<Rightarrow> nat) \<Rightarrow> (nat \<Rightarrow> nat) \<Rightarrow> nat \<Rightarrow> nat list \<Rightarrow> nat \<Rightarrow> bool" where
  "seg nx pv p [] q = True"
| "seg nx pv p (x # xs) q = (x \<noteq> NULL \<and> pv x = p \<and> nx x = first xs q \<and> seg nx pv x xs q)"

definition dl_rep :: "dlist \<Rightarrow> nat list \<Rightarrow> bool" where
  "dl_rep d xs \<longleftrightarrow> distinct xs \<and> seg (dnext d) (dprev d) NULL xs NULL \<and>
     dhead d = first xs NULL \<and> dtail d = final NULL xs"

definition dl_empty :: dlist where
  "dl_empty = \<lparr>dhead = NULL, dtail = NULL, dnext = (\<lambda>_. NULL), dprev = (\<lambda>_. NULL)\<rparr>"

lemma first_simps [simp]: "first [] q = q" "first (x # xs) q = x" "first (xs @ ys) q = first xs (first ys q)"
  by (auto simp: first_def)

lemma final_simps [simp]: "final p [] = p" "final p (xs @ [x]) = x" "final p (x # xs) = final x xs"
    "final p (xs @ ys) = final (final p xs) ys"
  by (auto simp: final_def)

lemma seg_append [simp]:
  "seg nx pv p (xs @ ys) q \<longleftrightarrow> seg nx pv p xs (first ys q) \<and> seg nx pv (final p xs) ys q"
  by (induction xs arbitrary: p) auto

lemma seg_nonnull: "seg nx pv p xs q \<Longrightarrow> x \<in> set xs \<Longrightarrow> x \<noteq> NULL"
  by (induction xs arbitrary: p) auto

lemma seg_cong:
  assumes "\<And>x. x \<in> set xs \<Longrightarrow> nx x = nx' x \<and> pv x = pv' x"
  shows "seg nx pv p xs q = seg nx' pv' p xs q"
  using assms by (induction xs arbitrary: p) auto

lemma seg_upd_out [simp]:
  "y \<notin> set xs \<Longrightarrow> seg (nx(y := v)) pv p xs q = seg nx pv p xs q"
  "y \<notin> set xs \<Longrightarrow> seg nx (pv(y := v)) p xs q = seg nx pv p xs q"
  by (auto intro!: seg_cong)

text \<open>Changing what comes before the first node, and what comes after the last one.\<close>

lemma seg_set_prev:
  "distinct xs \<Longrightarrow> seg nx pv p xs q \<Longrightarrow> seg nx (if xs = [] then pv else pv(hd xs := p')) p' xs q"
  by (cases xs) auto

lemma seg_set_next:
  "distinct xs \<Longrightarrow> seg nx pv p xs q \<Longrightarrow> seg (if xs = [] then nx else nx(last xs := q')) pv p xs q'"
proof (induction xs arbitrary: p)
  case (Cons x xs)
  then have "x \<noteq> last xs" if "xs \<noteq> []" using that by (metis distinct.simps(2) last_in_set)
  then show ?case using Cons by (cases xs) auto
qed simp

lemma dl_rep_nonnull: "dl_rep d xs \<Longrightarrow> x \<in> set xs \<Longrightarrow> x \<noteq> NULL"
  by (auto simp: dl_rep_def dest: seg_nonnull)

lemma dl_rep_empty: "dl_rep dl_empty []"
  by (simp add: dl_rep_def dl_empty_def)

lemma dl_rep_head: "dl_rep d xs \<Longrightarrow> dhead d = NULL \<longleftrightarrow> xs = []" "dl_rep d (x # xs) \<Longrightarrow> dhead d = x"
  using dl_rep_nonnull [of d xs "hd xs"] by (auto simp: dl_rep_def first_def)

lemma dl_rep_tail: "dl_rep d xs \<Longrightarrow> dtail d = NULL \<longleftrightarrow> xs = []"
  using dl_rep_nonnull [of d xs "last xs"] by (auto simp: dl_rep_def final_def)

lemma dl_rep_next:
  assumes "dl_rep d (pre @ x # post)"
  shows "dnext d x = first post NULL" "dprev d x = final NULL pre"
  using assms by (auto simp: dl_rep_def)

section \<open>What linking and unlinking do\<close>

lemma dl_rep_append:
  assumes rep: "dl_rep d xs" and x: "x \<notin> set xs" "x \<noteq> NULL"
    and links: "dnext d' = (if xs = [] then dnext d else (dnext d)(last xs := x))(x := NULL)"
      "dprev d' = (dprev d)(x := final NULL xs)"
    and ends: "dhead d' = (if xs = [] then x else dhead d)" "dtail d' = x"
  shows "dl_rep d' (xs @ [x])"
proof -
  have "distinct xs" "seg (dnext d) (dprev d) NULL xs NULL" "dhead d = first xs NULL" using rep by (auto simp: dl_rep_def)
  moreover from seg_set_next [OF this(1,2), of x]
  have "seg (dnext d') (dprev d') NULL xs x" using x links by (simp split: if_splits)
  ultimately show ?thesis
    using x links ends by (auto simp: dl_rep_def first_def)
qed

lemma dl_rep_push:
  assumes rep: "dl_rep d xs" and x: "x \<notin> set xs" "x \<noteq> NULL"
    and links: "dnext d' = (dnext d)(x := first xs NULL)"
      "dprev d' = (if xs = [] then dprev d else (dprev d)(hd xs := x))(x := NULL)"
    and ends: "dhead d' = x" "dtail d' = (if xs = [] then x else dtail d)"
  shows "dl_rep d' (x # xs)"
proof -
  have "distinct xs" "seg (dnext d) (dprev d) NULL xs NULL" "dtail d = final NULL xs" using rep by (auto simp: dl_rep_def)
  moreover from seg_set_prev [OF this(1,2), of x]
  have "seg (dnext d') (dprev d') x xs NULL" using x links by (simp split: if_splits)
  ultimately show ?thesis
    using x links ends by (auto simp: dl_rep_def final_def)
qed

lemma dl_rep_remove:
  assumes rep: "dl_rep d (pre @ x # post)"
    and links: "dnext d' = (if pre = [] then dnext d else (dnext d)(last pre := first post NULL))"
      "dprev d' = (if post = [] then dprev d else (dprev d)(hd post := final NULL pre))"
    and ends: "dhead d' = (if pre = [] then first post NULL else dhead d)"
      "dtail d' = (if post = [] then final NULL pre else dtail d)"
  shows "dl_rep d' (pre @ post)"
proof -
  have d: "distinct (pre @ x # post)" and s: "seg (dnext d) (dprev d) NULL pre x" "seg (dnext d) (dprev d) x post NULL"
    and e: "dhead d = first pre x" "dtail d = final x post" using rep by (auto simp: dl_rep_def)
  have out: "post \<noteq> [] \<Longrightarrow> hd post \<notin> set pre" "pre \<noteq> [] \<Longrightarrow> last pre \<notin> set post"
    using d by (auto simp: disjoint_iff)
  from seg_set_next [OF _ s(1), of "first post NULL"]
  have "seg (dnext d') (dprev d) NULL pre (first post NULL)" using d links(1) by simp
  then have "seg (dnext d') (dprev d') NULL pre (first post NULL)"
    using out(1) links(2) by (cases "post = []") simp_all
  moreover from seg_set_prev [OF _ s(2), of "final NULL pre"]
  have "seg (dnext d) (dprev d') (final NULL pre) post NULL" using d links(2) by simp
  then have "seg (dnext d') (dprev d') (final NULL pre) post NULL"
    using out(2) links(1) by (cases "pre = []") simp_all
  ultimately show ?thesis
    using d ends e by (auto simp: dl_rep_def first_def final_def)
qed

text \<open>The same, in the form in which the C functions test for the ends.\<close>

lemma dl_rep_remove_tests:
  assumes "dl_rep d (pre @ x # post)"
  shows "dnext d x = NULL \<longleftrightarrow> post = []" "dprev d x = NULL \<longleftrightarrow> pre = []"
    "post \<noteq> [] \<Longrightarrow> dnext d x = hd post" "pre \<noteq> [] \<Longrightarrow> dprev d x = last pre"
proof -
  have nn: "y \<in> set (pre @ post) \<Longrightarrow> y \<noteq> NULL" for y using dl_rep_nonnull [OF assms] by auto
  have "first post NULL = NULL \<longleftrightarrow> post = []" using nn [of "hd post"] by (auto simp: first_def)
  then show "dnext d x = NULL \<longleftrightarrow> post = []" using dl_rep_next(1) [OF assms] by simp
  have "final NULL pre = NULL \<longleftrightarrow> pre = []" using nn [of "last pre"] by (auto simp: final_def)
  then show "dprev d x = NULL \<longleftrightarrow> pre = []" using dl_rep_next(2) [OF assms] by simp
  show "post \<noteq> [] \<Longrightarrow> dnext d x = hd post" "pre \<noteq> [] \<Longrightarrow> dprev d x = last pre"
    using dl_rep_next [OF assms] by (simp_all add: first_def final_def)
qed

section \<open>The queue contract\<close>

text \<open>
  What the clients of a job queue rely on: adding at the tail, putting back at the head, and
  taking any node out, on the list of nodes that a state stands for.
\<close>

locale job_deque =
  fixes rep :: "'s \<Rightarrow> nat list \<Rightarrow> bool"
    and add_tail :: "nat \<Rightarrow> 's \<Rightarrow> 's" and add_head :: "nat \<Rightarrow> 's \<Rightarrow> 's" and take_out :: "nat \<Rightarrow> 's \<Rightarrow> 's"
  assumes add_tail_law: "rep s xs \<Longrightarrow> x \<notin> set xs \<Longrightarrow> x \<noteq> NULL \<Longrightarrow> rep (add_tail x s) (xs @ [x])"
    and add_head_law: "rep s xs \<Longrightarrow> x \<notin> set xs \<Longrightarrow> x \<noteq> NULL \<Longrightarrow> rep (add_head x s) (x # xs)"
    and take_out_law: "rep s (pre @ x # post) \<Longrightarrow> rep (take_out x s) (pre @ post)"
    and rep_distinct: "rep s xs \<Longrightarrow> distinct xs"
    and rep_nonnull: "rep s xs \<Longrightarrow> x \<in> set xs \<Longrightarrow> x \<noteq> NULL"
begin

text \<open>Taking a node out and putting it back at the head gives the queue back.\<close>

lemma take_put_back:
  assumes "rep s (x # xs)"
  shows "rep (add_head x (take_out x s)) (x # xs)"
  using take_out_law [of s "[]" x xs] rep_distinct [OF assms] rep_nonnull [OF assms, of x] assms
  by (auto intro: add_head_law)

text \<open>Nodes that are added come out in the order in which they were added.\<close>

lemma add_all:
  assumes "rep s xs" "distinct (xs @ ys)" "NULL \<notin> set ys"
  shows "rep (fold add_tail ys s) (xs @ ys)"
  using assms
proof (induction ys arbitrary: s xs)
  case (Cons y ys)
  then have "rep (add_tail y s) (xs @ [y])" by (intro add_tail_law) auto
  from Cons.IH [OF this] Cons.prems show ?case by simp
qed simp

lemma take_all:
  assumes "rep s (xs @ ys)"
  shows "rep (fold take_out xs s) ys"
  using assms
proof (induction xs arbitrary: s)
  case (Cons x xs)
  then have "rep (take_out x s) (xs @ ys)" using take_out_law [of s "[]" x "xs @ ys"] by simp
  from Cons.IH [OF this] show ?case by simp
qed simp

end

end
