(* ===== verification/RwQueue.thy ===== *)
theory RwQueue
  imports DList
begin

text \<open>
  \<^verbatim>\<open>threads/rwlock.c\<close>: a queue of jobs behind a reader-writer lock. The links and the two ends
  of \<^verbatim>\<open>struct queue\<close> are a \<open>dlist\<close>; \<open>j_id\<close> is the field of that name of every job. Each
  function runs as a whole under the lock, so it is one step; the argument \<open>locked\<close> of
  \<open>job_find\<close> says whether the read lock was granted.
\<close>

definition queue_init :: "int \<Rightarrow> dlist \<Rightarrow> int \<times> dlist" where
  "queue_init err q =
     (let q = q\<lparr>dhead := NULL, dtail := NULL\<rparr> in if err \<noteq> 0 then (err, q) else (0, q))"

definition job_insert :: "nat \<Rightarrow> dlist \<Rightarrow> dlist" where
  "job_insert jp q =
     (let q = q\<lparr>dnext := (dnext q)(jp := dhead q)\<rparr>;
          q = q\<lparr>dprev := (dprev q)(jp := NULL)\<rparr>;
          q = (if dhead q \<noteq> NULL then q\<lparr>dprev := (dprev q)(dhead q := jp)\<rparr> else q\<lparr>dtail := jp\<rparr>)
      in q\<lparr>dhead := jp\<rparr>)"

definition job_append :: "nat \<Rightarrow> dlist \<Rightarrow> dlist" where
  "job_append jp q =
     (let q = q\<lparr>dnext := (dnext q)(jp := NULL)\<rparr>;
          q = q\<lparr>dprev := (dprev q)(jp := dtail q)\<rparr>;
          q = (if dtail q \<noteq> NULL then q\<lparr>dnext := (dnext q)(dtail q := jp)\<rparr> else q\<lparr>dhead := jp\<rparr>)
      in q\<lparr>dtail := jp\<rparr>)"

definition job_remove :: "nat \<Rightarrow> dlist \<Rightarrow> dlist" where
  "job_remove jp q =
     (if jp = dhead q then
        let q = q\<lparr>dhead := dnext q jp\<rparr> in
        if dtail q = jp then q\<lparr>dtail := NULL\<rparr>
        else q\<lparr>dprev := (dprev q)(dnext q jp := dprev q jp)\<rparr>
      else if jp = dtail q then
        let q = q\<lparr>dtail := dprev q jp\<rparr> in q\<lparr>dnext := (dnext q)(dprev q jp := dnext q jp)\<rparr>
      else
        let q = q\<lparr>dnext := (dnext q)(dprev q jp := dnext q jp)\<rparr> in
        q\<lparr>dprev := (dprev q)(dnext q jp := dprev q jp)\<rparr>)"

text \<open>The scan gets as fuel a bound on the number of jobs in the queue.\<close>

fun job_scan :: "nat \<Rightarrow> (nat \<Rightarrow> nat) \<Rightarrow> dlist \<Rightarrow> nat \<Rightarrow> nat \<Rightarrow> nat res" where
  "job_scan 0 j_id q tid jp = Inl Diverges"
| "job_scan (Suc n) j_id q tid jp =
     (if jp = NULL \<or> j_id jp = tid then Inr jp else job_scan n j_id q tid (dnext q jp))"

definition job_find :: "nat \<Rightarrow> bool \<Rightarrow> (nat \<Rightarrow> nat) \<Rightarrow> dlist \<Rightarrow> nat \<Rightarrow> nat res" where
  "job_find n locked j_id q tid = (if \<not> locked then Inr NULL else job_scan n j_id q tid (dhead q))"

section \<open>The queue functions keep the list\<close>

lemma job_append_rep:
  assumes "dl_rep q xs" "x \<notin> set xs" "x \<noteq> NULL"
  shows "dl_rep (job_append x q) (xs @ [x])"
proof (rule dl_rep_append [OF assms])
  note t = dl_rep_tail [OF assms(1)]
  have e: "dtail q = final NULL xs" using assms(1) by (simp add: dl_rep_def)
  show "dnext (job_append x q) = (if xs = [] then dnext q else (dnext q)(last xs := x))(x := NULL)"
    using t e assms(2) last_in_set [of xs] by (auto simp: job_append_def final_def fun_eq_iff)
  show "dprev (job_append x q) = (dprev q)(x := final NULL xs)" using e by (simp add: job_append_def Let_def)
qed (use dl_rep_tail [OF assms(1)] in \<open>auto simp: job_append_def Let_def\<close>)

lemma job_insert_rep:
  assumes "dl_rep q xs" "x \<notin> set xs" "x \<noteq> NULL"
  shows "dl_rep (job_insert x q) (x # xs)"
proof (rule dl_rep_push [OF assms])
  note h = dl_rep_head(1) [OF assms(1)]
  have e: "dhead q = first xs NULL" using assms(1) by (simp add: dl_rep_def)
  show "dnext (job_insert x q) = (dnext q)(x := first xs NULL)" using e by (simp add: job_insert_def Let_def)
  show "dprev (job_insert x q) = (if xs = [] then dprev q else (dprev q)(hd xs := x))(x := NULL)"
    using h e assms(2) hd_in_set [of xs] by (auto simp: job_insert_def first_def fun_eq_iff)
qed (use dl_rep_head(1) [OF assms(1)] in \<open>auto simp: job_insert_def Let_def\<close>)

lemma ends_iff:
  assumes "dl_rep d (pre @ x # post)"
  shows "x = dhead d \<longleftrightarrow> pre = []" "x = dtail d \<longleftrightarrow> post = []"
proof -
  have "distinct (pre @ x # post)" "dhead d = first pre x" "dtail d = final x post" using assms by (auto simp: dl_rep_def)
  then show "x = dhead d \<longleftrightarrow> pre = []" "x = dtail d \<longleftrightarrow> post = []"
    using hd_in_set [of pre] last_in_set [of post] by (auto simp: first_def final_def)
qed

lemma job_remove_rep:
  assumes rep: "dl_rep q (pre @ x # post)"
  shows "dl_rep (job_remove x q) (pre @ post)"
proof (rule dl_rep_remove [OF rep])
  note t = dl_rep_remove_tests [OF rep] and e = ends_iff [OF rep] and n = dl_rep_next [OF rep]
  have ends: "dhead q = first pre x" "dtail q = final x post" using rep by (auto simp: dl_rep_def)
  show "dnext (job_remove x q) = (if pre = [] then dnext q else (dnext q)(last pre := first post NULL))"
    using t e n by (auto simp: job_remove_def Let_def)
  show "dprev (job_remove x q) = (if post = [] then dprev q else (dprev q)(hd post := final NULL pre))"
    using t e n by (auto simp: job_remove_def Let_def)
  show "dhead (job_remove x q) = (if pre = [] then first post NULL else dhead q)"
    using t e n by (auto simp: job_remove_def Let_def)
  show "dtail (job_remove x q) = (if post = [] then final NULL pre else dtail q)"
    using t e n by (auto simp: job_remove_def Let_def)
qed

interpretation rw: job_deque dl_rep job_append job_insert job_remove
proof (unfold_locales, goal_cases)
  case (5 s xs x)
  then show ?case by (rule dl_rep_nonnull)
qed (simp_all add: job_append_rep job_insert_rep job_remove_rep, simp add: dl_rep_def)

lemma job_scan_spec:
  assumes "dl_rep q (pre @ xs)" "length xs < n" "jp = first xs NULL"
  shows "job_scan n j_id q tid jp = Inr (case List.find (\<lambda>x. j_id x = tid) xs of None \<Rightarrow> NULL | Some x \<Rightarrow> x)"
  using assms
proof (induction xs arbitrary: pre n jp)
  case Nil
  then show ?case by (cases n) simp_all
next
  case (Cons x xs)
  then obtain m where n: "n = Suc m" by (cases n) auto
  have "x \<noteq> NULL" using dl_rep_nonnull [OF Cons.prems(1)] by simp
  moreover have "dnext q x = first xs NULL" by (rule dl_rep_next(1) [OF Cons.prems(1)])
  ultimately show ?case
    using Cons.IH [of "pre @ [x]" m] Cons.prems n by simp
qed


lemma job_find_spec:
  assumes "dl_rep q xs" "length xs < n"
  shows "job_find n True j_id q tid = Inr (case List.find (\<lambda>x. j_id x = tid) xs of None \<Rightarrow> NULL | Some x \<Rightarrow> x)"
proof -
  have "dl_rep q ([] @ xs)" "dhead q = first xs NULL" using assms(1) by (simp_all add: dl_rep_def)
  from job_scan_spec [OF this(1) assms(2) this(2)] show ?thesis by (simp add: job_find_def)
qed

lemma two_jobs: "dl_rep (job_append 9 (job_append 5 dl_empty)) [5, 9]"
  using rw.add_all [OF dl_rep_empty, of "[5, 9]"] by simp

section \<open>Properties\<close>

text \<open>
  C15. The queue of \<^verbatim>\<open>rwlock.c\<close> stays a well-linked list: appending, inserting and removing a
  job anywhere (only job, first, last or in between) do on the links and on both end pointers
  what they should do on the list of jobs. \<^verbatim>\<open>job_find\<close> ends, and returns the first job that belongs
  to the thread, or \<^verbatim>\<open>NULL\<close>.
\<close>

theorem rwlock_queue_refines:
  assumes "dl_rep q (xs @ ys)" "jp \<notin> set (xs @ ys)" "jp \<noteq> NULL"
  shows "dl_rep (job_append jp q) (xs @ ys @ [jp]) \<and> dl_rep (job_insert jp q) (jp # xs @ ys) \<and>
    (\<forall>x zs. ys = x # zs \<longrightarrow> dl_rep (job_remove x q) (xs @ zs)) \<and>
    (length (xs @ ys) < n \<longrightarrow> job_find n True j_id q tid = Inr (case List.find (\<lambda>x. j_id x = tid) (xs @ ys) of None \<Rightarrow> NULL | Some x \<Rightarrow> x))"
  using rw.add_tail_law [OF assms] rw.add_head_law [OF assms] rw.take_out_law assms(1) job_find_spec [OF assms(1), of n j_id tid] by auto

theorem rwlock_queue_refines_witness:
  "dl_rep (job_remove 9 (job_append 9 (job_append 5 dl_empty))) [5] \<and>
    dl_rep (job_append 7 (job_append 9 (job_append 5 dl_empty))) [5, 9, 7] \<and>
    job_find 3 True (\<lambda>x. x + 100) (job_append 9 (job_append 5 dl_empty)) 109 = Inr 9"
  using rwlock_queue_refines [of "job_append 9 (job_append 5 dl_empty)" "[5]" "[9]" 7 3 "\<lambda>x. x + 100" 109] two_jobs by simp

end
