(* ===== verification/PrintQueue.thy ===== *)
theory PrintQueue
  imports DList DbFile
begin

text \<open>
  \<^verbatim>\<open>printer/printd.c\<close>, the state of the print server and the operations on it that run under its
  locks: the queue of pending jobs (\<^verbatim>\<open>joblock\<close>), the job numbers and the file they are kept in,
  and the list of worker threads (\<^verbatim>\<open>workerlock\<close>). A function that holds its lock from the
  beginning to the end is one step. \<^verbatim>\<open>malloc\<close> returns the next unused address; running out of
  memory is left out.
\<close>

section \<open>Jobs and requests\<close>

definition USERNM_MAX :: nat where "USERNM_MAX = 64"
definition JOBNM_MAX :: nat where "JOBNM_MAX = 256"
definition PR_TEXT :: "32 word" where "PR_TEXT = 1"

text \<open>The two names are arrays of \<open>USERNM_MAX\<close> and \<open>JOBNM_MAX\<close> characters.\<close>

record printreq =
  req_size :: "32 word"
  req_flags :: "32 word"
  usernm :: string
  jobnm :: string

record job =
  jobid :: "32 word"
  job_req :: printreq

record worker_thread =
  w_tid :: nat
  w_sockfd :: int

text \<open>
  \<open>jobq\<close> has \<^verbatim>\<open>jobhead\<close>, \<^verbatim>\<open>jobtail\<close> and the links of all jobs; \<open>workers\<close> has the head of the
  worker list and its links (there is no tail pointer); \<open>closed\<close> lists the descriptors closed so
  far.
\<close>

record printd =
  jobq :: dlist
  job_at :: "nat \<Rightarrow> job option"
  nextjob :: "32 word"
  jobfile :: cfile
  workers :: dlist
  worker_at :: "nat \<Rightarrow> worker_thread option"
  brk :: nat
  closed :: "int list"
  cancelled :: "nat list"
  reread :: bool

section \<open>The queue of pending jobs\<close>

text \<open>The part of \<^verbatim>\<open>add_job\<close> that links the new node at the tail.\<close>

definition link_tail :: "nat \<Rightarrow> dlist \<Rightarrow> dlist" where
  "link_tail jp q =
     (let q = q\<lparr>dnext := (dnext q)(jp := NULL)\<rparr>;
          q = q\<lparr>dprev := (dprev q)(jp := dtail q)\<rparr>;
          q = (if dtail q = NULL then q\<lparr>dhead := jp\<rparr> else q\<lparr>dnext := (dnext q)(dtail q := jp)\<rparr>)
      in q\<lparr>dtail := jp\<rparr>)"

definition add_job :: "printreq \<Rightarrow> 32 word \<Rightarrow> printd \<Rightarrow> printd" where
  "add_job reqp jid p =
     (let jp = brk p;
          p = p\<lparr>brk := brk p + 1, job_at := (job_at p)(jp \<mapsto> \<lparr>jobid = jid, job_req = reqp\<rparr>)\<rparr>
      in p\<lparr>jobq := link_tail jp (jobq p)\<rparr>)"

definition replace_job :: "nat \<Rightarrow> dlist \<Rightarrow> dlist" where
  "replace_job jp q =
     (let q = q\<lparr>dprev := (dprev q)(jp := NULL)\<rparr>;
          q = q\<lparr>dnext := (dnext q)(jp := dhead q)\<rparr>;
          q = (if dhead q = NULL then q\<lparr>dtail := jp\<rparr> else q\<lparr>dprev := (dprev q)(dhead q := jp)\<rparr>)
      in q\<lparr>dhead := jp\<rparr>)"

definition remove_job :: "nat \<Rightarrow> dlist \<Rightarrow> dlist" where
  "remove_job target q =
     (let q = (if dnext q target \<noteq> NULL then q\<lparr>dprev := (dprev q)(dnext q target := dprev q target)\<rparr>
               else q\<lparr>dtail := dprev q target\<rparr>)
      in if dprev q target \<noteq> NULL then q\<lparr>dnext := (dnext q)(dprev q target := dnext q target)\<rparr>
         else q\<lparr>dhead := dnext q target\<rparr>)"

section \<open>Job numbers\<close>

text \<open>\<^verbatim>\<open>nextjob\<close> is an \<^verbatim>\<open>int32_t\<close>; its increment is taken to wrap.\<close>

definition get_newjobno :: "printd \<Rightarrow> 32 word \<times> printd" where
  "get_newjobno p =
     (let jid = nextjob p; p = p\<lparr>nextjob := nextjob p + 1\<rparr> in
      (jid, if sint (nextjob p) \<le> 0 then p\<lparr>nextjob := 1\<rparr> else p))"

text \<open>
  \<open>jobno_path\<close> is in the buffer \<^verbatim>\<open>name\<close> of \<^verbatim>\<open>init_request\<close> when the number is read over it, and
  the number is not null-terminated.
\<close>

definition jobno_path :: string where
  "jobno_path = ''/var/spool/printer/jobno''"

definition init_request :: "printd \<Rightarrow> printd res" where
  "init_request p =
     bnd (lock_reg (jobfile p) F_SETLK F_WRLCK 0 SEEK_SET 0) (\<lambda>(r, f).
     if r < 0 then Inl (Log_quit ''daemon already running'')
     else let (d, f) = k_read f 64; p = p\<lparr>jobfile := f\<rparr> in
          if length d = 0 then Inr (p\<lparr>nextjob := 1\<rparr>)
          else Inr (p\<lparr>nextjob := word_of_int (c_atol (cstr_at (buf_put (jobno_path @ [NUL]) d) 0))\<rparr>))"

definition update_jobno :: "printd \<Rightarrow> printd res" where
  "update_jobno p =
     (let (r, f) = k_lseek (jobfile p) 0 SEEK_SET in
      if r = -1 then Inl (Log_sys ''can't seek in job file'')
      else let (n, f) = k_write f (show_int (sint (nextjob p))) in Inr (p\<lparr>jobfile := f\<rparr>))"

section \<open>Worker threads\<close>

definition add_worker :: "nat \<Rightarrow> int \<Rightarrow> printd \<Rightarrow> printd" where
  "add_worker tid sockfd p =
     (let wtp = brk p;
          p = p\<lparr>brk := brk p + 1, worker_at := (worker_at p)(wtp \<mapsto> \<lparr>w_tid = tid, w_sockfd = sockfd\<rparr>)\<rparr>;
          w = workers p;
          w = w\<lparr>dprev := (dprev w)(wtp := NULL)\<rparr>;
          w = w\<lparr>dnext := (dnext w)(wtp := dhead w)\<rparr>;
          w = (if dhead w = NULL then w\<lparr>dhead := wtp\<rparr> else w\<lparr>dprev := (dprev w)(dhead w := wtp)\<rparr>)
      in p\<lparr>workers := w\<rparr>)"


text \<open>
  Loops over the worker list get as fuel the number of addresses in use, which no list of live
  nodes exceeds. Following a pointer to a node that has been freed is \<open>Undef\<close>.
\<close>

fun find_worker :: "nat \<Rightarrow> nat \<Rightarrow> printd \<Rightarrow> nat \<Rightarrow> nat res" where
  "find_worker 0 tid p wtp = Inl Diverges"
| "find_worker (Suc n) tid p wtp =
     (if wtp = NULL then Inr NULL
      else case worker_at p wtp of
        None \<Rightarrow> Inl (Undef ''worker list: freed node'')
      | Some w \<Rightarrow> if w_tid w = tid then Inr wtp else find_worker n tid p (dnext (workers p) wtp))"

text \<open>The body of the \<^verbatim>\<open>if\<close> in \<^verbatim>\<open>client_cleanup\<close>.\<close>

definition unlink_worker :: "nat \<Rightarrow> dlist \<Rightarrow> dlist" where
  "unlink_worker wtp w =
     (let w = (if dnext w wtp \<noteq> NULL then w\<lparr>dprev := (dprev w)(dnext w wtp := dprev w wtp)\<rparr> else w)
      in if dprev w wtp \<noteq> NULL then w\<lparr>dnext := (dnext w)(dprev w wtp := dnext w wtp)\<rparr>
         else w\<lparr>dhead := dnext w wtp\<rparr>)"

definition client_cleanup :: "nat \<Rightarrow> printd \<Rightarrow> printd res" where
  "client_cleanup tid p =
     bnd (find_worker (brk p) tid p (dhead (workers p))) (\<lambda>wtp.
     if wtp = NULL then Inr p
     else let p' = p\<lparr>workers := unlink_worker wtp (workers p)\<rparr> in
          case worker_at p wtp of
            None \<Rightarrow> Inl (Undef ''worker list: freed node'')
          | Some w \<Rightarrow> Inr (p'\<lparr>closed := closed p @ [w_sockfd w], worker_at := (worker_at p)(wtp := None)\<rparr>))"

fun cancel_from :: "nat \<Rightarrow> printd \<Rightarrow> nat \<Rightarrow> printd res" where
  "cancel_from 0 p wtp = Inl Diverges"
| "cancel_from (Suc n) p wtp =
     (if wtp = NULL then Inr p
      else case worker_at p wtp of
        None \<Rightarrow> Inl (Undef ''worker list: freed node'')
      | Some w \<Rightarrow> cancel_from n (p\<lparr>cancelled := cancelled p @ [w_tid w]\<rparr>) (dnext (workers p) wtp))"

definition kill_workers :: "printd \<Rightarrow> printd res" where
  "kill_workers p = cancel_from (brk p) p (dhead (workers p))"

section \<open>Signals\<close>

datatype signo = SIGHUP | SIGTERM | Othersig

text \<open>One round of \<^verbatim>\<open>signal_thread\<close>; \<open>True\<close> when the process exits with status 0.\<close>

definition signal_round :: "signo \<Rightarrow> printd \<Rightarrow> (bool \<times> printd) res" where
  "signal_round sig p = (case sig of
       SIGHUP \<Rightarrow> Inr (False, p\<lparr>reread := True\<rparr>)
     | SIGTERM \<Rightarrow> bnd (kill_workers p) (\<lambda>p. Inr (True, p))
     | Othersig \<Rightarrow> bnd (kill_workers p) (\<lambda>p. Inl (Log_quit ''unexpected signal'')))"

section \<open>The job queue is a queue\<close>

lemma link_tail_rep:
  assumes "dl_rep q xs" "x \<notin> set xs" "x \<noteq> NULL"
  shows "dl_rep (link_tail x q) (xs @ [x])"
proof (rule dl_rep_append [OF assms])
  note t = dl_rep_tail [OF assms(1)]
  have e: "dtail q = final NULL xs" using assms(1) by (simp add: dl_rep_def)
  show "dnext (link_tail x q) = (if xs = [] then dnext q else (dnext q)(last xs := x))(x := NULL)"
    using t e assms(2) last_in_set [of xs] by (auto simp: link_tail_def final_def fun_eq_iff)
  show "dprev (link_tail x q) = (dprev q)(x := final NULL xs)" using e by (simp add: link_tail_def Let_def)
qed (use dl_rep_tail [OF assms(1)] in \<open>auto simp: link_tail_def Let_def\<close>)

lemma replace_job_rep:
  assumes "dl_rep q xs" "x \<notin> set xs" "x \<noteq> NULL"
  shows "dl_rep (replace_job x q) (x # xs)"
proof (rule dl_rep_push [OF assms])
  note h = dl_rep_head(1) [OF assms(1)]
  have e: "dhead q = first xs NULL" using assms(1) by (simp add: dl_rep_def)
  show "dnext (replace_job x q) = (dnext q)(x := first xs NULL)" using e by (simp add: replace_job_def Let_def)
  show "dprev (replace_job x q) = (if xs = [] then dprev q else (dprev q)(hd xs := x))(x := NULL)"
    using h e assms(2) hd_in_set [of xs] by (auto simp: replace_job_def first_def fun_eq_iff)
qed (use dl_rep_head(1) [OF assms(1)] in \<open>auto simp: replace_job_def Let_def\<close>)

lemma remove_job_rep:
  assumes rep: "dl_rep q (pre @ x # post)"
  shows "dl_rep (remove_job x q) (pre @ post)"
proof (rule dl_rep_remove [OF rep])
  note t = dl_rep_remove_tests [OF rep] and n = dl_rep_next [OF rep]
  have d: "distinct (pre @ x # post)" using rep by (simp add: dl_rep_def)
  have "hd post \<noteq> x" if "post \<noteq> []" using d that by auto
  then have p: "dprev (if dnext q x \<noteq> NULL then q\<lparr>dprev := (dprev q)(dnext q x := dprev q x)\<rparr> else q\<lparr>dtail := dprev q x\<rparr>) x = dprev q x"
    using t by auto
  show "dnext (remove_job x q) = (if pre = [] then dnext q else (dnext q)(last pre := first post NULL))"
    using t n p by (auto simp: remove_job_def Let_def)
  show "dprev (remove_job x q) = (if post = [] then dprev q else (dprev q)(hd post := final NULL pre))"
    using t n p by (auto simp: remove_job_def Let_def)
  show "dhead (remove_job x q) = (if pre = [] then first post NULL else dhead q)"
    using t n p by (auto simp: remove_job_def Let_def)
  show "dtail (remove_job x q) = (if post = [] then final NULL pre else dtail q)"
    using t n p by (auto simp: remove_job_def Let_def)
qed

interpretation pq: job_deque dl_rep link_tail replace_job remove_job
proof (unfold_locales, goal_cases)
  case (5 s xs x)
  then show ?case by (rule dl_rep_nonnull)
qed (simp_all add: link_tail_rep replace_job_rep remove_job_rep, simp add: dl_rep_def)

text \<open>The pending jobs of a state, in order.\<close>

definition pending :: "printd \<Rightarrow> nat list \<Rightarrow> job list \<Rightarrow> bool" where
  "pending p xs js \<longleftrightarrow> dl_rep (jobq p) xs \<and> 0 < brk p \<and> (\<forall>x \<in> set xs. x < brk p) \<and> map (job_at p) xs = map Some js"

lemma add_job_pending:
  assumes "pending p xs js"
  shows "pending (add_job r jid p) (xs @ [brk p]) (js @ [\<lparr>jobid = jid, job_req = r\<rparr>])"
proof -
  have "brk p \<notin> set xs" "brk p \<noteq> NULL" using assms by (auto simp: pending_def)
  moreover from this have "map ((job_at p)(brk p \<mapsto> v)) xs = map (job_at p) xs" for v by auto
  ultimately show ?thesis
    using assms by (auto simp: pending_def add_job_def Let_def intro!: link_tail_rep)
qed


section \<open>Job numbers\<close>

lemma get_newjobno_next:
  assumes "0 < sint (nextjob p)"
  shows "fst (get_newjobno p) = nextjob p"
    "sint (nextjob (snd (get_newjobno p))) = sint (nextjob p) mod (2 ^ 31 - 1) + 1"
proof -
  let ?w = "nextjob p"
  show "fst (get_newjobno p) = ?w" by (simp add: get_newjobno_def Let_def)
  have lt: "sint ?w < 2 ^ 31" using sint_lt [of ?w] by simp
  have s: "sint (?w + 1) = signed_take_bit 31 (sint ?w + 1)"
    using sint_word_ariths(1) [of ?w 1] by simp
  show "sint (nextjob (snd (get_newjobno p))) = sint ?w mod (2 ^ 31 - 1) + 1"
  proof (cases "sint ?w = 2 ^ 31 - 1")
    case True
    then have "sint (?w + 1) = - (2 ^ 31)" unfolding s by (simp add: signed_take_bit_eq_take_bit_shift take_bit_eq_mod)
    then show ?thesis using True by (simp add: get_newjobno_def Let_def)
  next
    case False
    then have "sint (?w + 1) = sint ?w + 1" unfolding s using lt assms by (intro signed_take_bit_int_eq_self) simp_all
    moreover have "sint ?w mod (2 ^ 31 - 1) = sint ?w" using lt False assms by (intro mod_pos_pos_trivial) simp_all
    ultimately show ?thesis using assms by (simp add: get_newjobno_def Let_def)
  qed
qed

lemma jobno_sequence:
  assumes "0 < sint (nextjob p)"
  shows "sint (nextjob (((\<lambda>p. snd (get_newjobno p)) ^^ n) p)) = (sint (nextjob p) - 1 + int n) mod (2 ^ 31 - 1) + 1"
proof (induction n)
  case 0
  have "sint (nextjob p) \<le> 2 ^ 31 - 1" using sint_lt [of "nextjob p"] by simp
  then show ?case using assms by (simp add: mod_pos_pos_trivial)
next
  case (Suc n)
  let ?q = "((\<lambda>p. snd (get_newjobno p)) ^^ n) p" and ?a = "sint (nextjob p) - 1 + int n"
  have "0 \<le> ?a mod (2 ^ 31 - 1)" by simp
  then have "0 < sint (nextjob ?q)" using Suc by simp
  then have "sint (nextjob (snd (get_newjobno ?q))) = (?a mod (2 ^ 31 - 1) + 1) mod (2 ^ 31 - 1) + 1"
    using get_newjobno_next(2) [of ?q] Suc by simp
  also have "\<dots> = (?a + 1) mod (2 ^ 31 - 1) + 1" by (simp add: mod_add_left_eq)
  finally show ?case by (simp add: algebra_simps)
qed

lemma update_jobno_spec:
  assumes "0 < sint (nextjob p)"
  shows "update_jobno p = Inr (p\<lparr>jobfile := (jobfile p)\<lparr>
      cbytes := show_nat (nat (sint (nextjob p))) @ drop (length (show_nat (nat (sint (nextjob p))))) (cbytes (jobfile p)),
      cpos := length (show_nat (nat (sint (nextjob p))))\<rparr>\<rparr>)"
proof -
  have "show_int (sint (nextjob p)) = show_nat (nat (sint (nextjob p)))" using assms by (simp add: show_int_def)
  then show ?thesis by (simp add: update_jobno_def k_write_def put_bytes_def)
qed

lemma init_request_spec:
  assumes "cbytes (jobfile p) = show_nat n" "int n < 2 ^ 31" "cpos (jobfile p) = 0" "cothers (jobfile p) = []"
  shows "returns (init_request p) (\<lambda>p'. sint (nextjob p') = int n \<and> cbytes (jobfile p') = cbytes (jobfile p))"
proof -
  have l: "length (show_nat n) \<le> 10" using assms(2) by (intro length_show_nat_le) simp_all
  have buf: "buf_put (jobno_path @ [NUL]) (show_nat n) = show_nat n @ drop (length (show_nat n)) (jobno_path @ [NUL])"
    by (simp add: buf_put_def)
  have tail: "takeWhile (\<lambda>c. c \<noteq> NUL) (drop k (jobno_path @ [NUL])) = drop k jobno_path" if "k \<le> 24" for k
  proof -
    have "length jobno_path = 24" by (simp add: jobno_path_def)
    then have "drop k (jobno_path @ [NUL]) = drop k jobno_path @ [NUL]" using that by simp
    moreover have "NUL \<notin> set (drop k jobno_path)" by (rule notI, drule in_set_dropD) (simp add: jobno_path_def)
    ultimately show ?thesis using cstr_at_append [of 0 "[]" "drop k jobno_path" "[]"] by (simp add: cstr_at_def)
  qed
  have "cstr_at (show_nat n @ drop (length (show_nat n)) (jobno_path @ [NUL])) 0 = show_nat n @ drop (length (show_nat n)) jobno_path"
  proof -
    have "NUL \<notin> set (show_nat n)" by (rule show_nat_no_sep(2))
    then have "takeWhile (\<lambda>c. c \<noteq> NUL) (show_nat n @ ys) = show_nat n @ takeWhile (\<lambda>c. c \<noteq> NUL) ys" for ys
      by (intro takeWhile_append2) auto
    then show ?thesis unfolding cstr_at_def drop0 using tail [of "length (show_nat n)"] l by simp
  qed
  moreover have "\<not> c_isdigit (hd (drop k jobno_path))" if "drop k jobno_path \<noteq> []" for k
  proof -
    have "hd (drop k jobno_path) \<in> set jobno_path" using that hd_in_set in_set_dropD by metis
    then show ?thesis by (auto simp: jobno_path_def c_isdigit_def)
  qed
  then have "c_atol (show_nat n @ drop (length (show_nat n)) jobno_path) = int n"
    using assms(2) by (intro c_atol_prefix) (auto simp: LONG_MAX_def)
  moreover have "sint (word_of_int (int n) :: 32 word) = int n"
    unfolding signed_of_int using assms(2) by (simp add: signed_take_bit_int_eq_self)
  moreover have "take 64 (show_nat n) = show_nat n" using l by simp
  ultimately show ?thesis
    using assms buf by (simp add: init_request_def lock_reg_free k_read_def Let_def del: cstr_at_def)
qed


section \<open>Worker threads\<close>

lemma one_worker:
  assumes "dhead (workers p) = NULL" "0 < brk p"
  shows "\<exists>p'. client_cleanup t (add_worker t fd p) = Inr p' \<and> dhead (workers p') = NULL \<and>
    closed p' = closed p @ [fd] \<and> jobq p' = jobq p \<and> job_at p' = job_at p \<and> nextjob p' = nextjob p \<and>
    worker_at p' (brk p) = None \<and> brk p' = brk p + 1"
  using assms by (simp add: client_cleanup_def add_worker_def unlink_worker_def Let_def)

text \<open>Two workers at a time, added to an empty list.\<close>

definition two_workers :: "nat \<Rightarrow> int \<Rightarrow> nat \<Rightarrow> int \<Rightarrow> printd \<Rightarrow> printd" where
  "two_workers t1 fd1 t2 fd2 p = add_worker t2 fd2 (add_worker t1 fd1 p)"

lemma two_workers_bug:
  fixes fd1 fd2 :: int
  assumes "dhead (workers p) = NULL" "0 < brk p" "t1 \<noteq> t2"
  defines "p2 \<equiv> two_workers t1 fd1 t2 fd2 p"
  shows "client_cleanup t2 p2 = Inr p2"
    and "kill_workers p2 = Inr (p2\<lparr>cancelled := cancelled p @ [t1]\<rparr>)"
    and "\<exists>p3. client_cleanup t1 p2 = Inr p3 \<and> dhead (workers p3) = brk p \<and> worker_at p3 (brk p) = None \<and>
      client_cleanup t2 p3 = Inl (Undef ''worker list: freed node'')"
proof -
  obtain n where n: "brk p = Suc n" using assms(2) by (cases "brk p") auto
  show "client_cleanup t2 p2 = Inr p2" "kill_workers p2 = Inr (p2\<lparr>cancelled := cancelled p @ [t1]\<rparr>)"
    "\<exists>p3. client_cleanup t1 p2 = Inr p3 \<and> dhead (workers p3) = brk p \<and> worker_at p3 (brk p) = None \<and>
      client_cleanup t2 p3 = Inl (Undef ''worker list: freed node'')"
    using assms(1,3) n
    by (simp_all add: p2_def two_workers_def kill_workers_def client_cleanup_def add_worker_def unlink_worker_def Let_def)
qed

section \<open>Properties\<close>

definition start_printd :: printd where
  "start_printd = \<lparr>jobq = dl_empty, job_at = Map.empty, nextjob = 1,
     jobfile = \<lparr>cbytes = [], cpos = 0, clocks = (\<lambda>_. F_UNLCK), cothers = []\<rparr>,
     workers = dl_empty, worker_at = Map.empty, brk = 1, closed = [], cancelled = [], reread = False\<rparr>"

lemma start_pending: "pending start_printd [] []"
  by (simp add: pending_def start_printd_def dl_rep_empty)

text \<open>The two other operations, on the jobs of a queue of any length.\<close>

lemma remove_job_pending:
  assumes "pending p (pre @ x # post) (jpre @ j # jpost)" "length pre = length jpre"
  shows "pending (p\<lparr>jobq := remove_job x (jobq p)\<rparr>) (pre @ post) (jpre @ jpost) \<and> job_at p x = Some j"
  using assms by (auto simp: pending_def remove_job_rep)

lemma replace_job_pending:
  assumes "pending p xs js" "x \<notin> set xs" "x \<noteq> NULL" "x < brk p" "job_at p x = Some j"
  shows "pending (p\<lparr>jobq := replace_job x (jobq p)\<rparr>) (x # xs) (j # js)"
  using assms by (auto simp: pending_def replace_job_rep)

text \<open>
  C17. The queue of pending jobs is a list, whatever its length: it starts empty; \<^verbatim>\<open>add_job\<close> puts a
  job behind all others, also into an empty queue; the two ends point to the first and the last
  job, or nowhere when there is none; \<^verbatim>\<open>remove_job\<close> takes out a job at any place, also the last one
  there is, and leaves the others in order; \<^verbatim>\<open>replace_job\<close> puts a job that is not in the queue
  before all others, also into an empty queue, so that after \<^verbatim>\<open>remove_job\<close> of the head it restores
  the queue.
\<close>

theorem print_queue_fifo:
  assumes "pending p xs js"
  shows "pending start_printd [] [] \<and>
    pending (add_job r n p) (xs @ [brk p]) (js @ [\<lparr>jobid = n, job_req = r\<rparr>]) \<and>
    dhead (jobq p) = first xs NULL \<and> dtail (jobq p) = final NULL xs \<and>
    (\<forall>pre x post jpre j jpost. xs = pre @ x # post \<and> js = jpre @ j # jpost \<and> length pre = length jpre \<longrightarrow>
      job_at p x = Some j \<and> pending (p\<lparr>jobq := remove_job x (jobq p)\<rparr>) (pre @ post) (jpre @ jpost)) \<and>
    (\<forall>x j. x \<notin> set xs \<and> x \<noteq> NULL \<and> x < brk p \<and> job_at p x = Some j \<longrightarrow>
      pending (p\<lparr>jobq := replace_job x (jobq p)\<rparr>) (x # xs) (j # js)) \<and>
    (\<forall>x ys. xs = x # ys \<longrightarrow> pending (p\<lparr>jobq := replace_job x (remove_job x (jobq p))\<rparr>) xs js)"
proof (intro conjI allI impI)
  show "dhead (jobq p) = first xs NULL" "dtail (jobq p) = final NULL xs" using assms by (simp_all add: pending_def dl_rep_def)
next
  fix pre x post jpre j jpost
  assume "xs = pre @ x # post \<and> js = jpre @ j # jpost \<and> length pre = length jpre"
  with remove_job_pending [of p pre x post jpre j jpost] assms
  show "job_at p x = Some j" "pending (p\<lparr>jobq := remove_job x (jobq p)\<rparr>) (pre @ post) (jpre @ jpost)" by auto
next
  fix x ys assume "xs = x # ys"
  with pq.take_put_back [of "jobq p" x ys] assms
  show "pending (p\<lparr>jobq := replace_job x (remove_job x (jobq p))\<rparr>) xs js" by (auto simp: pending_def)
qed (use assms add_job_pending start_pending replace_job_pending in auto)

theorem print_queue_fifo_witness:
  "\<exists>p x j. pending p [x] [j] \<and> jobid j = 7 \<and> pending (p\<lparr>jobq := remove_job x (jobq p)\<rparr>) [] [] \<and>
    pending (p\<lparr>jobq := replace_job x (remove_job x (jobq p))\<rparr>) [x] [j]"
proof -
  let ?r = "\<lparr>req_size = 0, req_flags = 0, usernm = [], jobnm = []\<rparr>" and ?j = "\<lparr>jobid = 7, job_req = \<lparr>req_size = 0, req_flags = 0, usernm = [], jobnm = []\<rparr>\<rparr>"
  have a: "pending (add_job ?r 7 start_printd) [1] [?j]"
    using print_queue_fifo [OF start_pending, of ?r 7] by (simp add: start_printd_def)
  note q = print_queue_fifo [OF a]
  have "pending ((add_job ?r 7 start_printd)\<lparr>jobq := remove_job 1 (jobq (add_job ?r 7 start_printd))\<rparr>) [] []"
    using q by (metis append_Nil list.size(3))
  moreover have "pending ((add_job ?r 7 start_printd)\<lparr>jobq := replace_job 1 (remove_job 1 (jobq (add_job ?r 7 start_printd)))\<rparr>) [1] [?j]"
    using q by blast
  moreover have "jobid ?j = 7" by simp
  ultimately show ?thesis using a by blast
qed

lemma jobno_saved:
  assumes "0 < sint (nextjob p)" "length (cbytes (jobfile p)) \<le> length (show_nat (nat (sint (nextjob p))))"
    and "cothers (jobfile p) = []"
  shows "\<exists>p' p''. update_jobno p = Inr p' \<and>
    init_request (q\<lparr>jobfile := (jobfile p')\<lparr>cpos := 0\<rparr>\<rparr>) = Inr p'' \<and> nextjob p'' = nextjob p"
proof -
  let ?n = "nat (sint (nextjob p))"
  have n: "int ?n = sint (nextjob p)" "int ?n < 2 ^ 31" using assms(1) sint_lt [of "nextjob p"] by simp_all
  obtain p' where u: "update_jobno p = Inr p'" "cbytes (jobfile p') = show_nat ?n" "cothers (jobfile p') = []"
    using update_jobno_spec [OF assms(1)] assms(2,3) by simp
  let ?q = "q\<lparr>jobfile := (jobfile p')\<lparr>cpos := 0\<rparr>\<rparr>"
  obtain p'' where "init_request ?q = Inr p''" "sint (nextjob p'') = sint (nextjob p)"
    using init_request_spec [of ?q ?n] u n by (auto simp: returns_def)
  then show ?thesis using u(1) by (metis signed_word_eqI)
qed

text \<open>The largest number is saved, the next one is 1, and only the first digit of the file is replaced.\<close>

lemma jobno_wraps_badly:
  assumes "nextjob p = 2147483647" "length (cbytes (jobfile p)) \<le> 10" "cothers (jobfile p) = []"
  shows "\<exists>p1 p2 p3. update_jobno p = Inr p1 \<and> nextjob (snd (get_newjobno p1)) = 1 \<and> update_jobno (snd (get_newjobno p1)) = Inr p2 \<and>
    init_request (q\<lparr>jobfile := (jobfile p2)\<lparr>cpos := 0\<rparr>\<rparr>) = Inr p3 \<and> nextjob p3 = 1147483647"
proof -
  have s: "sint (2147483647 :: 32 word) = 2147483647" "sint (1 :: 32 word) = 1" by simp_all
  have d: "show_nat 2147483647 = ''2147483647''" "show_nat (Suc 0) = ''1''" "show_nat 1147483647 = ''1147483647''"
    by (simp_all add: show_nat.simps digit_def char_of_def bit_iff_odd)
  obtain p1 where u1: "update_jobno p = Inr p1" "nextjob p1 = 2147483647" "cbytes (jobfile p1) = ''2147483647''"
      "cothers (jobfile p1) = []"
    using update_jobno_spec [of p] assms by (simp add: s d)
  have g: "nextjob (snd (get_newjobno p1)) = 1" "jobfile (snd (get_newjobno p1)) = jobfile p1"
    by (simp_all add: get_newjobno_def Let_def u1(2))
  obtain p2 where u2: "update_jobno (snd (get_newjobno p1)) = Inr p2" "cbytes (jobfile p2) = ''1147483647''"
      "cothers (jobfile p2) = []"
    using update_jobno_spec [of "snd (get_newjobno p1)"] g u1(3,4) by (simp add: d)
  let ?q = "q\<lparr>jobfile := (jobfile p2)\<lparr>cpos := 0\<rparr>\<rparr>"
  obtain p3 where "init_request ?q = Inr p3" "sint (nextjob p3) = 1147483647"
    using init_request_spec [of ?q 1147483647] u2(2,3) by (auto simp: returns_def d)
  moreover from this have "nextjob p3 = 1147483647" by (intro signed_word_eqI) simp
  ultimately show ?thesis using u1(1) g(1) u2(1) by blast
qed

text \<open>
  C18. Job numbers: \<^verbatim>\<open>get_newjobno\<close> returns \<^verbatim>\<open>nextjob\<close>, and the numbers it gives out run through
  1, ..., 2147483647 cyclically, so they stay positive and the first 2147483647 of them differ. A
  restarted server continues with the number saved as long as the file has no more digits than
  the number: then \<^verbatim>\<open>init_request\<close> after \<^verbatim>\<open>update_jobno\<close> reads back \<^verbatim>\<open>nextjob\<close>, although it reads
  the digits over a path name in the same buffer. \<^verbatim>\<open>update_jobno\<close> replaces the first digits of the
  file only, and the condition fails when the numbers wrap around: after 2147483647 the number
  1 is saved and 1147483647 is read back (the comment of \<^verbatim>\<open>update_jobno\<close> admits it).
\<close>

theorem jobno_cyclic_saved:
  assumes "0 < sint (nextjob p)"
  shows "sint (fst (get_newjobno (((\<lambda>p. snd (get_newjobno p)) ^^ n) p))) = (sint (nextjob p) - 1 + int n) mod (2 ^ 31 - 1) + 1 \<and>
    (length (cbytes (jobfile p)) \<le> length (show_nat (nat (sint (nextjob p)))) \<and> cothers (jobfile p) = [] \<longrightarrow>
      (\<exists>p' p''. update_jobno p = Inr p' \<and>
        init_request (q\<lparr>jobfile := (jobfile p')\<lparr>cpos := 0\<rparr>\<rparr>) = Inr p'' \<and> nextjob p'' = nextjob p)) \<and>
    (\<exists>p'. update_jobno p = Inr p' \<and> nextjob p' = nextjob p \<and>
      cbytes (jobfile p') = (let ds = show_nat (nat (sint (nextjob p))) in ds @ drop (length ds) (cbytes (jobfile p)))) \<and>
    (nextjob p = 2147483647 \<and> length (cbytes (jobfile p)) \<le> 10 \<and> cothers (jobfile p) = [] \<longrightarrow>
      (\<exists>p1 p2 p3. update_jobno p = Inr p1 \<and> nextjob (snd (get_newjobno p1)) = 1 \<and> update_jobno (snd (get_newjobno p1)) = Inr p2 \<and>
        init_request (q\<lparr>jobfile := (jobfile p2)\<lparr>cpos := 0\<rparr>\<rparr>) = Inr p3 \<and> nextjob p3 = 1147483647))"
  using jobno_sequence [OF assms, of n] jobno_saved [OF assms] jobno_wraps_badly [of p q] update_jobno_spec [OF assms]
  by (simp add: get_newjobno_def Let_def)

theorem jobno_cyclic_saved_witness:
  "sint (fst (get_newjobno (((\<lambda>p. snd (get_newjobno p)) ^^ 5) start_printd))) = 6 \<and>
    (\<exists>p' p''. update_jobno start_printd = Inr p' \<and>
      init_request (start_printd\<lparr>jobfile := (jobfile p')\<lparr>cpos := 0\<rparr>\<rparr>) = Inr p'' \<and> nextjob p'' = 1) \<and>
    (\<exists>p1. update_jobno (start_printd\<lparr>nextjob := 2147483647\<rparr>) = Inr p1 \<and>
      (\<exists>p2 p3. update_jobno (snd (get_newjobno p1)) = Inr p2 \<and>
        init_request (start_printd\<lparr>jobfile := (jobfile p2)\<lparr>cpos := 0\<rparr>\<rparr>) = Inr p3 \<and> nextjob p3 = 1147483647))"
proof -
  have "(0 :: int) < sint (2147483647 :: 32 word)" by simp
  then show ?thesis
    using jobno_cyclic_saved [of start_printd 5 start_printd]
      jobno_cyclic_saved [of "start_printd\<lparr>nextjob := 2147483647\<rparr>" 0 start_printd]
    by (simp add: start_printd_def) blast
qed

text \<open>
  C20. The worker list works for one client at a time (the worker is removed and its socket
  closed), but \<^verbatim>\<open>add_worker\<close> does not move the head when the list is not empty: with two clients
  the second worker is never found again (its socket stays open and \<^verbatim>\<open>kill_workers\<close> does not
  cancel it), and once the first one is done \<^verbatim>\<open>workers\<close> points to freed memory.
\<close>

theorem worker_list_broken:
  fixes fd1 fd2 :: int
  assumes "dhead (workers p) = NULL" "0 < brk p" "t1 \<noteq> t2"
  defines "p2 \<equiv> add_worker t2 fd2 (add_worker t1 fd1 p)"
  shows "(\<exists>p1. client_cleanup t1 (add_worker t1 fd1 p) = Inr p1 \<and> dhead (workers p1) = NULL \<and> closed p1 = closed p @ [fd1]) \<and>
    client_cleanup t2 p2 = Inr p2 \<and> kill_workers p2 = Inr (p2\<lparr>cancelled := cancelled p @ [t1]\<rparr>) \<and>
    (\<exists>p3. client_cleanup t1 p2 = Inr p3 \<and> worker_at p3 (dhead (workers p3)) = None \<and> dhead (workers p3) \<noteq> NULL \<and>
      client_cleanup t2 p3 = Inl (Undef ''worker list: freed node''))"
  using one_worker [OF assms(1,2), of t1 fd1] two_workers_bug [OF assms(1-3), of fd1 fd2] assms(2)
  by (auto simp: p2_def two_workers_def)

theorem worker_list_broken_witness:
  "client_cleanup 12 (add_worker 12 5 (add_worker 11 4 start_printd)) = Inr (add_worker 12 5 (add_worker 11 4 start_printd))"
  using worker_list_broken [of start_printd 11 12 4 5] by (simp add: start_printd_def dl_empty_def)

end
