(* ===== verification/Bytes.thy ===== *)
theory Bytes
  imports CLib
begin

text \<open>
  Integers in memory and on the network: the bytes of 16 and 32 bit words in little-endian order
  (the host) and big-endian order (the network), and \<^verbatim>\<open>htonl\<close>, \<^verbatim>\<open>ntohl\<close>, \<^verbatim>\<open>htons\<close>,
  \<^verbatim>\<open>ntohs\<close> of a little-endian host.
\<close>

definition byte :: "nat \<Rightarrow> char" where
  "byte n = char_of n"

definition be32 :: "32 word \<Rightarrow> string" where
  "be32 w = (let n = unat w in [byte (n div 2 ^ 24), byte (n div 2 ^ 16), byte (n div 2 ^ 8), byte n])"

definition le32 :: "32 word \<Rightarrow> string" where
  "le32 w = rev (be32 w)"

fun of_be :: "nat \<Rightarrow> string \<Rightarrow> nat" where
  "of_be acc [] = acc"
| "of_be acc (c # cs) = of_be (256 * acc + of_char c) cs"

definition of_be32 :: "string \<Rightarrow> 32 word" where
  "of_be32 cs = word_of_nat (of_be 0 cs)"

definition of_le32 :: "string \<Rightarrow> 32 word" where
  "of_le32 cs = of_be32 (rev cs)"

definition htonl :: "32 word \<Rightarrow> 32 word" where
  "htonl w = of_le32 (be32 w)"

definition be16 :: "16 word \<Rightarrow> string" where
  "be16 w = (let n = unat w in [byte (n div 2 ^ 8), byte n])"

definition of_be16 :: "string \<Rightarrow> 16 word" where
  "of_be16 cs = word_of_nat (of_be 0 cs)"

lemma of_char_byte [simp]: "(of_char (byte n) :: nat) = n mod 256"
  by (simp add: byte_def)

lemma length_be32 [simp]: "length (be32 w) = 4" "length (le32 w) = 4"
  by (simp_all add: be32_def le32_def Let_def)

lemma length_be16 [simp]: "length (be16 w) = 2"
  by (simp add: be16_def Let_def)

lemma split4:
  assumes "(n :: nat) < 2 ^ 32"
  shows "256 * (256 * (256 * (256 * 0 + n div 2 ^ 24 mod 256) + n div 2 ^ 16 mod 256) + n div 2 ^ 8 mod 256) + n mod 256 = n"
proof -
  have "n div 2 ^ 24 mod 256 = n div 2 ^ 24" using assms by (intro mod_less) (simp add: less_mult_imp_div_less)
  moreover have "n div 2 ^ 24 * 256 + n div 2 ^ 16 mod 256 = n div 2 ^ 16"
    using div_mult_mod_eq [of "n div 2 ^ 16" 256] by (simp add: div_mult2_eq [symmetric])
  moreover have "n div 2 ^ 16 * 256 + n div 2 ^ 8 mod 256 = n div 2 ^ 8"
    using div_mult_mod_eq [of "n div 2 ^ 8" 256] by (simp add: div_mult2_eq [symmetric])
  moreover have "n div 2 ^ 8 * 256 + n mod 256 = n" using div_mult_mod_eq [of n 256] by simp
  ultimately show ?thesis by (simp only: mult_0_right add_0 mult.commute [of 256])
qed

lemma of_be32_be32 [simp]: "of_be32 (be32 w) = w"
proof -
  have "unat w < 2 ^ 32" using unsigned_less [of w] by simp
  note sp = split4 [OF this]
  have "of_be 0 (be32 w) = unat w"
    unfolding be32_def Let_def of_be.simps of_char_byte by (rule sp)
  then show ?thesis by (simp add: of_be32_def)
qed

lemma of_le32_le32 [simp]: "of_le32 (le32 w) = w"
  by (simp add: of_le32_def le32_def)

lemma of_be16_be16 [simp]: "of_be16 (be16 w) = w"
proof -
  have lt: "unat w < 2 ^ 16" using unsigned_less [of w] by simp
  then have "unat w div 256 mod 256 = unat w div 256" by (intro mod_less) (simp add: less_mult_imp_div_less)
  then have "of_be 0 (be16 w) = unat w" using div_mult_mod_eq [of "unat w" 256] by (simp add: be16_def Let_def)
  then show ?thesis by (simp add: of_be16_def)
qed

lemma snoc_byte:
  fixes a m :: nat
  assumes "a < 256"
  shows "(m * 256 + a) mod 256 = a" "(m * 256 + a) div 256 = m" "m < M \<Longrightarrow> m * 256 + a < M * 256"
proof -
  show "(m * 256 + a) mod 256 = a" "(m * 256 + a) div 256 = m" using assms by simp_all
  assume "m < M"
  then have "Suc m * 256 \<le> M * 256" by (intro mult_le_mono1) simp
  then show "m * 256 + a < M * 256" using assms by simp
qed

lemma le32_of_le32: "length cs = 4 \<Longrightarrow> le32 (of_le32 cs) = cs"
proof -
  assume "length cs = 4"
  then obtain a b c d where cs: "cs = [a, b, c, d]"
    by (auto simp: length_Suc_conv numeral_eq_Suc)
  let ?A = "of_char a :: nat" and ?B = "of_char b :: nat" and ?C = "of_char c :: nat" and ?D = "of_char d :: nat"
  define n1 n2 n3 where "n1 = ?D * 256 + ?C" and "n2 = n1 * 256 + ?B" and "n3 = n2 * 256 + ?A"
  have n: "of_be 0 (rev cs) = n3" by (simp add: cs n1_def n2_def n3_def algebra_simps)
  have "n1 < 256 * 256" unfolding n1_def by (rule snoc_byte(3)) simp_all
  then have "n2 < 256 * 256 * 256" unfolding n2_def by (rule snoc_byte(3) [rotated]) simp
  then have "n3 < 256 * 256 * 256 * 256" unfolding n3_def by (rule snoc_byte(3) [rotated]) simp
  then have u: "unat (word_of_nat n3 :: 32 word) = n3" by (simp add: unsigned_of_nat take_bit_nat_eq_self)
  have d3: "n3 mod 256 = ?A" "n3 div 256 = n2" unfolding n3_def by (simp_all add: snoc_byte)
  have d2: "n2 mod 256 = ?B" "n2 div 256 = n1" unfolding n2_def by (simp_all add: snoc_byte)
  have d1: "n1 mod 256 = ?C" "n1 div 256 = ?D" unfolding n1_def by (simp_all add: snoc_byte)
  have "n3 div 2 ^ 16 = n3 div 256 div 256" "n3 div 2 ^ 24 = n3 div 256 div 256 div 256"
    by (simp_all add: div_mult2_eq [symmetric])
  then have "n3 div 2 ^ 8 mod 256 = ?B" "n3 div 2 ^ 16 mod 256 = ?C" "n3 div 2 ^ 24 mod 256 = ?D"
    using d1 d2 d3 by simp_all
  moreover have "byte m = x" if "m mod 256 = of_char x" for m x
    using that by (metis byte_def char_of_mod_256 char_of_char)
  ultimately show ?thesis
    using d3(1) by (simp add: le32_def of_le32_def of_be32_def be32_def n u Let_def) (simp add: cs)
qed

lemma htonl_htonl [simp]: "htonl (htonl w) = w"
proof -
  have "be32 (htonl w) = rev (le32 (of_le32 (be32 w)))" by (simp add: htonl_def le32_def)
  also have "\<dots> = rev (be32 w)" by (simp add: le32_of_le32)
  finally show ?thesis by (simp add: htonl_def [of "htonl w"] of_le32_def)
qed

lemma le32_htonl [simp]: "le32 (htonl w) = be32 w"
  by (simp add: htonl_def le32_of_le32)

lemma htonl_eq_0 [simp]: "htonl w = 0 \<longleftrightarrow> w = 0"
proof -
  have z: "htonl 0 = 0" by (simp add: htonl_def of_le32_def of_be32_def be32_def byte_def Let_def)
  then show ?thesis by (metis htonl_htonl)
qed

end
