(* ===== verification/PrintSpool.thy ===== *)
theory PrintSpool
  imports PrintQueue Bytes
begin

text \<open>
  \<^verbatim>\<open>printer/printd.c\<close>, the spool directories: \<^verbatim>\<open>client_thread\<close>, which stores a job, and
  \<^verbatim>\<open>build_qonstart\<close>, which finds the stored jobs again. The spool is a map from paths to
  contents, with a list of the outcomes of the coming file operations, which is arbitrary; a
  descriptor is the path it was opened with. \<^verbatim>\<open>strerror\<close> is a parameter, and so are the contents
  of the stack buffers that the C code does not initialise.
\<close>

unbundle bit_operations_syntax

section \<open>The spool\<close>

datatype fop = FOk | FShort nat | FErr int

record spool =
  files :: "string \<Rightarrow> string option"
  fops :: "fop list"

definition next_op :: "spool \<Rightarrow> fop \<times> spool" where
  "next_op sp = (case fops sp of [] \<Rightarrow> (FOk, sp) | x # r \<Rightarrow> (x, sp\<lparr>fops := r\<rparr>))"

text \<open>\<^verbatim>\<open>creat\<close>: \<open>Some e\<close> when it fails with error \<open>e\<close>.\<close>

definition f_creat :: "string \<Rightarrow> spool \<Rightarrow> int option \<times> spool" where
  "f_creat path sp = (case next_op sp of
       (FErr e, sp) \<Rightarrow> (Some e, sp)
     | (_, sp) \<Rightarrow> (None, sp\<lparr>files := (files sp)(path \<mapsto> [])\<rparr>))"

definition f_write :: "string \<Rightarrow> string \<Rightarrow> spool \<Rightarrow> (int + nat) \<times> spool" where
  "f_write path d sp =
     (let app = (\<lambda>k sp. sp\<lparr>files := (files sp)(path \<mapsto> (case files sp path of None \<Rightarrow> [] | Some bs \<Rightarrow> bs) @ take k d)\<rparr>) in
      case next_op sp of
        (FErr e, sp) \<Rightarrow> (Inl e, sp)
      | (FShort k, sp) \<Rightarrow> (Inr (min k (length d)), app k sp)
      | (FOk, sp) \<Rightarrow> (Inr (length d), app (length d) sp))"

definition f_unlink :: "string \<Rightarrow> spool \<Rightarrow> spool" where
  "f_unlink path sp = sp\<lparr>files := (files sp)(path := None)\<rparr>"

text \<open>\<^verbatim>\<open>open(path, O_RDONLY)\<close> and one \<^verbatim>\<open>read\<close> of at most \<open>n\<close> bytes from the start.\<close>

definition f_open :: "string \<Rightarrow> spool \<Rightarrow> bool \<times> spool" where
  "f_open path sp = (case next_op sp of (FErr e, sp) \<Rightarrow> (False, sp) | (_, sp) \<Rightarrow> (files sp path \<noteq> None, sp))"

definition f_read :: "string \<Rightarrow> nat \<Rightarrow> spool \<Rightarrow> (int + string) \<times> spool" where
  "f_read path n sp =
     (let bs = (case files sp path of None \<Rightarrow> [] | Some bs \<Rightarrow> bs) in
      case next_op sp of
        (FErr e, sp) \<Rightarrow> (Inl e, sp)
      | (FShort k, sp) \<Rightarrow> (Inr (take (min k n) bs), sp)
      | (FOk, sp) \<Rightarrow> (Inr (take n bs), sp))"

section \<open>Requests and responses as bytes\<close>

definition IOBUFSZ :: nat where "IOBUFSZ = 8192"
definition FILENMSZ :: nat where "FILENMSZ = 64"
definition MSGLEN_MAX :: nat where "MSGLEN_MAX = 512"
definition EIO :: int where "EIO = 5"

definition SPOOLDIR :: string where "SPOOLDIR = ''/var/spool/printer''"
definition DATADIR :: string where "DATADIR = ''data''"
definition REQDIR :: string where "REQDIR = ''reqs''"

definition REQ_SIZE :: nat where "REQ_SIZE = 8 + USERNM_MAX + JOBNM_MAX"

text \<open>\<^verbatim>\<open>struct printreq\<close> in the memory of the host.\<close>

definition encode_req :: "printreq \<Rightarrow> string" where
  "encode_req r = le32 (req_size r) @ le32 (req_flags r) @ usernm r @ jobnm r"

definition decode_req :: "string \<Rightarrow> printreq" where
  "decode_req bs = \<lparr>req_size = of_le32 (take 4 bs), req_flags = of_le32 (take 4 (drop 4 bs)),
     usernm = take USERNM_MAX (drop 8 bs), jobnm = take JOBNM_MAX (drop (8 + USERNM_MAX) bs)\<rparr>"

definition wf_req :: "printreq \<Rightarrow> bool" where
  "wf_req r \<longleftrightarrow> length (usernm r) = USERNM_MAX \<and> length (jobnm r) = JOBNM_MAX"

record printresp =
  retcode :: "32 word"
  resp_jobid :: "32 word"
  resp_msg :: string

definition encode_resp :: "printresp \<Rightarrow> string" where
  "encode_resp r = le32 (retcode r) @ le32 (resp_jobid r) @ resp_msg r"

definition data_path :: "32 word \<Rightarrow> string" where
  "data_path jid = SPOOLDIR @ ''/'' @ DATADIR @ ''/'' @ show_int (sint jid)"

definition req_path :: "32 word \<Rightarrow> string" where
  "req_path jid = SPOOLDIR @ ''/'' @ REQDIR @ ''/'' @ show_int (sint jid)"

section \<open>Accepting a job\<close>

text \<open>The error number as \<^verbatim>\<open>uint32_t\<close>, in network order.\<close>

definition net_errno :: "int \<Rightarrow> 32 word" where
  "net_errno e = htonl (word_of_int e)"

definition reject :: "(32 word \<Rightarrow> string) \<Rightarrow> int \<Rightarrow> stream \<Rightarrow> stream" where
  "reject strerr e sk =
     snd (writen (encode_resp \<lparr>retcode = net_errno e, resp_jobid = 0,
       resp_msg = strncpy MSGLEN_MAX (strerr (net_errno e))\<rparr>) sk)"

text \<open>
  The loop that stores the file; \<open>buf\<close> is the buffer, which is compared with \<^verbatim>\<open>%!PS\<close> after the
  first read however short that is. The result is \<open>Inl e\<close> when a write fails.
\<close>

function recv_file :: "string \<Rightarrow> bool \<Rightarrow> string \<Rightarrow> 32 word \<Rightarrow> stream \<Rightarrow> spool \<Rightarrow> (int + 32 word) \<times> stream \<times> spool" where
  "recv_file path isfirst buf flags sk sp =
     (case tread IOBUFSZ sk of
        (Inl e, sk) \<Rightarrow> (Inr flags, sk, sp)
      | (Inr d, sk) \<Rightarrow>
          if d = [] then (Inr flags, sk, sp)
          else let buf = buf_put buf d;
                   flags = (if isfirst \<and> take 4 buf \<noteq> ''%!PS'' then flags OR PR_TEXT else flags)
               in case f_write path d sp of
                    (Inl e, sp) \<Rightarrow> (Inl e, sk, sp)
                  | (Inr nw, sp) \<Rightarrow>
                      if nw \<noteq> length d then (Inl EIO, sk, sp)
                      else recv_file path False buf flags sk sp)"
  by pat_completeness auto
termination
proof (relation "measure (\<lambda>(path, isfirst, buf, flags, sk, sp). length (arriving (s_in sk)))", goal_cases)
  case (2 path isfirst buf flags sk sp x xa y xb)
  then have "arriving (s_in sk) = y @ arriving (s_in xa)" using tread_conserves(1) [of IOBUFSZ sk y xa] by simp
  then show ?case using 2 by simp
qed simp

declare recv_file.simps [simp del]

text \<open>The part that stores the control file and answers the client.\<close>

definition client_request :: "(32 word \<Rightarrow> string) \<Rightarrow> string \<Rightarrow> printreq \<Rightarrow> 32 word \<Rightarrow> stream \<Rightarrow> spool \<Rightarrow> printd \<Rightarrow> stream \<times> spool \<times> printd" where
  "client_request strerr msgbuf req jid sk sp p =
     (case f_creat (req_path jid) sp of
        (Some e, sp) \<Rightarrow> (reject strerr e sk, f_unlink (data_path jid) sp, p)
      | (None, sp) \<Rightarrow>
        case f_write (req_path jid) (encode_req req) sp of
          (Inl e, sp) \<Rightarrow> (reject strerr e sk, f_unlink (data_path jid) (f_unlink (req_path jid) sp), p)
        | (Inr nw, sp) \<Rightarrow>
          if nw \<noteq> REQ_SIZE
          then (reject strerr EIO sk, f_unlink (data_path jid) (f_unlink (req_path jid) sp), p)
          else let msg = ''request ID '' @ show_int (sint jid) @ [NUL];
                   sk = snd (writen (encode_resp \<lparr>retcode = 0, resp_jobid = htonl jid,
                               resp_msg = buf_put msgbuf msg\<rparr>) sk)
               in (sk, sp, add_job req jid p))"

text \<open>The part that stores the data file.\<close>

definition client_data :: "(32 word \<Rightarrow> string) \<Rightarrow> string \<Rightarrow> string \<Rightarrow> printreq \<Rightarrow> 32 word \<Rightarrow> stream \<Rightarrow> spool \<Rightarrow> printd \<Rightarrow> stream \<times> spool \<times> printd" where
  "client_data strerr buf msgbuf req jid sk sp p =
     (case f_creat (data_path jid) sp of
        (Some e, sp) \<Rightarrow> (reject strerr e sk, sp, p)
      | (None, sp) \<Rightarrow>
        case recv_file (data_path jid) True buf (req_flags req) sk sp of
          (Inl e, sk, sp) \<Rightarrow> (reject strerr e sk, f_unlink (data_path jid) sp, p)
        | (Inr flags, sk, sp) \<Rightarrow> client_request strerr msgbuf (req\<lparr>req_flags := flags\<rparr>) jid sk sp p)"

definition client_body :: "(32 word \<Rightarrow> string) \<Rightarrow> string \<Rightarrow> string \<Rightarrow> stream \<Rightarrow> spool \<Rightarrow> printd \<Rightarrow> stream \<times> spool \<times> printd" where
  "client_body strerr buf msgbuf sk sp p =
     (case treadn REQ_SIZE sk of
        (Inl e, sk) \<Rightarrow> (reject strerr e sk, sp, p)
      | (Inr d, sk) \<Rightarrow>
        if length d \<noteq> REQ_SIZE then (reject strerr EIO sk, sp, p)
        else let req = decode_req d;
                 req = req\<lparr>req_size := htonl (req_size req), req_flags := htonl (req_flags req)\<rparr>;
                 (jid, p) = get_newjobno p
             in client_data strerr buf msgbuf req jid sk sp p)"

definition client_thread :: "(32 word \<Rightarrow> string) \<Rightarrow> string \<Rightarrow> string \<Rightarrow> nat \<Rightarrow> int \<Rightarrow> stream \<Rightarrow> spool \<Rightarrow> printd
    \<Rightarrow> (stream \<times> spool \<times> printd) res" where
  "client_thread strerr buf msgbuf tid sockfd sk sp p =
     (let (sk, sp, p) = client_body strerr buf msgbuf sk sp (add_worker tid sockfd p) in
      bnd (client_cleanup tid p) (\<lambda>p. Inr (sk, sp, p)))"

section \<open>Finding the stored jobs\<close>

fun build_qonstart :: "string list \<Rightarrow> spool \<Rightarrow> printd \<Rightarrow> (spool \<times> printd) res" where
  "build_qonstart [] sp p = Inr (sp, p)"
| "build_qonstart (ent # ents) sp p =
     (if ent = ''.'' \<or> ent = ''..'' then build_qonstart ents sp p
      else let fname = SPOOLDIR @ ''/'' @ REQDIR @ ''/'' @ ent in
      if length fname + 1 > FILENMSZ then Inl (Undef ''build_qonstart: fname overrun'')
      else case f_open fname sp of
        (False, sp) \<Rightarrow> build_qonstart ents sp p
      | (True, sp) \<Rightarrow>
        let (r, sp) = f_read fname REQ_SIZE sp;
            bad = build_qonstart ents (f_unlink (SPOOLDIR @ ''/'' @ DATADIR @ ''/'' @ ent) (f_unlink fname sp)) p
        in case r of
            Inl e \<Rightarrow> bad
          | Inr d \<Rightarrow> if length d \<noteq> REQ_SIZE then bad
              else build_qonstart ents sp (add_job (decode_req d) (word_of_int (c_atol ent)) p))"


section \<open>Facts about encodings and paths\<close>

lemma decode_encode_req:
  assumes "wf_req r"
  shows "decode_req (encode_req r) = r" "length (encode_req r) = REQ_SIZE"
proof -
  have u: "length (usernm r) = 64" "length (jobnm r) = 256"
    using assms by (simp_all add: wf_req_def USERNM_MAX_def JOBNM_MAX_def)
  show "length (encode_req r) = REQ_SIZE" using u by (simp add: encode_req_def REQ_SIZE_def USERNM_MAX_def JOBNM_MAX_def)
  have "take 4 (encode_req r) = le32 (req_size r)" "take 4 (drop 4 (encode_req r)) = le32 (req_flags r)"
    "drop 8 (encode_req r) = usernm r @ jobnm r" "drop 72 (encode_req r) = jobnm r"
    using u by (simp_all add: encode_req_def)
  then show "decode_req (encode_req r) = r"
    using u by (simp add: decode_req_def USERNM_MAX_def JOBNM_MAX_def)
qed

lemma wf_decode_req: "length d = REQ_SIZE \<Longrightarrow> wf_req (decode_req d)"
  by (simp add: wf_req_def decode_req_def REQ_SIZE_def USERNM_MAX_def JOBNM_MAX_def)

lemma wf_req_update [simp]:
  "wf_req (r\<lparr>req_size := a\<rparr>) = wf_req r" "wf_req (r\<lparr>req_flags := b\<rparr>) = wf_req r"
  by (simp_all add: wf_req_def)

lemma paths_differ [simp]: "data_path i \<noteq> req_path j" "req_path j \<noteq> data_path i"
  by (simp_all add: data_path_def req_path_def DATADIR_def REQDIR_def)

section \<open>Storing the file\<close>

text \<open>The data that arrives until the sender closes, an error or a timeout.\<close>

fun got :: "rd list \<Rightarrow> string" where
  "got (RData d # r) = (if d = [] then [] else d @ got r)"
| "got _ = []"

lemma tread_got:
  assumes "tread n sk = (Inr d, sk')" "d \<noteq> []" "0 < n"
  shows "got (s_in sk) = d @ got (s_in sk') \<and> s_out sk' = s_out sk \<and> s_wr sk' = s_wr sk"
proof (cases "s_in sk")
  case (Cons x r)
  then show ?thesis
    using assms by (cases x) (auto simp: tread_def s_read_def split: if_splits)
qed (use assms in \<open>auto simp: tread_def s_read_def\<close>)

lemma tread_none:
  assumes "tread n sk = (r, sk')" "r = Inr [] \<or> (\<exists>e. r = Inl e)" "0 < n"
  shows "got (s_in sk) = []" "s_out sk' = s_out sk" "s_wr sk' = s_wr sk"
proof -
  show "got (s_in sk) = []"
  proof (cases "s_in sk")
    case (Cons x l)
    then show ?thesis using assms by (cases x) (auto simp: tread_def s_read_def split: if_splits)
  qed simp
  show "s_out sk' = s_out sk" "s_wr sk' = s_wr sk"
    using assms(1,2) tread_conserves by blast+
qed

lemma f_write_files:
  assumes "f_write path d sp = (r, sp')"
  shows "q \<noteq> path \<Longrightarrow> files sp' q = files sp q"
    "r = Inr (length d) \<Longrightarrow> files sp' path = Some ((case files sp path of None \<Rightarrow> [] | Some bs \<Rightarrow> bs) @ d)"
proof -
  have nx: "files (snd (next_op sp)) = files sp" by (simp add: next_op_def split: list.splits)
  obtain x s1 where n: "next_op sp = (x, s1)" by (metis surj_pair)
  have f: "files s1 = files sp" using nx n by simp
  show "q \<noteq> path \<Longrightarrow> files sp' q = files sp q"
    using assms n f by (cases x) (auto simp: f_write_def)
  show "r = Inr (length d) \<Longrightarrow> files sp' path = Some ((case files sp path of None \<Rightarrow> [] | Some bs \<Rightarrow> bs) @ d)"
    using assms n f by (cases x) (auto simp: f_write_def min_def split: if_splits option.splits)
qed

lemma f_creat_files:
  "f_creat path sp = (None, sp') \<Longrightarrow> files sp' = (files sp)(path \<mapsto> [])"
  "f_creat path sp = (Some e, sp') \<Longrightarrow> files sp' = files sp"
  by (auto simp: f_creat_def next_op_def split: list.splits fop.splits)

lemma recv_file_spec:
  assumes "recv_file path isfirst buf flags sk sp = (r, sk', sp')" "files sp path = Some c"
  shows "s_out sk' = s_out sk \<and> s_wr sk' = s_wr sk \<and> (\<forall>q. q \<noteq> path \<longrightarrow> files sp' q = files sp q) \<and>
    (\<forall>flags'. r = Inr flags' \<longrightarrow> files sp' path = Some (c @ got (s_in sk)))"
  using assms
proof (induction path isfirst buf flags sk sp arbitrary: c rule: recv_file.induct)
  case (1 path isfirst buf flags sk sp)
  have n: "0 < IOBUFSZ" by (simp add: IOBUFSZ_def)
  obtain x sk1 where rd: "tread IOBUFSZ sk = (x, sk1)" by (metis surj_pair)
  show ?case
  proof (cases "x = Inr [] \<or> (\<exists>e. x = Inl e)")
    case True
    then have "recv_file path isfirst buf flags sk sp = (Inr flags, sk1, sp)"
      using rd by (auto simp: recv_file.simps [of path isfirst])
    then show ?thesis using 1(2,3) tread_none [OF rd True n] by auto
  next
    case False
    then obtain d where d: "x = Inr d" "d \<noteq> []" by (cases x) auto
    note g = tread_got [OF rd [unfolded d(1)] d(2) n]
    let ?buf = "buf_put buf d"
    let ?flags = "if isfirst \<and> take 4 ?buf \<noteq> ''%!PS'' then flags OR PR_TEXT else flags"
    obtain w sp1 where wr: "f_write path d sp = (w, sp1)" by (metis surj_pair)
    note fw = f_write_files [OF wr]
    show ?thesis
    proof (cases "w = Inr (length d)")
      case True
      have eq: "recv_file path False ?buf ?flags sk1 sp1 = (r, sk', sp')"
        using 1(2) rd d wr True by (simp add: recv_file.simps [of path isfirst] Let_def)
      have "files sp1 path = Some (c @ d)" using fw(2) [OF True] 1(3) by simp
      from 1(1) [OF rd [symmetric] d refl refl wr [symmetric] True _ eq this] show ?thesis
        using g fw(1) by auto
    next
      case w: False
      then have "\<exists>e. recv_file path isfirst buf flags sk sp = (Inl e, sk1, sp1)"
        using rd d wr by (cases w) (auto simp: recv_file.simps [of path isfirst] Let_def)
      then show ?thesis using 1(2) g fw(1) by auto
    qed
  qed
qed


text \<open>The first read after the header decides about the flag for text, together with the buffer it goes to.\<close>

fun first_data :: "rd list \<Rightarrow> string" where
  "first_data (RData d # r) = take IOBUFSZ d"
| "first_data _ = []"

definition sniffed :: "string \<Rightarrow> string \<Rightarrow> 32 word \<Rightarrow> 32 word" where
  "sniffed buf d flags = (if d \<noteq> [] \<and> take 4 (buf_put buf d) \<noteq> ''%!PS'' then flags OR PR_TEXT else flags)"

lemma tread_first: "tread IOBUFSZ sk = (Inr d, sk') \<Longrightarrow> d = first_data (s_in sk)"
  "tread IOBUFSZ sk = (Inl e, sk') \<Longrightarrow> first_data (s_in sk) = []"
proof -
  have "0 < IOBUFSZ" by (simp add: IOBUFSZ_def)
  then show "tread IOBUFSZ sk = (Inr d, sk') \<Longrightarrow> d = first_data (s_in sk)" "tread IOBUFSZ sk = (Inl e, sk') \<Longrightarrow> first_data (s_in sk) = []"
    by (cases "s_in sk" rule: first_data.cases; auto simp: tread_def s_read_def split: if_splits)+
qed

lemma recv_file_flags:
  assumes "recv_file path isfirst buf flags sk sp = (Inr f, sk', sp')"
  shows "f = (if isfirst then sniffed buf (first_data (s_in sk)) flags else flags)"
  using assms
proof (induction path isfirst buf flags sk sp rule: recv_file.induct)
  case (1 path isfirst buf flags sk sp)
  obtain x sk1 where rd: "tread IOBUFSZ sk = (x, sk1)" by (metis surj_pair)
  show ?case
  proof (cases "x = Inr [] \<or> (\<exists>e. x = Inl e)")
    case True
    then have "f = flags" "first_data (s_in sk) = []"
      using 1(2) rd tread_first [of sk] by (auto simp: recv_file.simps [of path isfirst])
    then show ?thesis by (simp add: sniffed_def)
  next
    case False
    then obtain d where d: "x = Inr d" "d \<noteq> []" by (cases x) auto
    let ?flags = "if isfirst \<and> take 4 (buf_put buf d) \<noteq> ''%!PS'' then flags OR PR_TEXT else flags"
    obtain w sp1 where wr: "f_write path d sp = (w, sp1)" by (metis surj_pair)
    have w: "w = Inr (length d)" and rec: "recv_file path False (buf_put buf d) ?flags sk1 sp1 = (Inr f, sk', sp')"
      using 1(2) rd d wr by (auto simp: recv_file.simps [of path isfirst] Let_def split: sum.splits if_splits)
    from 1(1) [OF rd [symmetric] d refl refl wr [symmetric] w _ rec] have "f = ?flags" by simp
    then show ?thesis using tread_first(1) [OF rd [unfolded d(1)]] d(2) by (simp add: sniffed_def)
  qed
qed

section \<open>All or nothing\<close>

lemma writen_free: "s_wr s = [] \<Longrightarrow> s_out (snd (writen d s)) = s_out s @ d"
  using writen_loop_all [of s d "length d"] by (auto simp: writen_def progressing_def)

definition rejection :: "(32 word \<Rightarrow> string) \<Rightarrow> int \<Rightarrow> printresp" where
  "rejection strerr e = \<lparr>retcode = net_errno e, resp_jobid = 0, resp_msg = strncpy MSGLEN_MAX (strerr (net_errno e))\<rparr>"

definition acceptance :: "string \<Rightarrow> 32 word \<Rightarrow> printresp" where
  "acceptance msgbuf jid = \<lparr>retcode = 0, resp_jobid = htonl jid,
     resp_msg = buf_put msgbuf (''request ID '' @ show_int (sint jid) @ [NUL])\<rparr>"

lemma reject_out: "s_wr sk = [] \<Longrightarrow> s_out (reject strerr e sk) = s_out sk @ encode_resp (rejection strerr e)"
  by (simp add: reject_def rejection_def writen_free)

text \<open>The spool after a refused job, and after an accepted one.\<close>

definition nothing_left :: "32 word \<Rightarrow> spool \<Rightarrow> spool \<Rightarrow> bool" where
  "nothing_left jid sp sp' \<longleftrightarrow>
     (\<forall>q. q \<noteq> data_path jid \<and> q \<noteq> req_path jid \<longrightarrow> files sp' q = files sp q) \<and>
     (\<forall>q \<in> {data_path jid, req_path jid}. files sp' q = None \<or> files sp' q = files sp q)"

definition all_stored :: "32 word \<Rightarrow> printreq \<Rightarrow> string \<Rightarrow> spool \<Rightarrow> spool \<Rightarrow> bool" where
  "all_stored jid req d sp sp' \<longleftrightarrow> wf_req req \<and>
     (\<forall>q. q \<noteq> data_path jid \<and> q \<noteq> req_path jid \<longrightarrow> files sp' q = files sp q) \<and>
     files sp' (req_path jid) = Some (encode_req req) \<and> files sp' (data_path jid) = Some d"

lemma treadn_out: "treadn n sk = (r, sk1) \<Longrightarrow> s_out sk1 = s_out sk \<and> s_wr sk1 = s_wr sk"
  using tn.loop_conserves [of n n "[]" sk r sk1] by (simp add: treadn_def)

lemma treadn_length: "treadn n sk = (Inr d, sk1) \<Longrightarrow> length d \<le> n"
  using tn.loop_conserves [of n n "[]" sk "Inr d" sk1] by (simp add: treadn_def)

text \<open>What a stage of \<^verbatim>\<open>client_thread\<close> does: refuse the job, or store and announce it.\<close>

definition refused_job :: "(32 word \<Rightarrow> string) \<Rightarrow> 32 word \<Rightarrow> stream \<Rightarrow> spool \<Rightarrow> printd \<Rightarrow> stream \<times> spool \<times> printd \<Rightarrow> bool" where
  "refused_job strerr jid sk sp p = (\<lambda>(sk', sp', p'). p' = p \<and> nothing_left jid sp sp' \<and>
     (\<exists>e. s_out sk' = s_out sk @ encode_resp (rejection strerr e)))"

definition stored_job :: "string \<Rightarrow> printreq \<Rightarrow> 32 word \<Rightarrow> string \<Rightarrow> stream \<Rightarrow> spool \<Rightarrow> printd \<Rightarrow> stream \<times> spool \<times> printd \<Rightarrow> bool" where
  "stored_job msgbuf req jid d sk sp p = (\<lambda>(sk', sp', p').
     s_out sk' = s_out sk @ encode_resp (acceptance msgbuf jid) \<and>
     p' = add_job req jid p \<and> all_stored jid req d sp sp')"

lemma refusedI:
  assumes "s_out sk1 = s_out sk" "s_wr sk1 = []" "nothing_left jid sp sp'"
  shows "refused_job strerr jid sk sp p (reject strerr e sk1, sp', p)"
  using assms reject_out [OF assms(2), of strerr e] by (auto simp: refused_job_def)

lemma client_request_cases:
  assumes o: "s_out sk1 = s_out sk" "s_wr sk1 = []" and wf: "wf_req req"
    and fr: "\<And>q. q \<noteq> data_path jid \<Longrightarrow> files sp1 q = files sp q" and d: "files sp1 (data_path jid) = Some d"
  shows "refused_job strerr jid sk sp p (client_request strerr msgbuf req jid sk1 sp1 p) \<or>
    stored_job msgbuf req jid d sk sp p (client_request strerr msgbuf req jid sk1 sp1 p)"
proof -
  obtain c sp2 where c: "f_creat (req_path jid) sp1 = (c, sp2)" by (metis surj_pair)
  show ?thesis
  proof (cases c)
    case (Some e)
    then have "client_request strerr msgbuf req jid sk1 sp1 p = (reject strerr e sk1, f_unlink (data_path jid) sp2, p)"
      using c by (simp add: client_request_def)
    moreover have "nothing_left jid sp (f_unlink (data_path jid) sp2)"
      using fr f_creat_files(2) c Some by (auto simp: nothing_left_def f_unlink_def)
    ultimately show ?thesis using refusedI [OF o] by simp
  next
    case None
    note f = f_creat_files(1) [OF c [unfolded None]]
    obtain w sp3 where wr: "f_write (req_path jid) (encode_req req) sp2 = (w, sp3)" by (metis surj_pair)
    note fw = f_write_files [OF wr] and len = decode_encode_req(2) [OF wf]
    show ?thesis
    proof (cases "w = Inr REQ_SIZE")
      case False
      then have "\<exists>e. client_request strerr msgbuf req jid sk1 sp1 p =
          (reject strerr e sk1, f_unlink (data_path jid) (f_unlink (req_path jid) sp3), p)"
        using c None wr by (cases w) (auto simp: client_request_def)
      moreover have "nothing_left jid sp (f_unlink (data_path jid) (f_unlink (req_path jid) sp3))"
        using fr f fw(1) by (auto simp: nothing_left_def f_unlink_def)
      ultimately show ?thesis using refusedI [OF o] by auto
    next
      case True
      have "client_request strerr msgbuf req jid sk1 sp1 p =
          (snd (writen (encode_resp (acceptance msgbuf jid)) sk1), sp3, add_job req jid p)"
        using c None wr True by (simp add: client_request_def Let_def acceptance_def)
      moreover have "all_stored jid req d sp sp3"
        using fw fr f d wf True len by (auto simp: all_stored_def)
      ultimately have "stored_job msgbuf req jid d sk sp p (client_request strerr msgbuf req jid sk1 sp1 p)"
        using writen_free [OF o(2)] o(1) by (auto simp: stored_job_def)
      then show ?thesis ..
    qed
  qed
qed

lemma client_data_cases:
  assumes o: "s_out sk1 = s_out sk" "s_wr sk1 = []" and wf: "wf_req req"
  shows "refused_job strerr jid sk sp p (client_data strerr buf msgbuf req jid sk1 sp p) \<or>
    stored_job msgbuf (req\<lparr>req_flags := sniffed buf (first_data (s_in sk1)) (req_flags req)\<rparr>) jid (got (s_in sk1)) sk sp p (client_data strerr buf msgbuf req jid sk1 sp p)"
proof -
  obtain c sp1 where c: "f_creat (data_path jid) sp = (c, sp1)" by (metis surj_pair)
  show ?thesis
  proof (cases c)
    case (Some e)
    then have "client_data strerr buf msgbuf req jid sk1 sp p = (reject strerr e sk1, sp1, p)"
      using c by (simp add: client_data_def)
    moreover have "nothing_left jid sp sp1" using f_creat_files(2) c Some by (simp add: nothing_left_def)
    ultimately show ?thesis using refusedI [OF o] by simp
  next
    case None
    note f = f_creat_files(1) [OF c [unfolded None]]
    obtain r sk2 sp2 where rf: "recv_file (data_path jid) True buf (req_flags req) sk1 sp1 = (r, sk2, sp2)"
      by (metis surj_pair)
    have g: "s_out sk2 = s_out sk" "s_wr sk2 = []" "\<And>q. q \<noteq> data_path jid \<Longrightarrow> files sp2 q = files sp q"
      "\<And>flags. r = Inr flags \<Longrightarrow> files sp2 (data_path jid) = Some (got (s_in sk1))"
      using recv_file_spec [OF rf, of "[]"] f o by auto
    show ?thesis
    proof (cases r)
      case (Inl e)
      then have "client_data strerr buf msgbuf req jid sk1 sp p = (reject strerr e sk2, f_unlink (data_path jid) sp2, p)"
        using c None rf by (simp add: client_data_def)
      moreover have "nothing_left jid sp (f_unlink (data_path jid) sp2)"
        using g(3) by (auto simp: nothing_left_def f_unlink_def)
      ultimately show ?thesis using refusedI [OF g(1,2)] by simp
    next
      case (Inr flags)
      then have "client_data strerr buf msgbuf req jid sk1 sp p =
          client_request strerr msgbuf (req\<lparr>req_flags := flags\<rparr>) jid sk2 sp2 p"
        using c None rf by (simp add: client_data_def)
      then show ?thesis
        using client_request_cases [OF g(1,2) _ g(3) g(4) [OF Inr], of "req\<lparr>req_flags := flags\<rparr>" strerr p msgbuf] wf
          recv_file_flags [OF rf [unfolded Inr]] by auto
    qed
  qed
qed

text \<open>The request as the daemon keeps it: the two integers in host order.\<close>

definition host_req :: "string \<Rightarrow> printreq" where
  "host_req d = (decode_req d)\<lparr>req_size := htonl (req_size (decode_req d)), req_flags := htonl (req_flags (decode_req d))\<rparr>"

text \<open>\<open>i\<close> is what arrives after the header.\<close>

definition kept_req :: "string \<Rightarrow> string \<Rightarrow> rd list \<Rightarrow> printreq" where
  "kept_req buf hdr i = (host_req hdr)\<lparr>req_flags := sniffed buf (first_data i) (req_flags (host_req hdr))\<rparr>"

lemma client_body_cases:
  assumes "s_wr sk = []"
  shows "client_body strerr buf msgbuf sk sp p = (sk', sp', p') \<Longrightarrow>
    (\<exists>p1 \<in> {p, snd (get_newjobno p)}. refused_job strerr (nextjob p) sk sp p1 (sk', sp', p')) \<or>
    (\<exists>hdr sk1. treadn REQ_SIZE sk = (Inr hdr, sk1) \<and> length hdr = REQ_SIZE \<and>
       stored_job msgbuf (kept_req buf hdr (s_in sk1)) (nextjob p) (got (s_in sk1)) sk sp (snd (get_newjobno p)) (sk', sp', p'))"
proof -
  assume b: "client_body strerr buf msgbuf sk sp p = (sk', sp', p')"
  obtain r sk1 where h: "treadn REQ_SIZE sk = (r, sk1)" by (metis surj_pair)
  have o: "s_out sk1 = s_out sk" "s_wr sk1 = []" using treadn_out [OF h] assms by simp_all
  show ?thesis
  proof (cases "\<exists>d. r = Inr d \<and> length d = REQ_SIZE")
    case False
    then have "\<exists>e. client_body strerr buf msgbuf sk sp p = (reject strerr e sk1, sp, p)"
      using h by (cases r) (auto simp: client_body_def)
    then show ?thesis using refusedI [OF o, of "nextjob p" sp sp] b by (auto simp: nothing_left_def)
  next
    case True
    then obtain d where d: "r = Inr d" "length d = REQ_SIZE" by blast
    obtain p1 where g: "get_newjobno p = (nextjob p, p1)" by (simp add: get_newjobno_def Let_def)
    have "client_body strerr buf msgbuf sk sp p = client_data strerr buf msgbuf (host_req d) (nextjob p) sk1 sp p1"
      using h d g by (simp add: client_body_def Let_def host_req_def)
    moreover have "wf_req (host_req d)" using wf_decode_req [OF d(2)] by (simp add: host_req_def)
    ultimately show ?thesis using client_data_cases [OF o, of "host_req d" strerr "nextjob p" sp p1 buf msgbuf, folded kept_req_def] b h d g by auto
  qed
qed

section \<open>A spool without errors\<close>

lemma working_spool:
  assumes "fops sp = []"
  shows "f_creat path sp = (None, sp\<lparr>files := (files sp)(path \<mapsto> [])\<rparr>)"
    "fst (f_write path d sp) = Inr (length d)" "fops (snd (f_write path d sp)) = []"
    "f_open path sp = (files sp path \<noteq> None, sp)"
    "files sp path = Some bs \<Longrightarrow> f_read path n sp = (Inr (take n bs), sp)"
  using assms by (simp_all add: f_creat_def f_write_def f_open_def f_read_def next_op_def)

lemma recv_file_working:
  assumes "recv_file path isfirst buf flags sk sp = (r, sk', sp')" "fops sp = []"
  shows "(\<exists>flags'. r = Inr flags') \<and> fops sp' = []"
  using assms
proof (induction path isfirst buf flags sk sp rule: recv_file.induct)
  case (1 path isfirst buf flags sk sp)
  obtain x sk1 where rd: "tread IOBUFSZ sk = (x, sk1)" by (metis surj_pair)
  show ?case
  proof (cases "x = Inr [] \<or> (\<exists>e. x = Inl e)")
    case True
    then show ?thesis using 1(2,3) rd by (auto simp: recv_file.simps [of path isfirst])
  next
    case False
    then obtain d where d: "x = Inr d" "d \<noteq> []" by (cases x) auto
    let ?buf = "buf_put buf d"
    let ?flags = "if isfirst \<and> take 4 ?buf \<noteq> ''%!PS'' then flags OR PR_TEXT else flags"
    obtain sp1 where wr: "f_write path d sp = (Inr (length d), sp1)" "fops sp1 = []"
      using working_spool(2,3) [OF 1(3), of path d] by (metis prod.collapse)
    have "recv_file path False ?buf ?flags sk1 sp1 = (r, sk', sp')"
      using 1(2) rd d wr by (simp add: recv_file.simps [of path isfirst] Let_def)
    from 1(1) [OF rd [symmetric] d refl refl wr(1) [symmetric] _ _ this wr(2)] show ?thesis by simp
  qed
qed

lemma client_body_working:
  assumes "fops sp = []" "treadn REQ_SIZE sk = (Inr hdr, sk1)" "length hdr = REQ_SIZE" "s_wr sk = []"
    and b: "client_body strerr buf msgbuf sk sp p = (sk', sp', p')"
  shows "stored_job msgbuf (kept_req buf hdr (s_in sk1)) (nextjob p) (got (s_in sk1)) sk sp (snd (get_newjobno p)) (sk', sp', p')"
    and "fops sp' = []"
proof -
  let ?jid = "nextjob p"
  obtain p1 where g: "get_newjobno p = (?jid, p1)" by (simp add: get_newjobno_def Let_def)
  let ?sp1 = "sp\<lparr>files := (files sp)(data_path ?jid \<mapsto> [])\<rparr>" and ?r = "host_req hdr"
  obtain r sk2 sp2 where rf: "recv_file (data_path ?jid) True buf (req_flags ?r) sk1 ?sp1 = (r, sk2, sp2)"
    by (metis surj_pair)
  obtain flags where r: "r = Inr flags" "fops sp2 = []" using recv_file_working [OF rf] assms(1) by auto
  have o: "s_out sk1 = s_out sk" "s_wr sk1 = []" "s_out sk2 = s_out sk1" "s_wr sk2 = []"
    and f2: "\<And>q. q \<noteq> data_path ?jid \<Longrightarrow> files sp2 q = files sp q" "files sp2 (data_path ?jid) = Some (got (s_in sk1))"
    using treadn_out [OF assms(2)] assms(4) recv_file_spec [OF rf, of "[]"] r by auto
  let ?sp3 = "sp2\<lparr>files := (files sp2)(req_path ?jid \<mapsto> [])\<rparr>" and ?r' = "?r\<lparr>req_flags := flags\<rparr>"
  have wf: "wf_req ?r'" using wf_decode_req [OF assms(3)] by (simp add: host_req_def)
  obtain sp4 where w: "f_write (req_path ?jid) (encode_req ?r') ?sp3 = (Inr (length (encode_req ?r')), sp4)" "fops sp4 = []"
    using working_spool(2,3) [of ?sp3 "req_path ?jid" "encode_req ?r'"] r(2) by (simp add: prod_eq_iff)
  note fw = f_write_files [OF w(1)]
  have "client_body strerr buf msgbuf sk sp p = client_data strerr buf msgbuf ?r ?jid sk1 sp p1"
    using assms(2,3) g by (simp add: client_body_def Let_def host_req_def)
  also have "\<dots> = client_request strerr msgbuf ?r' ?jid sk2 sp2 p1"
    using working_spool(1) [OF assms(1)] rf r by (simp add: client_data_def)
  also have "\<dots> = (snd (writen (encode_resp (acceptance msgbuf ?jid)) sk2), sp4, add_job ?r' ?jid p1)"
    using working_spool(1) [OF r(2)] w(1) decode_encode_req(2) [OF wf] by (simp add: client_request_def acceptance_def Let_def)
  finally have e: "sk' = snd (writen (encode_resp (acceptance msgbuf ?jid)) sk2)" "sp' = sp4" "p' = add_job ?r' ?jid p1"
    using b by simp_all
  show "fops sp' = []" using e w by simp
  have "all_stored ?jid ?r' (got (s_in sk1)) sp sp4" using wf f2 fw by (simp add: all_stored_def)
  moreover have "?r' = kept_req buf hdr (s_in sk1)" using recv_file_flags [OF rf [unfolded r(1)]] by (simp add: kept_req_def)
  ultimately show "stored_job msgbuf (kept_req buf hdr (s_in sk1)) ?jid (got (s_in sk1)) sk sp (snd (get_newjobno p)) (sk', sp', p')"
    using e g writen_free [OF o(4)] o(1,3) by (simp add: stored_job_def)
qed

section \<open>The worker of a client\<close>

lemma cleanup_one:
  assumes "dhead (workers p) = NULL" "0 < brk p" "0 < brk q"
    and "workers q = workers (add_worker t fd p)" "worker_at q = worker_at (add_worker t fd p)"
  shows "\<exists>q'. client_cleanup t q = Inr q' \<and> dhead (workers q') = NULL \<and> closed q' = closed q @ [fd] \<and>
    jobq q' = jobq q \<and> job_at q' = job_at q \<and> brk q' = brk q"
proof -
  obtain n where "brk q = Suc n" using assms(3) by (cases "brk q") auto
  then show ?thesis using assms by (simp add: client_cleanup_def add_worker_def unlink_worker_def Let_def)
qed

lemma pending_cong:
  "jobq q = jobq p \<Longrightarrow> job_at q = job_at p \<Longrightarrow> brk q = brk p \<Longrightarrow> pending q xs js \<longleftrightarrow> pending p xs js"
  by (simp add: pending_def)

lemma pending_add_worker: "pending p xs js \<Longrightarrow> pending (add_worker t fd p) xs js"
  by (auto simp: pending_def add_worker_def Let_def)

lemma get_newjobno_other [simp]:
  "jobq (snd (get_newjobno p)) = jobq p" "job_at (snd (get_newjobno p)) = job_at p" "brk (snd (get_newjobno p)) = brk p"
  "workers (snd (get_newjobno p)) = workers p" "worker_at (snd (get_newjobno p)) = worker_at p"
  "closed (snd (get_newjobno p)) = closed p"
  by (simp_all add: get_newjobno_def Let_def)

lemma add_job_other [simp]:
  "workers (add_job r j p) = workers p" "worker_at (add_job r j p) = worker_at p" "closed (add_job r j p) = closed p"
  "brk (add_job r j p) = brk p + 1"
  by (simp_all add: add_job_def Let_def)

lemma add_worker_other [simp]:
  "nextjob (add_worker t fd p) = nextjob p" "closed (add_worker t fd p) = closed p" "brk (add_worker t fd p) = brk p + 1"
  by (simp_all add: add_worker_def Let_def)

text \<open>What \<^verbatim>\<open>client_thread\<close> leaves when it has refused, and when it has accepted, a job.\<close>

definition job_refused :: "(32 word \<Rightarrow> string) \<Rightarrow> stream \<Rightarrow> spool \<Rightarrow> printd \<Rightarrow> nat list \<Rightarrow> job list \<Rightarrow> stream \<Rightarrow> spool \<Rightarrow> printd \<Rightarrow> bool" where
  "job_refused strerr sk sp p xs js sk' sp' p' \<longleftrightarrow>
     (\<exists>e. s_out sk' = s_out sk @ encode_resp (rejection strerr e)) \<and> nothing_left (nextjob p) sp sp' \<and> pending p' xs js"

definition job_accepted :: "string \<Rightarrow> printreq \<Rightarrow> string \<Rightarrow> stream \<Rightarrow> spool \<Rightarrow> printd \<Rightarrow> nat list \<Rightarrow> job list \<Rightarrow> stream \<Rightarrow> spool \<Rightarrow> printd \<Rightarrow> bool" where
  "job_accepted msgbuf req d sk sp p xs js sk' sp' p' \<longleftrightarrow>
     s_out sk' = s_out sk @ encode_resp (acceptance msgbuf (nextjob p)) \<and>
     all_stored (nextjob p) req d sp sp' \<and>
     pending p' (xs @ [brk p + 1]) (js @ [\<lparr>jobid = nextjob p, job_req = req\<rparr>])"

lemma client_thread_ends:
  assumes p: "pending p xs js" "dhead (workers p) = NULL"
    and b: "client_body strerr buf msgbuf sk sp (add_worker t fd p) = (sk', sp', p1)"
    and q: "workers p1 = workers (add_worker t fd p)" "worker_at p1 = worker_at (add_worker t fd p)" "closed p1 = closed p"
      "pending p1 xs' js'"
  shows "\<exists>p'. client_thread strerr buf msgbuf t fd sk sp p = Inr (sk', sp', p') \<and> dhead (workers p') = NULL \<and>
    closed p' = closed p @ [fd] \<and> pending p' xs' js'"
proof -
  have "0 < brk p" "0 < brk p1" using p q(4) by (simp_all add: pending_def)
  from cleanup_one [OF p(2) this q(1,2)] obtain p' where "client_cleanup t p1 = Inr p'" "dhead (workers p') = NULL"
    "closed p' = closed p @ [fd]" "pending p' xs' js'" using q(3,4) pending_cong [of _ p1] by metis
  then show ?thesis using b by (simp add: client_thread_def)
qed

lemma client_thread_cases:
  assumes s: "s_wr sk = []" and p: "pending p xs js" "dhead (workers p) = NULL"
  shows "\<exists>sk' sp' p'. client_thread strerr buf msgbuf t fd sk sp p = Inr (sk', sp', p') \<and>
    dhead (workers p') = NULL \<and> closed p' = closed p @ [fd] \<and>
    (job_refused strerr sk sp p xs js sk' sp' p' \<or>
     (\<exists>hdr sk1. treadn REQ_SIZE sk = (Inr hdr, sk1) \<and> length hdr = REQ_SIZE \<and>
        job_accepted msgbuf (kept_req buf hdr (s_in sk1)) (got (s_in sk1)) sk sp p xs js sk' sp' p'))"
proof -
  let ?p = "add_worker t fd p"
  obtain sk' sp' p1 where b: "client_body strerr buf msgbuf sk sp ?p = (sk', sp', p1)" by (metis surj_pair)
  note ends = client_thread_ends [OF p b] and pw = pending_add_worker [OF p(1), of t fd]
  have pn: "pending (snd (get_newjobno ?p)) xs js" using pw pending_cong [of "snd (get_newjobno ?p)" ?p xs js] by simp
  from client_body_cases [OF s b] show ?thesis
  proof (elim disjE bexE exE conjE)
    fix p2 assume "p2 \<in> {?p, snd (get_newjobno ?p)}" and r: "refused_job strerr (nextjob ?p) sk sp p2 (sk', sp', p1)"
    then have "p1 = ?p \<or> p1 = snd (get_newjobno ?p)" by (auto simp: refused_job_def)
    then have "workers p1 = workers ?p" "worker_at p1 = worker_at ?p" "closed p1 = closed p" "pending p1 xs js"
      using pw pn by auto
    from ends [OF this] show ?thesis using r by (fastforce simp: job_refused_def refused_job_def)
  next
    fix hdr sk1
    assume h: "treadn REQ_SIZE sk = (Inr hdr, sk1)" "length hdr = REQ_SIZE"
      and st: "stored_job msgbuf (kept_req buf hdr (s_in sk1)) (nextjob ?p) (got (s_in sk1)) sk sp (snd (get_newjobno ?p)) (sk', sp', p1)"
    then have f: "p1 = add_job (kept_req buf hdr (s_in sk1)) (nextjob p) (snd (get_newjobno ?p))"
      "s_out sk' = s_out sk @ encode_resp (acceptance msgbuf (nextjob p))"
      "all_stored (nextjob p) (kept_req buf hdr (s_in sk1)) (got (s_in sk1)) sp sp'"
      by (auto simp: stored_job_def)
    have "pending p1 (xs @ [brk p + 1]) (js @ [\<lparr>jobid = nextjob p, job_req = kept_req buf hdr (s_in sk1)\<rparr>])"
      using add_job_pending [OF pn] f(1) by simp
    from ends [OF _ _ _ this] f(1) h f(2,3) show ?thesis by (auto simp: job_accepted_def)
  qed
qed


section \<open>Stored jobs are found again\<close>

lemma atol_id:
  assumes "0 < sint (jid :: 32 word)"
  shows "word_of_int (c_atol (show_int (sint jid))) = jid" "length (show_int (sint jid)) \<le> 10"
    "show_int (sint jid) \<noteq> ''.''" "show_int (sint jid) \<noteq> ''..''"
proof -
  let ?n = "nat (sint jid)"
  have n: "int ?n = sint jid" "?n < 2 ^ 31" using assms sint_lt [of jid] by simp_all
  then have e: "show_int (sint jid) = show_nat ?n" by (metis show_int_nat)
  have "c_atol (show_nat ?n) = sint jid" using n by (simp add: c_atol_show_nat LONG_MAX_def)
  then show "word_of_int (c_atol (show_int (sint jid))) = jid" using e by simp
  show "length (show_int (sint jid)) \<le> 10" using length_show_nat_le [of ?n 10] n(2) e by simp
  have "c \<in> set (show_nat ?n) \<Longrightarrow> c_isdigit c" for c by (rule show_nat_isdigit)
  moreover have "\<not> c_isdigit (CHR ''.'')" by (simp add: c_isdigit_def)
  ultimately show "show_int (sint jid) \<noteq> ''.''" "show_int (sint jid) \<noteq> ''..''" unfolding e
    by (metis list.set_intros(1))+
qed

lemma build_step:
  assumes "fops sp = []" "0 < sint jid" "files sp (req_path jid) = Some (encode_req r)" "wf_req r"
  shows "build_qonstart (show_int (sint jid) # ents) sp p = build_qonstart ents sp (add_job r jid p)"
proof -
  note a = atol_id [OF assms(2)]
  have "length (SPOOLDIR @ ''/'' @ REQDIR @ ''/'' @ show_int (sint jid)) + 1 \<le> FILENMSZ"
    using a(2) by (simp add: SPOOLDIR_def REQDIR_def FILENMSZ_def)
  moreover have "f_open (req_path jid) sp = (True, sp)" using working_spool(4) [OF assms(1)] assms(3) by simp
  moreover have "f_read (req_path jid) REQ_SIZE sp = (Inr (encode_req r), sp)"
    using working_spool(5) [OF assms(1,3), of REQ_SIZE] decode_encode_req(2) [OF assms(4)] by simp
  ultimately show ?thesis
    using a decode_encode_req [OF assms(4)] by (simp add: req_path_def Let_def)
qed

lemma build_jobs:
  assumes "fops sp = []" "\<forall>(jid, r) \<in> set jobs. 0 < sint jid \<and> wf_req r \<and> files sp (req_path jid) = Some (encode_req r)"
    and "pending p xs js"
  shows "\<exists>p'. build_qonstart (map (\<lambda>(jid, r). show_int (sint jid)) jobs) sp p = Inr (sp, p') \<and>
    (\<exists>ys. pending p' (xs @ ys) (js @ map (\<lambda>(jid, r). \<lparr>jobid = jid, job_req = r\<rparr>) jobs))"
  using assms(2,3)
proof (induction jobs arbitrary: p xs js)
  case Nil
  then show ?case by (auto intro: exI [of _ "[]"])
next
  case (Cons j jobs)
  obtain jid r where j: "j = (jid, r)" by (metis surj_pair)
  have b: "build_qonstart (map (\<lambda>(jid, r). show_int (sint jid)) (j # jobs)) sp p =
      build_qonstart (map (\<lambda>(jid, r). show_int (sint jid)) jobs) sp (add_job r jid p)"
    using build_step [OF assms(1), of jid r] Cons.prems(1) by (simp add: j)
  have "\<forall>(jid, r) \<in> set jobs. 0 < sint jid \<and> wf_req r \<and> files sp (req_path jid) = Some (encode_req r)"
    using Cons.prems(1) by simp
  from Cons.IH [OF this add_job_pending [OF Cons.prems(2), of r jid]] show ?case
    unfolding b by (auto simp: j)
qed

lemma accepts_until:
  assumes "fops sp = []" "treadn REQ_SIZE sk = (Inr hdr, sk1)" "length hdr = REQ_SIZE" "s_wr sk = []"
    and "s_in sk1 = map RData ds @ ending # rest" "\<forall>d \<in> set ds. d \<noteq> []" "ending = RTimeout \<or> ending = RErr e \<or> ending = RData []"
    and "pending p xs js" "dhead (workers p) = NULL"
  shows "\<exists>sk' sp' p'. client_thread strerr buf msgbuf t fd sk sp p = Inr (sk', sp', p') \<and>
    job_accepted msgbuf (kept_req buf hdr (s_in sk1)) (concat ds) sk sp p xs js sk' sp' p'"
proof -
  let ?p = "add_worker t fd p"
  obtain sk' sp' p1 where b: "client_body strerr buf msgbuf sk sp ?p = (sk', sp', p1)" by (metis surj_pair)
  have "got (map RData ds @ ending # rest) = concat ds" using assms(6,7) by (induction ds) auto
  then have st: "stored_job msgbuf (kept_req buf hdr (s_in sk1)) (nextjob p) (concat ds) sk sp (snd (get_newjobno ?p)) (sk', sp', p1)"
    using client_body_working(1) [OF assms(1-4) b] assms(5) by simp
  then have f: "p1 = add_job (kept_req buf hdr (s_in sk1)) (nextjob p) (snd (get_newjobno ?p))"
    "s_out sk' = s_out sk @ encode_resp (acceptance msgbuf (nextjob p))"
    "all_stored (nextjob p) (kept_req buf hdr (s_in sk1)) (concat ds) sp sp'"
    by (auto simp: stored_job_def)
  have "pending (snd (get_newjobno ?p)) xs js"
    using pending_add_worker [OF assms(8)] pending_cong [of "snd (get_newjobno ?p)" ?p xs js] by simp
  from add_job_pending [OF this] f(1)
  have "pending p1 (xs @ [brk p + 1]) (js @ [\<lparr>jobid = nextjob p, job_req = kept_req buf hdr (s_in sk1)\<rparr>])" by simp
  from client_thread_ends [OF assms(8,9) b _ _ _ this] f show ?thesis by (auto simp: job_accepted_def)
qed

section \<open>Properties\<close>

definition ok_header :: string where
  "ok_header = replicate REQ_SIZE NUL"

definition new_spool :: spool where
  "new_spool = \<lparr>files = Map.empty, fops = []\<rparr>"

lemma start_facts:
  "dhead (workers start_printd) = NULL" "nextjob start_printd = 1" "brk start_printd = 1" "fops new_spool = []"
  by (simp_all add: start_printd_def dl_empty_def new_spool_def)

text \<open>
  C21. A job is stored entirely or not at all: whatever arrives on the socket and whichever file
  operation fails, \<^verbatim>\<open>client_thread\<close> ends with exactly one response, the socket is closed and the
  worker list empty again, and either the response reports an error, no file of the job is left
  and the queue is as before, or it carries the job number, control and data file are complete
  and the job is the last of the queue. The request that is stored is the one that was sent, with
  the flag for text added if the first read of data does not leave %!PS in the buffer. (One client at a time, see C20, and no write error on the
  socket.)
\<close>

theorem client_all_or_nothing:
  assumes "s_wr sk = []" "pending p xs js" "dhead (workers p) = NULL"
  shows "\<exists>sk' sp' p'. client_thread strerr buf msgbuf t fd sk sp p = Inr (sk', sp', p') \<and>
    dhead (workers p') = NULL \<and> closed p' = closed p @ [fd] \<and>
    (job_refused strerr sk sp p xs js sk' sp' p' \<or>
     (\<exists>hdr sk1. treadn REQ_SIZE sk = (Inr hdr, sk1) \<and> length hdr = REQ_SIZE \<and>
        job_accepted msgbuf (kept_req buf hdr (s_in sk1)) (got (s_in sk1)) sk sp p xs js sk' sp' p'))"
  by (rule client_thread_cases [OF assms])

theorem client_all_or_nothing_witness:
  "\<exists>sk' sp' p'. client_thread (\<lambda>_. ''error'') [] [] 9 4 \<lparr>s_in = [RData ''abc'', RTimeout], s_out = [], s_wr = []\<rparr> new_spool start_printd =
      Inr (sk', sp', p') \<and> closed p' = [4]"
proof -
  have "closed start_printd = []" by (simp add: start_printd_def)
  then show ?thesis
    using client_all_or_nothing [of "\<lparr>s_in = [RData ''abc'', RTimeout], s_out = [], s_wr = []\<rparr>" start_printd "[]" "[]"
        "\<lambda>_. ''error''" "[]" "[]" 9 4 new_spool] start_facts start_pending by fastforce
qed

text \<open>
  C22. What the client is promised: when no file operation fails, a complete header is enough for
  the job to be accepted. The data stored is what arrived until the client closed the
  connection, until a read failed or until nothing came for 20 seconds, and the three cases are
  not distinguished: a job cut off in the middle is announced as accepted.
  (\<^verbatim>\<open>print\<close> keeps its connection open while it waits for the answer, so for it the end of the
  file is the timeout.)
\<close>

theorem client_accepts_truncated:
  assumes "fops sp = []" "treadn REQ_SIZE sk = (Inr hdr, sk1)" "length hdr = REQ_SIZE" "s_wr sk = []"
    and "s_in sk1 = map RData ds @ ending # rest" "\<forall>d \<in> set ds. d \<noteq> []" "ending = RTimeout \<or> ending = RErr e \<or> ending = RData []"
    and "pending p xs js" "dhead (workers p) = NULL"
  shows "\<exists>sk' sp' p'. client_thread strerr buf msgbuf t fd sk sp p = Inr (sk', sp', p') \<and>
    job_accepted msgbuf (kept_req buf hdr (s_in sk1)) (concat ds) sk sp p xs js sk' sp' p'"
  by (rule accepts_until [OF assms])

theorem client_accepts_truncated_witness:
  "\<exists>sk' sp' p'. client_thread (\<lambda>_. []) [] [] 9 4 \<lparr>s_in = [RData ok_header, RData ''half of'', RTimeout, RData '' the file''], s_out = [], s_wr = []\<rparr>
      new_spool start_printd = Inr (sk', sp', p') \<and> files sp' (data_path 1) = Some ''half of''"
proof -
  let ?sk = "\<lparr>s_in = [RData ok_header, RData ''half of'', RTimeout, RData '' the file''], s_out = [], s_wr = []\<rparr>"
  have l: "length ok_header = REQ_SIZE" "0 < REQ_SIZE" "ok_header \<noteq> []" by (simp_all add: ok_header_def REQ_SIZE_def)
  have h: "treadn REQ_SIZE ?sk = (Inr ok_header, ?sk\<lparr>s_in := tl (s_in ?sk)\<rparr>)"
    using l by (simp add: treadn_def treadn_loop.simps tread_def s_read_def)
  show ?thesis
    using client_accepts_truncated [OF start_facts(4) h l(1), of "[''half of'']" RTimeout "[RData '' the file'']" 0
        start_printd "[]" "[]" "\<lambda>_. []" "[]" "[]" 9 4] start_facts start_pending
    by (auto simp: job_accepted_def all_stored_def)
qed

text \<open>
  C23. Stored jobs survive a restart: on a spool whose control files are as \<^verbatim>\<open>client_thread\<close>
  leaves them, \<^verbatim>\<open>build_qonstart\<close> puts each job of the directory into the queue, in directory
  order, with the number and the request it was stored with, and removes none.
\<close>

theorem spool_recovered:
  assumes "fops sp = []" "\<forall>(jid, r) \<in> set jobs. 0 < sint jid \<and> all_stored jid r (data jid) sp0 sp"
    and "pending p xs js"
  shows "\<exists>p' ys. build_qonstart (''.'' # ''..'' # map (\<lambda>(jid, r). show_int (sint jid)) jobs) sp p = Inr (sp, p') \<and>
    pending p' (xs @ ys) (js @ map (\<lambda>(jid, r). \<lparr>jobid = jid, job_req = r\<rparr>) jobs)"
proof -
  have "\<forall>(jid, r) \<in> set jobs. 0 < sint jid \<and> wf_req r \<and> files sp (req_path jid) = Some (encode_req r)"
    using assms(2) by (auto simp: all_stored_def)
  from build_jobs [OF assms(1) this assms(3)] show ?thesis by auto
qed

theorem spool_recovered_witness:
  "\<exists>p' ys r. build_qonstart [''.'', ''..'', ''7''] \<lparr>files = [req_path 7 \<mapsto> encode_req r, data_path 7 \<mapsto> ''x''], fops = []\<rparr> start_printd =
      Inr (\<lparr>files = [req_path 7 \<mapsto> encode_req r, data_path 7 \<mapsto> ''x''], fops = []\<rparr>, p') \<and>
    pending p' ys [\<lparr>jobid = 7, job_req = r\<rparr>]"
proof -
  define r where "r = decode_req ok_header"
  let ?sp = "\<lparr>files = [req_path 7 \<mapsto> encode_req r, data_path 7 \<mapsto> ''x''], fops = []\<rparr>"
  have "wf_req r" by (simp add: r_def ok_header_def wf_decode_req)
  then have st: "\<forall>(jid, r) \<in> set [(7, r)]. 0 < sint jid \<and> all_stored jid r ''x'' \<lparr>files = Map.empty, fops = []\<rparr> ?sp"
    by (simp add: all_stored_def)
  have "fops ?sp = []" by simp
  from spool_recovered [OF this st start_pending] obtain p' ys
    where "build_qonstart (''.'' # ''..'' # map (\<lambda>(jid, r). show_int (sint jid)) [(7 :: 32 word, r)]) ?sp start_printd = Inr (?sp, p')"
      "pending p' ([] @ ys) ([] @ map (\<lambda>(jid, r). \<lparr>jobid = jid, job_req = r\<rparr>) [(7, r)])" by blast
  moreover have "map (\<lambda>(jid, r). show_int (sint jid)) [(7 :: 32 word, r)] = [''7'']" by (simp, code_simp)
  ultimately have "build_qonstart [''.'', ''..'', ''7''] ?sp start_printd = Inr (?sp, p') \<and> pending p' ys [\<lparr>jobid = 7, job_req = r\<rparr>]"
    by (simp only: append_Nil list.map prod.case)
  then show ?thesis by blast
qed

end
