(* ===== verification/PrintStatus.thy ===== *)
theory PrintStatus
  imports PrintSpool
begin

text \<open>
  \<^verbatim>\<open>printer/printd.c\<close>, the answer of the printer: \<^verbatim>\<open>readmore\<close> and \<^verbatim>\<open>printer_status\<close>. The read
  buffer is a list of bytes with the length of the allocated block; \<open>junk\<close> gives the contents of
  memory that is allocated and not written. The pointer \<^verbatim>\<open>cp\<close> of the C code is always
  \<^verbatim>\<open>bp + i\<close>, so the model keeps only \<open>i\<close>. Reading or writing outside the block is \<open>Undef\<close>. The
  two loops whose end depends on the data get fuel.
\<close>

section \<open>Looking at a buffer\<close>

function skip_while :: "(nat \<Rightarrow> char \<Rightarrow> bool) \<Rightarrow> nat \<Rightarrow> string \<Rightarrow> nat res" where
  "skip_while P i bp =
     (if i \<ge> length bp then Inl (Undef ''read outside the buffer'')
      else if P i (bp ! i) then skip_while P (i + 1) bp else Inr i)"
  by pat_completeness auto
termination by (relation "measure (\<lambda>(P, i, bp). length bp - i)") auto

declare skip_while.simps [simp del]

definition c_tolower :: "char \<Rightarrow> char" where
  "c_tolower c = (let n = of_char c :: nat in if 65 \<le> n \<and> n \<le> 90 then char_of (n + 32) else c)"

text \<open>Comparing the bytes from \<open>i\<close> on with a pattern, up to the first difference.\<close>

fun match_at :: "(char \<Rightarrow> char) \<Rightarrow> nat \<Rightarrow> string \<Rightarrow> string \<Rightarrow> bool res" where
  "match_at f i [] bp = Inr True"
| "match_at f i (c # cs) bp =
     (if i \<ge> length bp then Inl (Undef ''read outside the buffer'')
      else if f (bp ! i) = f c then match_at f (i + 1) cs bp else Inr False)"

section \<open>readmore\<close>

text \<open>The new end of the data, \<open>None\<close> for -1.\<close>

definition readmore :: "(nat \<Rightarrow> char) \<Rightarrow> nat \<Rightarrow> string \<Rightarrow> stream \<Rightarrow> (nat option \<times> string \<times> stream) res" where
  "readmore junk off bp sk =
     (let bp = (if off \<ge> length bp then bp @ map junk [0..<IOBUFSZ] else bp) in
      if off > length bp then Inl (Undef ''readmore: offset outside the buffer'')
      else case tread (length bp - off) sk of
        (Inl e, sk) \<Rightarrow> Inr (None, bp, sk)
      | (Inr d, sk) \<Rightarrow> if d = [] then Inr (None, bp, sk)
                      else Inr (Some (off + length d), take off bp @ d @ drop (off + length d) bp, sk))"

section \<open>printer\_status\<close>

definition HTTP_INFO :: "int \<Rightarrow> bool" where "HTTP_INFO x \<longleftrightarrow> x \<ge> 100 \<and> x \<le> 199"
definition HTTP_SUCCESS :: "int \<Rightarrow> bool" where "HTTP_SUCCESS x \<longleftrightarrow> x \<ge> 200 \<and> x \<le> 299"
definition STATCLASS_OK :: "nat \<Rightarrow> bool" where "STATCLASS_OK x \<longleftrightarrow> x \<le> 255"

text \<open>The code after each search: when the end of the data is reached, read more.\<close>

definition more_if :: "bool \<Rightarrow> (nat \<Rightarrow> char) \<Rightarrow> nat \<Rightarrow> string \<Rightarrow> nat \<Rightarrow> stream \<Rightarrow> (nat option \<times> string \<times> stream) res" where
  "more_if c junk i bp datsz sk =
     (if c then bnd (readmore junk i bp sk) (\<lambda>(r, bp, sk).
        Inr (case r of None \<Rightarrow> None | Some nr \<Rightarrow> Some (datsz + nr), bp, sk))
      else Inr (Some datsz, bp, sk))"

definition CL :: string where "CL = ''Content-Length:''"

text \<open>The search for Content-Length: the position after its number, the number, the buffer.\<close>

fun find_length :: "nat \<Rightarrow> (nat \<Rightarrow> char) \<Rightarrow> nat \<Rightarrow> string \<Rightarrow> nat \<Rightarrow> stream \<Rightarrow> ((nat \<times> int \<times> string \<times> nat \<times> stream) option) res" where
  "find_length 0 junk i bp datsz sk = Inl Diverges"
| "find_length (Suc n) junk i bp datsz sk =
     bnd (skip_while (\<lambda>k c. c \<noteq> CHR ''C'' \<and> c \<noteq> CHR ''c'' \<and> k < datsz) i bp) (\<lambda>i.
     bnd (more_if (i \<ge> datsz) junk i bp datsz sk) (\<lambda>(r, bp, sk).
     case r of None \<Rightarrow> Inr None | Some datsz \<Rightarrow>
     bnd (match_at c_tolower i CL bp) (\<lambda>eq.
     if eq then
       bnd (skip_while (\<lambda>_ c. c_isspace c) (i + 15) bp) (\<lambda>contentlen.
       bnd (skip_while (\<lambda>_ c. c_isdigit c) contentlen bp) (\<lambda>e.
       let bp = bp[e := NUL] in Inr (Some (e + 1, c_atoi (cstr_at bp contentlen), bp, datsz, sk))))
     else find_length n junk (i + 1) bp datsz sk)))"

function find_hdr_end :: "nat \<Rightarrow> string \<Rightarrow> nat \<Rightarrow> (bool \<times> nat) res" where
  "find_hdr_end i bp datsz =
     (if i + 2 < datsz then
        bnd (match_at id i [NEWLINE, CR, NEWLINE] bp) (\<lambda>eq.
        if eq then Inr (True, i + 3) else find_hdr_end (i + 1) bp datsz)
      else Inr (False, i))"
  by pat_completeness auto
termination by (relation "measure (\<lambda>(i, bp, datsz). datsz - i)") auto

declare find_hdr_end.simps [simp del]

fun skip_header :: "nat \<Rightarrow> (nat \<Rightarrow> char) \<Rightarrow> nat \<Rightarrow> string \<Rightarrow> nat \<Rightarrow> stream \<Rightarrow> ((nat \<times> string \<times> nat \<times> stream) option) res" where
  "skip_header 0 junk i bp datsz sk = Inl Diverges"
| "skip_header (Suc n) junk i bp datsz sk =
     bnd (find_hdr_end i bp datsz) (\<lambda>(found, i).
     bnd (more_if (i \<ge> datsz) junk i bp datsz sk) (\<lambda>(r, bp, sk).
     case r of None \<Rightarrow> Inr None | Some datsz \<Rightarrow>
     if found then Inr (Some (i, bp, datsz, sk)) else skip_header n junk i bp datsz sk))"

text \<open>The status and the request number of the response at \<open>i\<close>.\<close>

definition ipp_verdict :: "32 word \<Rightarrow> nat \<Rightarrow> string \<Rightarrow> bool res" where
  "ipp_verdict jid i bp =
     (if length bp < i + 8 then Inl (Undef ''read outside the buffer'')
      else let st = unat (of_be16 (take 2 (drop (i + 2) bp)));
               rid = of_be32 (take 4 (drop (i + 4) bp))
           in Inr (rid = jid \<and> STATCLASS_OK st))"

text \<open>After a successful status line that ends at \<open>i\<close>.\<close>

definition ok_response :: "nat \<Rightarrow> (nat \<Rightarrow> char) \<Rightarrow> 32 word \<Rightarrow> nat \<Rightarrow> string \<Rightarrow> nat \<Rightarrow> stream \<Rightarrow> (bool \<times> stream) res" where
  "ok_response n junk jid i bp datsz sk =
     bnd (find_length n junk i bp datsz sk) (\<lambda>r. case r of None \<Rightarrow> Inr (False, sk) | Some (i, len, bp, datsz, sk) \<Rightarrow>
     bnd (more_if (i \<ge> datsz) junk i bp datsz sk) (\<lambda>(r, bp, sk). case r of None \<Rightarrow> Inr (False, sk) | Some datsz \<Rightarrow>
     bnd (skip_header n junk i bp datsz sk) (\<lambda>r. case r of None \<Rightarrow> Inr (False, sk) | Some (i, bp, datsz, sk) \<Rightarrow>
     bnd (more_if (int datsz - int i < len) junk i bp datsz sk) (\<lambda>(r, bp, sk). case r of None \<Rightarrow> Inr (False, sk) | Some datsz \<Rightarrow>
     bnd (ipp_verdict jid i bp) (\<lambda>ok. Inr (ok, sk))))))"

lemma tread_shorter:
  "(Inr d, t) = tread n s \<Longrightarrow> d \<noteq> [] \<Longrightarrow> length (arriving (s_in t)) < length (arriving (s_in s))"
  using tread_conserves(1) [of n s d t] by simp

function status_loop :: "nat \<Rightarrow> (nat \<Rightarrow> char) \<Rightarrow> 32 word \<Rightarrow> string \<Rightarrow> stream \<Rightarrow> (bool \<times> stream) res" where
  "status_loop n junk jid bp sk =
     (case tread (length bp) sk of
        (Inl e, sk) \<Rightarrow> Inr (False, sk)
      | (Inr d, sk) \<Rightarrow>
        if d = [] then Inr (False, sk)
        else let bp = buf_put bp d; datsz = length d in
        bnd (skip_while (\<lambda>_ c. c_isspace c) 8 bp) (\<lambda>statcode.
        bnd (skip_while (\<lambda>_ c. c_isdigit c) statcode bp) (\<lambda>cp.
        if cp = statcode then status_loop n junk jid bp sk
        else let bp = bp[cp := NUL] in
          bnd (skip_while (\<lambda>_ c. c \<noteq> CR \<and> c \<noteq> NEWLINE) (cp + 1) bp) (\<lambda>i.
          let bp = bp[i := NUL]; code = c_atoi (cstr_at bp statcode) in
          if HTTP_INFO code then status_loop n junk jid bp sk
          else if \<not> HTTP_SUCCESS code
          then (if datsz \<ge> length bp then Inl (Undef ''write outside the buffer'') else Inr (False, sk))
          else ok_response n junk jid i bp datsz sk))))"
  by pat_completeness auto
termination
  by (relation "measure (\<lambda>(n, junk, jid, bp, sk). length (arriving (s_in sk)))") (auto simp: tread_shorter)

declare status_loop.simps [simp del]

definition printer_status :: "nat \<Rightarrow> (nat \<Rightarrow> char) \<Rightarrow> 32 word \<Rightarrow> stream \<Rightarrow> (bool \<times> stream) res" where
  "printer_status n junk jid sk = status_loop n junk jid (map junk [0..<IOBUFSZ]) sk"

section \<open>Facts\<close>

lemma length_CL [simp]: "length CL = 15"
  by (simp add: CL_def)


lemma skip_while_to:
  assumes "\<And>k. i \<le> k \<Longrightarrow> k < j \<Longrightarrow> P k (bp ! k)" "\<not> P j (bp ! j)" "i \<le> j" "j < length bp"
  shows "skip_while P i bp = Inr j"
  using assms
proof (induction "j - i" arbitrary: i)
  case 0
  then show ?case by (simp add: skip_while.simps [of P i])
next
  case (Suc d)
  then have "P i (bp ! i)" "i < length bp" by auto
  moreover have "skip_while P (i + 1) bp = Inr j" using Suc by (intro Suc.hyps(1)) auto
  ultimately show ?case by (simp add: skip_while.simps [of P i])
qed

lemma skip_while_list:
  assumes "\<And>c. c \<in> set ys \<Longrightarrow> P c" "\<not> P c" "i = length xs"
  shows "skip_while (\<lambda>_. P) i (xs @ ys @ c # zs) = Inr (i + length ys)"
proof (rule skip_while_to)
  fix k assume "i \<le> k" "k < i + length ys"
  then show "P ((xs @ ys @ c # zs) ! k)" using assms by (simp add: nth_append)
qed (use assms in \<open>simp_all add: nth_append\<close>)

lemma match_at_take:
  "i + length pat \<le> length bp \<Longrightarrow> match_at f i pat bp = Inr (map f (take (length pat) (drop i bp)) = map f pat)"
proof (induction pat arbitrary: i)
  case (Cons c cs)
  then have "drop i bp = bp ! i # drop (Suc i) bp" by (simp add: Cons_nth_drop_Suc)
  then show ?case using Cons by auto
qed simp

definition cl_at :: "nat \<Rightarrow> string \<Rightarrow> bool" where
  "cl_at k bp \<longleftrightarrow> map c_tolower (take 15 (drop k bp)) = map c_tolower CL"

lemma tolower_c: "c_tolower x = CHR ''c'' \<Longrightarrow> x = CHR ''C'' \<or> x = CHR ''c''"
proof -
  assume a: "c_tolower x = CHR ''c''"
  have c: "(of_char (CHR ''c'') :: nat) = 99" "(of_char (CHR ''C'') :: nat) = 67" by simp_all
  show ?thesis
  proof (cases "65 \<le> (of_char x :: nat) \<and> (of_char x :: nat) \<le> 90")
    case True
    then have "(of_char (char_of (of_char x + 32 :: nat) :: char) :: nat) = of_char (CHR ''c'')"
      using a by (simp add: c_tolower_def Let_def)
    then have "(of_char x :: nat) = of_char (CHR ''C'')" using True c by simp
    then show ?thesis using of_char_eq_iff by blast
  next
    case False
    then show ?thesis using a by (auto simp: c_tolower_def Let_def)
  qed
qed

lemma cl_starts:
  assumes "cl_at k bp" "k < length bp"
  shows "bp ! k = CHR ''C'' \<or> bp ! k = CHR ''c''"
proof -
  have "drop k bp = bp ! k # drop (Suc k) bp" using assms(2) by (simp add: Cons_nth_drop_Suc)
  then have "c_tolower (bp ! k) = c_tolower (CHR ''C'')" using assms(1) by (simp add: cl_at_def CL_def)
  moreover have "c_tolower (CHR ''C'') = CHR ''c''" by code_simp
  ultimately show ?thesis using tolower_c by simp
qed

lemma find_length_step:
  assumes "i \<le> j" "cl_at j bp" "j + 15 \<le> length bp" "j < datsz" "\<And>k. i \<le> k \<Longrightarrow> k < j \<Longrightarrow> \<not> cl_at k bp" "j - i < n"
  shows "find_length n junk i bp datsz sk = find_length 1 junk j bp datsz sk"
  using assms
proof (induction n arbitrary: i)
  case (Suc n)
  define P where "P = (\<lambda>k c. c \<noteq> CHR ''C'' \<and> c \<noteq> CHR ''c'' \<and> k < datsz)"
  have "\<not> P j (bp ! j)" using cl_starts [OF Suc.prems(2)] Suc.prems(3) by (auto simp: P_def)
  then obtain m where m: "i \<le> m" "m \<le> j" "\<not> P m (bp ! m)" "\<And>k. i \<le> k \<Longrightarrow> k < m \<Longrightarrow> P k (bp ! k)"
    using Suc.prems(1) LeastI [of "\<lambda>m. i \<le> m \<and> \<not> P m (bp ! m)" j] Least_le [of "\<lambda>m. i \<le> m \<and> \<not> P m (bp ! m)" j]
      not_less_Least [of _ "\<lambda>m. i \<le> m \<and> \<not> P m (bp ! m)"] that by blast
  have sm: "skip_while P i bp = Inr m" "skip_while P j bp = Inr j"
    using m Suc.prems(3) \<open>\<not> P j (bp ! j)\<close> by (auto intro!: skip_while_to)
  have mm: "match_at c_tolower m CL bp = Inr (cl_at m bp)" "match_at c_tolower j CL bp = Inr (cl_at j bp)"
    using match_at_take [of m CL bp c_tolower] match_at_take [of j CL bp c_tolower] m Suc.prems(3) by (simp_all add: cl_at_def)
  show ?case
  proof (cases "m = j")
    case True
    then show ?thesis using sm mm Suc.prems by (simp add: P_def [symmetric] more_if_def)
  next
    case False
    then have nm: "\<not> cl_at m bp" "m < datsz" "m + 1 \<le> j" using m Suc.prems(4,5) by auto
    have "find_length (Suc n) junk i bp datsz sk = find_length n junk (m + 1) bp datsz sk"
      using sm(1) mm(1) nm by (simp add: P_def [symmetric] more_if_def)
    also have "\<dots> = find_length 1 junk j bp datsz sk"
      using Suc.prems nm m by (intro Suc.IH) auto
    finally show ?thesis .
  qed
qed simp

lemma char_class [simp]:
  "c_isdigit c \<Longrightarrow> \<not> c_isspace c" "\<not> c_isdigit SPACE" "\<not> c_isdigit CR"
  by (auto simp: c_isdigit_def c_isspace_def)

lemma find_length_number:
  assumes "cl_at j bp" "j < datsz" "bp = xs @ SPACE # show_nat len @ CR # zs" "length xs = j + 15" "int len < 2 ^ 31"
  shows "find_length 1 junk j bp datsz sk =
    Inr (Some (j + 17 + length (show_nat len), int len, xs @ SPACE # show_nat len @ NUL # zs, datsz, sk))"
proof -
  obtain c ds where sn: "show_nat len = c # ds" using show_nat_not_Nil by (cases "show_nat len") auto
  have dg: "\<And>x. x \<in> set (show_nat len) \<Longrightarrow> c_isdigit x" by (rule show_nat_isdigit)
  then have cd: "c_isdigit c" using sn by simp
  have "skip_while (\<lambda>k c. c \<noteq> CHR ''C'' \<and> c \<noteq> CHR ''c'' \<and> k < datsz) j bp = Inr j"
    using cl_starts [OF assms(1)] assms(3,4) by (intro skip_while_to) auto
  moreover have "match_at c_tolower j CL bp = Inr True"
    using match_at_take [of j CL bp c_tolower] assms(1,3,4) by (simp add: cl_at_def)
  moreover have "skip_while (\<lambda>_. c_isspace) (j + 15) bp = Inr (j + 16)"
    using skip_while_list [of "[SPACE]" c_isspace c "j + 15" xs "ds @ CR # zs"] cd assms(3,4) sn by simp
  moreover have "skip_while (\<lambda>_. c_isdigit) (j + 16) bp = Inr (j + 16 + length (show_nat len))"
    using skip_while_list [of "show_nat len" c_isdigit CR "j + 16" "xs @ [SPACE]" zs] dg assms(3,4) by simp
  moreover have "bp[j + 16 + length (show_nat len) := NUL] = xs @ SPACE # show_nat len @ NUL # zs"
    using assms(3,4) by (simp add: list_update_append)
  moreover have "c_atoi (cstr_at (xs @ SPACE # show_nat len @ NUL # zs) (j + 16)) = int len"
    using cstr_at_append [of "j + 16" "xs @ [SPACE]" "show_nat len" zs] show_nat_no_sep(2) [of len] assms(4,5)
      c_atoi_padl [of len 0] by simp
  ultimately show ?thesis using assms(2) by (simp add: more_if_def Let_def)
qed

section \<open>A response\<close>

text \<open>The start of a response, up to and with the CR after the length.\<close>

definition http_start :: "string \<Rightarrow> nat \<Rightarrow> string \<Rightarrow> string \<Rightarrow> string \<Rightarrow> nat \<Rightarrow> string" where
  "http_start ver code reason h cl len =
     ver @ SPACE # show_nat code @ SPACE # reason @ CR # h @ cl @ SPACE # show_nat len @ [CR]"

text \<open>Apart from the class of the code it is well formed; a good one reports success.\<close>

definition good_head :: "string \<Rightarrow> nat \<Rightarrow> string \<Rightarrow> string \<Rightarrow> string \<Rightarrow> nat \<Rightarrow> bool" where
  "good_head ver code reason h cl len \<longleftrightarrow>
     length ver = 8 \<and> code \<le> 999 \<and> CR \<notin> set reason \<and> NEWLINE \<notin> set reason \<and>
     map c_tolower cl = map c_tolower CL \<and> (\<forall>k < length h. \<not> cl_at k (h @ cl)) \<and> int len < 2 ^ 31"

definition good_start :: "string \<Rightarrow> nat \<Rightarrow> string \<Rightarrow> string \<Rightarrow> string \<Rightarrow> nat \<Rightarrow> bool" where
  "good_start ver code reason h cl len \<longleftrightarrow>
     length ver = 8 \<and> 200 \<le> code \<and> code \<le> 299 \<and> CR \<notin> set reason \<and> NEWLINE \<notin> set reason \<and>
     map c_tolower cl = map c_tolower CL \<and> (\<forall>k < length h. \<not> cl_at k (h @ cl)) \<and> int len < 2 ^ 31"

lemma good_startI: "good_head ver code reason h cl len \<Longrightarrow> 200 \<le> code \<Longrightarrow> code \<le> 299 \<Longrightarrow> good_start ver code reason h cl len"
  by (simp add: good_head_def good_start_def)

text \<open>The same with the three null bytes that the parser writes.\<close>

definition cut_start :: "string \<Rightarrow> nat \<Rightarrow> string \<Rightarrow> string \<Rightarrow> string \<Rightarrow> nat \<Rightarrow> string" where
  "cut_start ver code reason h cl len =
     ver @ SPACE # show_nat code @ NUL # reason @ NUL # h @ cl @ SPACE # show_nat len @ [NUL]"

lemma length_cut_start: "length (cut_start ver code reason h cl len) = length (http_start ver code reason h cl len)"
  by (simp add: cut_start_def http_start_def)

lemma cl_at_local:
  assumes "length cl = 15" "k < length h"
  shows "cl_at (length xs + k) (xs @ h @ cl @ ys) = cl_at k (h @ cl)"
  using assms by (simp add: cl_at_def)

lemma find_length_start:
  assumes g: "good_start ver code reason h cl len"
    and bp: "bp = ver @ SPACE # show_nat code @ NUL # reason @ NUL # h @ cl @ SPACE # show_nat len @ CR # zs"
    and i: "i = 10 + length (show_nat code) + length reason"
    and ds: "length (http_start ver code reason h cl len) \<le> datsz" "length h + 1 < n"
  shows "find_length n junk i bp datsz sk = Inr (Some (length (http_start ver code reason h cl len), int len,
      cut_start ver code reason h cl len @ zs, datsz, sk))"
proof -
  define xs where "xs = ver @ SPACE # show_nat code @ NUL # reason @ [NUL]"
  define j where "j = i + 1 + length h"
  have cl: "length cl = 15" using g unfolding good_start_def by (metis length_CL length_map)
  have lx: "length xs = i + 1" using g i by (simp add: xs_def good_start_def)
  have b: "bp = xs @ h @ cl @ SPACE # show_nat len @ CR # zs" by (simp add: bp xs_def)
  have at: "cl_at j bp" using g cl lx by (simp add: b j_def cl_at_def good_start_def)
  have "\<not> cl_at k bp" if "i \<le> k" "k < j" for k
  proof (cases "k = i")
    case True
    then have "bp ! k = NUL" using lx by (simp add: b xs_def nth_append i)
    then show ?thesis using cl_starts [of k bp] lx by (auto simp: b True)
  next
    case False
    then have "\<not> cl_at (k - (i + 1)) (h @ cl)" using g that by (simp add: good_start_def j_def)
    then show ?thesis using cl_at_local [OF cl, of "k - (i + 1)" h xs] that False lx by (simp add: b j_def)
  qed
  moreover have "j < datsz" "j + 15 \<le> length bp" using ds lx cl g i by (simp_all add: b j_def http_start_def good_start_def)
  ultimately have "find_length n junk i bp datsz sk = find_length 1 junk j bp datsz sk"
    using at ds(2) by (intro find_length_step) (auto simp: j_def)
  also have "\<dots> = Inr (Some (j + 17 + length (show_nat len), int len, (xs @ h @ cl) @ SPACE # show_nat len @ NUL # zs, datsz, sk))"
    using g cl lx \<open>j < datsz\<close> by (intro find_length_number [OF at]) (simp_all add: b j_def good_start_def)
  finally show ?thesis using g i cl by (simp add: j_def xs_def cut_start_def http_start_def good_start_def)
qed

text \<open>The status line; the rest of the data is \<open>x\<close>.\<close>

definition status_line :: "string \<Rightarrow> nat \<Rightarrow> string \<Rightarrow> string" where
  "status_line ver code reason = ver @ SPACE # show_nat code @ SPACE # reason @ [CR]"

lemma status_line_parsed:
  assumes g: "length ver = 8" "CR \<notin> set reason" "NEWLINE \<notin> set reason" "int code < 2 ^ 31"
    and rd: "tread (length bp) sk = (Inr (status_line ver code reason @ x), sk1)"
  defines "datsz \<equiv> length (status_line ver code reason @ x)"
    and "bp' \<equiv> ver @ SPACE # show_nat code @ NUL # reason @ NUL # x @ drop (length (status_line ver code reason @ x)) bp"
  shows "status_loop n junk jid bp sk =
    (if HTTP_INFO (int code) then status_loop n junk jid bp' sk1
     else if \<not> HTTP_SUCCESS (int code)
     then (if datsz \<ge> length bp' then Inl (Undef ''write outside the buffer'') else Inr (False, sk1))
     else ok_response n junk jid (10 + length (show_nat code) + length reason) bp' datsz sk1)"
proof -
  define d where "d = status_line ver code reason @ x"
  define rest where "rest = x @ drop (length d) bp"
  let ?c = "show_nat code"
  obtain c cs where sn: "?c = c # cs" using show_nat_not_Nil by (cases ?c) auto
  have dg: "\<And>x. x \<in> set ?c \<Longrightarrow> c_isdigit x" by (rule show_nat_isdigit)
  have rs: "\<And>x. x \<in> set reason \<Longrightarrow> x \<noteq> CR \<and> x \<noteq> NEWLINE" using g(2,3) by auto
  have bp1: "buf_put bp d = ver @ SPACE # ?c @ SPACE # reason @ CR # rest"
    by (simp add: buf_put_def d_def status_line_def rest_def)
  have s1: "skip_while (\<lambda>_ c. c_isspace c) 8 (buf_put bp d) = Inr 9"
    using skip_while_list [of "[SPACE]" c_isspace c 8 ver] g(1) dg [of c] sn unfolding bp1 by simp
  have s2: "skip_while (\<lambda>_ c. c_isdigit c) 9 (buf_put bp d) = Inr (9 + length ?c)"
    using skip_while_list [of ?c c_isdigit SPACE 9 "ver @ [SPACE]"] g(1) dg unfolding bp1 by simp
  let ?bp2 = "ver @ SPACE # ?c @ NUL # reason @ CR # rest" and ?bp3 = "ver @ SPACE # ?c @ NUL # reason @ NUL # rest"
  have u: "(buf_put bp d)[9 + length ?c := NUL] = ?bp2" unfolding bp1 using g(1) by (simp add: list_update_append)
  have s3: "skip_while (\<lambda>_ c. c \<noteq> CR \<and> c \<noteq> NEWLINE) (10 + length ?c) ?bp2 = Inr (10 + length ?c + length reason)"
    using skip_while_list [of reason "\<lambda>c. c \<noteq> CR \<and> c \<noteq> NEWLINE" CR "10 + length ?c" "ver @ SPACE # ?c @ [NUL]" rest, OF rs]
      g(1) by simp
  have u2: "?bp2[10 + length ?c + length reason := NUL] = ?bp3" using g(1) by (simp add: list_update_append)
  have code: "c_atoi (cstr_at ?bp3 9) = int code"
    using cstr_at_append [of 9 "ver @ [SPACE]" ?c] show_nat_no_sep(2) [of code] g c_atoi_padl [of code 0] by simp
  have r: "bp' = ?bp3" by (simp add: bp'_def rest_def d_def)
  have ds: "datsz = length d" by (simp add: datsz_def d_def)
  have "d \<noteq> []" "tread (length bp) sk = (Inr d, sk1)" using rd by (auto simp: d_def status_line_def)
  then show ?thesis using s1 s2 s3 u u2 code unfolding r ds by (simp add: status_loop.simps [of n junk jid bp] Let_def)
qed

lemma status_start:
  assumes g: "good_start ver code reason h cl len" "length h + 1 < n"
    and rd: "tread (length bp) sk = (Inr (http_start ver code reason h cl len @ x), sk1)"
  defines "i \<equiv> length (http_start ver code reason h cl len)"
  defines "datsz \<equiv> i + length x" and "bp' \<equiv> cut_start ver code reason h cl len @ x @ drop (i + length x) bp"
  shows "status_loop n junk jid bp sk =
     bnd (more_if (i \<ge> datsz) junk i bp' datsz sk1) (\<lambda>(r, bp, sk). case r of None \<Rightarrow> Inr (False, sk) | Some datsz \<Rightarrow>
     bnd (skip_header n junk i bp datsz sk) (\<lambda>r. case r of None \<Rightarrow> Inr (False, sk) | Some (i, bp, datsz, sk) \<Rightarrow>
     bnd (more_if (int datsz - int i < int len) junk i bp datsz sk) (\<lambda>(r, bp, sk). case r of None \<Rightarrow> Inr (False, sk) | Some datsz \<Rightarrow>
     bnd (ipp_verdict jid i bp) (\<lambda>ok. Inr (ok, sk)))))"
proof -
  have g': "length ver = 8" "CR \<notin> set reason" "NEWLINE \<notin> set reason" "int code < 2 ^ 31"
    "\<not> HTTP_INFO (int code)" "HTTP_SUCCESS (int code)"
    using g by (simp_all add: good_start_def HTTP_INFO_def HTTP_SUCCESS_def)
  have e: "http_start ver code reason h cl len @ x = status_line ver code reason @ h @ cl @ SPACE # show_nat len @ CR # x"
    by (simp add: http_start_def status_line_def)
  have ds: "length (status_line ver code reason @ h @ cl @ SPACE # show_nat len @ CR # x) = datsz"
    unfolding e [symmetric] by (simp add: datsz_def i_def)
  note line = status_line_parsed [OF g'(1-4) rd [unfolded e], of n junk jid, unfolded ds]
  have "find_length n junk (10 + length (show_nat code) + length reason)
      (ver @ SPACE # show_nat code @ NUL # reason @ NUL # h @ cl @ SPACE # show_nat len @ CR # x @ drop datsz bp) datsz sk1 =
      Inr (Some (i, int len, bp', datsz, sk1))"
    using find_length_start [OF g(1) refl refl _ g(2), where zs = "x @ drop datsz bp" and datsz = datsz and junk = junk and sk = sk1]
    by (simp add: i_def bp'_def datsz_def)
  then show ?thesis using line g'(5,6) by (simp add: ok_response_def)
qed

definition end_at :: "nat \<Rightarrow> string \<Rightarrow> bool" where
  "end_at k bp \<longleftrightarrow> take 3 (drop k bp) = [NEWLINE, CR, NEWLINE]"

lemma find_end_step:
  "i + 2 < datsz \<Longrightarrow> i + 3 \<le> length bp \<Longrightarrow> find_hdr_end i bp datsz = (if end_at i bp then Inr (True, i + 3) else find_hdr_end (i + 1) bp datsz)"
  using match_at_take [of i "[NEWLINE, CR, NEWLINE]" bp id]
  by (simp add: find_hdr_end.simps [of i] end_at_def numeral_3_eq_3)

lemma find_end_found:
  assumes "i \<le> j" "j + 3 \<le> datsz" "j + 3 \<le> length bp" "end_at j bp" "\<And>k. i \<le> k \<Longrightarrow> k < j \<Longrightarrow> \<not> end_at k bp"
  shows "find_hdr_end i bp datsz = Inr (True, j + 3)"
  using assms
proof (induction "j - i" arbitrary: i)
  case 0
  then show ?case by (simp add: find_end_step)
next
  case (Suc d)
  then have "find_hdr_end (i + 1) bp datsz = Inr (True, j + 3)" by (intro Suc.hyps(1)) auto
  then show ?case using Suc.prems Suc.hyps(2) by (simp add: find_end_step)
qed

lemma find_end_none:
  assumes "datsz \<le> length bp" "\<And>k. i \<le> k \<Longrightarrow> k + 3 \<le> datsz \<Longrightarrow> \<not> end_at k bp"
  shows "find_hdr_end i bp datsz = Inr (False, max i (datsz - 2))"
  using assms
proof (induction "datsz - i" arbitrary: i)
  case 0
  then have "max i (datsz - 2) = i" by linarith
  then show ?case using 0 by (simp add: find_hdr_end.simps [of i])
next
  case (Suc d)
  show ?case
  proof (cases "i + 2 < datsz")
    case True
    have "find_hdr_end (i + 1) bp datsz = Inr (False, max (i + 1) (datsz - 2))"
      using Suc.hyps(2) Suc.prems by (intro Suc.hyps(1)) auto
    moreover have "max (i + 1) (datsz - 2) = max i (datsz - 2)" "\<not> end_at i bp" using True Suc.prems(2) [of i] by simp_all
    ultimately show ?thesis using find_end_step [OF True, of bp] True Suc.prems(1) by simp
  next
    case False
    then have "max i (datsz - 2) = i" by linarith
    then show ?thesis using False by (simp add: find_hdr_end.simps [of i])
  qed
qed

lemma skip_header_stuck:
  assumes "datsz \<le> length bp" "i < datsz" "\<And>k. i \<le> k \<Longrightarrow> k + 3 \<le> datsz \<Longrightarrow> \<not> end_at k bp"
  shows "skip_header n junk i bp datsz sk = Inl Diverges"
  using assms
proof (induction n arbitrary: i)
  case (Suc n)
  have "skip_header n junk (max i (datsz - 2)) bp datsz sk = Inl Diverges"
    using Suc.prems by (intro Suc.IH) auto
  moreover have "\<not> datsz \<le> max i (datsz - 2)" using Suc.prems(2) by simp
  ultimately show ?case using find_end_none [OF Suc.prems(1), of i] Suc.prems(3) by (simp add: more_if_def)
qed simp

lemma tread_data:
  "s_in sk = RData d # rest \<Longrightarrow> length d \<le> n \<Longrightarrow> tread n sk = (Inr d, sk\<lparr>s_in := rest\<rparr>)"
  by (simp add: tread_def s_read_def)

lemma end_at_local: "k < length h \<Longrightarrow> end_at (length xs + k) (xs @ h @ NEWLINE # CR # NEWLINE # ys) = end_at k (h @ [NEWLINE, CR, NEWLINE])"
proof -
  assume "k < length h"
  then have "3 + k - length h \<le> 3" by simp
  then have "take (3 + k - length h) (NEWLINE # CR # NEWLINE # ys) = take (3 + k - length h) [NEWLINE, CR, NEWLINE]"
    using take_append [of "3 + k - length h" "[NEWLINE, CR, NEWLINE]" ys] by simp
  then show ?thesis using \<open>k < length h\<close> by (simp add: end_at_def)
qed

text \<open>The header up to and with its end.\<close>

definition response_head :: "string \<Rightarrow> nat \<Rightarrow> string \<Rightarrow> string \<Rightarrow> string \<Rightarrow> nat \<Rightarrow> string \<Rightarrow> string" where
  "response_head ver code reason h cl len h2 = http_start ver code reason h cl len @ h2 @ [NEWLINE, CR, NEWLINE]"

definition one_end :: "string \<Rightarrow> bool" where
  "one_end h2 \<longleftrightarrow> (\<forall>k < length h2. \<not> end_at k (h2 @ [NEWLINE, CR, NEWLINE]))"

lemma find_end_header:
  assumes "one_end h2" "drop i bp = h2 @ [NEWLINE, CR, NEWLINE] @ y" "i + length h2 + 3 \<le> datsz"
  shows "find_hdr_end i bp datsz = Inr (True, i + length h2 + 3)"
proof -
  have "i < length bp" using arg_cong [OF assms(2), of length] by simp
  then obtain xs where b: "bp = xs @ h2 @ NEWLINE # CR # NEWLINE # y" "length xs = i"
    using append_take_drop_id [of i bp] assms(2) by (metis append_Cons append_Nil length_take less_imp_le min.absorb2)
  show ?thesis
  proof (rule find_end_found)
    show "end_at (i + length h2) bp" by (subst b(1)) (simp add: end_at_def b(2) numeral_3_eq_3)
    show "i + length h2 + 3 \<le> length bp" by (subst b(1)) (simp add: b(2))
    fix k assume k: "i \<le> k" "k < i + length h2"
    then have "end_at k bp = end_at (k - i) (h2 @ [NEWLINE, CR, NEWLINE])"
      using end_at_local [of "k - i" h2 xs y] b by simp
    then show "\<not> end_at k bp" using k assms(1) by (simp add: one_end_def)
  qed (use assms in simp_all)
qed

lemma verdict_at:
  assumes "drop i bp = y" "i \<le> length bp" "8 \<le> length y"
  shows "ipp_verdict jid i bp = Inr (of_be32 (take 4 (drop 4 y)) = jid \<and> unat (of_be16 (take 2 (drop 2 y))) \<le> 255)"
proof -
  have "drop (i + m) bp = drop m y" for m using drop_drop [of m i bp] assms(1) by (simp add: add.commute)
  from this [of 2] this [of 4] have "drop (i + 2) bp = drop 2 y" "drop (i + 4) bp = drop 4 y" .
  moreover have "i + 8 \<le> length bp" using assms by auto
  ultimately show ?thesis by (simp only: ipp_verdict_def STATCLASS_OK_def Let_def) simp
qed

lemma verdict_body:
  assumes "drop i bp = body @ y" "i \<le> length bp" "body = v @ be16 st @ be32 rid @ attrs" "length v = 2"
  shows "ipp_verdict jid i bp = Inr (rid = jid \<and> unat st \<le> 255)"
  using verdict_at [OF assms(1,2), of jid] assms(3,4) by simp

lemma overlay: "length xs = i \<Longrightarrow> take i (xs @ ys) @ d @ drop (i + length d) (xs @ ys) = xs @ d @ drop (length d) ys"
  by simp

text \<open>What is read by \<^verbatim>\<open>readmore\<close> goes to \<open>i\<close>; the count of the data becomes too large.\<close>

lemma more_at:
  assumes "s_in sk = RData d # rest" "d \<noteq> []" "i + length d \<le> length bp"
  shows "more_if True junk i bp datsz sk =
    Inr (Some (datsz + (i + length d)), take i bp @ d @ drop (i + length d) bp, sk\<lparr>s_in := rest\<rparr>)"
proof -
  have "tread (length bp - i) sk = (Inr d, sk\<lparr>s_in := rest\<rparr>)" using assms by (intro tread_data) auto
  moreover have "\<not> length bp \<le> i" using assms(2,3) by (cases d) auto
  ultimately show ?thesis using assms(2) by (simp add: more_if_def readmore_def Let_def)
qed

text \<open>
  A response in one read, and in two reads with the cut after the Content-Length, at the end of the
  header, and in the body; in the last case the second part of the body overwrites the first.
\<close>

lemma body_long: "body = v @ be16 st @ be32 rid @ attrs \<Longrightarrow> length v = 2 \<Longrightarrow> 8 \<le> length body \<and> body \<noteq> []"
  by auto

lemma loop_one_read:
  assumes start: "good_start ver code reason h cl len" and n: "length h + 1 < n"
    and h2: "one_end h2" and body: "body = v @ be16 st @ be32 rid @ attrs" "length v = 2" "length body = len"
    and b: "length b = IOBUFSZ" and room: "length (response_head ver code reason h cl len h2 @ body) \<le> IOBUFSZ"
    and rs: "s_in sk = RData (response_head ver code reason h cl len h2 @ body) # rest"
  shows "status_loop n junk jid b sk = Inr (rid = jid \<and> unat st \<le> 255, sk\<lparr>s_in := rest\<rparr>)"
proof -
  let ?s = "http_start ver code reason h cl len" and ?x = "h2 @ [NEWLINE, CR, NEWLINE] @ body"
  let ?cs = "cut_start ver code reason h cl len"
  define bp where "bp = ?cs @ ?x @ drop (length ?s + length ?x) b"
  let ?i = "length ?s" and ?d = "length ?s + length ?x" and ?j = "length ?s + length h2"
  have lc: "length ?cs = ?i" by (rule length_cut_start)
  have rd: "tread (length b) sk = (Inr (?s @ ?x), sk\<lparr>s_in := rest\<rparr>)"
    using tread_data [OF rs] room b by (simp add: response_head_def)
  have fe: "find_hdr_end ?i bp ?d = Inr (True, ?j + 3)"
    using find_end_header [OF h2, of ?i bp "body @ drop ?d b" ?d] lc by (simp add: bp_def)
  obtain m where m: "n = Suc m" using n by (cases n) auto
  have sh: "skip_header n junk ?i bp ?d (sk\<lparr>s_in := rest\<rparr>) = Inr (Some (?j + 3, bp, ?d, sk\<lparr>s_in := rest\<rparr>))"
    using fe body_long [OF body(1,2)] by (simp add: m more_if_def)
  have iv: "ipp_verdict jid (?j + 3) bp = Inr (rid = jid \<and> unat st \<le> 255)"
    by (rule verdict_body [OF _ _ body(1,2), where y = "drop ?d b"]) (simp_all add: bp_def lc)
  show ?thesis
    unfolding status_start [OF start n rd] bp_def [symmetric]
    using sh iv body(3) by (simp add: more_if_def)
qed

lemma loop_cut_length:
  assumes start: "good_start ver code reason h cl len" and n: "length h + 1 < n"
    and h2: "one_end h2" and body: "body = v @ be16 st @ be32 rid @ attrs" "length v = 2" "length body = len"
    and b: "length b = IOBUFSZ" and room: "length (response_head ver code reason h cl len h2 @ body) \<le> IOBUFSZ"
    and rs: "s_in sk = RData (http_start ver code reason h cl len) # RData (h2 @ [NEWLINE, CR, NEWLINE] @ body) # rest"
  shows "status_loop n junk jid b sk = Inr (rid = jid \<and> unat st \<le> 255, sk\<lparr>s_in := rest\<rparr>)"
proof -
  let ?s = "http_start ver code reason h cl len" and ?x = "h2 @ [NEWLINE, CR, NEWLINE] @ body"
  let ?cs = "cut_start ver code reason h cl len" and ?sk = "sk\<lparr>s_in := RData (h2 @ [NEWLINE, CR, NEWLINE] @ body) # rest\<rparr>"
  define bp where "bp = ?cs @ drop (length ?s) b"
  define bp2 where "bp2 = ?cs @ ?x @ drop (length ?x) (drop (length ?s) b)"
  let ?i = "length ?s" and ?d = "length ?s + (length ?s + length ?x)" and ?j = "length ?s + length h2"
  have lc: "length ?cs = ?i" by (rule length_cut_start)
  have lb: "length bp = IOBUFSZ" "?i + length ?x \<le> IOBUFSZ" using room b lc by (simp_all add: bp_def response_head_def)
  have rd: "tread (length b) sk = (Inr (?s @ []), ?sk)"
    using tread_data [OF rs] lb b by simp
  have bp2: "take ?i bp @ ?x @ drop (?i + length ?x) bp = bp2"
    unfolding bp_def bp2_def by (rule overlay [OF lc])
  have mi: "more_if True junk ?i bp ?i ?sk = Inr (Some ?d, bp2, sk\<lparr>s_in := rest\<rparr>)"
    using more_at [of ?sk ?x rest ?i bp junk ?i, unfolded bp2] lb by simp
  have fe: "find_hdr_end ?i bp2 ?d = Inr (True, ?j + 3)"
    using find_end_header [OF h2, of ?i bp2 _ ?d] lc by (simp add: bp2_def)
  obtain m where m: "n = Suc m" using n by (cases n) auto
  have sh: "skip_header n junk ?i bp2 ?d (sk\<lparr>s_in := rest\<rparr>) = Inr (Some (?j + 3, bp2, ?d, sk\<lparr>s_in := rest\<rparr>))"
    using fe body_long [OF body(1,2)] by (simp add: m more_if_def)
  have iv: "ipp_verdict jid (?j + 3) bp2 = Inr (rid = jid \<and> unat st \<le> 255)"
    by (rule verdict_body [OF _ _ body(1,2), where y = "drop (length ?x) (drop (length ?s) b)"]) (simp_all add: bp2_def lc)
  have st: "status_loop n junk jid b sk =
     bnd (more_if True junk ?i bp ?i ?sk) (\<lambda>(r, bp, sk). case r of None \<Rightarrow> Inr (False, sk) | Some datsz \<Rightarrow>
     bnd (skip_header n junk ?i bp datsz sk) (\<lambda>r. case r of None \<Rightarrow> Inr (False, sk) | Some (i, bp, datsz, sk) \<Rightarrow>
     bnd (more_if (int datsz - int i < int len) junk i bp datsz sk) (\<lambda>(r, bp, sk). case r of None \<Rightarrow> Inr (False, sk) | Some datsz \<Rightarrow>
     bnd (ipp_verdict jid i bp) (\<lambda>ok. Inr (ok, sk)))))"
    using status_start [OF start n rd, where junk = junk and jid = jid] by (simp add: bp_def)
  show ?thesis unfolding st mi using sh iv body(3) by (simp add: more_if_def)
qed

lemma loop_cut_end:
  assumes start: "good_start ver code reason h cl len" and n: "length h + 1 < n"
    and h2: "one_end h2" and body: "body = v @ be16 st @ be32 rid @ attrs" "length v = 2" "length body = len"
    and b: "length b = IOBUFSZ" and room: "length (response_head ver code reason h cl len h2 @ body) \<le> IOBUFSZ"
    and rs: "s_in sk = RData (response_head ver code reason h cl len h2) # RData body # rest"
  shows "status_loop n junk jid b sk = Inr (rid = jid \<and> unat st \<le> 255, sk\<lparr>s_in := rest\<rparr>)"
proof -
  let ?s = "http_start ver code reason h cl len" and ?x = "h2 @ [NEWLINE, CR, NEWLINE]"
  let ?cs = "cut_start ver code reason h cl len" and ?sk = "sk\<lparr>s_in := RData body # rest\<rparr>"
  define bp where "bp = ?cs @ ?x @ drop (length ?s + length ?x) b"
  let ?i = "length ?s" and ?d = "length ?s + length ?x" and ?j = "length ?s + length h2"
  define bp2 where "bp2 = ?cs @ ?x @ body @ drop (length body) (drop ?d b)"
  have lc: "length ?cs = ?i" by (rule length_cut_start)
  have lb: "length bp = IOBUFSZ" "?d + length body \<le> IOBUFSZ" using room b lc by (simp_all add: bp_def response_head_def)
  have rd: "tread (length b) sk = (Inr (?s @ ?x), ?sk)"
    using tread_data [OF rs] lb b by (simp add: response_head_def)
  have fe: "find_hdr_end ?i bp ?d = Inr (True, ?j + 3)"
    using find_end_header [OF h2, of ?i bp _ ?d] lc by (simp add: bp_def)
  obtain m where m: "n = Suc m" using n by (cases n) auto
  have bp2: "take (?j + 3) bp @ body @ drop (?j + 3 + length body) bp = bp2"
    using overlay [of "?cs @ ?x" "?j + 3" "drop ?d b" body] lc by (simp add: bp_def bp2_def)
  have mi: "more_if True junk (?j + 3) bp ?d ?sk = Inr (Some (?d + (?j + 3 + length body)), bp2, sk\<lparr>s_in := rest\<rparr>)"
    using more_at [of ?sk body rest "?j + 3" bp junk ?d, unfolded bp2] lb body_long [OF body(1,2)] by simp
  have sh: "skip_header n junk ?i bp ?d ?sk = Inr (Some (?j + 3, bp2, ?d + (?j + 3 + length body), sk\<lparr>s_in := rest\<rparr>))"
    using fe mi by (simp add: m)
  have iv: "ipp_verdict jid (?j + 3) bp2 = Inr (rid = jid \<and> unat st \<le> 255)"
    by (rule verdict_body [OF _ _ body(1,2)]) (simp_all add: bp2_def lc)
  show ?thesis
    unfolding status_start [OF start n rd] bp_def [symmetric]
    using sh iv body(3) by (simp add: more_if_def)
qed

lemma loop_cut_body:
  assumes start: "good_start ver code reason h cl len" and n: "length h + 1 < n"
    and h2: "one_end h2" and body: "body = v @ be16 st @ be32 rid @ attrs" "length v = 2" "length body = len"
    and b: "length b = IOBUFSZ" and room: "length (response_head ver code reason h cl len h2 @ body) \<le> IOBUFSZ"
    and rs: "s_in sk = RData (response_head ver code reason h cl len h2 @ body1) # RData body2 # rest"
    and parts: "body = body1 @ body2" "body1 \<noteq> []" "8 \<le> length body2"
  shows "status_loop n junk jid b sk =
    Inr (of_be32 (take 4 (drop 4 body2)) = jid \<and> unat (of_be16 (take 2 (drop 2 body2))) \<le> 255, sk\<lparr>s_in := rest\<rparr>)"
proof -
  let ?s = "http_start ver code reason h cl len" and ?x = "h2 @ [NEWLINE, CR, NEWLINE] @ body1"
  let ?cs = "cut_start ver code reason h cl len" and ?sk = "sk\<lparr>s_in := RData body2 # rest\<rparr>"
  define bp where "bp = ?cs @ ?x @ drop (length ?s + length ?x) b"
  let ?i = "length ?s" and ?d = "length ?s + length ?x" and ?j = "length ?s + length h2"
  define bp2 where "bp2 = ?cs @ (h2 @ [NEWLINE, CR, NEWLINE]) @ body2 @ drop (length body2) (body1 @ drop ?d b)"
  have lc: "length ?cs = ?i" by (rule length_cut_start)
  have lb: "length bp = IOBUFSZ" "?d + length body2 \<le> IOBUFSZ" "?j + 3 + length body2 \<le> IOBUFSZ"
    using room b lc parts(1) by (simp_all add: bp_def response_head_def)
  have rd: "tread (length b) sk = (Inr (?s @ ?x), ?sk)"
    using tread_data [OF rs] lb b by (simp add: response_head_def)
  have fe: "find_hdr_end ?i bp ?d = Inr (True, ?j + 3)"
    using find_end_header [OF h2, of ?i bp _ ?d] lc by (simp add: bp_def)
  obtain m where m: "n = Suc m" using n by (cases n) auto
  have sh: "skip_header n junk ?i bp ?d ?sk = Inr (Some (?j + 3, bp, ?d, ?sk))"
    using fe parts(2) by (simp add: m more_if_def)
  have bp2: "take (?j + 3) bp @ body2 @ drop (?j + 3 + length body2) bp = bp2"
    using overlay [of "?cs @ h2 @ [NEWLINE, CR, NEWLINE]" "?j + 3" "body1 @ drop ?d b" body2] lc by (simp add: bp_def bp2_def)
  have mi: "more_if True junk (?j + 3) bp ?d ?sk = Inr (Some (?d + (?j + 3 + length body2)), bp2, sk\<lparr>s_in := rest\<rparr>)"
    using more_at [of ?sk body2 rest "?j + 3" bp junk ?d, unfolded bp2] lb parts(3) by fastforce
  have "int ?d - int (?j + 3) < int len" using parts(1,3) body(3) by auto
  moreover have "ipp_verdict jid (?j + 3) bp2 =
      Inr (of_be32 (take 4 (drop 4 body2)) = jid \<and> unat (of_be16 (take 2 (drop 2 body2))) \<le> 255)"
  proof -
    define y where "y = body2 @ drop (length body2) (body1 @ drop ?d b)"
    have "drop (?j + 3) bp2 = y" "?j + 3 \<le> length bp2" "8 \<le> length y" using parts(3) by (simp_all add: bp2_def y_def lc)
    moreover have "take 4 (drop 4 y) = take 4 (drop 4 body2)" "take 2 (drop 2 y) = take 2 (drop 2 body2)"
      using parts(3) by (simp_all add: y_def)
    ultimately show ?thesis using verdict_at [of "?j + 3" bp2 y jid] by simp
  qed
  ultimately show ?thesis
    unfolding status_start [OF start n rd] bp_def [symmetric] using sh mi by (simp add: more_if_def [of False])
qed

text \<open>Informational responses are skipped, each in a read of its own.\<close>

definition good_info :: "string \<times> nat \<times> string \<times> string \<Rightarrow> bool" where
  "good_info r = (case r of (ver, code, reason, x) \<Rightarrow> length ver = 8 \<and> 100 \<le> code \<and> code \<le> 199 \<and>
     CR \<notin> set reason \<and> NEWLINE \<notin> set reason \<and> length (status_line ver code reason @ x) \<le> IOBUFSZ)"

definition info_read :: "string \<times> nat \<times> string \<times> string \<Rightarrow> rd" where
  "info_read r = (case r of (ver, code, reason, x) \<Rightarrow> RData (status_line ver code reason @ x))"

lemma status_infos:
  assumes "\<forall>r \<in> set infos. good_info r" "s_in sk = map info_read infos @ rest" "length b = IOBUFSZ"
  shows "\<exists>b'. length b' = IOBUFSZ \<and> status_loop n junk jid b sk = status_loop n junk jid b' (sk\<lparr>s_in := rest\<rparr>)"
  using assms
proof (induction infos arbitrary: sk b)
  case Nil
  then have "sk\<lparr>s_in := rest\<rparr> = sk" by simp
  then show ?case using Nil.prems(3) by (intro exI [of _ b]) simp
next
  case (Cons r infos)
  obtain ver code reason x where r: "r = (ver, code, reason, x)" by (cases r) auto
  have g: "length ver = 8" "CR \<notin> set reason" "NEWLINE \<notin> set reason" "int code < 2 ^ 31" "HTTP_INFO (int code)"
    "length (status_line ver code reason @ x) \<le> IOBUFSZ"
    using Cons.prems(1) by (auto simp: r good_info_def HTTP_INFO_def)
  let ?sk = "sk\<lparr>s_in := map info_read infos @ rest\<rparr>"
  define b1 where "b1 = ver @ SPACE # show_nat code @ NUL # reason @ NUL # x @ drop (length (status_line ver code reason @ x)) b"
  have "tread (length b) sk = (Inr (status_line ver code reason @ x), ?sk)"
    using tread_data [of sk "status_line ver code reason @ x"] Cons.prems(2,3) g(6) by (simp add: r info_read_def)
  from status_line_parsed [OF g(1-4) this, of n junk jid] g(5)
  have "status_loop n junk jid b sk = status_loop n junk jid b1 ?sk" by (simp add: b1_def)
  moreover have "length b1 = IOBUFSZ" using g(6) Cons.prems(3) by (simp add: b1_def status_line_def)
  ultimately show ?case using Cons.IH [of ?sk b1] Cons.prems(1) by simp
qed

text \<open>A code that is not one of success: the byte after the data is set, even if there is none.\<close>

lemma status_refused:
  assumes "length ver = 8" "CR \<notin> set reason" "NEWLINE \<notin> set reason" "int code < 2 ^ 31" "code < 100 \<or> 299 < code"
    and "s_in sk = RData (status_line ver code reason @ x) # rest" "length (status_line ver code reason @ x) \<le> IOBUFSZ" "length b = IOBUFSZ"
  shows "status_loop n junk jid b sk = (if length (status_line ver code reason @ x) = IOBUFSZ
    then Inl (Undef ''write outside the buffer'') else Inr (False, sk\<lparr>s_in := rest\<rparr>))"
proof -
  have rd: "tread (length b) sk = (Inr (status_line ver code reason @ x), sk\<lparr>s_in := rest\<rparr>)"
    using tread_data [OF assms(6)] assms(7,8) by simp
  have c: "\<not> HTTP_INFO (int code)" "\<not> HTTP_SUCCESS (int code)" using assms(5) by (auto simp: HTTP_INFO_def HTTP_SUCCESS_def)
  have "length (ver @ SPACE # show_nat code @ NUL # reason @ NUL # x @ drop (length (status_line ver code reason @ x)) b) = IOBUFSZ"
    using assms(7,8) by (simp add: status_line_def)
  with status_line_parsed [OF assms(1-4) rd, of n junk jid] c assms(7) show ?thesis by auto
qed

lemma status_one_read:
  assumes "good_start ver code reason h cl len"
    and "\<forall>k < length h2. \<not> end_at k (h2 @ [NEWLINE, CR, NEWLINE])"
    and "body = v @ be16 st @ be32 rid @ attrs" "length v = 2" "length body = len"
    and "s_in sk = RData (http_start ver code reason h cl len @ h2 @ [NEWLINE, CR, NEWLINE] @ body) # rest"
    and "length (http_start ver code reason h cl len @ h2 @ [NEWLINE, CR, NEWLINE] @ body) \<le> IOBUFSZ" "length h + 1 < n"
  shows "printer_status n junk jid sk = Inr (rid = jid \<and> unat st \<le> 255, sk\<lparr>s_in := rest\<rparr>)"
  unfolding printer_status_def
  by (rule loop_one_read [OF assms(1,8) _ assms(3-5)]) (use assms in \<open>simp_all add: one_end_def response_head_def\<close>)

section \<open>Properties\<close>

definition ok_start :: string where
  "ok_start = http_start ''HTTP/1.1'' 200 ''OK'' [NEWLINE] ''content-length:'' 8"

lemma show_nat_8: "show_nat 8 = ''8''"
  by code_simp

lemma good_ok_start: "good_start ''HTTP/1.1'' 200 ''OK'' [NEWLINE] ''content-length:'' 8"
proof -
  have "map c_tolower ''content-length:'' = map c_tolower CL" by code_simp
  moreover have "\<not> cl_at 0 ([NEWLINE] @ ''content-length:'')" by code_simp
  ultimately show ?thesis by (simp add: good_start_def)
qed

lemma length_ok_start: "length ok_start = 35"
proof -
  have "show_nat 200 = ''200''" by code_simp
  then show ?thesis by (simp add: ok_start_def http_start_def show_nat_8)
qed

text \<open>
  A response whose header is cut between two reads: the search for the end of the header stops two bytes
  before the end of the data, does not ask for more, and never ends.
\<close>

lemma status_hangs:
  assumes "good_start ver code reason h cl len" "part \<noteq> []" "\<forall>k. \<not> end_at k part"
    and "s_in sk = RData (http_start ver code reason h cl len @ part) # rest"
    and "length (http_start ver code reason h cl len @ part) \<le> IOBUFSZ" "length h + 1 < n" "length b = IOBUFSZ"
  shows "status_loop n junk jid b sk = Inl Diverges"
proof -
  let ?s = "http_start ver code reason h cl len"
  let ?cs = "cut_start ver code reason h cl len"
  define bp where "bp = ?cs @ part @ drop (length ?s + length part) b"
  have lc: "length ?cs = length ?s" by (rule length_cut_start)
  have rd: "tread (length b) sk = (Inr (?s @ part), sk\<lparr>s_in := rest\<rparr>)"
    using tread_data [OF assms(4)] assms(5,7) by simp
  have "\<not> end_at k bp" if "length ?s \<le> k" "k + 3 \<le> length ?s + length part" for k
  proof -
    have "take 3 (drop k bp) = take 3 (drop (k - length ?s) part)" using that lc by (simp add: bp_def)
    then show ?thesis using assms(3) by (simp add: end_at_def)
  qed
  moreover have "length ?s + length part \<le> length bp" using lc by (simp add: bp_def)
  ultimately have "skip_header n junk (length ?s) bp (length ?s + length part) (sk\<lparr>s_in := rest\<rparr>) = Inl Diverges"
    using assms(2) by (intro skip_header_stuck) auto
  then show ?thesis
    unfolding status_start [OF assms(1,6) rd] bp_def [symmetric] using assms(2) by (simp add: more_if_def)
qed

text \<open>
  C24. \<^verbatim>\<open>printer_status\<close> skips informational responses (codes 100 to 199, each in one read) and
  judges the next one. If that is a well-formed response with a code from 200 to 999 in one
  piece, the result is 1 iff the code is at most 299, the request number of the body is the
  number of the job, and the IPP status is one of 0x0000 to 0x00ff; a refusal that fills the read
  buffer is undefined behaviour, a null byte behind the buffer. If it is a success in two reads, the
  place of the cut matters: right after the number of Content-Length and its CR, or at the end of
  the header, the answer is still right; between these two places \<^verbatim>\<open>printer_status\<close> loops for
  ever, whatever the printer sends afterwards; and a cut in the body is judged by the bytes of the
  second part, which overwrites the first (stated for a second part of at least 8 bytes). Cuts
  before the number of Content-Length is complete are not covered.
\<close>

theorem printer_status_reads:
  assumes "good_head ver code reason h cl len" "200 \<le> code" "length h + 1 < n" "\<forall>r \<in> set infos. good_info r"
    and "s_in sk = map info_read infos @ RData d # rest"
  shows "(\<forall>h2 body v st rid attrs.
      one_end h2 \<and> body = v @ be16 st @ be32 rid @ attrs \<and> length v = 2 \<and> length body = len \<and>
      d = response_head ver code reason h cl len h2 @ body \<longrightarrow>
      (length d \<le> IOBUFSZ \<and> code \<le> 299 \<or> length d < IOBUFSZ \<longrightarrow>
        printer_status n junk jid sk = Inr (code \<le> 299 \<and> rid = jid \<and> unat st \<le> 255, sk\<lparr>s_in := rest\<rparr>)) \<and>
      (length d = IOBUFSZ \<and> 299 < code \<longrightarrow> printer_status n junk jid sk = Inl (Undef ''write outside the buffer''))) \<and>
    (code \<le> 299 \<longrightarrow>
      (\<forall>part. part \<noteq> [] \<and> (\<forall>k. \<not> end_at k part) \<and> d = http_start ver code reason h cl len @ part \<and> length d \<le> IOBUFSZ \<longrightarrow>
        printer_status n junk jid sk = Inl Diverges) \<and>
      (\<forall>h2 body v st rid attrs d2 rest2.
        one_end h2 \<and> body = v @ be16 st @ be32 rid @ attrs \<and> length v = 2 \<and> length body = len \<and>
        rest = RData d2 # rest2 \<and> length (response_head ver code reason h cl len h2 @ body) \<le> IOBUFSZ \<longrightarrow>
        (d = http_start ver code reason h cl len \<and> d2 = h2 @ [NEWLINE, CR, NEWLINE] @ body \<or>
          d = response_head ver code reason h cl len h2 \<and> d2 = body \<longrightarrow>
          printer_status n junk jid sk = Inr (rid = jid \<and> unat st \<le> 255, sk\<lparr>s_in := rest2\<rparr>)) \<and>
        (\<forall>body1. body1 \<noteq> [] \<and> body = body1 @ d2 \<and> 8 \<le> length d2 \<and> d = response_head ver code reason h cl len h2 @ body1 \<longrightarrow>
          printer_status n junk jid sk =
            Inr (of_be32 (take 4 (drop 4 d2)) = jid \<and> unat (of_be16 (take 2 (drop 2 d2))) \<le> 255, sk\<lparr>s_in := rest2\<rparr>))))"
proof -
  have "length (map junk [0..<IOBUFSZ]) = IOBUFSZ" by simp
  from status_infos [OF assms(4,5) this, of n junk jid] obtain b where b: "length b = IOBUFSZ"
    "printer_status n junk jid sk = status_loop n junk jid b (sk\<lparr>s_in := RData d # rest\<rparr>)"
    by (auto simp: printer_status_def)
  let ?sk = "sk\<lparr>s_in := RData d # rest\<rparr>"
  show ?thesis unfolding b(2)
  proof (intro conjI allI impI)
    fix h2 body v st rid attrs
    assume a: "one_end h2 \<and> body = v @ be16 st @ be32 rid @ attrs \<and> length v = 2 \<and> length body = len \<and>
      d = response_head ver code reason h cl len h2 @ body"
    then have d: "d = status_line ver code reason @ (h @ cl @ SPACE # show_nat len @ [CR]) @ h2 @ [NEWLINE, CR, NEWLINE] @ body"
      by (simp add: response_head_def http_start_def status_line_def)
    have g: "length ver = 8" "CR \<notin> set reason" "NEWLINE \<notin> set reason" "int code < 2 ^ 31"
      using assms(1) by (simp_all add: good_head_def)
    show "status_loop n junk jid b ?sk = Inl (Undef ''write outside the buffer'')" if "length d = IOBUFSZ \<and> 299 < code"
      using status_refused [OF g _ _ _ b(1), of ?sk] that d by simp
    show "status_loop n junk jid b ?sk = Inr (code \<le> 299 \<and> rid = jid \<and> unat st \<le> 255, sk\<lparr>s_in := rest\<rparr>)"
      if l: "length d \<le> IOBUFSZ \<and> code \<le> 299 \<or> length d < IOBUFSZ"
    proof (cases "code \<le> 299")
      case True
      then show ?thesis
        using loop_one_read [OF good_startI [OF assms(1,2) True] assms(3), of h2 body v st rid attrs b ?sk rest junk jid] a l b(1) by auto
    next
      case False
      then show ?thesis using status_refused [OF g _ _ _ b(1), of ?sk _ rest n junk jid] l d by fastforce
    qed
  next
    fix part
    assume "code \<le> 299" "part \<noteq> [] \<and> (\<forall>k. \<not> end_at k part) \<and> d = http_start ver code reason h cl len @ part \<and> length d \<le> IOBUFSZ"
    then show "status_loop n junk jid b ?sk = Inl Diverges"
      using status_hangs [OF good_startI [OF assms(1,2)] _ _ _ _ assms(3) b(1), of part ?sk rest junk jid] by auto
  next
    fix h2 body v st rid attrs d2 rest2
    assume c: "code \<le> 299" and a: "one_end h2 \<and> body = v @ be16 st @ be32 rid @ attrs \<and> length v = 2 \<and> length body = len \<and>
        rest = RData d2 # rest2 \<and> length (response_head ver code reason h cl len h2 @ body) \<le> IOBUFSZ"
    note g = good_startI [OF assms(1,2) c]
    show "status_loop n junk jid b ?sk = Inr (rid = jid \<and> unat st \<le> 255, sk\<lparr>s_in := rest2\<rparr>)"
      if "d = http_start ver code reason h cl len \<and> d2 = h2 @ [NEWLINE, CR, NEWLINE] @ body \<or>
          d = response_head ver code reason h cl len h2 \<and> d2 = body"
      using loop_cut_length [OF g assms(3), of h2 body v st rid attrs b ?sk rest2 junk jid]
        loop_cut_end [OF g assms(3), of h2 body v st rid attrs b ?sk rest2 junk jid] a that b(1) by auto
    fix body1
    assume "body1 \<noteq> [] \<and> body = body1 @ d2 \<and> 8 \<le> length d2 \<and> d = response_head ver code reason h cl len h2 @ body1"
    then show "status_loop n junk jid b ?sk =
        Inr (of_be32 (take 4 (drop 4 d2)) = jid \<and> unat (of_be16 (take 2 (drop 2 d2))) \<le> 255, sk\<lparr>s_in := rest2\<rparr>)"
      using loop_cut_body [OF g assms(3), of h2 body v st rid attrs b ?sk body1 d2 rest2 junk jid] a b(1) by auto
  qed
qed

lemma ok_head: "good_head ''HTTP/1.1'' 200 ''OK'' [NEWLINE] ''content-length:'' 8"
  using good_ok_start by (simp add: good_head_def good_start_def)

theorem printer_status_reads_witness:
  "printer_status 5 (\<lambda>_. NUL) 7 \<lparr>s_in = [RData (ok_start @ [NEWLINE, CR, NEWLINE] @ CHR 0x01 # CHR 0x01 # be16 0 @ be32 7)], s_out = [], s_wr = []\<rparr> =
     Inr (True, \<lparr>s_in = [], s_out = [], s_wr = []\<rparr>) \<and>
   printer_status 5 (\<lambda>_. NUL) 7 \<lparr>s_in = [RData (ok_start @ [NEWLINE]), RData ([CR, NEWLINE, CHR 0x01, CHR 0x01] @ be16 0 @ be32 7)], s_out = [], s_wr = []\<rparr> =
     Inl Diverges"
proof
  let ?s = "\<lparr>s_in = [RData (ok_start @ [NEWLINE, CR, NEWLINE] @ CHR 0x01 # CHR 0x01 # be16 0 @ be32 7)], s_out = [], s_wr = []\<rparr>"
  have 1: "one_end []" by (simp add: one_end_def)
  have h: "response_head ''HTTP/1.1'' 200 ''OK'' [NEWLINE] ''content-length:'' 8 [] = ok_start @ [NEWLINE, CR, NEWLINE]"
    by (simp add: response_head_def ok_start_def)
  show "printer_status 5 (\<lambda>_. NUL) 7 ?s = Inr (True, \<lparr>s_in = [], s_out = [], s_wr = []\<rparr>)"
    using printer_status_reads [OF ok_head, of 5 "[]" ?s "ok_start @ [NEWLINE, CR, NEWLINE] @ CHR 0x01 # CHR 0x01 # be16 0 @ be32 7" "[]" "\<lambda>_. NUL" 7,
        THEN conjunct1, THEN spec [of _ "[]"],
        THEN spec [of _ "[CHR 0x01, CHR 0x01] @ be16 0 @ be32 7"], THEN spec [of _ "[CHR 0x01, CHR 0x01]"], THEN spec [of _ 0],
        THEN spec [of _ 7], THEN spec [of _ "[]"]] 1 length_ok_start
    by (simp add: h IOBUFSZ_def)
  let ?t = "\<lparr>s_in = [RData (ok_start @ [NEWLINE]), RData ([CR, NEWLINE, CHR 0x01, CHR 0x01] @ be16 0 @ be32 7)], s_out = [], s_wr = []\<rparr>"
  show "printer_status 5 (\<lambda>_. NUL) 7 ?t = Inl Diverges"
    using printer_status_reads [OF ok_head, of 5 "[]" ?t "ok_start @ [NEWLINE]"
        "[RData ([CR, NEWLINE, CHR 0x01, CHR 0x01] @ be16 0 @ be32 7)]" "\<lambda>_. NUL" 7, THEN conjunct2] length_ok_start
    by (simp add: ok_start_def [symmetric] IOBUFSZ_def end_at_def take_Cons' drop_Cons')
qed

end
