(* ===== verification/PrintJob.thy ===== *)
theory PrintJob
  imports PrintStatus "HOL-Library.Sublist"
begin

text \<open>
  \<^verbatim>\<open>printer/printd.c\<close>, the thread that talks to the printer: \<^verbatim>\<open>add_option\<close> and the two headers of
  a print request, and one round of the loop of \<^verbatim>\<open>printer_thread\<close>, with the jobs that clients add while
  it does not hold \<^verbatim>\<open>joblock\<close>. The buffers \<^verbatim>\<open>ibuf\<close>,
  \<^verbatim>\<open>hbuf\<close> and \<^verbatim>\<open>str\<close> have the sizes of the C code, and writing past their ends is \<open>Undef\<close>.
\<close>

unbundle bit_operations_syntax

section \<open>The IPP header\<close>

definition IBUFSZ :: nat where "IBUFSZ = 512"
definition HBUFSZ :: nat where "HBUFSZ = 512"
definition OP_PRINT_JOB :: "16 word" where "OP_PRINT_JOB = 2"
definition TAG_OPERATION_ATTR :: nat where "TAG_OPERATION_ATTR = 1"
definition TAG_END_OF_ATTR :: nat where "TAG_END_OF_ATTR = 3"
definition TAG_NAMEWOLANG :: nat where "TAG_NAMEWOLANG = 66"
definition TAG_URI :: nat where "TAG_URI = 69"
definition TAG_CHARSET :: nat where "TAG_CHARSET = 71"
definition TAG_NATULANG :: nat where "TAG_NATULANG = 72"
definition TAG_MIMETYPE :: nat where "TAG_MIMETYPE = 73"

definition put_at :: "nat \<Rightarrow> string \<Rightarrow> string \<Rightarrow> string res" where
  "put_at cp s buf =
     (if cp + length s > length buf then Inl (Undef ''write outside the buffer'')
      else Inr (take cp buf @ s @ drop (cp + length s) buf))"

definition add_option :: "nat \<Rightarrow> nat \<Rightarrow> string \<Rightarrow> string \<Rightarrow> string \<Rightarrow> (nat \<times> string) res" where
  "add_option cp tag optname optval buf =
     bnd (put_at cp [byte tag] buf) (\<lambda>buf. let cp = cp + 1; n = length optname in
     bnd (put_at cp (be16 (word_of_nat n)) buf) (\<lambda>buf. let cp = cp + 2 in
     bnd (put_at cp (optname @ [NUL]) buf) (\<lambda>buf. let cp = cp + n; n = length optval in
     bnd (put_at cp (be16 (word_of_nat n)) buf) (\<lambda>buf. let cp = cp + 2 in
     bnd (put_at cp (optval @ [NUL]) buf) (\<lambda>buf. Inr (cp + n, buf))))))"

text \<open>A name in an array, which the client need not have ended with a null byte.\<close>

definition c_string :: "string \<Rightarrow> string res" where
  "c_string arr = (if NUL \<in> set arr then Inr (takeWhile (\<lambda>c. c \<noteq> NUL) arr) else Inl (Undef ''string not terminated''))"

text \<open>\<^verbatim>\<open>sprintf(str, "http://%s/ipp", printer_name)\<close> with \<^verbatim>\<open>char str[64]\<close>.\<close>

definition printer_uri :: "string \<Rightarrow> string res" where
  "printer_uri pn = (let s = ''http://'' @ pn @ ''/ipp'' in
     if length s + 1 > 64 then Inl (Undef ''printer_thread: str overrun'') else Inr s)"

definition is_text :: "printreq \<Rightarrow> bool" where
  "is_text r \<longleftrightarrow> req_flags r AND PR_TEXT \<noteq> 0"

definition doc_format :: "printreq \<Rightarrow> string" where
  "doc_format r = (if is_text r then ''text/plain'' else ''application/postscript'')"

text \<open>
  The calls of \<^verbatim>\<open>add_option\<close>, one after the other. (The strings are computed before the first
  call here; the C code computes each before its own call.)
\<close>

definition ipp_options :: "string \<Rightarrow> string \<Rightarrow> string \<Rightarrow> string \<Rightarrow> (nat \<times> string \<times> string) list" where
  "ipp_options str u j fmt =
     [(TAG_CHARSET, ''attributes-charset'', ''utf-8''),
      (TAG_NATULANG, ''attributes-natural-language'', ''en-us''),
      (TAG_URI, ''printer-uri'', str),
      (TAG_NAMEWOLANG, ''requesting-user-name'', u),
      (TAG_NAMEWOLANG, ''job-name'', j),
      (TAG_MIMETYPE, ''document-format'', fmt)]"

fun add_options :: "nat \<Rightarrow> (nat \<times> string \<times> string) list \<Rightarrow> string \<Rightarrow> (nat \<times> string) res" where
  "add_options icp [] ibuf = Inr (icp, ibuf)"
| "add_options icp ((tag, nm, v) # r) ibuf = bnd (add_option icp tag nm v ibuf) (\<lambda>(icp, ibuf). add_options icp r ibuf)"

definition build_ipp :: "32 word \<Rightarrow> printreq \<Rightarrow> string \<Rightarrow> string \<Rightarrow> (nat \<times> string) res" where
  "build_ipp jid r pn ibuf =
     bnd (put_at 0 (byte 1 # byte 1 # be16 OP_PRINT_JOB @ be32 jid) ibuf) (\<lambda>ibuf.
     bnd (put_at 8 [byte TAG_OPERATION_ATTR] ibuf) (\<lambda>ibuf.
     bnd (printer_uri pn) (\<lambda>str. bnd (c_string (usernm r)) (\<lambda>u. bnd (c_string (jobnm r)) (\<lambda>j.
     bnd (add_options 9 (ipp_options str u j (doc_format r)) ibuf) (\<lambda>(icp, ibuf).
     bnd (put_at icp [byte TAG_END_OF_ATTR] ibuf) (\<lambda>ibuf. Inr (icp + 1, ibuf))))))))"

section \<open>The HTTP header\<close>

definition CRLF :: string where "CRLF = [CR, NEWLINE]"

definition http_header :: "int \<Rightarrow> string \<Rightarrow> string" where
  "http_header len pn = ''POST /ipp HTTP/1.1'' @ CRLF @ ''Content-Length: '' @ show_int len @ CRLF @
     ''Content-Type: application/ipp'' @ CRLF @ ''Host: '' @ pn @ '':631'' @ CRLF @ CRLF"

definition build_http :: "int \<Rightarrow> string \<Rightarrow> string res" where
  "build_http len pn =
     (if length (http_header len pn) > HBUFSZ then Inl (Undef ''printer_thread: hbuf overrun'')
      else Inr (http_header len pn))"

section \<open>One round of the printer thread\<close>

text \<open>Sending the file; \<open>data\<close> is what is left of it, and \<open>False\<close> stands for \<^verbatim>\<open>goto defer\<close>.\<close>

definition read_size :: "fop \<Rightarrow> nat option" where
  "read_size x = (case x of FErr e \<Rightarrow> None | FShort k \<Rightarrow> Some (min (Suc k) IOBUFSZ) | FOk \<Rightarrow> Some IOBUFSZ)"

function send_file :: "string \<Rightarrow> stream \<Rightarrow> spool \<Rightarrow> bool \<times> stream \<times> spool" where
  "send_file data sk sp =
     (let (x, sp) = next_op sp in
      case read_size x of
        None \<Rightarrow> (False, sk, sp)
      | Some m \<Rightarrow>
        if take m data = [] then (True, sk, sp)
        else case writen (take m data) sk of
            (Inl e, sk) \<Rightarrow> (False, sk, sp)
          | (Inr nw, sk) \<Rightarrow>
              if nw \<noteq> length (take m data) then (False, sk, sp)
              else send_file (drop (length (take m data)) data) sk sp)"
  by pat_completeness auto
termination by (relation "measure (\<lambda>(data, sk, sp). length data)") auto

declare send_file.simps [simp del]

text \<open>Writing the headers and the file.\<close>

definition send_job :: "string \<Rightarrow> string \<Rightarrow> bool \<Rightarrow> string \<Rightarrow> stream \<Rightarrow> spool \<Rightarrow> bool \<times> stream \<times> spool" where
  "send_job hdr ipp txt data sk sp =
     (let (r, sk) = s_write (hdr @ ipp) sk in
      if r \<noteq> Inr (length hdr + length ipp) then (False, sk, sp)
      else let (r, sk) = (if txt then s_write [CHR 0x08] sk else (Inr 1, sk)) in
           if r \<noteq> Inr 1 then (False, sk, sp) else send_file data sk sp)"

datatype outcome = Waiting | Cancelled | Deferred | Printed

text \<open>
  From the connection to the answer: \<open>pn\<close> is the name of the printer (after the configuration has
  been read again, if that was asked for), \<open>conn\<close> tells whether the connection is made, \<open>sk\<close> is
  the connection. The result is \<open>False\<close> where the C code goes to \<^verbatim>\<open>defer\<close> with the job.
\<close>

definition print_attempt :: "nat \<Rightarrow> (nat \<Rightarrow> char) \<Rightarrow> string \<Rightarrow> bool \<Rightarrow> job \<Rightarrow> string \<Rightarrow> stream \<Rightarrow> spool \<Rightarrow> (bool \<times> stream \<times> spool) res" where
  "print_attempt n junk pn conn j data sk sp =
     (if \<not> conn then Inr (False, sk, sp)
      else let txt = is_text (job_req j); extra = (if txt then 1 else 0) in
        bnd (build_ipp (jobid j) (job_req j) pn (map junk [0..<IBUFSZ])) (\<lambda>(ilen, ibuf).
        bnd (build_http (int (length data) + int ilen + extra) pn) (\<lambda>hbuf.
        let (ok, sk, sp) = send_job hbuf (take ilen ibuf) txt data sk sp in
        if \<not> ok then Inr (False, sk, sp)
        else bnd (printer_status n junk (jobid j) sk) (\<lambda>(success, sk). Inr (success, sk, sp)))))"

text \<open>
  A round with a job that has been taken out of the queue; \<open>freed\<close> is the state without it,
  \<open>kept\<close> the one in which \<^verbatim>\<open>replace_job\<close> has put it back.
\<close>

definition round_of :: "job \<Rightarrow> printd \<Rightarrow> printd \<Rightarrow> nat \<Rightarrow> (nat \<Rightarrow> char) \<Rightarrow> string \<Rightarrow> bool \<Rightarrow> stream \<Rightarrow> spool \<Rightarrow> (outcome \<times> stream \<times> spool \<times> printd) res" where
  "round_of j freed kept n junk pn conn sk sp =
     (let (opened, sp) = f_open (data_path (jobid j)) sp in
      if \<not> opened then Inr (Cancelled, sk, sp, freed)
      else let data = (case files sp (data_path (jobid j)) of None \<Rightarrow> [] | Some bs \<Rightarrow> bs);
               (stat, sp) = next_op sp in
      case stat of FErr e \<Rightarrow> Inr (Cancelled, sk, sp, freed)
      | _ \<Rightarrow> bnd (print_attempt n junk pn conn j data sk sp) (\<lambda>(success, sk, sp).
          if success
          then Inr (Printed, sk, f_unlink (req_path (jobid j)) (f_unlink (data_path (jobid j)) sp), freed)
          else Inr (Deferred, sk, sp, kept)))"

text \<open>
  One round; \<open>Waiting\<close> is \<^verbatim>\<open>pthread_cond_wait\<close>. \<^verbatim>\<open>joblock\<close> is free from after \<^verbatim>\<open>remove_job\<close> until
  \<^verbatim>\<open>replace_job\<close>: \<open>as\<close> has the requests and numbers of the jobs that clients add meanwhile.
\<close>

definition arrive :: "(printreq \<times> 32 word) list \<Rightarrow> printd \<Rightarrow> printd" where
  "arrive as p = fold (\<lambda>(r, jid). add_job r jid) as p"

definition printer_round :: "nat \<Rightarrow> (nat \<Rightarrow> char) \<Rightarrow> string \<Rightarrow> bool \<Rightarrow> (printreq \<times> 32 word) list \<Rightarrow> stream \<Rightarrow> spool \<Rightarrow> printd \<Rightarrow> (outcome \<times> stream \<times> spool \<times> printd) res" where
  "printer_round n junk pn conn as sk sp p =
     (let jp = dhead (jobq p) in
      if jp = NULL then Inr (Waiting, sk, sp, p)
      else case job_at p jp of
        None \<Rightarrow> Inl (Undef ''job queue: freed node'')
      | Some j \<Rightarrow>
        bnd (update_jobno (p\<lparr>jobq := remove_job jp (jobq p)\<rparr>)) (\<lambda>p.
        let p = arrive as (p\<lparr>reread := False\<rparr>) in
        round_of j (p\<lparr>job_at := (job_at p)(jp := None)\<rparr>) (p\<lparr>jobq := replace_job jp (jobq p)\<rparr>) n junk pn conn sk sp))"

section \<open>Parsing the header\<close>

text \<open>What RFC 2911 lets the printer read: tag, name and value, until the end tag.\<close>

primrec parse_attrs :: "nat \<Rightarrow> string \<Rightarrow> (nat \<times> string \<times> string) list option" where
  "parse_attrs 0 s = None"
| "parse_attrs (Suc n) s = (case s of [] \<Rightarrow> None | t # r \<Rightarrow>
     if of_char t = TAG_END_OF_ATTR then (if r = [] then Some [] else None)
     else let nl = unat (of_be16 (take 2 r)); r = drop 2 r; nm = take nl r; r = drop nl r;
              vl = unat (of_be16 (take 2 r)); r = drop 2 r
          in map_option (Cons (of_char t, nm, take vl r)) (parse_attrs n (drop vl r)))"

definition parse_ipp :: "string \<Rightarrow> (16 word \<times> 32 word \<times> (nat \<times> string \<times> string) list) option" where
  "parse_ipp s =
     (if length s < 9 \<or> take 2 s \<noteq> [byte 1, byte 1] \<or> s ! 8 \<noteq> byte TAG_OPERATION_ATTR then None
      else map_option (\<lambda>as. (of_be16 (take 2 (drop 2 s)), of_be32 (take 4 (drop 4 s)), as)) (parse_attrs (length s) (drop 9 s)))"

section \<open>Facts\<close>

definition tlv :: "nat \<Rightarrow> string \<Rightarrow> string \<Rightarrow> string" where
  "tlv tag nm v = byte tag # be16 (word_of_nat (length nm)) @ nm @ be16 (word_of_nat (length v)) @ v"

lemma length_tlv [simp]: "length (tlv tag nm v) = 5 + length nm + length v"
  by (simp add: tlv_def)

lemma unat_small: "n < 65536 \<Longrightarrow> unat (word_of_nat n :: 16 word) = n"
  by (simp add: unat_of_nat take_bit_nat_eq_self)

lemma parse_tlv:
  assumes "tag < 256" "tag \<noteq> TAG_END_OF_ATTR" "length nm < 65536" "length v < 65536"
  shows "parse_attrs (Suc n) (tlv tag nm v @ r) = map_option (Cons (tag, nm, v)) (parse_attrs n r)"
  using assms by (simp add: tlv_def unat_small)

text \<open>The first \<open>cp\<close> bytes of a buffer of length \<open>len\<close> are written.\<close>

definition filled :: "nat \<Rightarrow> string \<Rightarrow> nat \<times> string \<Rightarrow> bool" where
  "filled len pre = (\<lambda>(cp, buf). length buf = len \<and> cp = length pre \<and> take cp buf = pre)"

lemma put_filled:
  assumes "filled len pre (cp, buf)" "cp + length s \<le> len"
  shows "\<exists>buf'. put_at cp s buf = Inr buf' \<and> filled len (pre @ s) (cp + length s, buf')"
  using assms by (auto simp: filled_def put_at_def)

lemma filled_shorter: "filled len (pre @ [c]) (Suc cp, buf) \<Longrightarrow> filled len pre (cp, buf)"
proof -
  assume a: "filled len (pre @ [c]) (Suc cp, buf)"
  then have t: "take (Suc cp) buf = pre @ [c]" "cp = length pre" by (auto simp: filled_def)
  have "take cp buf = take cp (take (Suc cp) buf)" by (simp add: min_def)
  also have "\<dots> = pre" unfolding t(1) using t(2) by simp
  finally show ?thesis using a by (simp add: filled_def)
qed

lemma add_option_filled:
  assumes "filled len pre (cp, buf)" "cp + 6 + length nm + length v \<le> len"
  shows "\<exists>buf'. add_option cp tag nm v buf = Inr (cp + 5 + length nm + length v, buf') \<and>
    filled len (pre @ tlv tag nm v) (cp + 5 + length nm + length v, buf')"
proof -
  obtain b1 where b1: "put_at cp [byte tag] buf = Inr b1" "filled len (pre @ [byte tag]) (cp + 1, b1)"
    using put_filled [OF assms(1), of "[byte tag]"] assms(2) by auto
  obtain b2 where b2: "put_at (cp + 1) (be16 (word_of_nat (length nm))) b1 = Inr b2"
      "filled len ((pre @ [byte tag]) @ be16 (word_of_nat (length nm))) (cp + 3, b2)"
    using put_filled [OF b1(2), of "be16 (word_of_nat (length nm))"] assms(2) by (auto simp: eval_nat_numeral)
  obtain b3 where b3: "put_at (cp + 3) (nm @ [NUL]) b2 = Inr b3"
      "filled len (((pre @ [byte tag]) @ be16 (word_of_nat (length nm))) @ nm) (cp + 3 + length nm, b3)"
    using put_filled [OF b2(2), of "nm @ [NUL]"] assms(2) filled_shorter [of len _ NUL "cp + 3 + length nm"] by auto
  obtain b4 where b4: "put_at (cp + 3 + length nm) (be16 (word_of_nat (length v))) b3 = Inr b4"
      "filled len ((((pre @ [byte tag]) @ be16 (word_of_nat (length nm))) @ nm) @ be16 (word_of_nat (length v))) (cp + 5 + length nm, b4)"
    using put_filled [OF b3(2), of "be16 (word_of_nat (length v))"] assms(2) by (auto simp: eval_nat_numeral)
  obtain b5 where b5: "put_at (cp + 5 + length nm) (v @ [NUL]) b4 = Inr b5"
      "filled len (((((pre @ [byte tag]) @ be16 (word_of_nat (length nm))) @ nm) @ be16 (word_of_nat (length v))) @ v)
        (cp + 5 + length nm + length v, b5)"
    using put_filled [OF b4(2), of "v @ [NUL]"] assms(2) filled_shorter [of len _ NUL "cp + 5 + length nm + length v"] by auto
  show ?thesis using b1 b2 b3 b4 b5 by (simp add: add_option_def tlv_def Let_def numeral_eq_Suc)
qed

lemma add_option_overflow:
  assumes "filled len pre (cp, buf)" "cp + 6 + length nm + length v > len"
  shows "\<exists>m. add_option cp tag nm v buf = Inl (Undef m)"
  using assms by (auto simp: add_option_def put_at_def filled_def Let_def)

section \<open>The header as built\<close>

definition opts_bytes :: "(nat \<times> string \<times> string) list \<Rightarrow> string" where
  "opts_bytes opts = concat (map (\<lambda>(t, n, v). tlv t n v) opts)"

lemma add_options_filled:
  assumes "filled len pre (cp, buf)" "cp + length (opts_bytes opts) + 1 \<le> len"
  shows "\<exists>buf'. add_options cp opts buf = Inr (cp + length (opts_bytes opts), buf') \<and>
    filled len (pre @ opts_bytes opts) (cp + length (opts_bytes opts), buf')"
  using assms
proof (induction opts arbitrary: cp buf pre)
  case (Cons o1 opts)
  obtain t n v where o1: "o1 = (t, n, v)" by (metis surj_pair)
  have l: "length (opts_bytes (o1 # opts)) = 5 + length n + length v + length (opts_bytes opts)"
    by (simp add: opts_bytes_def o1)
  then obtain buf1 where b: "add_option cp t n v buf = Inr (cp + 5 + length n + length v, buf1)"
      "filled len (pre @ tlv t n v) (cp + 5 + length n + length v, buf1)"
    using add_option_filled [OF Cons.prems(1), of n v t] Cons.prems(2) by auto
  have "cp + 5 + length n + length v + length (opts_bytes opts) + 1 \<le> len" using Cons.prems(2) l by simp
  from Cons.IH [OF b(2) this] show ?case using b(1) l by (auto simp: o1 opts_bytes_def add.assoc)
qed (auto simp: opts_bytes_def)

lemma add_options_overflow:
  assumes "filled len pre (cp, buf)" "opts \<noteq> []" "cp + length (opts_bytes opts) + 1 > len"
  shows "\<exists>m. add_options cp opts buf = Inl (Undef m)"
  using assms
proof (induction opts arbitrary: cp buf pre)
  case (Cons o1 opts)
  obtain t n v where o1: "o1 = (t, n, v)" by (metis surj_pair)
  have l: "length (opts_bytes (o1 # opts)) = 5 + length n + length v + length (opts_bytes opts)"
    by (simp add: opts_bytes_def o1)
  show ?case
  proof (cases "cp + 6 + length n + length v \<le> len")
    case True
    from add_option_filled [OF Cons.prems(1) True, of t] obtain buf1
      where b: "add_option cp t n v buf = Inr (cp + 5 + length n + length v, buf1)"
        "filled len (pre @ tlv t n v) (cp + 5 + length n + length v, buf1)" by auto
    have "opts \<noteq> []" using True Cons.prems(3) l by (auto simp: opts_bytes_def)
    then have "\<exists>m. add_options (cp + 5 + length n + length v) opts buf1 = Inl (Undef m)"
      using Cons.prems(3) l by (intro Cons.IH [OF b(2)]) simp_all
    then show ?thesis using b(1) by (auto simp: o1)
  next
    case False
    then show ?thesis using add_option_overflow [OF Cons.prems(1), of n v t] by (auto simp: o1)
  qed
qed simp

definition ipp_bytes :: "32 word \<Rightarrow> (nat \<times> string \<times> string) list \<Rightarrow> string" where
  "ipp_bytes jid opts = byte 1 # byte 1 # be16 OP_PRINT_JOB @ be32 jid @
     [byte TAG_OPERATION_ATTR] @ opts_bytes opts @ [byte TAG_END_OF_ATTR]"

definition name_of :: "string \<Rightarrow> string" where
  "name_of arr = takeWhile (\<lambda>c. c \<noteq> NUL) arr"

lemma c_string_name [simp]: "NUL \<in> set arr \<Longrightarrow> c_string arr = Inr (name_of arr)"
  by (simp add: c_string_def name_of_def)

text \<open>The header of a job, and the condition for it to fit into its buffers.\<close>

definition job_options :: "printreq \<Rightarrow> string \<Rightarrow> (nat \<times> string \<times> string) list" where
  "job_options r pn = ipp_options (''http://'' @ pn @ ''/ipp'') (name_of (usernm r)) (name_of (jobnm r)) (doc_format r)"

definition terminated :: "printreq \<Rightarrow> bool" where
  "terminated r \<longleftrightarrow> NUL \<in> set (usernm r) \<and> NUL \<in> set (jobnm r)"

definition fits :: "printreq \<Rightarrow> string \<Rightarrow> bool" where
  "fits r pn \<longleftrightarrow> terminated r \<and> length pn \<le> 52 \<and>
     160 + length pn + length (name_of (usernm r)) + length (name_of (jobnm r)) + length (doc_format r) \<le> IBUFSZ"

lemma length_job_options:
  "length (opts_bytes (job_options r pn)) =
     150 + length pn + length (name_of (usernm r)) + length (name_of (jobnm r)) + length (doc_format r)"
  by (simp add: opts_bytes_def job_options_def ipp_options_def)

lemma build_ipp_start:
  fixes jid :: "32 word"
  assumes "length ibuf = IBUFSZ"
  defines "pre \<equiv> (byte 1 # byte 1 # be16 OP_PRINT_JOB @ be32 jid) @ [byte TAG_OPERATION_ATTR]"
  shows "\<exists>b1. filled IBUFSZ pre (9, b1) \<and>
    build_ipp jid r pn ibuf = bnd (printer_uri pn) (\<lambda>str. bnd (c_string (usernm r)) (\<lambda>u. bnd (c_string (jobnm r)) (\<lambda>j.
     bnd (add_options 9 (ipp_options str u j (doc_format r)) b1) (\<lambda>(icp, ibuf).
     bnd (put_at icp [byte TAG_END_OF_ATTR] ibuf) (\<lambda>ibuf. Inr (icp + 1, ibuf))))))"
proof -
  let ?h = "byte 1 # byte 1 # be16 OP_PRINT_JOB @ be32 jid"
  have "filled IBUFSZ [] (0, ibuf)" using assms(1) by (simp add: filled_def)
  from put_filled [OF this, of ?h] obtain b0 where b0: "put_at 0 ?h ibuf = Inr b0" "filled IBUFSZ ?h (8, b0)"
    by (auto simp: IBUFSZ_def)
  from put_filled [OF b0(2), of "[byte TAG_OPERATION_ATTR]"] obtain b1
    where "put_at 8 [byte TAG_OPERATION_ATTR] b0 = Inr b1" "filled IBUFSZ (?h @ [byte TAG_OPERATION_ATTR]) (9, b1)"
    by (auto simp: IBUFSZ_def)
  then show ?thesis using b0(1) by (auto simp: build_ipp_def pre_def)
qed

lemma build_ipp_fits:
  assumes "fits r pn" "length ibuf = IBUFSZ"
  shows "\<exists>ibuf'. build_ipp jid r pn ibuf = Inr (length (ipp_bytes jid (job_options r pn)), ibuf') \<and>
    take (length (ipp_bytes jid (job_options r pn))) ibuf' = ipp_bytes jid (job_options r pn)"
proof -
  let ?pre = "(byte 1 # byte 1 # be16 OP_PRINT_JOB @ be32 jid) @ [byte TAG_OPERATION_ATTR]" and ?o = "job_options r pn"
  from build_ipp_start [OF assms(2), of jid r pn] obtain b1 where b1: "filled IBUFSZ ?pre (9, b1)"
    "build_ipp jid r pn ibuf = bnd (add_options 9 ?o b1) (\<lambda>(icp, ibuf). bnd (put_at icp [byte TAG_END_OF_ATTR] ibuf) (\<lambda>ibuf. Inr (icp + 1, ibuf)))"
    using assms(1) by (auto simp: fits_def terminated_def printer_uri_def job_options_def Let_def)
  have l: "9 + length (opts_bytes ?o) + 1 \<le> IBUFSZ" using assms(1) by (simp add: length_job_options fits_def)
  from add_options_filled [OF b1(1) l] obtain b2 where b2: "add_options 9 ?o b1 = Inr (9 + length (opts_bytes ?o), b2)"
    "filled IBUFSZ (?pre @ opts_bytes ?o) (9 + length (opts_bytes ?o), b2)" by blast
  from put_filled [OF b2(2), of "[byte TAG_END_OF_ATTR]"] l obtain b3
    where "put_at (9 + length (opts_bytes ?o)) [byte TAG_END_OF_ATTR] b2 = Inr b3"
      "filled IBUFSZ ((?pre @ opts_bytes ?o) @ [byte TAG_END_OF_ATTR]) (10 + length (opts_bytes ?o), b3)" by auto
  then show ?thesis using b1(2) b2(1) by (auto simp: ipp_bytes_def filled_def)
qed

lemma build_ipp_overflows:
  assumes "terminated r" "\<not> fits r pn" "length ibuf = IBUFSZ"
  shows "\<exists>m. build_ipp jid r pn ibuf = Inl (Undef m)"
proof -
  let ?pre = "(byte 1 # byte 1 # be16 OP_PRINT_JOB @ be32 jid) @ [byte TAG_OPERATION_ATTR]" and ?o = "job_options r pn"
  from build_ipp_start [OF assms(3), of jid r pn] obtain b1 where b1: "filled IBUFSZ ?pre (9, b1)"
    "length pn \<le> 52 \<Longrightarrow> build_ipp jid r pn ibuf = bnd (add_options 9 ?o b1) (\<lambda>(icp, ibuf). bnd (put_at icp [byte TAG_END_OF_ATTR] ibuf) (\<lambda>ibuf. Inr (icp + 1, ibuf)))"
    "\<not> length pn \<le> 52 \<Longrightarrow> \<exists>m. build_ipp jid r pn ibuf = Inl (Undef m)"
    using assms(1) by (auto simp: terminated_def printer_uri_def job_options_def Let_def)
  show ?thesis
  proof (cases "length pn \<le> 52")
    case True
    then have "IBUFSZ < 9 + length (opts_bytes ?o) + 1" using assms(1,2) by (simp add: length_job_options fits_def)
    moreover have "?o \<noteq> []" by (simp add: job_options_def ipp_options_def)
    ultimately have "\<exists>m. add_options 9 ?o b1 = Inl (Undef m)" using add_options_overflow [OF b1(1)] by blast
    then show ?thesis using b1(2) [OF True] by auto
  qed (use b1(3) in simp)
qed

lemma parse_opts:
  assumes "\<forall>(t, n, v) \<in> set opts. t < 256 \<and> t \<noteq> TAG_END_OF_ATTR \<and> length n < 65536 \<and> length v < 65536" "length opts < m"
  shows "parse_attrs m (opts_bytes opts @ [byte TAG_END_OF_ATTR]) = Some opts"
  using assms
proof (induction opts arbitrary: m)
  case Nil
  then show ?case by (cases m) (simp_all add: opts_bytes_def TAG_END_OF_ATTR_def)
next
  case (Cons o1 opts)
  obtain t n v where o1: "o1 = (t, n, v)" by (metis surj_pair)
  obtain k where m: "m = Suc k" using Cons.prems(2) by (cases m) auto
  show ?case using parse_tlv [of t n v k "opts_bytes opts @ [byte TAG_END_OF_ATTR]"] Cons.IH [of k] Cons.prems
    by (simp add: m o1 opts_bytes_def)
qed

lemma parse_ipp_bytes:
  assumes "\<forall>(t, n, v) \<in> set opts. t < 256 \<and> t \<noteq> TAG_END_OF_ATTR \<and> length n < 65536 \<and> length v < 65536"
  shows "parse_ipp (ipp_bytes jid opts) = Some (OP_PRINT_JOB, jid, opts)"
proof -
  have "length opts \<le> length (opts_bytes opts)" by (induction opts) (auto simp: opts_bytes_def)
  then have "parse_attrs (length (ipp_bytes jid opts)) (opts_bytes opts @ [byte TAG_END_OF_ATTR]) = Some opts"
    by (intro parse_opts [OF assms]) (simp add: ipp_bytes_def)
  moreover have "ipp_bytes jid opts = (byte 1 # byte 1 # be16 OP_PRINT_JOB @ be32 jid) @ byte TAG_OPERATION_ATTR # opts_bytes opts @ [byte TAG_END_OF_ATTR]"
    by (simp add: ipp_bytes_def)
  moreover have "length (byte 1 # byte 1 # be16 OP_PRINT_JOB @ be32 jid) = 8" by simp
  ultimately show ?thesis by (simp add: parse_ipp_def nth_append)
qed

lemma job_options_ok:
  assumes "fits r pn"
  shows "\<forall>(t, n, v) \<in> set (job_options r pn). t < 256 \<and> t \<noteq> TAG_END_OF_ATTR \<and> length n < 65536 \<and> length v < 65536"
  using assms
  by (simp add: job_options_def ipp_options_def fits_def IBUFSZ_def TAG_CHARSET_def TAG_NATULANG_def TAG_URI_def
      TAG_NAMEWOLANG_def TAG_MIMETYPE_def TAG_END_OF_ATTR_def)

lemma length_http_header:
  assumes "length pn \<le> 52" "0 \<le> len" "len < 10 ^ 20"
  shows "length (http_header len pn) \<le> HBUFSZ"
proof -
  have "length (show_nat (nat len)) \<le> 20" using assms by (intro length_show_nat_le) (simp_all add: nat_less_iff)
  then show ?thesis using assms by (simp add: http_header_def show_int_def CRLF_def HBUFSZ_def)
qed

section \<open>Sending\<close>

lemma next_op_files [simp]: "next_op sp = (x, sp') \<Longrightarrow> files sp' = files sp"
  by (auto simp: next_op_def split: list.splits)

lemma writen_whole: "writen d s = (Inr (length d), t) \<Longrightarrow> s_out t = s_out s @ d"
  using writen_loop_spec [of "length d" d s "Inr (length d)" t] by (simp add: writen_def)

lemma take_rest: "take m xs @ drop (length (take m xs)) xs = xs"
  by (cases "m \<le> length xs") simp_all

lemma send_file_spec:
  assumes "send_file data sk sp = (ok, sk', sp')"
  shows "files sp' = files sp \<and> (ok \<longrightarrow> s_out sk' = s_out sk @ data)"
  using assms
proof (induction data sk sp arbitrary: ok sk' sp' rule: send_file.induct)
  case (1 data sk sp)
  obtain x sp1 where x: "next_op sp = (x, sp1)" by (metis surj_pair)
  show ?case
  proof (cases "read_size x")
    case None
    then show ?thesis using 1(2) x by (auto simp: send_file.simps [of data])
  next
    case (Some m)
    let ?d = "take m data"
    have m: "0 < m" using Some by (auto simp: read_size_def IOBUFSZ_def split: fop.splits)
    obtain r sk1 where w: "writen ?d sk = (r, sk1)" by (metis surj_pair)
    show ?thesis
    proof (cases "?d \<noteq> [] \<and> r = Inr (length ?d)")
      case True
      then have "s_out sk1 = s_out sk @ ?d" using writen_whole w by simp
      moreover have "?d @ drop (length ?d) data = data" by (rule take_rest)
      moreover have "send_file (drop (length ?d) data) sk1 sp1 = (ok, sk', sp')"
        using 1(2) True x w Some by (simp add: send_file.simps [of data])
      note 1(1) [OF x [symmetric] refl Some _ w [symmetric] _ _ this]
      ultimately show ?thesis using x True by (metis append.assoc next_op_files)
    next
      case False
      then show ?thesis using 1(2) x w m Some by (cases r) (auto simp: send_file.simps [of data] split: if_splits)
    qed
  qed
qed

lemma send_job_spec:
  assumes "send_job hdr ipp txt data sk sp = (ok, sk', sp')"
  shows "files sp' = files sp"
    "ok \<Longrightarrow> s_out sk' = s_out sk @ hdr @ ipp @ (if txt then [CHR 0x08] else []) @ data"
proof -
  have w: "s_out t = s_out s @ d" if "s_write d s = (Inr (length d), t)" for d s t
    using that by (auto simp: s_write_def Let_def min_def split: list.splits wr.splits if_splits)
  obtain r sk1 where 1: "s_write (hdr @ ipp) sk = (r, sk1)" by (metis surj_pair)
  obtain r2 sk2 where 2: "(if txt then s_write [CHR 0x08] sk1 else (Inr 1, sk1)) = (r2, sk2)" by (metis surj_pair)
  have e: "send_job hdr ipp txt data sk sp = (if r \<noteq> Inr (length (hdr @ ipp)) then (False, sk1, sp)
      else if r2 \<noteq> Inr 1 then (False, sk2, sp) else send_file data sk2 sp)"
    using 1 2 by (simp add: send_job_def)
  show "files sp' = files sp" using assms e send_file_spec [of data sk2 sp] by (auto split: if_splits)
  assume ok
  then have r: "r = Inr (length (hdr @ ipp))" "r2 = Inr 1" "s_out sk' = s_out sk2 @ data"
    using assms e send_file_spec [of data sk2 sp] by (auto split: if_splits)
  have "s_out sk1 = s_out sk @ hdr @ ipp" using w 1 r(1) by fastforce
  moreover have "s_out sk2 = s_out sk1 @ (if txt then [CHR 0x08] else [])"
    using w [of "[CHR 0x08]" sk1 sk2] 2 r(2) by (auto split: if_splits)
  ultimately show "s_out sk' = s_out sk @ hdr @ ipp @ (if txt then [CHR 0x08] else []) @ data" using r(3) by simp
qed

lemma writen_free_eq: "s_wr s = [] \<Longrightarrow> writen d s = (Inr (length d), s\<lparr>s_out := s_out s @ d\<rparr>)"
  by (cases "d = []") (simp_all add: writen_def writen_loop.simps s_write_def)

lemma send_file_free:
  assumes "s_wr sk = []" "fops sp = []"
  shows "send_file data sk sp = (True, sk\<lparr>s_out := s_out sk @ data\<rparr>, sp)"
  using assms(1)
proof (induction "length data" arbitrary: data sk rule: less_induct)
  case less
  have x: "next_op sp = (FOk, sp)" "read_size FOk = Some IOBUFSZ" "0 < IOBUFSZ"
    using assms(2) by (simp_all add: next_op_def read_size_def IOBUFSZ_def)
  show ?case
  proof (cases "data = []")
    case False
    let ?d = "take IOBUFSZ data" and ?e = "drop (length (take IOBUFSZ data)) data"
    have "length ?e < length data" using False x(3) by simp
    from less(1) [OF this, of "sk\<lparr>s_out := s_out sk @ ?d\<rparr>"]
    have "send_file ?e (sk\<lparr>s_out := s_out sk @ ?d\<rparr>) sp = (True, sk\<lparr>s_out := s_out sk @ ?d @ ?e\<rparr>, sp)"
      using less(2) by simp
    then show ?thesis using x False writen_free_eq [OF less(2), of ?d] take_rest [of IOBUFSZ data]
      by (simp add: send_file.simps [of data])
  qed (use x in \<open>simp add: send_file.simps\<close>)
qed

lemma send_job_free:
  "s_wr sk = [] \<Longrightarrow> fops sp = [] \<Longrightarrow> send_job hdr ipp txt data sk sp =
     (True, sk\<lparr>s_out := s_out sk @ hdr @ ipp @ (if txt then [CHR 0x08] else []) @ data\<rparr>, sp)"
  by (simp add: send_job_def s_write_def send_file_free)

lemma print_attempt_files:
  assumes "print_attempt n junk pn conn j data sk sp = Inr (success, sk', sp')"
  shows "files sp' = files sp"
proof (cases conn)
  case True
  then obtain ilen ibuf hbuf where "build_ipp (jobid j) (job_req j) pn (map junk [0..<IBUFSZ]) = Inr (ilen, ibuf)"
    "build_http (int (length data) + int ilen + (if is_text (job_req j) then 1 else 0)) pn = Inr hbuf"
    using assms by (auto simp: print_attempt_def Let_def bnd_Inr_iff simp del: of_nat_add)
  moreover obtain ok sk1 sp1 where s: "send_job hbuf (take ilen ibuf) (is_text (job_req j)) data sk sp = (ok, sk1, sp1)"
    by (metis surj_pair)
  ultimately have "sp' = sp1"
    using assms True by (auto simp: print_attempt_def Let_def bnd_Inr_iff simp del: of_nat_add split: if_splits)
  then show ?thesis using send_job_spec(1) [OF s] by simp
qed (use assms in \<open>simp add: print_attempt_def\<close>)

lemma update_jobno_ok: "\<exists>f. update_jobno p = Inr (p\<lparr>jobfile := f\<rparr>)"
proof -
  have "fst (k_lseek (jobfile p) 0 SEEK_SET) \<noteq> -1" by (simp add: k_lseek_def seek_base_def)
  then show ?thesis by (auto simp: update_jobno_def Let_def split: prod.splits)
qed

definition good_response :: "32 word \<Rightarrow> string \<Rightarrow> bool" where
  "good_response jid d \<longleftrightarrow> length d \<le> IOBUFSZ \<and> (\<exists>ver code reason h cl h2 v st attrs.
     let body = v @ be16 st @ be32 jid @ attrs in
     d = http_start ver code reason h cl (length body) @ h2 @ [NEWLINE, CR, NEWLINE] @ body \<and>
     good_start ver code reason h cl (length body) \<and> (\<forall>k < length h2. \<not> end_at k (h2 @ [NEWLINE, CR, NEWLINE])) \<and>
     length v = 2 \<and> unat st \<le> 255)"

lemma good_response_status:
  assumes "good_response jid d" "s_in sk = RData d # rest" "length d < n"
  shows "printer_status n junk jid sk = Inr (True, sk\<lparr>s_in := rest\<rparr>)"
proof -
  from assms(1) obtain ver code reason h cl h2 v st attrs where
    d: "d = http_start ver code reason h cl (length (v @ be16 st @ be32 jid @ attrs)) @ h2 @ [NEWLINE, CR, NEWLINE] @ v @ be16 st @ be32 jid @ attrs"
    and g: "good_start ver code reason h cl (length (v @ be16 st @ be32 jid @ attrs))"
      "\<forall>k < length h2. \<not> end_at k (h2 @ [NEWLINE, CR, NEWLINE])" "length v = 2" "unat st \<le> 255" "length d \<le> IOBUFSZ"
    unfolding good_response_def Let_def by blast
  have "length h + 1 < n" using assms(3) by (simp add: d http_start_def)
  then show ?thesis
    using status_one_read [OF g(1,2) refl g(3) refl assms(2) [unfolded d] g(5) [unfolded d], of n junk jid] g(4) by simp
qed

lemma pending_take:
  assumes "pending p (x # xs) (j # js)"
  shows "dhead (jobq p) = x" "x \<noteq> NULL" "job_at p x = Some j"
    "pending (p\<lparr>jobq := remove_job x (jobq p), job_at := (job_at p)(x := None)\<rparr>) xs js"
    "pending (p\<lparr>jobq := replace_job x (remove_job x (jobq p))\<rparr>) (x # xs) (j # js)"
proof -
  have r: "dl_rep (jobq p) (x # xs)" using assms by (simp add: pending_def)
  then have "x \<notin> set xs" "x \<noteq> NULL" "dhead (jobq p) = x" by (auto simp: dl_rep_def first_def)
  then show "dhead (jobq p) = x" "x \<noteq> NULL" "job_at p x = Some j"
    "pending (p\<lparr>jobq := remove_job x (jobq p), job_at := (job_at p)(x := None)\<rparr>) xs js"
    "pending (p\<lparr>jobq := replace_job x (remove_job x (jobq p))\<rparr>) (x # xs) (j # js)"
    using pq.take_out_law [of "jobq p" "[]" x xs] pq.take_put_back [of "jobq p" x xs] assms
    by (auto simp: pending_def)
qed

text \<open>The jobs that were added are behind all others.\<close>

definition arrived :: "(printreq \<times> 32 word) list \<Rightarrow> job list" where
  "arrived as = map (\<lambda>(r, jid). \<lparr>jobid = jid, job_req = r\<rparr>) as"

lemma arrive_pending:
  assumes "pending p xs js"
  shows "pending (arrive as p) (xs @ [brk p..<brk p + length as]) (js @ arrived as) \<and>
    (\<forall>a < brk p. job_at (arrive as p) a = job_at p a) \<and> brk p \<le> brk (arrive as p)"
  using assms
proof (induction as arbitrary: p xs js)
  case (Cons a as)
  obtain r jid where a: "a = (r, jid)" by (cases a)
  have b: "brk (add_job r jid p) = brk p + 1" "\<forall>x < brk p. job_at (add_job r jid p) x = job_at p x"
    by (simp_all add: add_job_def Let_def)
  have "[brk p..<brk p + length (a # as)] = brk p # [brk p + 1..<brk p + 1 + length as]"
    by (simp add: upt_conv_Cons del: upt_Suc)
  with Cons.IH [OF add_job_pending [OF Cons.prems, of r jid]] b show ?case
    by (simp add: a arrive_def arrived_def)
qed (simp add: arrive_def arrived_def)

lemma printer_round_of:
  assumes "pending p (x # xs) (j # js)"
  shows "\<exists>freed kept ys. pending freed (xs @ ys) (js @ arrived as) \<and> pending kept (x # xs @ ys) (j # js @ arrived as) \<and>
    printer_round n junk pn conn as sk sp p = round_of j freed kept n junk pn conn sk sp"
proof -
  note pt = pending_take [OF assms(1)]
  obtain f where u: "update_jobno (p\<lparr>jobq := remove_job x (jobq p)\<rparr>) = Inr (p\<lparr>jobq := remove_job x (jobq p), jobfile := f\<rparr>)"
    using update_jobno_ok [of "p\<lparr>jobq := remove_job x (jobq p)\<rparr>"] by auto
  let ?p = "p\<lparr>jobq := remove_job x (jobq p), jobfile := f, reread := False\<rparr>"
  let ?ys = "[brk p..<brk p + length as]"
  have "dl_rep (jobq p) (x # xs)" "x < brk p" "job_at p x = Some j" using assms by (simp_all add: pending_def)
  then have x: "x \<notin> set xs" "x \<notin> set ?ys" "x < brk p" "job_at p x = Some j" by (auto simp: dl_rep_def)
  have "pending ?p xs js" using remove_job_pending [of p "[]" x xs "[]" j js] assms by (simp add: pending_def)
  from arrive_pending [OF this, of as] x(3,4) have a: "pending (arrive as ?p) (xs @ ?ys) (js @ arrived as)"
    "job_at (arrive as ?p) x = Some j" "x < brk (arrive as ?p)" by auto
  have "map ((job_at (arrive as ?p))(x := None)) (xs @ ?ys) = map (job_at (arrive as ?p)) (xs @ ?ys)"
    using x(1,2) by (intro map_cong) auto
  with a(1) have "pending ((arrive as ?p)\<lparr>job_at := (job_at (arrive as ?p))(x := None)\<rparr>) (xs @ ?ys) (js @ arrived as)"
    by (simp add: pending_def)
  moreover have "pending ((arrive as ?p)\<lparr>jobq := replace_job x (jobq (arrive as ?p))\<rparr>) (x # xs @ ?ys) (j # js @ arrived as)"
    by (rule replace_job_pending [OF a(1) _ pt(2) a(3,2)]) (use x in auto)
  moreover have "printer_round n junk pn conn as sk sp p = round_of j ((arrive as ?p)\<lparr>job_at := (job_at (arrive as ?p))(x := None)\<rparr>)
      ((arrive as ?p)\<lparr>jobq := replace_job x (jobq (arrive as ?p))\<rparr>) n junk pn conn sk sp"
    using pt(1-3) u by (simp add: printer_round_def Let_def)
  ultimately show ?thesis by blast
qed

section \<open>Why a round ends as it does\<close>

lemma s_write_prefix:
  "s_write d s = (r, t) \<Longrightarrow> s_in t = s_in s \<and> (\<exists>e. prefix e d \<and> s_out t = s_out s @ e \<and> (r = Inr (length d) \<longrightarrow> e = d))"
  by (auto simp: s_write_def Let_def min_def take_is_prefix split: list.splits wr.splits if_splits)

lemma writen_prefix:
  "writen d s = (r, t) \<Longrightarrow> s_in t = s_in s \<and> (\<exists>e. prefix e d \<and> s_out t = s_out s @ e \<and> (r = Inr (length d) \<longrightarrow> e = d))"
  using writen_loop_spec [of "length d" d s r t]
  by (cases r) (auto simp: writen_def take_is_prefix intro: exI [of _ "take _ d"])

lemma send_file_prefix:
  assumes "send_file data sk sp = (ok, sk', sp')"
  shows "s_in sk' = s_in sk \<and> (\<exists>e. prefix e data \<and> s_out sk' = s_out sk @ e \<and> (ok \<longrightarrow> e = data))"
  using assms
proof (induction data sk sp arbitrary: ok sk' sp' rule: send_file.induct)
  case (1 data sk sp)
  obtain x sp1 where x: "next_op sp = (x, sp1)" by (metis surj_pair)
  show ?case
  proof (cases "read_size x")
    case None
    then show ?thesis using 1(2) x by (auto simp: send_file.simps [of data])
  next
    case (Some m)
    let ?d = "take m data"
    have m: "0 < m" using Some by (auto simp: read_size_def IOBUFSZ_def split: fop.splits)
    obtain r sk1 where w: "writen ?d sk = (r, sk1)" by (metis surj_pair)
    obtain e1 where e1: "s_in sk1 = s_in sk" "prefix e1 ?d" "s_out sk1 = s_out sk @ e1" "r = Inr (length ?d) \<longrightarrow> e1 = ?d"
      using writen_prefix [OF w] by auto
    show ?thesis
    proof (cases "?d \<noteq> [] \<and> r = Inr (length ?d)")
      case True
      then have s: "send_file (drop (length ?d) data) sk1 sp1 = (ok, sk', sp')"
        using 1(2) x w Some by (simp add: send_file.simps [of data])
      from True have "?d \<noteq> []" by simp
      from 1(1) [OF x [symmetric] refl Some this w [symmetric] _ _ s] True obtain e2 where
        e2: "s_in sk' = s_in sk1" "prefix e2 (drop (length ?d) data)" "s_out sk' = s_out sk1 @ e2" "ok \<longrightarrow> e2 = drop (length ?d) data"
        by auto
      have "prefix (?d @ e2) data" using e2(2) take_rest [of m data] by (metis same_prefix_prefix)
      moreover have "ok \<longrightarrow> ?d @ e2 = data" using e2(4) take_rest [of m data] by simp
      ultimately show ?thesis using e1 e2 True by (intro conjI exI [of _ "?d @ e2"]) simp_all
    next
      case False
      have "prefix e1 data" using e1(2) take_is_prefix [of m data] by (rule prefix_order.trans)
      with False 1(2) x w m Some e1 show ?thesis
        by (cases r) (auto simp: send_file.simps [of data] split: if_splits)
    qed
  qed
qed

text \<open>What is sent is the headers, the backspace and the file, or a part of it, and nothing has been read.\<close>

lemma send_job_prefix:
  assumes "send_job hdr ipp txt data sk sp = (ok, sk', sp')"
  shows "s_in sk' = s_in sk \<and> (\<exists>e. prefix e (hdr @ ipp @ (if txt then [CHR 0x08] else []) @ data) \<and> s_out sk' = s_out sk @ e \<and>
    (ok \<longrightarrow> e = hdr @ ipp @ (if txt then [CHR 0x08] else []) @ data))"
proof -
  let ?b = "if txt then [CHR 0x08] else []"
  obtain r sk1 where 1: "s_write (hdr @ ipp) sk = (r, sk1)" by (metis surj_pair)
  obtain r2 sk2 where 2: "(if txt then s_write [CHR 0x08] sk1 else (Inr 1, sk1)) = (r2, sk2)" by (metis surj_pair)
  have e: "send_job hdr ipp txt data sk sp = (if r \<noteq> Inr (length (hdr @ ipp)) then (False, sk1, sp)
      else if r2 \<noteq> Inr 1 then (False, sk2, sp) else send_file data sk2 sp)"
    using 1 2 by (simp add: send_job_def)
  obtain e1 where e1: "s_in sk1 = s_in sk" "prefix e1 (hdr @ ipp)" "s_out sk1 = s_out sk @ e1" "r = Inr (length (hdr @ ipp)) \<longrightarrow> e1 = hdr @ ipp"
    using s_write_prefix [OF 1] by auto
  obtain e2 where e2: "s_in sk2 = s_in sk1" "prefix e2 ?b" "s_out sk2 = s_out sk1 @ e2" "r2 = Inr 1 \<longrightarrow> e2 = ?b"
    using s_write_prefix [of "[CHR 0x08]" sk1 r2 sk2] 2 by (cases "txt") auto
  show ?thesis
  proof (cases "r = Inr (length (hdr @ ipp))")
    case False
    moreover have "prefix e1 ((hdr @ ipp) @ ?b @ data)" using e1(2) by (rule prefix_prefix)
    ultimately show ?thesis using assms e e1 by auto
  next
    case r: True
    show ?thesis
    proof (cases "r2 = Inr 1")
      case False
      moreover have "prefix ((hdr @ ipp) @ e2) ((hdr @ ipp) @ ?b @ data)"
        using prefix_prefix [OF e2(2), of data] by (simp only: same_prefix_prefix)
      ultimately show ?thesis using assms e e1 e2 r by (auto intro: exI [of _ "(hdr @ ipp) @ e2"])
    next
      case True
      with r assms e have "send_file data sk2 sp = (ok, sk', sp')" by simp
      from send_file_prefix [OF this] obtain e3 where
        e3: "s_in sk' = s_in sk2" "prefix e3 data" "s_out sk' = s_out sk2 @ e3" "ok \<longrightarrow> e3 = data" by auto
      have "prefix ((hdr @ ipp @ ?b) @ e3) ((hdr @ ipp @ ?b) @ data)" using e3(2) by simp
      then show ?thesis using e1 e2 e3 r True by (intro conjI exI [of _ "hdr @ ipp @ ?b @ e3"]) simp_all
    qed
  qed
qed

lemma build_ipp_needs_fit: "build_ipp jid r pn ibuf = Inr x \<Longrightarrow> length ibuf = IBUFSZ \<Longrightarrow> fits r pn"
proof (rule ccontr)
  assume a: "build_ipp jid r pn ibuf = Inr x" "length ibuf = IBUFSZ" "\<not> fits r pn"
  show False
  proof (cases "terminated r")
    case True
    with build_ipp_overflows [OF True a(3,2), of jid] a(1) show False by simp
  next
    case False
    then have "\<exists>m. c_string (usernm r) = Inl m \<or> c_string (jobnm r) = Inl m" by (auto simp: terminated_def c_string_def)
    with build_ipp_start [OF a(2), of jid r pn] a(1) show False
      by (cases "printer_uri pn"; cases "c_string (usernm r)"; cases "c_string (jobnm r)") auto
  qed
qed

text \<open>The bytes that make up a job: the two headers, the backspace before text, and the file.\<close>

definition job_ipp :: "job \<Rightarrow> string \<Rightarrow> string" where
  "job_ipp j pn = ipp_bytes (jobid j) (job_options (job_req j) pn)"

definition job_http :: "job \<Rightarrow> string \<Rightarrow> string \<Rightarrow> string" where
  "job_http j pn data =
     http_header (int (length (job_ipp j pn) + length data + (if is_text (job_req j) then 1 else 0))) pn"

definition job_bytes :: "job \<Rightarrow> string \<Rightarrow> string \<Rightarrow> string" where
  "job_bytes j pn data = job_http j pn data @ job_ipp j pn @ (if is_text (job_req j) then [CHR 0x08] else []) @ data"

lemma print_attempt_cases:
  assumes "print_attempt n junk pn True j data sk sp = Inr (success, sk', sp')"
  shows "\<exists>ok sk1. send_job (job_http j pn data) (job_ipp j pn) (is_text (job_req j)) data sk sp = (ok, sk1, sp') \<and>
    (if ok then printer_status n junk (jobid j) sk1 = Inr (success, sk') else \<not> success \<and> sk' = sk1)"
proof -
  let ?i = "job_ipp j pn" and ?x = "if is_text (job_req j) then 1 else 0 :: nat"
  have x: "(if is_text (job_req j) then 1 else 0) = int ?x" by simp
  obtain ilen ibuf where b: "build_ipp (jobid j) (job_req j) pn (map junk [0..<IBUFSZ]) = Inr (ilen, ibuf)"
    using assms by (auto simp: print_attempt_def Let_def bnd_Inr_iff simp del: of_nat_add)
  have f: "fits (job_req j) pn" by (rule build_ipp_needs_fit [OF b]) simp
  from build_ipp_fits [OF f, of "map junk [0..<IBUFSZ]" "jobid j"] b have i: "ilen = length ?i" "take ilen ibuf = ?i"
    by (auto simp: job_ipp_def)
  have l: "int (length data) + int ilen + (if is_text (job_req j) then 1 else 0) = int (length ?i + length data + ?x)"
    unfolding x i(1) by simp
  have h: "build_http (int (length ?i + length data + ?x)) pn = Inr (job_http j pn data)"
    using assms unfolding print_attempt_def Let_def b bnd_simps prod.case l
    by (auto simp: build_http_def job_http_def split: if_splits)
  obtain ok sk1 sp1 where s: "send_job (job_http j pn data) ?i (is_text (job_req j)) data sk sp = (ok, sk1, sp1)"
    by (metis surj_pair)
  have "(if \<not> ok then Inr (False, sk1, sp1) else bnd (printer_status n junk (jobid j) sk1) (\<lambda>(success, sk). Inr (success, sk, sp1))) =
      Inr (success, sk', sp')"
    using assms unfolding print_attempt_def Let_def b bnd_simps prod.case l h i(2) s by simp
  with s show ?thesis by (auto simp: bnd_Inr_iff split: if_splits)
qed

text \<open>
  The ways a round ends. \<open>fst (openable j sp)\<close> tells whether \<^verbatim>\<open>open\<close> and \<^verbatim>\<open>fstat\<close> of the data file succeed.
\<close>

definition openable :: "job \<Rightarrow> spool \<Rightarrow> bool \<times> spool" where
  "openable j sp = (let (opened, sp) = f_open (data_path (jobid j)) sp in
     if \<not> opened then (False, sp) else let (stat, sp) = next_op sp in ((\<forall>e. stat \<noteq> FErr e), sp))"

definition data_of :: "job \<Rightarrow> spool \<Rightarrow> string" where
  "data_of j sp = (case files sp (data_path (jobid j)) of None \<Rightarrow> [] | Some bs \<Rightarrow> bs)"

definition round_ends :: "job \<Rightarrow> nat \<Rightarrow> (nat \<Rightarrow> char) \<Rightarrow> string \<Rightarrow> bool \<Rightarrow> stream \<Rightarrow> spool \<Rightarrow> outcome \<Rightarrow> stream \<Rightarrow> bool" where
  "round_ends j n junk pn conn sk sp out sk' \<longleftrightarrow>
     (if \<not> fst (openable j sp) then out = Cancelled \<and> sk' = sk
      else if \<not> conn then out = Deferred \<and> sk' = sk
      else (\<exists>whole sk1 sp1 e.
        send_job (job_http j pn (data_of j sp)) (job_ipp j pn) (is_text (job_req j)) (data_of j sp) sk (snd (openable j sp)) = (whole, sk1, sp1) \<and>
        s_in sk1 = s_in sk \<and> s_out sk1 = s_out sk @ e \<and> prefix e (job_bytes j pn (data_of j sp)) \<and>
        (if whole then e = job_bytes j pn (data_of j sp) \<and>
           (\<exists>success. printer_status n junk (jobid j) sk1 = Inr (success, sk') \<and> out = (if success then Printed else Deferred))
         else sk' = sk1 \<and> out = Deferred)))"

lemma round_of_cases:
  assumes "round_of j freed kept n junk pn conn sk sp = Inr (out, sk', sp', p')"
  shows "round_ends j n junk pn conn sk sp out sk' \<and>
    p' = (if out = Deferred then kept else freed) \<and>
    files sp' = (if out = Printed then (files sp)(data_path (jobid j) := None, req_path (jobid j) := None) else files sp)"
proof -
  obtain opened sp1 where o: "f_open (data_path (jobid j)) sp = (opened, sp1)" by (metis surj_pair)
  then have fo: "files sp1 = files sp" by (auto simp: f_open_def split: prod.splits fop.splits)
  obtain stat sp2 where n: "next_op sp1 = (stat, sp2)" by (metis surj_pair)
  then have fn: "files sp2 = files sp" using fo by simp
  have rd: "fst (openable j sp) \<longleftrightarrow> opened \<and> (\<forall>e. stat \<noteq> FErr e)" by (simp add: openable_def o n)
  show ?thesis
  proof (cases "fst (openable j sp)")
    case False
    then show ?thesis using assms(1) rd o n fo fn by (auto simp: round_of_def round_ends_def split: fop.splits if_splits)
  next
    case True
    then have sp2: "snd (openable j sp) = sp2" using rd by (simp add: openable_def o n)
    from True rd obtain success sk2 sp3 where a: "print_attempt n junk pn conn j (data_of j sp) sk sp2 = Inr (success, sk2, sp3)"
      "(if success then (Printed, sk2, f_unlink (req_path (jobid j)) (f_unlink (data_path (jobid j)) sp3), freed)
        else (Deferred, sk2, sp3, kept)) = (out, sk', sp', p')"
      using assms(1) o n fo unfolding data_of_def by (cases stat) (auto simp: round_of_def bnd_Inr_iff split: if_splits)
    have f3: "files sp3 = files sp" using print_attempt_files [OF a(1)] fn by simp
    have "round_ends j n junk pn conn sk sp out sk'"
    proof (cases conn)
      case conn: True
      from print_attempt_cases [of n junk pn j "data_of j sp" sk sp2 success sk2 sp3] a(1) conn obtain ok sk1 where
        s: "send_job (job_http j pn (data_of j sp)) (job_ipp j pn) (is_text (job_req j)) (data_of j sp) sk sp2 = (ok, sk1, sp3)"
        "if ok then printer_status n junk (jobid j) sk1 = Inr (success, sk2) else \<not> success \<and> sk2 = sk1" by auto
      from send_job_prefix [OF s(1)] obtain e where "s_in sk1 = s_in sk" "prefix e (job_bytes j pn (data_of j sp))" "s_out sk1 = s_out sk @ e"
        "ok \<longrightarrow> e = job_bytes j pn (data_of j sp)" by (auto simp: job_bytes_def)
      with s a(2) True conn sp2 show ?thesis
        by (cases ok; cases success) (auto simp: round_ends_def)
    next
      case False
      with a True show ?thesis by (auto simp: round_ends_def print_attempt_def split: if_splits)
    qed
    with True a(2) f3 show ?thesis by (auto simp: f_unlink_def split: if_splits)
  qed
qed

lemma print_attempt_good:
  assumes "fits (job_req j) pn" "fops sp = []" "int (length data) < 10 ^ 19"
    and "s_wr sk = []" "s_in sk = RData d # rest" "good_response (jobid j) d" "length d < n"
  defines "body \<equiv> ipp_bytes (jobid j) (job_options (job_req j) pn) @ (if is_text (job_req j) then [CHR 0x08] else []) @ data"
  shows "print_attempt n junk pn True j data sk sp =
    Inr (True, sk\<lparr>s_out := s_out sk @ http_header (int (length body)) pn @ body, s_in := rest\<rparr>, sp)"
proof -
  let ?i = "ipp_bytes (jobid j) (job_options (job_req j) pn)" and ?t = "is_text (job_req j)"
  from build_ipp_fits [OF assms(1), of "map junk [0..<IBUFSZ]" "jobid j"] obtain ibuf
    where b: "build_ipp (jobid j) (job_req j) pn (map junk [0..<IBUFSZ]) = Inr (length ?i, ibuf)" "take (length ?i) ibuf = ?i" by auto
  have bl: "int (length data) + int (length ?i) + (if ?t then 1 else 0) = int (length body)" by (simp add: body_def)
  have "length ?i \<le> 512" using assms(1) length_job_options [of "job_req j" pn] by (simp add: ipp_bytes_def fits_def IBUFSZ_def)
  then have "int (length body) < 10 ^ 20" using assms(3) by (simp add: body_def)
  then have h: "build_http (int (length body)) pn = Inr (http_header (int (length body)) pn)"
    using assms(1) length_http_header [of pn "int (length body)"] by (simp add: build_http_def fits_def)
  let ?sk = "sk\<lparr>s_out := s_out sk @ http_header (int (length body)) pn @ body\<rparr>"
  have s: "send_job (http_header (int (length body)) pn) ?i ?t data sk sp = (True, ?sk, sp)"
    using send_job_free [OF assms(4,2)] by (simp add: body_def)
  have st: "printer_status n junk (jobid j) ?sk = Inr (True, ?sk\<lparr>s_in := rest\<rparr>)"
    using assms(5) by (intro good_response_status [OF assms(6) _ assms(7)]) simp
  show ?thesis unfolding print_attempt_def Let_def b(1) bnd_simps prod.case bl h b(2) s st by simp
qed

section \<open>Properties\<close>

text \<open>
  C26. The IPP header is correct if it fits: when the two names are terminated, building it
  succeeds exactly if the name of the printer has at most 52 characters and the names together
  fit into 512 bytes, and then a parser of the format finds the operation, the number of the job
  and the six attributes in it. Otherwise \<^verbatim>\<open>printer_thread\<close> writes outside its buffers; names
  of a user and of a job that a client may send can do that.
\<close>

theorem ipp_header_correct:
  assumes "length ibuf = IBUFSZ" "terminated r"
  shows "if length pn \<le> 52 \<and> 160 + length pn + length (name_of (usernm r)) + length (name_of (jobnm r)) + length (doc_format r) \<le> 512
    then \<exists>ilen ibuf'. build_ipp jid r pn ibuf = Inr (ilen, ibuf') \<and>
      parse_ipp (take ilen ibuf') = Some (OP_PRINT_JOB, jid, ipp_options (''http://'' @ pn @ ''/ipp'') (name_of (usernm r)) (name_of (jobnm r)) (doc_format r))
    else \<exists>m. build_ipp jid r pn ibuf = Inl (Undef m)"
proof (cases "fits r pn")
  case True
  from build_ipp_fits [OF this assms(1), of jid] parse_ipp_bytes [OF job_options_ok [OF True], of jid] True show ?thesis
    by (auto simp: fits_def IBUFSZ_def job_options_def)
next
  case False
  from build_ipp_overflows [OF assms(2) False assms(1), of jid] False assms(2) show ?thesis by (auto simp: fits_def IBUFSZ_def)
qed

definition long_req :: printreq where
  "long_req = \<lparr>req_size = 0, req_flags = 0, usernm = replicate 63 (CHR ''u'') @ [NUL], jobnm = replicate 255 (CHR ''j'') @ [NUL]\<rparr>"

lemma long_req_names: "name_of (usernm long_req) = replicate 63 (CHR ''u'')" "name_of (jobnm long_req) = replicate 255 (CHR ''j'')"
  unfolding long_req_def name_of_def printreq.simps by (rule takeWhile_eq_append; simp)+

theorem ipp_header_correct_witness:
  "\<exists>m. build_ipp 1 long_req ''printer.example.com'' (replicate IBUFSZ NUL) = Inl (Undef m)"
proof -
  have "terminated long_req" by (simp add: terminated_def long_req_def)
  moreover have "doc_format long_req = ''application/postscript''" by (simp add: doc_format_def is_text_def long_req_def)
  ultimately show ?thesis
    using ipp_header_correct [of "replicate IBUFSZ NUL" long_req "''printer.example.com''" 1] by (simp add: long_req_names)
qed


text \<open>
  C28. A job is printed when nothing goes wrong: with names that fit, a printer that accepts the
  data and sends a good response, the round sends the HTTP header with the length of what follows
  it, the IPP header and the file (after a backspace if it is text), removes the job from the
  queue and its files from the spool. The jobs added meanwhile are behind the others.
\<close>

theorem printer_round_prints:
  assumes "pending p (x # xs) (j # js)" "fits (job_req j) pn"
    and "files sp (data_path (jobid j)) = Some data" "fops sp = []" "int (length data) < 10 ^ 19"
    and "s_wr sk = []" "s_in sk = RData d # rest" "good_response (jobid j) d" "length d < n"
  defines "body \<equiv> ipp_bytes (jobid j) (job_options (job_req j) pn) @ (if is_text (job_req j) then [CHR 0x08] else []) @ data"
  shows "\<exists>sk' p' ys. printer_round n junk pn True as sk sp p =
      Inr (Printed, sk', f_unlink (req_path (jobid j)) (f_unlink (data_path (jobid j)) sp), p') \<and>
    s_out sk' = s_out sk @ http_header (int (length body)) pn @ body \<and> pending p' (xs @ ys) (js @ arrived as) \<and> length ys = length as"
proof -
  obtain freed kept ys where r: "pending freed (xs @ ys) (js @ arrived as)" "printer_round n junk pn True as sk sp p = round_of j freed kept n junk pn True sk sp"
    using printer_round_of [OF assms(1)] by blast
  have o: "f_open (data_path (jobid j)) sp = (True, sp)" "next_op sp = (FOk, sp)"
    using assms(3,4) by (simp_all add: working_spool(4) next_op_def)
  have "round_of j freed kept n junk pn True sk sp = Inr (Printed, sk\<lparr>s_out := s_out sk @ http_header (int (length body)) pn @ body, s_in := rest\<rparr>,
      f_unlink (req_path (jobid j)) (f_unlink (data_path (jobid j)) sp), freed)"
    unfolding round_of_def o Let_def prod.case not_True_eq_False if_False assms(3) option.case fop.case
      print_attempt_good [OF assms(2,4-9), of junk, folded body_def] bnd_simps if_True ..
  moreover have "length ys = length as"
  proof -
    have "length (xs @ ys) = length (js @ arrived as)" "length xs = length js"
      using r(1) assms(1) unfolding pending_def by (metis length_map, metis length_map length_Cons Suc_inject)
    then show ?thesis by (simp add: arrived_def)
  qed
  ultimately show ?thesis using r by auto
qed

definition short_req :: printreq where
  "short_req = \<lparr>req_size = 2, req_flags = 0, usernm = ''u'' @ [NUL], jobnm = ''j'' @ [NUL]\<rparr>"

definition one_job :: printd where
  "one_job = add_job short_req 7 start_printd"

lemma one_job_pending: "pending one_job [1] [\<lparr>jobid = 7, job_req = short_req\<rparr>]"
  using add_job_pending [OF start_pending, of short_req 7] start_facts(3) by (simp add: one_job_def)


definition ok_response7 :: string where
  "ok_response7 = ok_start @ [] @ [NEWLINE, CR, NEWLINE] @ [CHR 0x01, CHR 0x01] @ be16 0 @ be32 7 @ []"

lemma good_ok_response7: "good_response 7 ok_response7" "length ok_response7 = 46"
proof -
  have l: "length ([CHR 0x01, CHR 0x01] @ be16 0 @ be32 (7 :: 32 word) @ []) = 8" by simp
  show n: "length ok_response7 = 46" by (simp add: ok_response7_def length_ok_start)
  have "ok_response7 = http_start ''HTTP/1.1'' 200 ''OK'' [NEWLINE] ''content-length:'' (length ([CHR 0x01, CHR 0x01] @ be16 0 @ be32 7 @ [])) @
      [] @ [NEWLINE, CR, NEWLINE] @ [CHR 0x01, CHR 0x01] @ be16 0 @ be32 7 @ []"
    unfolding l ok_response7_def ok_start_def ..
  moreover have "good_start ''HTTP/1.1'' 200 ''OK'' [NEWLINE] ''content-length:'' (length ([CHR 0x01, CHR 0x01] @ be16 0 @ be32 (7 :: 32 word) @ []))"
    unfolding l by (rule good_ok_start)
  moreover have "length ok_response7 \<le> IOBUFSZ" "length [CHR 0x01, CHR 0x01] = 2" "unat (0 :: 16 word) \<le> 255"
    by (simp_all add: n IOBUFSZ_def)
  moreover have "\<forall>k < length []. \<not> end_at k ([] @ [NEWLINE, CR, NEWLINE])" by simp
  ultimately show "good_response 7 ok_response7" unfolding good_response_def Let_def by blast
qed

theorem printer_round_prints_witness:
  "\<exists>sk' sp' p'. printer_round 50 (\<lambda>_. NUL) ''pr'' True [] \<lparr>s_in = [RData ok_response7], s_out = [], s_wr = []\<rparr>
      \<lparr>files = [data_path 7 \<mapsto> ''hi''], fops = []\<rparr> one_job = Inr (Printed, sk', sp', p') \<and> pending p' [] []"
proof -
  have t: "name_of (usernm short_req) = ''u''" "name_of (jobnm short_req) = ''j''" "is_text short_req = False"
    by (simp_all add: short_req_def name_of_def is_text_def)
  then have "fits short_req ''pr''"
    by (simp add: fits_def terminated_def doc_format_def IBUFSZ_def) (simp add: short_req_def)
  then obtain sk' p' ys where r: "printer_round 50 (\<lambda>_. NUL) ''pr'' True [] \<lparr>s_in = [RData ok_response7], s_out = [], s_wr = []\<rparr>
      \<lparr>files = [data_path 7 \<mapsto> ''hi''], fops = []\<rparr> one_job =
      Inr (Printed, sk', f_unlink (req_path 7) (f_unlink (data_path 7) \<lparr>files = [data_path 7 \<mapsto> ''hi''], fops = []\<rparr>), p')"
      "pending p' ([] @ ys) ([] @ arrived [])" "length ys = length ([] :: (printreq \<times> 32 word) list)"
    using printer_round_prints [OF one_job_pending, of "''pr''" "\<lparr>files = [data_path 7 \<mapsto> ''hi''], fops = []\<rparr>" "''hi''"
        "\<lparr>s_in = [RData ok_response7], s_out = [], s_wr = []\<rparr>" ok_response7 "[]" 50 "\<lambda>_. NUL" "[]"] good_ok_response7
    by (simp del: split_paired_Ex) blast
  then show ?thesis by (auto simp: arrived_def)
qed

end
