(* ===== verification/PrintClient.thy ===== *)
theory PrintClient
  imports PrintJob
begin

text \<open>
  \<^verbatim>\<open>printer/print.c\<close>, the command that submits a file (\<^verbatim>\<open>submit_file\<close>), and the configuration
  file of \<^verbatim>\<open>printer/util.c\<close> (\<^verbatim>\<open>scan_configfile\<close>). At the end the command and the daemon are put
  together. The contents of the request before it is filled in are arbitrary.
\<close>

section \<open>The configuration file\<close>

definition MAXCFGLINE :: nat where "MAXCFGLINE = 512"
definition MAXKWLEN :: nat where "MAXKWLEN = 16"

text \<open>\<^verbatim>\<open>fgets\<close>: the next line, or \<open>n - 1\<close> characters of it, and the rest of the file.\<close>

definition c_fgets :: "nat \<Rightarrow> string \<Rightarrow> (string \<times> string) option" where
  "c_fgets n s =
     (if s = [] then None
      else let k = length (takeWhile (\<lambda>c. c \<noteq> NEWLINE) s); m = min (k + 1) (n - 1) in Some (take m s, drop m s))"

text \<open>\<^verbatim>\<open>sscanf(line, "%15s %511s", keybuf, valbuf)\<close>, when both conversions succeed.\<close>

definition scan_word :: "nat \<Rightarrow> string \<Rightarrow> string \<times> string" where
  "scan_word n s =
     (let t = dropWhile c_isspace s; w = take n (takeWhile (\<lambda>c. \<not> c_isspace c) t) in (w, drop (length w) t))"

definition scan_line :: "string \<Rightarrow> (string \<times> string) option" where
  "scan_line line =
     (let (key, rest) = scan_word (MAXKWLEN - 1) (cstr_at line 0); (v, rest) = scan_word (MAXCFGLINE - 1) rest
      in if key = [] \<or> v = [] then None else Some (key, v))"

function scan_configfile :: "string \<Rightarrow> string \<Rightarrow> string option" where
  "scan_configfile keyword s =
     (case c_fgets MAXCFGLINE s of
        None \<Rightarrow> None
      | Some (line, s) \<Rightarrow>
          (case scan_line line of
             Some (key, v) \<Rightarrow> if key = keyword then Some v else scan_configfile keyword s
           | None \<Rightarrow> scan_configfile keyword s))"
  by pat_completeness auto
termination
proof (relation "measure (\<lambda>(keyword, s). length s)")
qed (auto simp: c_fgets_def MAXCFGLINE_def Let_def split: if_splits)

declare scan_configfile.simps [simp del]

definition get_printserver :: "string \<Rightarrow> string option" where
  "get_printserver config = scan_configfile ''printserver'' config"

text \<open>\<^verbatim>\<open>get_printaddr\<close>; \<open>lookup\<close> is \<^verbatim>\<open>getaddrlist\<close> for the service \<^verbatim>\<open>ipp\<close>.\<close>

definition get_printaddr :: "(string \<Rightarrow> 'a option) \<Rightarrow> string \<Rightarrow> 'a option" where
  "get_printaddr lookup config =
     (case scan_configfile ''printer'' config of None \<Rightarrow> None | Some p \<Rightarrow> lookup p)"

section \<open>Submitting a file\<close>

definition req_usernm :: "string option \<Rightarrow> string \<Rightarrow> string" where
  "req_usernm pwd old = (case pwd of
       None \<Rightarrow> buf_put old (''unknown'' @ [NUL])
     | Some nm \<Rightarrow> strncpy (USERNM_MAX - 1) nm @ [NUL])"

definition req_jobnm :: "string \<Rightarrow> string \<Rightarrow> string" where
  "req_jobnm fname old =
     (let len = length fname in
      if len \<ge> JOBNM_MAX
      then let s = ''... '' in buf_put old (s @ take (JOBNM_MAX - 5) (drop (len - JOBNM_MAX + 5) fname) @ [NUL])
      else buf_put old (fname @ [NUL]))"

definition build_req :: "string option \<Rightarrow> string \<Rightarrow> nat \<Rightarrow> bool \<Rightarrow> printreq \<Rightarrow> printreq" where
  "build_req pwd fname nbytes txt old =
     \<lparr>req_size = htonl (word_of_nat nbytes), req_flags = (if txt then htonl PR_TEXT else 0),
      usernm = req_usernm pwd (usernm old), jobnm = req_jobnm fname (jobnm old)\<rparr>"

text \<open>The loop that sends the file; after a failed read it calls \<^verbatim>\<open>writen\<close> with -1 bytes.\<close>

function submit_data :: "fop list \<Rightarrow> string \<Rightarrow> stream \<Rightarrow> stream res" where
  "submit_data ops data sk =
     (case read_size (case ops of [] \<Rightarrow> FOk | x # _ \<Rightarrow> x) of
        None \<Rightarrow> Inl (Undef ''submit_file: write of -1 bytes'')
      | Some m \<Rightarrow>
        if take m data = [] then Inr sk
        else case writen (take m data) sk of
            (Inl e, sk) \<Rightarrow> Inl (Err_sys ''can't write to print server'')
          | (Inr nw, sk) \<Rightarrow>
              if nw \<noteq> length (take m data) then Inl (Err_quit ''short write (%d/%d) to print server'')
              else submit_data (tl ops) (drop (length (take m data)) data) sk)"
  by pat_completeness auto
termination by (relation "measure (\<lambda>(ops, data, sk). length data)") auto

declare submit_data.simps [simp del]

definition submit_header :: "printreq \<Rightarrow> stream \<Rightarrow> stream res" where
  "submit_header req sk =
     (case writen (encode_req req) sk of
        (Inl e, sk) \<Rightarrow> Inl (Err_sys ''can't write to print server'')
      | (Inr nw, sk) \<Rightarrow>
          if nw \<noteq> REQ_SIZE then Inl (Err_quit ''short write (%d/%d) to print server'') else Inr sk)"

definition submit_request :: "string option \<Rightarrow> string \<Rightarrow> nat \<Rightarrow> bool \<Rightarrow> printreq \<Rightarrow> fop list \<Rightarrow> string \<Rightarrow> stream \<Rightarrow> stream res" where
  "submit_request pwd fname nbytes txt old ops data sk =
     bnd (submit_header (build_req pwd fname nbytes txt old) sk) (submit_data ops data)"

definition RESP_SIZE :: nat where "RESP_SIZE = 8 + MSGLEN_MAX"

definition decode_resp :: "string \<Rightarrow> printresp" where
  "decode_resp bs = \<lparr>retcode = of_le32 (take 4 bs), resp_jobid = of_le32 (take 4 (drop 4 bs)), resp_msg = drop 8 bs\<rparr>"

text \<open>What the command prints: \<open>Rejected\<close> with the message and exit status 1, or the job number.\<close>

datatype report = Rejected string | Job_id int

definition submit_response :: "stream \<Rightarrow> report res" where
  "submit_response sk =
     (case readn RESP_SIZE sk of
        (Inl e, sk) \<Rightarrow> Inl (Err_sys ''can't read response from server'')
      | (Inr d, sk) \<Rightarrow>
        if length d \<noteq> RESP_SIZE then Inl (Err_sys ''can't read response from server'')
        else let res = decode_resp d in
          if retcode res \<noteq> 0 then Inr (Rejected (cstr_at (resp_msg res) 0))
          else Inr (Job_id (uint (htonl (resp_jobid res)))))"

definition submit_file :: "string option \<Rightarrow> string \<Rightarrow> nat \<Rightarrow> bool \<Rightarrow> printreq \<Rightarrow> fop list \<Rightarrow> string \<Rightarrow> stream \<Rightarrow> report res" where
  "submit_file pwd fname nbytes txt old ops data sk =
     bnd (submit_request pwd fname nbytes txt old ops data sk) submit_response"

section \<open>Facts about the request\<close>

lemma build_req_wf:
  assumes "wf_req old"
  shows "wf_req (build_req pwd fname nbytes txt old)" "terminated (build_req pwd fname nbytes txt old)"
proof -
  have o: "length (usernm old) = 64" "length (jobnm old) = 256" using assms by (simp_all add: wf_req_def USERNM_MAX_def JOBNM_MAX_def)
  have "length (req_usernm pwd (usernm old)) = 64 \<and> NUL \<in> set (req_usernm pwd (usernm old))"
    using o by (cases pwd) (simp_all add: req_usernm_def buf_put_def USERNM_MAX_def)
  moreover have "length (req_jobnm fname (jobnm old)) = 256 \<and> NUL \<in> set (req_jobnm fname (jobnm old))"
    using o by (auto simp: req_jobnm_def buf_put_def JOBNM_MAX_def Let_def)
  ultimately show "wf_req (build_req pwd fname nbytes txt old)" "terminated (build_req pwd fname nbytes txt old)"
    by (simp_all add: wf_req_def terminated_def build_req_def USERNM_MAX_def JOBNM_MAX_def)
qed

lemma name_of_prefix: "NUL \<notin> set s \<Longrightarrow> name_of (s @ NUL # t) = s"
  unfolding name_of_def by (rule takeWhile_eq_append) auto

text \<open>The names as the other side reads them.\<close>

definition user_name :: "string option \<Rightarrow> string" where
  "user_name pwd = (case pwd of None \<Rightarrow> ''unknown'' | Some nm \<Rightarrow> take 63 nm)"

definition job_name :: "string \<Rightarrow> string" where
  "job_name fname = (if length fname \<ge> 256 then ''... '' @ drop (length fname - 251) fname else fname)"

lemma names_of_req:
  assumes "wf_req old" "NUL \<notin> set fname" "\<forall>nm. pwd = Some nm \<longrightarrow> NUL \<notin> set nm"
  shows "name_of (usernm (build_req pwd fname nbytes txt old)) = user_name pwd"
    "name_of (jobnm (build_req pwd fname nbytes txt old)) = job_name fname"
proof -
  show "name_of (usernm (build_req pwd fname nbytes txt old)) = user_name pwd"
  proof (cases pwd)
    case None
    then show ?thesis using name_of_prefix [of "''unknown''"] by (simp add: build_req_def req_usernm_def user_name_def buf_put_def)
  next
    case (Some nm)
    have "strncpy 63 nm @ [NUL] = take 63 nm @ NUL # replicate (63 - length nm) NUL"
      by (simp add: strncpy_def replicate_append_same)
    moreover have "NUL \<notin> set (take 63 nm)" using assms(3) Some by (auto dest: in_set_takeD)
    ultimately show ?thesis using name_of_prefix Some by (simp add: build_req_def req_usernm_def user_name_def USERNM_MAX_def)
  qed
  show "name_of (jobnm (build_req pwd fname nbytes txt old)) = job_name fname"
  proof (cases "length fname \<ge> 256")
    case True
    have "NUL \<notin> set (drop (length fname - 251) fname)" using assms(2) by (meson in_set_dropD)
    then have "name_of ((''... '' @ drop (length fname - 251) fname) @ NUL # t) = ''... '' @ drop (length fname - 251) fname" for t
      by (intro name_of_prefix) auto
    moreover have "length fname - 256 + 5 = length fname - 251" using True by simp
    ultimately show ?thesis using True by (simp add: build_req_def req_jobnm_def job_name_def buf_put_def JOBNM_MAX_def Let_def)
  next
    case False
    then show ?thesis using name_of_prefix [OF assms(2)] by (simp add: build_req_def req_jobnm_def job_name_def buf_put_def JOBNM_MAX_def)
  qed
qed

lemma submit_data_out:
  "submit_data ops data sk = Inr sk' \<Longrightarrow> s_out sk' = s_out sk @ data"
proof (induction ops data sk rule: submit_data.induct)
  case (1 ops data sk)
  obtain m where m: "read_size (case ops of [] \<Rightarrow> FOk | x # _ \<Rightarrow> x) = Some m"
    using 1(2) by (auto simp: submit_data.simps [of ops] split: option.splits)
  then have "0 < m" by (auto simp: read_size_def IOBUFSZ_def split: fop.splits list.splits)
  show ?case
  proof (cases "data = []")
    case True
    then show ?thesis using 1(2) m by (simp add: submit_data.simps [of ops])
  next
    case False
    let ?d = "take m data"
    have d: "?d \<noteq> []" using False \<open>0 < m\<close> by simp
    obtain r sk1 where w: "writen ?d sk = (r, sk1)" by (metis surj_pair)
    have r: "r = Inr (length ?d)" and rec: "submit_data (tl ops) (drop (length ?d) data) sk1 = Inr sk'"
      using 1(2) m d w by (auto simp: submit_data.simps [of ops] split: sum.splits if_splits)
    have "s_out sk' = s_out sk1 @ drop (length ?d) data"
      using 1(1) [OF m d w [symmetric] r _ rec] by simp
    moreover have "s_out sk1 = s_out sk @ ?d" using writen_whole w r by simp
    ultimately show ?thesis using take_rest [of m data] by (metis append.assoc)
  qed
qed

lemma submit_request_out:
  assumes "submit_request pwd fname nbytes txt old ops data sk = Inr sk'" "wf_req old"
  shows "s_out sk' = s_out sk @ encode_req (build_req pwd fname nbytes txt old) @ data"
proof -
  let ?e = "encode_req (build_req pwd fname nbytes txt old)"
  obtain r sk1 where w: "writen ?e sk = (r, sk1)" by (metis surj_pair)
  then have "r = Inr (length ?e)" "submit_data ops data sk1 = Inr sk'"
    using assms decode_encode_req(2) [OF build_req_wf(1) [OF assms(2)]]
    by (auto simp: submit_request_def submit_header_def bnd_Inr_iff split: sum.splits if_splits)
  then show ?thesis using writen_whole w submit_data_out by fastforce
qed


section \<open>Reading from pieces\<close>

text \<open>What is left of the pieces when \<open>k\<close> bytes have been read.\<close>

fun drop_pieces :: "nat \<Rightarrow> string list \<Rightarrow> string list" where
  "drop_pieces k [] = []"
| "drop_pieces k (d # ds) = (if length d \<le> k then drop_pieces (k - length d) ds else drop k d # ds)"

lemma treadn_pieces:
  assumes "\<forall>d \<in> set ds. d \<noteq> []" "k \<le> length (concat ds)" "s_in sk = map RData ds @ rest"
  shows "treadn_loop n k buf sk = (Inr (buf @ take k (concat ds)), sk\<lparr>s_in := map RData (drop_pieces k ds) @ rest\<rparr>) \<and>
    concat (drop_pieces k ds) = drop k (concat ds) \<and> (\<forall>d \<in> set (drop_pieces k ds). d \<noteq> [])"
  using assms
proof (induction ds arbitrary: k buf sk)
  case Nil
  then show ?case by (simp add: treadn_loop.simps)
next
  case (Cons d ds)
  have d: "d \<noteq> []" using Cons.prems(1) by simp
  show ?case
  proof (cases "k = 0")
    case True
    then have "sk\<lparr>s_in := map RData (d # ds) @ rest\<rparr> = sk" using Cons.prems(3) by simp
    then show ?thesis using Cons.prems True d by (simp add: treadn_loop.simps)
  next
    case k: False
    show ?thesis
    proof (cases "length d \<le> k")
      case True
      have rd: "tread k sk = (Inr d, sk\<lparr>s_in := map RData ds @ rest\<rparr>)" using True Cons.prems(3) by (simp add: tread_def s_read_def)
      from Cons.IH [of "k - length d" "sk\<lparr>s_in := map RData ds @ rest\<rparr>" "buf @ d"] Cons.prems True
      show ?thesis using rd k d by (simp add: treadn_loop.simps [of n k])
    next
      case False
      then have "tread k sk = (Inr (take k d), sk\<lparr>s_in := map RData (drop k d # ds) @ rest\<rparr>)"
        using Cons.prems(3) by (simp add: tread_def s_read_def)
      then have "treadn_loop n k buf sk = (Inr (buf @ take k d), sk\<lparr>s_in := map RData (drop k d # ds) @ rest\<rparr>)"
        using k d False by (simp add: treadn_loop.simps [of n k] treadn_loop.simps [of n 0])
      then show ?thesis using False Cons.prems(1) by simp
    qed
  qed
qed

lemma readn_one:
  assumes "s_in sk = [RData d]" "length d = n" "0 < n"
  shows "readn n sk = (Inr d, sk\<lparr>s_in := []\<rparr>)"
  using assms by (auto simp: readn_def readn_loop.simps s_read_def)

lemma decode_acceptance:
  "retcode (decode_resp (encode_resp (acceptance msgbuf jid))) = 0"
  "resp_jobid (decode_resp (encode_resp (acceptance msgbuf jid))) = htonl jid"
  by (simp_all add: decode_resp_def encode_resp_def acceptance_def) (simp add: htonl_def)

lemma length_acceptance:
  assumes "length msgbuf = MSGLEN_MAX" "0 < sint jid"
  shows "length (encode_resp (acceptance msgbuf jid)) = RESP_SIZE"
proof -
  have "length (show_int (sint jid)) \<le> 10" by (rule atol_id(2) [OF assms(2)])
  then show ?thesis using assms(1) by (simp add: encode_resp_def acceptance_def RESP_SIZE_def buf_put_def MSGLEN_MAX_def)
qed

lemma host_req_encode:
  "wf_req r \<Longrightarrow> host_req (encode_req r) = r\<lparr>req_size := htonl (req_size r), req_flags := htonl (req_flags r)\<rparr>"
  by (simp add: host_req_def decode_encode_req)

section \<open>Properties\<close>

definition config_line :: "string \<times> string \<Rightarrow> string" where
  "config_line kv = fst kv @ SPACE # snd kv @ [NEWLINE]"

definition config_word :: "string \<Rightarrow> bool" where
  "config_word w \<longleftrightarrow> w \<noteq> [] \<and> (\<forall>c \<in> set w. \<not> c_isspace c \<and> c \<noteq> NUL)"

lemma config_line_scanned:
  assumes "config_word k" "config_word v" "length k \<le> 15" "length (config_line (k, v)) \<le> 511"
  shows "c_fgets MAXCFGLINE (config_line (k, v) @ s) = Some (config_line (k, v), s)"
    "scan_line (config_line (k, v)) = Some (k, v)"
proof -
  have sp: "\<not> c_isspace c" "c \<noteq> NUL" if "c \<in> set k \<union> set v" for c using assms(1,2) that by (auto simp: config_word_def)
  have nl: "c_isspace NEWLINE" by (simp add: c_isspace_def)
  then have "NEWLINE \<notin> set (k @ SPACE # v)" using sp(1) by auto
  then have "takeWhile (\<lambda>c. c \<noteq> NEWLINE) ((k @ SPACE # v) @ NEWLINE # s) = k @ SPACE # v"
    by (intro takeWhile_eq_append) auto
  then show "c_fgets MAXCFGLINE (config_line (k, v) @ s) = Some (config_line (k, v), s)"
    using assms(4) by (simp add: c_fgets_def config_line_def MAXCFGLINE_def Let_def)
  have c: "cstr_at (config_line (k, v)) 0 = config_line (k, v)"
    unfolding cstr_at_def drop0 using sp(2) by (intro takeWhile_eq_self) (auto simp: config_line_def)
  have w: "scan_word n (w @ c # r) = (w, c # r)" if cw: "config_word w" "c_isspace c" "length w \<le> n" for n w c r
  proof -
    obtain a t where "w = a # t" "\<not> c_isspace a" using cw(1) by (cases w) (auto simp: config_word_def)
    moreover have "takeWhile (\<lambda>c. \<not> c_isspace c) (w @ c # r) = w"
      using cw by (intro takeWhile_eq_append) (auto simp: config_word_def)
    ultimately show ?thesis using cw(3) by (simp add: scan_word_def Let_def)
  qed
  have "scan_word 15 (config_line (k, v)) = (k, SPACE # v @ [NEWLINE])"
    using w [OF assms(1) c_isspace_SPACE] assms(3) by (simp add: config_line_def)
  moreover have "scan_word 511 (SPACE # v @ [NEWLINE]) = scan_word 511 (v @ [NEWLINE])" by (simp add: scan_word_def)
  ultimately show "scan_line (config_line (k, v)) = Some (k, v)"
    using w [OF assms(2) nl, of 511 "[]"] assms c
    by (auto simp: scan_line_def MAXKWLEN_def MAXCFGLINE_def config_word_def config_line_def)
qed

lemma scan_config_map:
  assumes "\<forall>(k, v) \<in> set kvs. config_word k \<and> config_word v \<and> length k \<le> 15 \<and> length (config_line (k, v)) \<le> 511"
  shows "scan_configfile keyword (concat (map config_line kvs)) = map_of kvs keyword"
  using assms
proof (induction kvs)
  case Nil
  then show ?case by (simp add: scan_configfile.simps c_fgets_def)
next
  case (Cons kv kvs)
  obtain k v where kv: "kv = (k, v)" by (metis surj_pair)
  then show ?case using Cons config_line_scanned(1) [of k v "concat (map config_line kvs)"] config_line_scanned(2) [of k v]
    by (simp add: scan_configfile.simps [of keyword "config_line (k, v) @ concat (map config_line kvs)"])
qed

text \<open>
  C29. The configuration file is a map: in a file of lines with a keyword of at most 15
  characters, a blank and a value, \<^verbatim>\<open>scan_configfile\<close> finds the value of the first line with the
  keyword, and nothing if there is none; so do \<^verbatim>\<open>get_printserver\<close> and \<^verbatim>\<open>get_printaddr\<close>.
\<close>

theorem config_is_map:
  assumes "\<forall>(k, v) \<in> set kvs. config_word k \<and> config_word v \<and> length k \<le> 15 \<and> length (config_line (k, v)) \<le> 511"
  shows "get_printserver (concat (map config_line kvs)) = map_of kvs ''printserver'' \<and>
    get_printaddr lookup (concat (map config_line kvs)) = Option.bind (map_of kvs ''printer'') lookup"
  using scan_config_map [OF assms]
  by (simp add: get_printserver_def get_printaddr_def split: option.split)

theorem config_is_map_witness:
  "get_printserver (concat (map config_line [(''printserver'', ''blade''), (''printer'', ''phaser'')])) = Some ''blade''"
  using config_is_map [of "[(''printserver'', ''blade''), (''printer'', ''phaser'')]" Some]
  by (simp add: config_word_def config_line_def c_isspace_def)

text \<open>
  C30. A file submitted is the file stored: when \<^verbatim>\<open>print\<close> has sent its request, and the bytes
  reach the server in any pieces before it stops waiting, and no file operation of the server
  fails, the job is accepted; its data is the file, its request carries the user's name, the name
  of the file (the last 251 characters after dots, if it has more than 255) and the size; it is
  marked as text if the option for text was given, or if the first bytes of data that
  arrive do not leave %!PS at the start of the server's buffer, and only then (if at least four bytes
  arrive first these are the first four of the file); and the answer makes \<^verbatim>\<open>print\<close> report the number
  under which the job is queued.
\<close>

theorem submitted_is_stored:
  assumes c: "submit_request pwd fname nbytes txt old ops data csk = Inr csk'" "s_out csk = []" "wf_req old"
    and n: "NUL \<notin> set fname" "\<forall>nm. pwd = Some nm \<longrightarrow> NUL \<notin> set nm"
    and s: "s_in sk = map RData ds @ [RTimeout]" "concat ds = s_out csk'" "\<forall>d \<in> set ds. d \<noteq> []" "s_out sk = []" "s_wr sk = []"
    and p: "pending p xs js" "dhead (workers p) = NULL" "0 < sint (nextjob p)" "fops sp = []" "length msgbuf = MSGLEN_MAX"
  shows "\<exists>sk' sp' p' req first. client_thread strerr buf msgbuf t fd sk sp p = Inr (sk', sp', p') \<and>
    all_stored (nextjob p) req data sp sp' \<and>
    name_of (usernm req) = user_name pwd \<and> name_of (jobnm req) = job_name fname \<and> req_size req = word_of_nat nbytes \<and>
    first = first_data (map RData (drop_pieces REQ_SIZE ds)) \<and>
    req_flags req = (if txt \<or> data \<noteq> [] \<and> take 4 (buf_put buf first) \<noteq> ''%!PS'' then PR_TEXT else 0) \<and>
    (4 \<le> length first \<longrightarrow> take 4 (buf_put buf first) = take 4 data) \<and>
    pending p' (xs @ [brk p + 1]) (js @ [\<lparr>jobid = nextjob p, job_req = req\<rparr>]) \<and>
    submit_response (csk'\<lparr>s_in := [RData (s_out sk')]\<rparr>) = Inr (Job_id (sint (nextjob p)))"
proof -
  let ?r = "build_req pwd fname nbytes txt old" and ?es = "drop_pieces REQ_SIZE ds"
  let ?first = "first_data (map RData ?es)"
  have wf: "wf_req ?r" by (rule build_req_wf(1) [OF c(3)])
  have ln: "length (encode_req ?r) = REQ_SIZE" by (rule decode_encode_req(2) [OF wf])
  have cd: "concat ds = encode_req ?r @ data" using submit_request_out [OF c(1,3)] c(2) s(2) by simp
  then have "REQ_SIZE \<le> length (concat ds)" using ln by simp
  from treadn_pieces [OF s(3) this s(1), of REQ_SIZE "[]"] have es:
    "treadn REQ_SIZE sk = (Inr (encode_req ?r), sk\<lparr>s_in := map RData ?es @ [RTimeout]\<rparr>)" "concat ?es = data" "\<forall>d \<in> set ?es. d \<noteq> []"
    using cd ln by (auto simp: treadn_def)
  let ?q = "kept_req buf (encode_req ?r) (map RData ?es @ [RTimeout])"
  from accepts_until [OF p(4) es(1) ln s(5) _ es(3) _ p(1,2), of RTimeout "[]" 0 strerr buf msgbuf t fd] es(2)
  obtain sk' sp' p' where a: "client_thread strerr buf msgbuf t fd sk sp p = Inr (sk', sp', p')"
    "job_accepted msgbuf ?q data sk sp p xs js sk' sp' p'" by auto
  then have f: "all_stored (nextjob p) ?q data sp sp'" "s_out sk' = encode_resp (acceptance msgbuf (nextjob p))"
    "pending p' (xs @ [brk p + 1]) (js @ [\<lparr>jobid = nextjob p, job_req = ?q\<rparr>])"
    using s(4) by (auto simp: job_accepted_def)
  have h: "host_req (encode_req ?r) = ?r\<lparr>req_size := htonl (req_size ?r), req_flags := htonl (req_flags ?r)\<rparr>"
    by (rule host_req_encode [OF wf])
  have q: "name_of (usernm ?q) = user_name pwd" "name_of (jobnm ?q) = job_name fname" "req_size ?q = word_of_nat nbytes"
    using names_of_req [OF c(3) n] h by (simp_all add: kept_req_def build_req_def)
  have fi: "first_data (map RData ?es @ [RTimeout]) = ?first" "?first = take IOBUFSZ data \<or> (\<exists>d ds. ?es = d # ds \<and> ?first = take IOBUFSZ d)"
    using es(2) by (cases ?es; auto)+
  have ne: "?first \<noteq> [] \<longleftrightarrow> data \<noteq> []" using es(2,3) by (cases ?es) (auto simp: IOBUFSZ_def)
  have "htonl 0 = 0" by simp
  then have z: "htonl 0 OR PR_TEXT = PR_TEXT" by (simp only: or.left_neutral)
  have fl: "req_flags ?q = (if txt \<or> data \<noteq> [] \<and> take 4 (buf_put buf ?first) \<noteq> ''%!PS'' then PR_TEXT else 0)"
    using h ne fi(1) z by (auto simp: kept_req_def sniffed_def build_req_def)
  have "\<exists>e. data = ?first @ e"
  proof (cases ?es)
    case Nil
    then show ?thesis by simp
  next
    case (Cons d l)
    then have "data = ?first @ (drop IOBUFSZ d @ concat l)" using es(2) by (simp flip: append_assoc)
    then show ?thesis ..
  qed
  then have t4: "4 \<le> length ?first \<longrightarrow> take 4 (buf_put buf ?first) = take 4 data" by (auto simp: buf_put_def)
  have "0 < RESP_SIZE" by (simp add: RESP_SIZE_def)
  have "uint (nextjob p) = sint (nextjob p)" using p(3) sint_lt [of "nextjob p"] by (simp add: uint_sint take_bit_int_eq_self)
  then have "submit_response (csk'\<lparr>s_in := [RData (s_out sk')]\<rparr>) = Inr (Job_id (sint (nextjob p)))"
    using readn_one [of "csk'\<lparr>s_in := [RData (s_out sk')]\<rparr>" "s_out sk'" RESP_SIZE] f(2) length_acceptance [OF p(5,3)] \<open>0 < RESP_SIZE\<close>
    by (simp add: submit_response_def decode_acceptance Let_def)
  then show ?thesis using a(1) f(1,3) q fl t4 by blast
qed

definition idle :: stream where
  "idle = \<lparr>s_in = [], s_out = [], s_wr = []\<rparr>"

theorem submitted_is_stored_witness:
  "\<exists>csk' sk' sp' p'. submit_request (Some ''me'') ''f'' 2 False (decode_req ok_header) [] ''hi'' idle = Inr csk' \<and>
    client_thread (\<lambda>_. []) [] (replicate MSGLEN_MAX NUL) 9 4 \<lparr>s_in = map RData [s_out csk'] @ [RTimeout], s_out = [], s_wr = []\<rparr> new_spool start_printd =
      Inr (sk', sp', p') \<and> files sp' (data_path 1) = Some ''hi'' \<and>
    submit_response (csk'\<lparr>s_in := [RData (s_out sk')]\<rparr>) = Inr (Job_id 1)"
proof -
  let ?old = "decode_req ok_header"
  have wf: "wf_req ?old" by (simp add: wf_decode_req ok_header_def)
  let ?e = "encode_req (build_req (Some ''me'') ''f'' 2 False ?old)"
  let ?c = "idle\<lparr>s_out := ?e @ ''hi''\<rparr>"
  have l: "length ?e = REQ_SIZE" by (rule decode_encode_req(2) [OF build_req_wf(1) [OF wf]])
  then have ne: "?e \<noteq> []" by (auto simp: REQ_SIZE_def)
  have r: "submit_request (Some ''me'') ''f'' 2 False ?old [] ''hi'' idle = Inr ?c"
    using l by (simp add: submit_request_def submit_header_def writen_free_eq idle_def submit_data.simps read_size_def IOBUFSZ_def)
  have o: "s_out ?c = ?e @ ''hi''" by simp
  from submitted_is_stored [OF r _ wf, of "\<lparr>s_in = map RData [s_out ?c] @ [RTimeout], s_out = [], s_wr = []\<rparr>" "[s_out ?c]"
      start_printd "[]" "[]" new_spool "replicate MSGLEN_MAX NUL" "\<lambda>_. []" "[]" 9 4]
  show ?thesis using r start_facts start_pending ne unfolding o
    by (auto simp: all_stored_def idle_def)
qed

end
