(* ===== verification/FdPass.thy ===== *)
theory FdPass
  imports CLib
begin

text \<open>
  Passing a file descriptor over a UNIX domain socket: \<^verbatim>\<open>lib/sendfd.c\<close>, \<^verbatim>\<open>lib/recvfd.c\<close>,
  \<^verbatim>\<open>lib/senderr.c\<close> and the variants with credentials, \<^verbatim>\<open>ipc2/sendfd2.c\<close> and
  \<^verbatim>\<open>ipc2/recvfd2.c\<close>. What one \<^verbatim>\<open>recvmsg\<close> returns is a segment: bytes and the control data
  that came with them. The kernel may cut bytes that come without control data as it likes, the
  final two bytes of an error included; a descriptor comes in one piece with its two bytes.
\<close>

section \<open>Sending\<close>

definition MAXLINE :: nat where "MAXLINE = 4096"

record seg =
  bytes :: string
  rights :: "int option"
  creds :: "int option"

text \<open>The second byte of the protocol: the low byte of the error number, never 0.\<close>

definition err_byte :: "int \<Rightarrow> char" where
  "err_byte fd = (let b = (- fd) mod 256 in char_of (nat (if b = 0 then 1 else b)))"

text \<open>The message of \<^verbatim>\<open>send_fd\<close>; \<open>cr\<close> is the user id that \<^verbatim>\<open>sendfd2.c\<close> adds.\<close>

definition fd_msg :: "int option \<Rightarrow> int \<Rightarrow> seg" where
  "fd_msg cr fd =
     (if fd < 0 then \<lparr>bytes = [NUL, err_byte fd], rights = None, creds = None\<rparr>
      else \<lparr>bytes = [NUL, NUL], rights = Some fd, creds = cr\<rparr>)"

text \<open>The result and what is sent; \<open>ok\<close> tells whether \<^verbatim>\<open>sendmsg\<close> sends both bytes.\<close>

definition send_fd :: "bool \<Rightarrow> int \<Rightarrow> int \<times> seg list" where
  "send_fd ok fd = (if ok then (0, [fd_msg None fd]) else (-1, []))"

definition send_fd2 :: "int \<Rightarrow> bool \<Rightarrow> int \<Rightarrow> int \<times> seg list" where
  "send_fd2 euid ok fd = (if ok then (0, [fd_msg (Some euid) fd]) else (-1, []))"

text \<open>\<^verbatim>\<open>send_err\<close>; \<open>n\<close> is the number of bytes of the text that \<^verbatim>\<open>writen\<close> manages to send.\<close>

definition send_err :: "nat \<Rightarrow> bool \<Rightarrow> int \<Rightarrow> string \<Rightarrow> int \<times> seg list" where
  "send_err n ok errcode msg =
     (let text = \<lparr>bytes = take n msg, rights = None, creds = None\<rparr> in
      if msg \<noteq> [] \<and> n < length msg then (-1, [text])
      else let errcode = (if errcode \<ge> 0 then -1 else errcode);
               (r, out) = send_fd ok errcode
           in (if r < 0 then -1 else 0, (if msg = [] then [] else [text]) @ out))"

section \<open>Receiving\<close>

text \<open>
  The scan of a segment for the null byte: the new \<^verbatim>\<open>nr\<close>, and \<^verbatim>\<open>newfd\<close> (with what came with
  it) once the status has been seen. \<open>P\<close> is the control data if it is complete.
\<close>

function scan_status :: "(seg \<Rightarrow> (int \<times> int option) option) \<Rightarrow> seg \<Rightarrow> nat \<Rightarrow> nat \<Rightarrow> (int \<times> int option) option
    \<Rightarrow> (nat \<times> (int \<times> int option) option) res" where
  "scan_status P s i nr found =
     (if i \<ge> nr then Inr (nr, found)
      else if bytes s ! i = NUL then
        if i + 1 \<noteq> nr - 1 then Inl (Err_dump ''message format error'')
        else let status = (of_char (bytes s ! (i + 1)) :: nat) in
          if status = 0
          then (case P s of None \<Rightarrow> Inl (Err_dump ''status = 0 but no fd'')
                | Some r \<Rightarrow> scan_status P s (i + 1) (nr - 2) (Some r))
          else scan_status P s (i + 1) (nr - 2) (Some (- int status, None))
      else scan_status P s (i + 1) nr found)"
  by pat_completeness auto
termination by (relation "measure (\<lambda>(P, s, i, nr, found). nr - i)") auto

declare scan_status.simps [simp del]

text \<open>
  The loop: the value returned, the user id stored, and the pieces of text given to the user
  function, which succeeds on a piece \<open>t\<close> if \<open>uf t\<close>. The list of segments ends where
  \<^verbatim>\<open>recvmsg\<close> fails or the connection is closed.
\<close>

fun recv_loop :: "(seg \<Rightarrow> (int \<times> int option) option) \<Rightarrow> (string \<Rightarrow> bool) \<Rightarrow> seg list \<Rightarrow> string list
    \<Rightarrow> (int \<times> int option \<times> string list) res" where
  "recv_loop P uf [] out = Inr (-1, None, out)"
| "recv_loop P uf (s # r) out =
     (if bytes s = [] then Inr (-1, None, out)
      else bnd (scan_status P s 0 (length (bytes s)) None) (\<lambda>(nr, found).
        let t = take nr (bytes s); out' = (if nr > 0 then out @ [t] else out); u = (case found of None \<Rightarrow> None | Some (_, u) \<Rightarrow> u) in
        if nr > 0 \<and> \<not> uf t then Inr (-1, u, out')
        else case found of Some (newfd, u) \<Rightarrow> Inr (newfd, u, out') | None \<Rightarrow> recv_loop P uf r out'))"

definition recv_fd :: "(string \<Rightarrow> bool) \<Rightarrow> seg list \<Rightarrow> (int \<times> string list) res" where
  "recv_fd uf segs =
     bnd (recv_loop (\<lambda>s. map_option (\<lambda>fd. (fd, None)) (rights s)) uf segs []) (\<lambda>(fd, u, out). Inr (fd, out))"

text \<open>\<^verbatim>\<open>recv_ufd\<close>; \<open>opt\<close> tells whether \<^verbatim>\<open>setsockopt\<close> succeeds.\<close>

definition recv_ufd :: "bool \<Rightarrow> (string \<Rightarrow> bool) \<Rightarrow> seg list \<Rightarrow> (int \<times> int option \<times> string list) res" where
  "recv_ufd opt uf segs =
     (if \<not> opt then Inr (-1, None, [])
      else recv_loop (\<lambda>s. case (rights s, creds s) of (Some fd, Some u) \<Rightarrow> Some (fd, Some u) | _ \<Rightarrow> None) uf segs [])"

section \<open>Facts\<close>

lemma scan_skip:
  assumes "\<And>k. i \<le> k \<Longrightarrow> k < j \<Longrightarrow> bytes s ! k \<noteq> NUL" "i \<le> j" "j \<le> nr"
  shows "scan_status P s i nr found = scan_status P s j nr found"
  using assms
proof (induction "j - i" arbitrary: i)
  case (Suc d)
  then have "bytes s ! i \<noteq> NUL" "i < nr" by auto
  moreover have "scan_status P s (i + 1) nr found = scan_status P s j nr found" using Suc by (intro Suc.hyps(1)) auto
  ultimately show ?case by (simp add: scan_status.simps [of P s i])
qed simp

lemma scan_text:
  assumes "NUL \<notin> set (bytes s)"
  shows "scan_status P s 0 (length (bytes s)) None = Inr (length (bytes s), None)"
proof -
  have "scan_status P s 0 (length (bytes s)) None = scan_status P s (length (bytes s)) (length (bytes s)) None"
    using assms by (intro scan_skip) (auto simp: in_set_conv_nth)
  then show ?thesis by (simp add: scan_status.simps)
qed

definition payload :: "(seg \<Rightarrow> (int \<times> int option) option) \<Rightarrow> seg \<Rightarrow> char \<Rightarrow> (int \<times> int option) option" where
  "payload P s c = (if c = NUL then P s else Some (- int (of_char c), None))"

lemma scan_final:
  assumes "bytes s = t @ [NUL, c]" "NUL \<notin> set t" "payload P s c = Some r"
  shows "scan_status P s 0 (length (bytes s)) None = Inr (length t, Some r)"
proof -
  have "scan_status P s 0 (length (bytes s)) None = scan_status P s (length t) (length (bytes s)) None"
    using assms(1,2) by (intro scan_skip) (auto simp: nth_append in_set_conv_nth)
  moreover have "bytes s ! length t = NUL" "bytes s ! (length t + 1) = c" "length (bytes s) = length t + 2"
    using assms(1) by (simp_all add: nth_append)
  moreover have "(of_char c :: nat) = 0 \<longleftrightarrow> c = NUL" using of_char_eq_iff [of c NUL] by simp
  ultimately show ?thesis using assms(3)
    by (simp add: scan_status.simps [of P s "length t"] scan_status.simps [of P s "Suc (length t)"] payload_def split: if_splits)
qed

lemma recv_loop_delivered:
  assumes "\<forall>s \<in> set pre. bytes s \<noteq> []" "NUL \<notin> set (concat (map bytes pre) @ t)" "bytes fin = t @ [NUL, c]"
    and "payload P fin c = Some r" "\<forall>s. uf s"
  shows "\<exists>out'. recv_loop P uf (pre @ [fin]) out = Inr (fst r, snd r, out @ out') \<and> concat out' = concat (map bytes pre) @ t"
  using assms
proof (induction pre arbitrary: out)
  case Nil
  then have s: "scan_status P fin 0 (length (bytes fin)) None = Inr (length t, Some r)" by (intro scan_final) auto
  have "bytes fin \<noteq> []" "take (length t) (bytes fin) = t" using Nil(3) by simp_all
  then show ?case using s Nil(5)
    by (cases r) (auto simp: Let_def intro!: exI [of _ "if t = [] then [] else [t]"])
next
  case (Cons s pre)
  have sc: "scan_status P s 0 (length (bytes s)) None = Inr (length (bytes s), None)"
    using Cons.prems(2) by (intro scan_text) auto
  have "uf (bytes s)" using Cons.prems(5) by blast
  have "\<exists>out'. recv_loop P uf (pre @ [fin]) (out @ [bytes s]) = Inr (fst r, snd r, (out @ [bytes s]) @ out') \<and>
      concat out' = concat (map bytes pre) @ t"
    using Cons.prems by (intro Cons.IH) auto
  then show ?case using sc Cons.prems(1) \<open>uf (bytes s)\<close> by (auto simp: Let_def)
qed

lemma err_byte_value:
  assumes "fd < 0"
  shows "err_byte fd \<noteq> NUL" "int (of_char (err_byte fd)) = (if (- fd) mod 256 = 0 then 1 else (- fd) mod 256)"
proof -
  let ?b = "if (- fd) mod 256 = 0 then 1 else (- fd) mod 256"
  have b: "0 < ?b" "?b < 256" using pos_mod_bound [of 256 "- fd"] pos_mod_sign [of 256 "- fd"] by (auto simp: le_less)
  then have "nat ?b mod 256 = nat ?b" by simp
  then have o: "(of_char (err_byte fd) :: nat) = nat ?b" by (simp add: err_byte_def Let_def)
  then show "int (of_char (err_byte fd)) = ?b" using b by simp
  show "err_byte fd \<noteq> NUL"
  proof
    assume "err_byte fd = NUL"
    then have "(of_char (err_byte fd) :: nat) = 0" by simp
    then show False using o b by simp
  qed
qed

text \<open>
  How bytes without control data arrive: in segments that fit the buffer, cut wherever the kernel likes.
\<close>

definition in_pieces :: "string \<Rightarrow> seg list \<Rightarrow> bool" where
  "in_pieces bs segs \<longleftrightarrow> concat (map bytes segs) = bs \<and>
     (\<forall>s \<in> set segs. bytes s \<noteq> [] \<and> length (bytes s) \<le> MAXLINE \<and> rights s = None \<and> creds s = None)"

lemma recv_loop_split:
  assumes "\<forall>s \<in> set pre. bytes s \<noteq> []" "NUL \<notin> set (concat (map bytes pre) @ t)" "bytes fin = t @ [NUL]" "\<forall>s. uf s"
  shows "recv_loop P uf (pre @ fin # r) out = Inl (Err_dump ''message format error'')"
  using assms
proof (induction pre arbitrary: out)
  case Nil
  have "scan_status P fin 0 (length (bytes fin)) None = scan_status P fin (length t) (length (bytes fin)) None"
    using Nil(2,3) by (intro scan_skip) (auto simp: nth_append in_set_conv_nth)
  moreover have "bytes fin ! length t = NUL" "length (bytes fin) = length t + 1" using Nil(3) by (simp_all add: nth_append)
  ultimately have "scan_status P fin 0 (length (bytes fin)) None = Inl (Err_dump ''message format error'')"
    by (simp add: scan_status.simps [of P fin "length t"])
  moreover have "bytes fin \<noteq> []" using Nil(3) by simp
  ultimately show ?case by simp
next
  case (Cons s pre)
  have sc: "scan_status P s 0 (length (bytes s)) None = Inr (length (bytes s), None)"
    using Cons.prems(2) by (intro scan_text) auto
  have "uf (bytes s)" using Cons.prems(4) by blast
  moreover have "recv_loop P uf (pre @ fin # r) (out @ [bytes s]) = Inl (Err_dump ''message format error'')"
    using Cons.prems by (intro Cons.IH) auto
  ultimately show ?case using sc Cons.prems(1) by (simp add: Let_def)
qed

text \<open>The last segment has the whole status, or only its second byte.\<close>

lemma in_pieces_cases:
  assumes "in_pieces (txt @ [NUL, c]) segs" "NUL \<notin> set txt"
  obtains (together) pre fin t where "segs = pre @ [fin]" "bytes fin = t @ [NUL, c]" "concat (map bytes pre) @ t = txt" "bytes (last segs) \<noteq> [c]"
    | (apart) pre s1 s2 t where "segs = pre @ [s1, s2]" "bytes s1 = t @ [NUL]" "bytes s2 = [c]" "concat (map bytes pre) @ t = txt"
proof -
  have cb: "concat (map bytes segs) = txt @ [NUL, c]" and ne: "\<forall>s \<in> set segs. bytes s \<noteq> []" using assms(1) by (auto simp: in_pieces_def)
  from cb obtain pre fin where s: "segs = pre @ [fin]" by (cases segs rule: rev_cases) auto
  then have f: "bytes fin \<noteq> []" "concat (map bytes pre) @ bytes fin = txt @ [NUL, c]" using cb ne by simp_all
  then obtain u where u: "bytes fin = u @ [c]" "concat (map bytes pre) @ u = txt @ [NUL]"
    by (cases "bytes fin" rule: rev_cases) auto
  show thesis
  proof (cases u rule: rev_cases)
    case (snoc t b)
    then have "b = NUL" "concat (map bytes pre) @ t = txt" using u(2) by auto
    then show thesis using together [OF s, of t] u(1) snoc s by simp
  next
    case Nil
    then have p: "concat (map bytes pre) = txt @ [NUL]" using u(2) by simp
    then obtain pre' s1 where s1: "pre = pre' @ [s1]" by (cases pre rule: rev_cases) auto
    then have "bytes s1 \<noteq> []" "concat (map bytes pre') @ bytes s1 = txt @ [NUL]" using p ne s by simp_all
    then obtain t where "bytes s1 = t @ [NUL]" "concat (map bytes pre') @ t = txt"
      by (cases "bytes s1" rule: rev_cases) auto
    then show thesis using apart [of pre' s1 fin t] s s1 u(1) Nil by simp
  qed
qed

lemma error_received:
  assumes "NUL \<notin> set txt" "\<forall>s. uf s" "c \<noteq> NUL" "in_pieces (txt @ [NUL, c]) segs"
  shows "if bytes (last segs) = [c] then recv_loop P uf segs [] = Inl (Err_dump ''message format error'')
    else \<exists>out. recv_loop P uf segs [] = Inr (- int (of_char c), None, out) \<and> concat out = txt"
proof -
  have ne: "\<forall>s \<in> set segs. bytes s \<noteq> []" using assms(4) by (auto simp: in_pieces_def)
  from assms(4,1) show ?thesis
  proof (cases rule: in_pieces_cases)
    case (together pre fin t)
    have "payload P fin c = Some (- int (of_char c), None)" using assms(3) by (simp add: payload_def)
    from recv_loop_delivered [OF _ _ together(2) this assms(2), of pre "[]"] together ne assms(1) show ?thesis by auto
  next
    case (apart pre s1 s2 t)
    with recv_loop_split [of pre t s1 uf P "[s2]" "[]"] ne assms(1,2) show ?thesis by auto
  qed
qed

lemma last_piece:
  assumes "in_pieces (txt @ [NUL, c]) segs" "NUL \<notin> set txt"
  shows "bytes (last segs) = [c] \<longleftrightarrow> length (bytes (last segs)) = 1"
  using assms by (cases rule: in_pieces_cases) auto

lemma error_in_pieces:
  assumes "NUL \<notin> set txt" "\<forall>s. uf s" "c \<noteq> NUL" "in_pieces (txt @ [NUL, c]) segs"
  shows "if length (bytes (last segs)) = 1 then recv_fd uf segs = Inl (Err_dump ''message format error'')
    else \<exists>out. recv_fd uf segs = Inr (- int (of_char c), out) \<and> concat out = txt"
  using error_received [OF assms, of "\<lambda>s. map_option (\<lambda>fd. (fd, None)) (rights s)"] last_piece [OF assms(4,1)]
  by (auto simp: recv_fd_def split: if_splits)

lemma fd_delivered:
  assumes "\<forall>s. uf s" "0 \<le> fd"
  shows "recv_fd uf [fd_msg cr fd] = Inr (fd, [])" "recv_ufd True uf [fd_msg (Some euid) fd] = Inr (fd, Some euid, [])"
proof -
  have s: "scan_status P (fd_msg cr fd) 0 2 None = Inr (0, Some r)" if "P (fd_msg cr fd) = Some r" for P r cr
    using scan_final [of "fd_msg cr fd" "[]" NUL P r] that assms(2) by (simp add: fd_msg_def payload_def eval_nat_numeral)
  have l: "length (bytes (fd_msg cr fd)) = 2" "bytes (fd_msg cr fd) \<noteq> []" for cr using assms(2) by (simp_all add: fd_msg_def)
  show "recv_fd uf [fd_msg cr fd] = Inr (fd, [])"
    using s [of "\<lambda>s. map_option (\<lambda>fd. (fd, None)) (rights s)" cr "(fd, None)"] l [of cr] assms(2)
    by (simp add: recv_fd_def) (simp add: fd_msg_def)
  show "recv_ufd True uf [fd_msg (Some euid) fd] = Inr (fd, Some euid, [])"
    using s [of "\<lambda>s. case (rights s, creds s) of (Some fd, Some u) \<Rightarrow> Some (fd, Some u) | _ \<Rightarrow> None" "Some euid" "(fd, Some euid)"]
      l [of "Some euid"] assms(2) by (simp add: recv_ufd_def) (simp add: fd_msg_def)
qed

lemma fd_missing:
  "recv_fd uf [\<lparr>bytes = [NUL, NUL], rights = None, creds = cr\<rparr>] = Inl (Err_dump ''status = 0 but no fd'')"
  "recv_ufd True uf [\<lparr>bytes = [NUL, NUL], rights = rt, creds = None\<rparr>] = Inl (Err_dump ''status = 0 but no fd'')"
  by (cases rt; simp add: recv_fd_def recv_ufd_def scan_status.simps)+



end
