(* ===== verification/OpenServer.thy ===== *)
theory OpenServer
  imports FdPass
begin

text \<open>
  The open server of \<^verbatim>\<open>ipc2\<close>: \<^verbatim>\<open>lib/bufargs.c\<close>, \<^verbatim>\<open>opend/cliargs.c\<close>, \<^verbatim>\<open>opend/request.c\<close> with the
  version of \<^verbatim>\<open>opend.fe\<close>, and its client, \<^verbatim>\<open>csopen\<close> of \<^verbatim>\<open>open.fe/open.c\<close> and \<^verbatim>\<open>open/open.c\<close>.
  \<^verbatim>\<open>open\<close> is a parameter (an error number or a descriptor), and so is \<^verbatim>\<open>strerror\<close>. Calling a
  logging function with a text as its format is \<open>Undef\<close> when the text has a percent sign.
\<close>

section \<open>Arguments\<close>

definition MAXARGC :: nat where "MAXARGC = 50"

definition white :: "char \<Rightarrow> bool" where
  "white c \<longleftrightarrow> c = SPACE \<or> c = CHR 0x09 \<or> c = NEWLINE"

text \<open>\<^verbatim>\<open>strtok\<close>: the next word and what follows the separator after it.\<close>

definition c_strtok :: "string \<Rightarrow> (string \<times> string) option" where
  "c_strtok s =
     (let t = dropWhile white s in
      if t = [] then None
      else let w = takeWhile (\<lambda>c. \<not> white c) t in Some (w, drop (length w + 1) t))"

lemma c_strtok_shorter: "c_strtok s = Some (w, r) \<Longrightarrow> length r < length s"
proof -
  assume a: "c_strtok s = Some (w, r)"
  let ?t = "dropWhile white s"
  have "?t \<noteq> []" "r = drop (length (takeWhile (\<lambda>c. \<not> white c) ?t) + 1) ?t"
    using a by (auto simp: c_strtok_def Let_def split: if_splits)
  then have "length r < length ?t" by (cases ?t) auto
  then show ?thesis using length_dropWhile_le [of white s] by simp
qed

text \<open>The words after the first; \<open>None\<close> when there is no room for them in \<^verbatim>\<open>argv\<close>.\<close>

function collect_args :: "nat \<Rightarrow> string \<Rightarrow> string list option" where
  "collect_args argc s =
     (case c_strtok s of
        None \<Rightarrow> Some []
      | Some (w, r) \<Rightarrow> if argc + 1 \<ge> MAXARGC - 1 then None else map_option (Cons w) (collect_args (argc + 1) r))"
  by pat_completeness auto
termination by (relation "measure (\<lambda>(argc, s). length s)") (auto simp: c_strtok_shorter)

declare collect_args.simps [simp del]

text \<open>
  \<open>None\<close> stands for -1. The first argument is the buffer itself, so it begins with the white
  space at the start of the buffer.
\<close>

definition buf_args :: "string \<Rightarrow> (string list \<Rightarrow> 'a option) \<Rightarrow> 'a option" where
  "buf_args buf optfunc =
     (case c_strtok buf of
        None \<Rightarrow> None
      | Some (w, r) \<Rightarrow>
          (case collect_args 0 r of None \<Rightarrow> None | Some args \<Rightarrow> optfunc ((takeWhile white buf @ w) # args)))"

section \<open>The server\<close>

definition CL_OPEN :: string where "CL_OPEN = ''open''"

record opend =
  errmsg :: string
  pathname :: string
  oflag :: int
  replies :: "(string \<times> int) list"
  sclosed :: "int list"

text \<open>
  \<^verbatim>\<open>cli_args\<close> on the arguments; \<^verbatim>\<open>errmsg\<close>, \<^verbatim>\<open>pathname\<close> and \<^verbatim>\<open>oflag\<close> are the result. The second
  component is the result of the C function.
\<close>

definition cli_args :: "opend \<Rightarrow> string list \<Rightarrow> opend \<times> int" where
  "cli_args s argv =
     (if length argv \<noteq> 3 \<or> argv ! 0 \<noteq> CL_OPEN then (s\<lparr>errmsg := ''usage: <pathname> <oflag>'' @ [NEWLINE]\<rparr>, -1)
      else (s\<lparr>pathname := argv ! 1, oflag := c_atoi (argv ! 2)\<rparr>, 0))"

definition parse_request :: "string \<Rightarrow> opend \<Rightarrow> opend \<times> int" where
  "parse_request buf s = (case buf_args buf (\<lambda>argv. Some (cli_args s argv)) of None \<Rightarrow> (s, -1) | Some r \<Rightarrow> r)"

text \<open>\<^verbatim>\<open>snprintf\<close> into a buffer of \<open>MAXLINE - 1\<close> bytes; \<^verbatim>\<open>%*.*s\<close> with width and precision \<open>n\<close>.\<close>

definition snprintf_msg :: "string \<Rightarrow> string" where
  "snprintf_msg s = take (MAXLINE - 2) s"

definition log_plain :: "string \<Rightarrow> unit res" where
  "log_plain s = (if CHR ''%'' \<in> set s then Inl (Undef ''log_msg: text used as a format'') else Inr ())"

text \<open>A reply is the text and the descriptor or error given to \<^verbatim>\<open>send_err\<close> or \<^verbatim>\<open>send_fd\<close>.\<close>

definition reply_err :: "opend \<Rightarrow> opend" where
  "reply_err s = s\<lparr>replies := replies s @ [(errmsg s, -1)]\<rparr>"

definition handle_request :: "(int \<Rightarrow> string) \<Rightarrow> (string \<Rightarrow> int \<Rightarrow> int + int) \<Rightarrow> bool \<Rightarrow> string \<Rightarrow> int \<Rightarrow> opend \<Rightarrow> opend res" where
  "handle_request strerr opn sendok buf uid s =
     (if last buf \<noteq> NUL
      then Inr (reply_err (s\<lparr>errmsg := snprintf_msg (''request from uid '' @ show_int uid @ '' not null terminated: '' @
             padl (length buf) (cstr_at buf 0) @ [NEWLINE])\<rparr>))
      else let (s, r) = parse_request (cstr_at buf 0) s in
        if r < 0 then (let s = reply_err s in bnd (log_plain (errmsg s)) (\<lambda>_. Inr s))
        else case opn (pathname s) (oflag s) of
          Inl e \<Rightarrow>
            let s = reply_err (s\<lparr>errmsg := snprintf_msg (''can't open '' @ pathname s @ '': '' @ strerr e @ [NEWLINE])\<rparr>)
            in bnd (log_plain (errmsg s)) (\<lambda>_. Inr s)
        | Inr newfd \<Rightarrow>
            if \<not> sendok then Inl (Log_sys ''send_fd error'')
            else Inr (s\<lparr>replies := replies s @ [([], newfd)], sclosed := sclosed s @ [newfd]\<rparr>))"

text \<open>The version of \<^verbatim>\<open>opend.fe\<close>, which has no user id and no log.\<close>

definition handle_request_fe :: "(int \<Rightarrow> string) \<Rightarrow> (string \<Rightarrow> int \<Rightarrow> int + int) \<Rightarrow> bool \<Rightarrow> string \<Rightarrow> opend \<Rightarrow> opend res" where
  "handle_request_fe strerr opn sendok buf s =
     (if last buf \<noteq> NUL
      then Inr (reply_err (s\<lparr>errmsg := snprintf_msg (''request not null terminated: '' @
             padl (length buf) (cstr_at buf 0) @ [NEWLINE])\<rparr>))
      else let (s, r) = parse_request (cstr_at buf 0) s in
        if r < 0 then Inr (reply_err s)
        else case opn (pathname s) (oflag s) of
          Inl e \<Rightarrow> Inr (reply_err (s\<lparr>errmsg := snprintf_msg (''can't open '' @ pathname s @ '': '' @ strerr e @ [NEWLINE])\<rparr>))
        | Inr newfd \<Rightarrow>
            if \<not> sendok then Inl (Err_sys ''send_fd error'')
            else Inr (s\<lparr>replies := replies s @ [([], newfd)], sclosed := sclosed s @ [newfd]\<rparr>))"

text \<open>The main loop of \<^verbatim>\<open>opend.fe\<close> on the results of its reads: an error or bytes, none at the end.\<close>

fun opend_fe_main :: "(int \<Rightarrow> string) \<Rightarrow> (string \<Rightarrow> int \<Rightarrow> int + int) \<Rightarrow> (int + string) list \<Rightarrow> opend \<Rightarrow> opend res" where
  "opend_fe_main strerr opn [] s = Inr s"
| "opend_fe_main strerr opn (Inl e # r) s = Inl (Err_sys ''read error on stream pipe'')"
| "opend_fe_main strerr opn (Inr buf # r) s =
     (if buf = [] then Inr s
      else bnd (handle_request_fe strerr opn True buf s) (opend_fe_main strerr opn r))"

section \<open>The client\<close>

text \<open>The request as sent; \<open>n\<close> is the size of the buffer for the flag.\<close>

definition csopen_request :: "nat \<Rightarrow> string \<Rightarrow> int \<Rightarrow> string res" where
  "csopen_request n name flag =
     (let buf = SPACE # show_int flag in
      if length buf + 1 > n then Inl (Undef ''csopen: buf overrun'')
      else Inr (CL_OPEN @ [SPACE] @ name @ buf @ [NUL]))"

text \<open>
  The two versions differ in the size of the buffer. \<open>conn\<close> tells whether the server could be
  reached (\<^verbatim>\<open>cli_conn\<close>) or started (\<^verbatim>\<open>fd_pipe\<close>, \<^verbatim>\<open>fork\<close>), \<open>wrote\<close> whether \<^verbatim>\<open>writev\<close> sent the
  whole request.
\<close>

definition csopen_with :: "nat \<Rightarrow> bool \<Rightarrow> bool \<Rightarrow> string \<Rightarrow> int \<Rightarrow> (string \<Rightarrow> seg list) \<Rightarrow> (int \<times> string list) res" where
  "csopen_with n conn wrote name flag server =
     (if \<not> conn then Inr (-1, [])
      else bnd (csopen_request n name flag) (\<lambda>req.
        if \<not> wrote then Inr (-1, []) else recv_fd (\<lambda>_. True) (server req)))"

definition csopen :: "bool \<Rightarrow> bool \<Rightarrow> string \<Rightarrow> int \<Rightarrow> (string \<Rightarrow> seg list) \<Rightarrow> (int \<times> string list) res" where
  "csopen = csopen_with 12"

definition csopen_fe :: "bool \<Rightarrow> bool \<Rightarrow> string \<Rightarrow> int \<Rightarrow> (string \<Rightarrow> seg list) \<Rightarrow> (int \<times> string list) res" where
  "csopen_fe = csopen_with 10"

section \<open>Facts\<close>

lemma c_strtok_word:
  assumes "w \<noteq> []" "\<forall>c \<in> set w. \<not> white c" "white c"
  shows "c_strtok (w @ c # r) = Some (w, r)" "c_strtok w = Some (w, [])"
proof -
  obtain a t where w: "w = a # t" "\<not> white a" using assms(1,2) by (cases w) auto
  have tw: "takeWhile (\<lambda>c. \<not> white c) (w @ c # r) = w" using assms(2,3) by (intro takeWhile_eq_append) auto
  have dw: "dropWhile white (w @ c # r) = w @ c # r" "dropWhile white w = w" using w by simp_all
  have tw2: "takeWhile (\<lambda>c. \<not> white c) w = w" using assms(2) by (intro takeWhile_eq_self) auto
  show "c_strtok (w @ c # r) = Some (w, r)" unfolding c_strtok_def dw Let_def tw by simp
  show "c_strtok w = Some (w, [])" unfolding c_strtok_def dw Let_def tw2 using assms(1) by simp
qed

definition plain_word :: "string \<Rightarrow> bool" where
  "plain_word w \<longleftrightarrow> w \<noteq> [] \<and> (\<forall>c \<in> set w. \<not> white c \<and> c \<noteq> NUL)"

lemma show_int_plain: "plain_word (show_int i)"
proof -
  have "\<not> white c \<and> c \<noteq> NUL" if "c_isdigit c" for c using that by (auto simp: white_def c_isdigit_def)
  then have "\<And>n c. c \<in> set (show_nat n) \<Longrightarrow> \<not> white c \<and> c \<noteq> NUL" using show_nat_isdigit by blast
  then show ?thesis by (auto simp: plain_word_def show_int_def white_def)
qed

lemma buf_args_open:
  assumes "plain_word name"
  shows "buf_args (CL_OPEN @ [SPACE] @ name @ SPACE # show_int i) f = f [CL_OPEN, name, show_int i]"
proof -
  have sp: "white SPACE" by (simp add: white_def)
  have o: "CL_OPEN \<noteq> []" "\<forall>c \<in> set CL_OPEN. \<not> white c" by (simp_all add: CL_OPEN_def white_def)
  have n: "name \<noteq> []" "\<forall>c \<in> set name. \<not> white c" using assms by (simp_all add: plain_word_def)
  have i: "show_int i \<noteq> []" "\<forall>c \<in> set (show_int i). \<not> white c" using show_int_plain [of i] by (simp_all add: plain_word_def)
  have "takeWhile white (CL_OPEN @ [SPACE] @ name @ SPACE # show_int i) = []" by (simp add: CL_OPEN_def white_def)
  moreover have "collect_args 0 (name @ SPACE # show_int i) = Some [name, show_int i]"
  proof -
    have "c_strtok [] = None" by (simp add: c_strtok_def)
    then have "collect_args 2 [] = Some []" by (simp add: collect_args.simps)
    then have "collect_args 1 (show_int i) = Some [show_int i]"
      using c_strtok_word(2) [OF i sp] by (simp add: collect_args.simps [of "Suc 0"] MAXARGC_def numeral_2_eq_2)
    then show ?thesis using c_strtok_word(1) [OF n sp] by (simp add: collect_args.simps [of 0] MAXARGC_def)
  qed
  ultimately show ?thesis using c_strtok_word(1) [OF o sp, of "name @ SPACE # show_int i"] by (simp add: buf_args_def)
qed

lemma c_atoi_show_int: "0 \<le> i \<Longrightarrow> i < 2 ^ 31 \<Longrightarrow> c_atoi (show_int i) = i"
  using c_atoi_padl [of "nat i" 0] by (simp add: show_int_def)

lemma length_show_nat_gt: "10 ^ k \<le> n \<Longrightarrow> k < length (show_nat n)"
proof (induction k arbitrary: n)
  case 0
  then show ?case by (simp add: show_nat.simps [of n])
next
  case (Suc k)
  then have "10 ^ k \<le> n div 10" by (simp add: less_eq_div_iff_mult_less_eq)
  moreover have "(10 :: nat) \<le> 10 ^ Suc k" by simp
  then have "\<not> n < 10" using Suc.prems by linarith
  ultimately show ?case using Suc.IH [of "n div 10"] by (simp add: show_nat.simps [of n])
qed

lemma length_show_int_ge: "10 ^ k \<le> i \<Longrightarrow> k < length (show_int i)"
proof -
  assume a: "10 ^ k \<le> i"
  then have "10 ^ k \<le> nat i" by (metis nat_mono nat_numeral nat_power_eq zero_le_numeral)
  moreover have "0 \<le> i" using a by (meson order_trans zero_le_numeral zero_le_power)
  ultimately show ?thesis using length_show_nat_gt [of k "nat i"] by (simp add: show_int_def)
qed

lemma parse_open_request:
  assumes "plain_word name" "0 \<le> flag" "flag < 2 ^ 31"
  shows "parse_request (CL_OPEN @ [SPACE] @ name @ SPACE # show_int flag) s = (s\<lparr>pathname := name, oflag := flag\<rparr>, 0)"
  unfolding parse_request_def buf_args_open [OF assms(1)] using assms by (simp add: cli_args_def c_atoi_show_int)

lemma parse_request_fixed:
  "parse_request buf s = (s', r) \<Longrightarrow> replies s' = replies s \<and> sclosed s' = sclosed s"
  by (auto simp: parse_request_def buf_args_def cli_args_def split: option.splits if_splits)

text \<open>The reply to a request, whatever the server logs.\<close>

definition good_reply :: "(string \<Rightarrow> int \<Rightarrow> int + int) \<Rightarrow> string \<Rightarrow> opend \<Rightarrow> opend \<Rightarrow> bool" where
  "good_reply opn buf s s' \<longleftrightarrow> (\<exists>txt n. replies s' = replies s @ [(txt, n)] \<and>
     (case parse_request (cstr_at buf 0) s of (t, r) \<Rightarrow>
        if last buf = NUL \<and> 0 \<le> r \<and> opn (pathname t) (oflag t) = Inr n
        then txt = [] \<and> sclosed s' = sclosed s @ [n]
        else n = -1 \<and> sclosed s' = sclosed s))"

lemma handle_request_good:
  assumes "\<forall>p f fd. opn p f = Inr fd \<longrightarrow> 0 \<le> fd"
  shows "handle_request strerr opn sendok buf uid s = Inr s' \<Longrightarrow> good_reply opn buf s s'"
    and "handle_request_fe strerr opn sendok buf s = Inr s' \<Longrightarrow> good_reply opn buf s s'"
proof -
  obtain t r where p: "parse_request (cstr_at buf 0) s = (t, r)" by (metis surj_pair)
  note f = parse_request_fixed [OF p]
  have neg: "opn q g \<noteq> Inr (-1)" for q g using assms by fastforce
  show "handle_request strerr opn sendok buf uid s = Inr s' \<Longrightarrow> good_reply opn buf s s'"
    using p f neg by (auto simp: good_reply_def handle_request_def reply_err_def Let_def bnd_Inr_iff split: if_splits sum.splits)
  show "handle_request_fe strerr opn sendok buf s = Inr s' \<Longrightarrow> good_reply opn buf s s'"
    using p f neg by (auto simp: good_reply_def handle_request_fe_def reply_err_def Let_def split: if_splits sum.splits)
qed

lemma handle_request_fe_returns: "\<exists>s'. handle_request_fe strerr opn True buf s = Inr s'"
  by (auto simp: handle_request_fe_def Let_def split: prod.splits sum.splits)

section \<open>Properties\<close>

text \<open>
  C32. Every request gets exactly one reply. \<^verbatim>\<open>handle_request\<close> of \<^verbatim>\<open>opend.fe\<close> always returns; both
  versions, when they return, have sent the descriptor and closed their own copy if the request
  is null-terminated, has three arguments of which the first is \<^verbatim>\<open>open\<close>, and the file can be
  opened; otherwise an error. A request without words or with more than 49 of them is answered
  with whatever text an earlier request has left in \<^verbatim>\<open>errmsg\<close>.
\<close>

theorem one_reply:
  assumes "\<forall>p f fd. opn p f = Inr fd \<longrightarrow> 0 \<le> fd"
  shows "(\<exists>s'. handle_request_fe strerr opn True buf s = Inr s' \<and> good_reply opn buf s s') \<and>
    (\<forall>s'. handle_request strerr opn True buf uid s = Inr s' \<longrightarrow> good_reply opn buf s s') \<and>
    (last buf = NUL \<and> buf_args (cstr_at buf 0) Some = None \<longrightarrow>
       handle_request_fe strerr opn True buf s = Inr (s\<lparr>replies := replies s @ [(errmsg s, -1)]\<rparr>))"
proof -
  have "parse_request (cstr_at buf 0) s = (s, -1)" if "buf_args (cstr_at buf 0) Some = None"
    using that by (auto simp: parse_request_def buf_args_def split: option.splits)
  then show ?thesis
    using handle_request_fe_returns [of strerr opn buf s] handle_request_good [OF assms]
    by (auto simp: handle_request_fe_def reply_err_def)
qed

definition new_opend :: opend where
  "new_opend = \<lparr>errmsg = [], pathname = [], oflag = 0, replies = [], sclosed = []\<rparr>"

theorem one_reply_witness:
  "handle_request_fe (\<lambda>_. []) (\<lambda>_ _. Inl 2) True [SPACE, NUL] (new_opend\<lparr>errmsg := ''can't open /root/secret''\<rparr>) =
    Inr (new_opend\<lparr>errmsg := ''can't open /root/secret'', replies := [(''can't open /root/secret'', -1)]\<rparr>)"
proof -
  have "buf_args (cstr_at [SPACE, NUL] 0) Some = None"
    by (simp add: cstr_at_def buf_args_def c_strtok_def white_def)
  then show ?thesis
    using one_reply [of "\<lambda>_ _. Inl 2" "\<lambda>_. []" "[SPACE, NUL]" "new_opend\<lparr>errmsg := ''can't open /root/secret''\<rparr>" 0]
    by (simp add: new_opend_def)
qed

text \<open>
  What is sent for a reply, and how it may arrive: a descriptor in one piece with its two bytes,
  an error in any pieces.
\<close>

definition reply_segs :: "string \<times> int \<Rightarrow> seg list" where
  "reply_segs r = (case r of (txt, n) \<Rightarrow> if n < 0 then snd (send_err (length txt) True n txt) else snd (send_fd True n))"

definition arrives :: "seg list \<Rightarrow> seg list \<Rightarrow> bool" where
  "arrives sent segs \<longleftrightarrow> (if rights (last sent) \<noteq> None then segs = sent else in_pieces (concat (map bytes sent)) segs)"

text \<open>
  C33. Opening a file through the server is opening it: for a path without white space,
  \<^verbatim>\<open>csopen\<close> returns the descriptor that the server's \<^verbatim>\<open>open\<close> returns for this path and flag, or
  prints the error message, which names the path, and returns -1, in whatever pieces the message
  arrives, unless a piece ends between its last two bytes, which ends the client in "message format
  error". A flag of nine digits or more overruns the buffer.
\<close>

theorem csopen_opens:
  assumes "plain_word name" "0 \<le> flag" "flag < 10 ^ 8" "\<forall>p f fd. opn p f = Inr fd \<longrightarrow> 0 \<le> fd" "\<forall>e. NUL \<notin> set (strerr e)"
    and "\<And>req s'. csopen_request 10 name flag = Inr req \<Longrightarrow> handle_request_fe strerr opn True req s = Inr s' \<Longrightarrow>
      arrives (reply_segs (last (replies s'))) (server req)"
  shows "(case opn name flag of
      Inr fd \<Rightarrow> csopen_fe True True name flag server = Inr (fd, [])
    | Inl e \<Rightarrow> \<exists>req. csopen_request 10 name flag = Inr req \<and>
        (if length (bytes (last (server req))) = 1
         then csopen_fe True True name flag server = Inl (Err_dump ''message format error'')
         else \<exists>out. csopen_fe True True name flag server = Inr (-1, out) \<and>
           concat out = take 4094 (''can't open '' @ name @ '': '' @ strerr e @ [NEWLINE]))) \<and>
    (10 ^ 8 \<le> flag' \<longrightarrow> csopen_fe True wrote name flag' server = Inl (Undef ''csopen: buf overrun''))"
    (is "?C \<and> _")
proof -
  let ?r = "CL_OPEN @ [SPACE] @ name @ SPACE # show_int flag" and ?m = "\<lambda>e. snprintf_msg (''can't open '' @ name @ '': '' @ strerr e @ [NEWLINE])"
  have "length (show_int flag) \<le> 8" using assms(2,3) length_show_nat_le [of "nat flag" 8] by (simp add: show_int_def)
  then have q: "csopen_request 10 name flag = Inr (?r @ [NUL])" by (simp add: csopen_request_def)
  have f31: "flag < 2 ^ 31" using assms(3) by simp
  have "NUL \<notin> set ?r" using assms(1) show_int_plain [of flag] by (auto simp: plain_word_def CL_OPEN_def)
  then have c: "cstr_at (?r @ [NUL]) 0 = ?r" using cstr_at_append [of 0 "[]" ?r "[]"] by simp
  let ?s = "s\<lparr>pathname := name, oflag := flag\<rparr>"
  have h: "handle_request_fe strerr opn True (?r @ [NUL]) s = (case opn name flag of
      Inl e \<Rightarrow> Inr (reply_err (?s\<lparr>errmsg := ?m e\<rparr>)) | Inr fd \<Rightarrow> Inr (?s\<lparr>replies := replies s @ [([], fd)], sclosed := sclosed s @ [fd]\<rparr>))"
    unfolding handle_request_fe_def c parse_open_request [OF assms(1,2) f31] by (simp add: Let_def split: sum.split)
  have cs: "csopen_fe True True name flag server = recv_fd (\<lambda>_. True) (server (?r @ [NUL]))" using q by (simp add: csopen_fe_def csopen_with_def)
  have "csopen_fe True wrote name flag' server = Inl (Undef ''csopen: buf overrun'')" if "10 ^ 8 \<le> flag'"
    using length_show_int_ge [of 8 flag'] that by (simp add: csopen_fe_def csopen_with_def csopen_request_def)
  moreover have ?C
  proof (cases "opn name flag")
    case (Inr fd)
    then have fd: "0 \<le> fd" using assms(4) by blast
    from assms(6) [OF q] h Inr have "server (?r @ [NUL]) = [fd_msg None fd]"
      using fd by (simp add: arrives_def reply_segs_def send_fd_def fd_msg_def)
    then show ?thesis using fd_delivered(1) [of "\<lambda>_. True" fd None] fd cs Inr by simp
  next
    case (Inl e)
    have "NUL \<notin> set (''can't open '' @ name @ '': '' @ strerr e @ [NEWLINE])" using assms(1,5) by (auto simp: plain_word_def)
    then have mn: "?m e \<noteq> []" "NUL \<notin> set (?m e)"
      unfolding snprintf_msg_def by (simp add: MAXLINE_def, meson in_set_takeD)
    have m4: "?m e = take 4094 (''can't open '' @ name @ '': '' @ strerr e @ [NEWLINE])" unfolding snprintf_msg_def MAXLINE_def by simp
    let ?c = "err_byte (-1)"
    have "in_pieces (?m e @ [NUL, ?c]) (server (?r @ [NUL]))"
      using assms(6) [OF q] h Inl mn(1) by (simp add: arrives_def reply_segs_def send_err_def send_fd_def fd_msg_def reply_err_def Let_def)
    note r = error_in_pieces [OF mn(2) TrueI [THEN allI] err_byte_value(1) this]
    have v: "int (of_char ?c) = 1" using err_byte_value(2) [of "-1"] by simp
    have "if length (bytes (last (server (?r @ [NUL])))) = 1
        then csopen_fe True True name flag server = Inl (Err_dump ''message format error'')
        else \<exists>out. csopen_fe True True name flag server = Inr (-1, out) \<and> concat out = ?m e"
      unfolding cs using r unfolding v by simp
    then show ?thesis unfolding Inl sum.case m4 by (intro exI [of _ "?r @ [NUL]"] conjI q)
  qed
  ultimately show ?thesis by blast
qed

theorem csopen_opens_witness:
  "csopen_fe True True ''notes'' 2 (\<lambda>_. [fd_msg None 7]) = Inr (7, [])"
proof -
  let ?opn = "\<lambda>p f. Inr (if p = ''notes'' \<and> f = 2 then 7 else 3)"
  have pl: "plain_word ''notes''" by (simp add: plain_word_def white_def)
  have a: "arrives (reply_segs ([], 7)) [fd_msg None 7]"
    by (simp add: arrives_def reply_segs_def send_fd_def fd_msg_def)
  have "arrives (reply_segs (last (replies s'))) [fd_msg None 7]"
    if "csopen_request 10 ''notes'' 2 = Inr req" "handle_request_fe (\<lambda>_. []) ?opn True req new_opend = Inr s'" for req s'
  proof -
    let ?r = "CL_OPEN @ [SPACE] @ ''notes'' @ SPACE # show_int 2"
    have r: "req = ?r @ [NUL]" using that(1) by (simp add: csopen_request_def split: if_splits)
    have "NUL \<notin> set ?r" using show_int_plain [of 2] by (auto simp: plain_word_def CL_OPEN_def)
    then have "cstr_at req 0 = ?r" using cstr_at_append [of 0 "[]" ?r "[]"] r by simp
    then have "s' = new_opend\<lparr>pathname := ''notes'', oflag := 2, replies := [([], 7)], sclosed := [7]\<rparr>"
      using that(2) parse_open_request [OF pl, of 2 new_opend] r unfolding handle_request_fe_def by (simp add: Let_def new_opend_def)
    then show ?thesis using a by simp
  qed
  then show ?thesis using csopen_opens [OF pl, of 2 ?opn "\<lambda>_. []" new_opend "\<lambda>_. [fd_msg None 7]"] by simp
qed

end
