(* ===== verification/OpenLoop.thy ===== *)
theory OpenLoop
  imports OpenServer
begin

text \<open>
  The loops of the open server: the table of clients (\<^verbatim>\<open>opend/client.c\<close>), \<^verbatim>\<open>loop\<close> with
  \<^verbatim>\<open>select\<close> (\<^verbatim>\<open>opend/loop.select.c\<close>) and with \<^verbatim>\<open>poll\<close> (\<^verbatim>\<open>opend/loop.poll.c\<close>). One round of a
  loop is a function of what the kernel reports; the function that handles a request is a
  parameter \<open>h\<close> with a state of its own.
\<close>

section \<open>The table of clients\<close>

text \<open>Pairs of descriptor and user id; the descriptor -1 marks an entry that is available.\<close>

type_synonym client = "int \<times> int"

definition NALLOC :: nat where "NALLOC = 10"

text \<open>\<open>junk\<close> is the user id in memory that is not initialised.\<close>

definition client_alloc :: "int \<Rightarrow> client list \<Rightarrow> client list" where
  "client_alloc junk cl = cl @ replicate NALLOC (-1, junk)"

fun find_entry :: "int \<Rightarrow> client list \<Rightarrow> nat option" where
  "find_entry fd [] = None"
| "find_entry fd (c # cl) = (if fst c = fd then Some 0 else map_option Suc (find_entry fd cl))"

text \<open>The second search after \<^verbatim>\<open>goto again\<close> cannot fail.\<close>

definition client_add :: "int \<Rightarrow> int \<Rightarrow> int \<Rightarrow> client list \<Rightarrow> (nat \<times> client list) res" where
  "client_add junk fd uid cl =
     (let cl = (if cl = [] then client_alloc junk cl else cl) in
      case find_entry (-1) cl of
        Some i \<Rightarrow> Inr (i, cl[i := (fd, uid)])
      | None \<Rightarrow>
          let cl = client_alloc junk cl in
          case find_entry (-1) cl of Some i \<Rightarrow> Inr (i, cl[i := (fd, uid)]) | None \<Rightarrow> Inl Diverges)"

definition client_del :: "int \<Rightarrow> client list \<Rightarrow> client list res" where
  "client_del fd cl = (case find_entry fd cl of
       Some i \<Rightarrow> Inr (cl[i := (-1, snd (cl ! i))])
     | None \<Rightarrow> Inl (Log_quit ''can't find client entry for fd %d''))"

section \<open>The loop with select\<close>

text \<open>What the kernel reports in one round.\<close>

record event =
  readable :: "int \<Rightarrow> bool"
  hungup :: "int \<Rightarrow> bool"
  accepted :: "int + client"
  received :: "int \<Rightarrow> int + string"

text \<open>\<open>maxi1\<close> is \<^verbatim>\<open>maxi + 1\<close>.\<close>

record 'st selloop =
  clients :: "client list"
  allset :: "int list"
  maxfd :: int
  maxi1 :: nat
  closed_fds :: "int list"
  handler :: 'st

definition select_start :: "int \<Rightarrow> 'st \<Rightarrow> 'st selloop" where
  "select_start listenfd st =
     \<lparr>clients = [], allset = [listenfd], maxfd = listenfd, maxi1 = 0, closed_fds = [], handler = st\<rparr>"

text \<open>\<open>FD_ISSET(fd, &rset)\<close>: \<^verbatim>\<open>select\<close> looks at the members of the set below \<open>maxfd + 1\<close>.\<close>

definition fd_isset :: "event \<Rightarrow> 'st selloop \<Rightarrow> int \<Rightarrow> bool" where
  "fd_isset e s fd \<longleftrightarrow> fd \<in> set (allset s) \<and> fd \<le> maxfd s \<and> readable e fd"

text \<open>The scan of the table from entry \<open>i\<close>; \<open>isset\<close> is \<^verbatim>\<open>rset\<close>, fixed for the round.\<close>

function select_scan :: "(string \<Rightarrow> int \<Rightarrow> int \<Rightarrow> 'st \<Rightarrow> 'st res) \<Rightarrow> (int \<Rightarrow> bool) \<Rightarrow> event \<Rightarrow> nat \<Rightarrow> 'st selloop \<Rightarrow> 'st selloop res" where
  "select_scan h isset e i s =
     (if i \<ge> maxi1 s then Inr s
      else let clifd = fst (clients s ! i) in
        if clifd < 0 \<or> \<not> isset clifd then select_scan h isset e (i + 1) s
        else case received e clifd of
          Inl err \<Rightarrow> Inl (Log_sys ''read error on fd %d'')
        | Inr buf \<Rightarrow>
            if buf = [] then
              (case client_del clifd (clients s) of
                 Inl x \<Rightarrow> Inl x
               | Inr cl \<Rightarrow> select_scan h isset e (i + 1)
                   (s\<lparr>clients := cl, allset := removeAll clifd (allset s), closed_fds := closed_fds s @ [clifd]\<rparr>))
            else (case h buf clifd (snd (clients s ! i)) (handler s) of
                 Inl x \<Rightarrow> Inl x
               | Inr st \<Rightarrow> select_scan h isset e (i + 1) (s\<lparr>handler := st\<rparr>)))"
  by pat_completeness auto
termination by (relation "measure (\<lambda>(h, isset, e, i, s). maxi1 s - i)") auto

declare select_scan.simps [simp del]

definition select_round :: "(string \<Rightarrow> int \<Rightarrow> int \<Rightarrow> 'st \<Rightarrow> 'st res) \<Rightarrow> int \<Rightarrow> int \<Rightarrow> event \<Rightarrow> 'st selloop \<Rightarrow> 'st selloop res" where
  "select_round h junk listenfd e s =
     (if fd_isset e s listenfd then
        (case accepted e of
           Inl err \<Rightarrow> Inl (Log_sys ''serv_accept error: %d'')
         | Inr (clifd, uid) \<Rightarrow>
             bnd (client_add junk clifd uid (clients s)) (\<lambda>(i, cl).
             Inr (s\<lparr>clients := cl, allset := clifd # allset s, maxfd := max clifd (maxfd s), maxi1 := max (i + 1) (maxi1 s)\<rparr>)))
      else select_scan h (fd_isset e s) e 0 s)"

section \<open>The loop with poll\<close>

record pollfd =
  p_fd :: int
  p_hup :: bool
  p_in :: bool

record 'st pollloop =
  pclients :: "client list"
  pollfds :: "pollfd list"
  numfd :: nat
  pclosed :: "int list"
  phandler :: 'st

definition no_pollfd :: pollfd where
  "no_pollfd = \<lparr>p_fd = -1, p_hup = False, p_in = False\<rparr>"

definition poll_start :: "int \<Rightarrow> int \<Rightarrow> 'st \<Rightarrow> 'st pollloop res" where
  "poll_start junk listenfd st =
     bnd (client_add junk listenfd 0 []) (\<lambda>(i, cl).
     Inr \<lparr>pclients = cl, pollfds = (replicate NALLOC no_pollfd)[0 := no_pollfd\<lparr>p_fd := listenfd\<rparr>],
          numfd = 1, pclosed = [], phandler = st\<rparr>)"

definition grow_pollfd :: "pollfd list \<Rightarrow> pollfd list" where
  "grow_pollfd pf = pf @ replicate NALLOC no_pollfd"

text \<open>\<^verbatim>\<open>poll\<close> sets \<^verbatim>\<open>revents\<close> of the first \<^verbatim>\<open>numfd\<close> entries.\<close>

definition do_poll :: "event \<Rightarrow> nat \<Rightarrow> pollfd list \<Rightarrow> pollfd list" where
  "do_poll e n pf = map (\<lambda>p. p\<lparr>p_hup := hungup e (p_fd p), p_in := readable e (p_fd p)\<rparr>) (take n pf) @ drop n pf"

definition poll_accept :: "int \<Rightarrow> event \<Rightarrow> 'st pollloop \<Rightarrow> 'st pollloop res" where
  "poll_accept junk e s =
     (if \<not> p_in (pollfds s ! 0) then Inr s
      else case accepted e of
        Inl err \<Rightarrow> Inl (Log_sys ''serv_accept error: %d'')
      | Inr (clifd, uid) \<Rightarrow>
          bnd (client_add junk clifd uid (pclients s)) (\<lambda>(i, cl).
          let pf = (if numfd s = length (pollfds s) then grow_pollfd (pollfds s) else pollfds s)
          in Inr (s\<lparr>pclients := cl, pollfds := pf[numfd s := no_pollfd\<lparr>p_fd := clifd\<rparr>], numfd := numfd s + 1\<rparr>)))"

definition poll_hungup :: "nat \<Rightarrow> 'st pollloop \<Rightarrow> 'st pollloop res" where
  "poll_hungup i s =
     (let fd = p_fd (pollfds s ! i) in
      bnd (client_del fd (pclients s)) (\<lambda>cl.
      Inr (s\<lparr>pclients := cl, pclosed := pclosed s @ [fd],
             pollfds := (if i + 1 < numfd s then (pollfds s)[i := pollfds s ! (numfd s - 1)] else pollfds s),
             numfd := numfd s - 1\<rparr>)))"

lemma poll_hungup_numfd: "poll_hungup i s = Inr s' \<Longrightarrow> numfd s' = numfd s - 1"
  by (auto simp: poll_hungup_def bnd_Inr_iff Let_def)

text \<open>The scan from entry \<open>i\<close>; after packing the array the same entry is looked at again.\<close>

function poll_scan :: "(string \<Rightarrow> int \<Rightarrow> int \<Rightarrow> 'st \<Rightarrow> 'st res) \<Rightarrow> event \<Rightarrow> nat \<Rightarrow> 'st pollloop \<Rightarrow> 'st pollloop res" where
  "poll_scan h e i s =
     (if i \<ge> numfd s then Inr s
      else let p = pollfds s ! i;
               gone = (case poll_hungup i s of
                   Inl x \<Rightarrow> Inl x
                 | Inr s' \<Rightarrow> poll_scan h e (if i + 1 < numfd s then i else i + 1) s')
        in if p_hup p then gone
        else if \<not> p_in p then poll_scan h e (i + 1) s
        else case received e (p_fd p) of
          Inl err \<Rightarrow> Inl (Log_sys ''read error on fd %d'')
        | Inr buf \<Rightarrow>
            if buf = [] then gone
            else if i \<ge> length (pclients s) then Inl (Undef ''client[i] outside the table'')
            else (case h buf (p_fd p) (snd (pclients s ! i)) (phandler s) of
                Inl x \<Rightarrow> Inl x
              | Inr st \<Rightarrow> poll_scan h e (i + 1) (s\<lparr>phandler := st\<rparr>)))"
  by pat_completeness auto
termination
  by (relation "measure (\<lambda>(h, e, i, s). 2 * numfd s - i)") (auto dest!: poll_hungup_numfd)

declare poll_scan.simps [simp del]

definition poll_round :: "(string \<Rightarrow> int \<Rightarrow> int \<Rightarrow> 'st \<Rightarrow> 'st res) \<Rightarrow> int \<Rightarrow> event \<Rightarrow> 'st pollloop \<Rightarrow> 'st pollloop res" where
  "poll_round h junk e s =
     bnd (poll_accept junk e (s\<lparr>pollfds := do_poll e (numfd s) (pollfds s)\<rparr>)) (poll_scan h e 1)"

section \<open>The table as a map\<close>

definition used :: "client list \<Rightarrow> client list" where
  "used cl = filter (\<lambda>c. fst c \<noteq> -1) cl"

definition conns :: "client list \<Rightarrow> int \<Rightarrow> int option" where
  "conns cl = map_of (used cl)"

definition table_ok :: "client list \<Rightarrow> bool" where
  "table_ok cl \<longleftrightarrow> distinct (map fst (used cl)) \<and> (\<forall>c \<in> set (used cl). 0 \<le> fst c)"

lemma used_append [simp]: "used (xs @ ys) = used xs @ used ys"
  by (simp add: used_def)

lemma used_Cons [simp]: "used (c # cl) = (if fst c = -1 then used cl else c # used cl)"
  by (simp add: used_def)

lemma used_Nil [simp]: "used [] = []"
  by (simp add: used_def)

lemma used_replicate [simp]: "used (replicate n (-1, u)) = []"
  by (simp add: used_def)

lemma find_entry_Some:
  "find_entry fd cl = Some i \<Longrightarrow> \<exists>pre u post. cl = pre @ (fd, u) # post \<and> length pre = i \<and> fd \<notin> fst ` set pre"
proof (induction cl arbitrary: i)
  case (Cons c cl)
  show ?case
  proof (cases "fst c = fd")
    case True
    then show ?thesis using Cons.prems by (intro exI [of _ "[]"] exI [of _ "snd c"] exI [of _ cl]) (cases c, auto)
  next
    case False
    then obtain j where j: "find_entry fd cl = Some j" "i = Suc j" using Cons.prems by auto
    from Cons.IH [OF j(1)] obtain pre u post where "cl = pre @ (fd, u) # post" "length pre = j" "fd \<notin> fst ` set pre" by blast
    then show ?thesis using False j(2) by (intro exI [of _ "c # pre"] exI [of _ u] exI [of _ post]) auto
  qed
qed simp

lemma find_entry_at: "fd \<notin> fst ` set pre \<Longrightarrow> find_entry fd (pre @ (fd, u) # post) = Some (length pre)"
  by (induction pre) auto

lemma find_entry_None: "find_entry fd cl = None \<Longrightarrow> fd \<notin> fst ` set cl"
  by (induction cl) (auto split: if_splits)

lemma client_add_used:
  assumes "table_ok cl" "0 \<le> fd" "fd \<notin> fst ` set (used cl)"
  shows "\<exists>i cl'. client_add junk fd uid cl = Inr (i, cl') \<and> table_ok cl' \<and> conns cl' = (conns cl)(fd \<mapsto> uid) \<and>
    set (map fst (used cl')) = insert fd (set (map fst (used cl))) \<and>
    i < length cl' \<and> length cl \<le> length cl' \<and> (\<forall>j < length cl'. j \<noteq> i \<longrightarrow> cl' ! j = (if j < length cl then cl ! j else (-1, junk)))"
proof -
  have *: "table_ok cl' \<and> conns cl' = (conns cl)(fd \<mapsto> uid) \<and> set (map fst (used cl')) = insert fd (set (map fst (used cl)))"
    if "cl0 = pre @ (-1, u) # post" "cl' = pre @ (fd, uid) # post" "used cl0 = used cl" for cl0 cl' pre u post
  proof -
    have u: "used cl = used pre @ used post" "used cl' = used pre @ (fd, uid) # used post"
      using that assms(2) by auto
    have "map_of (used pre) fd = None" using assms(3) by (simp add: u(1) map_of_eq_None_iff image_Un)
    then have "map_of (used pre @ (fd, uid) # used post) = (map_of (used pre @ used post))(fd \<mapsto> uid)"
      by (auto simp: map_add_def fun_eq_iff split: option.splits)
    then show ?thesis using assms u by (auto simp: table_ok_def conns_def)
  qed
  define cl0 where "cl0 = (if cl = [] then client_alloc junk cl else cl)"
  have c0: "used cl0 = used cl" "length cl \<le> length cl0" "\<And>j. j < length cl0 \<Longrightarrow> cl0 ! j = (if j < length cl then cl ! j else (-1, junk))"
    by (auto simp: cl0_def client_alloc_def)
  define cl1 where "cl1 = (if find_entry (-1) cl0 = None then client_alloc junk cl0 else cl0)"
  have c1: "used cl1 = used cl" "length cl \<le> length cl1" "\<And>j. j < length cl1 \<Longrightarrow> cl1 ! j = (if j < length cl then cl ! j else (-1, junk))"
    using c0 by (auto simp: cl1_def client_alloc_def nth_append)
  have "find_entry (-1) (client_alloc junk cl0) \<noteq> None"
    using find_entry_None [of "-1" "client_alloc junk cl0"] by (force simp: client_alloc_def NALLOC_def)
  then have "find_entry (-1) cl1 \<noteq> None" by (simp add: cl1_def)
  then obtain i where i: "find_entry (-1) cl1 = Some i" by blast
  then have a: "client_add junk fd uid cl = Inr (i, cl1[i := (fd, uid)])"
    by (auto simp: client_add_def cl1_def Let_def cl0_def [symmetric] split: option.splits if_splits)
  from find_entry_Some [OF i] obtain pre u post where p: "cl1 = pre @ (-1, u) # post" "length pre = i" by blast
  then have l: "cl1[i := (fd, uid)] = pre @ (fd, uid) # post" "i < length cl1" by (auto simp: list_update_append)
  have n: "\<forall>j < length (cl1[i := (fd, uid)]). j \<noteq> i \<longrightarrow> cl1[i := (fd, uid)] ! j = (if j < length cl then cl ! j else (-1, junk))"
    using c1(3) by simp
  show ?thesis
    using * [OF p(1) l(1) c1(1)] a n l(2) c1(2) by (intro exI [of _ i] exI [of _ "cl1[i := (fd, uid)]"]) simp
qed

lemma client_del_used:
  assumes "table_ok (pre @ (fd, u) # post)" "0 \<le> fd"
  shows "client_del fd (pre @ (fd, u) # post) = Inr (pre @ (-1, u) # post)"
proof -
  have "fd \<notin> fst ` set pre" using assms by (auto simp: table_ok_def used_def image_iff)
  then show ?thesis by (simp add: client_del_def find_entry_at)
qed

section \<open>One round of the loop with select\<close>

text \<open>The descriptors that are closed, the table afterwards, and the requests, in the order of the table.\<close>

definition closing :: "(int \<Rightarrow> bool) \<Rightarrow> event \<Rightarrow> int \<Rightarrow> bool" where
  "closing isset e fd \<longleftrightarrow> 0 \<le> fd \<and> isset fd \<and> received e fd = Inr []"

definition gone :: "(int \<Rightarrow> bool) \<Rightarrow> event \<Rightarrow> client list \<Rightarrow> int list" where
  "gone isset e cl = filter (closing isset e) (map fst cl)"

definition mark :: "(int \<Rightarrow> bool) \<Rightarrow> event \<Rightarrow> client \<Rightarrow> client" where
  "mark isset e c = (if closing isset e (fst c) then (-1, snd c) else c)"

definition request_of :: "(int \<Rightarrow> bool) \<Rightarrow> event \<Rightarrow> int \<Rightarrow> string option" where
  "request_of isset e fd = (if 0 \<le> fd \<and> isset fd
     then (case received e fd of Inl _ \<Rightarrow> None | Inr buf \<Rightarrow> if buf = [] then None else Some buf) else None)"

fun requests :: "(int \<Rightarrow> bool) \<Rightarrow> event \<Rightarrow> client list \<Rightarrow> (int \<times> int \<times> string) list" where
  "requests isset e [] = []"
| "requests isset e ((fd, u) # cl) =
     (case request_of isset e fd of None \<Rightarrow> requests isset e cl | Some buf \<Rightarrow> (fd, u, buf) # requests isset e cl)"

lemma request_of_Some:
  "request_of isset e fd = Some buf \<longleftrightarrow> 0 \<le> fd \<and> isset fd \<and> received e fd = Inr buf \<and> buf \<noteq> []"
  by (auto simp: request_of_def split: sum.splits)

lemma request_of_None: "\<not> (0 \<le> fd \<and> isset fd) \<or> received e fd = Inr [] \<Longrightarrow> request_of isset e fd = None"
  by (auto simp: request_of_def)

lemma requests_append: "requests isset e (xs @ ys) = requests isset e xs @ requests isset e ys"
  by (induct isset e xs rule: requests.induct) (auto split: option.splits)

fun run_requests :: "(string \<Rightarrow> int \<Rightarrow> int \<Rightarrow> 'st \<Rightarrow> 'st res) \<Rightarrow> (int \<times> int \<times> string) list \<Rightarrow> 'st \<Rightarrow> 'st res" where
  "run_requests h [] st = Inr st"
| "run_requests h ((fd, u, buf) # r) st = bnd (h buf fd u st) (run_requests h r)"

lemma gone_Nil [simp]: "gone isset e [] = []"
  by (simp add: gone_def)

lemma gone_Cons [simp]: "gone isset e ((fd, u) # cl) = (if closing isset e fd then fd # gone isset e cl else gone isset e cl)"
  by (simp add: gone_def)

lemma mark_pair: "mark isset e (fd, u) = (if closing isset e fd then (-1, u) else (fd, u))"
  by (simp add: mark_def)

lemma filter_removeAll: "filter (\<lambda>x. x \<notin> set xs) (removeAll y zs) = filter (\<lambda>x. x \<notin> set (y # xs)) zs"
  by (induction zs) auto

lemma mark_table_ok:
  "table_ok (xs @ (fd, u) # ys) \<Longrightarrow> table_ok (xs @ (-1, u) # ys)"
  by (auto simp: table_ok_def split: if_splits)

lemma select_scan_spec:
  assumes "clients s = done @ todo @ rest" "maxi1 s = length done + length todo" "table_ok (clients s)"
    and "\<forall>fd. isset fd \<longrightarrow> (\<exists>buf. received e fd = Inr buf)"
  shows "select_scan h isset e (length done) s =
    bnd (run_requests h (requests isset e todo) (handler s)) (\<lambda>st.
      Inr (s\<lparr>clients := done @ map (mark isset e) todo @ rest,
             allset := filter (\<lambda>fd. fd \<notin> set (gone isset e todo)) (allset s),
             closed_fds := closed_fds s @ gone isset e todo, handler := st\<rparr>))"
  using assms(1-3)
proof (induction todo arbitrary: s "done")
  case Nil
  then show ?case by (simp add: select_scan.simps)
next
  case (Cons c todo)
  obtain fd u where c: "c = (fd, u)" by (metis surj_pair)
  have at: "clients s ! length done = (fd, u)" "length done < maxi1 s" using Cons.prems(1,2) by (simp_all add: c)
  show ?case
  proof (cases "0 \<le> fd \<and> isset fd")
    case False
    then have ne: "\<not> closing isset e fd" by (auto simp: closing_def)
    have "select_scan h isset e (length done) s = select_scan h isset e (length (done @ [c])) s"
      using at False by (auto simp: select_scan.simps [of h isset e "length done"])
    also have "\<dots> = bnd (run_requests h (requests isset e todo) (handler s)) (\<lambda>st.
      Inr (s\<lparr>clients := (done @ [c]) @ map (mark isset e) todo @ rest,
             allset := filter (\<lambda>fd. fd \<notin> set (gone isset e todo)) (allset s),
             closed_fds := closed_fds s @ gone isset e todo, handler := st\<rparr>))"
      using Cons.prems by (intro Cons.IH) auto
    finally show ?thesis using False ne by (simp add: c mark_pair request_of_None)
  next
    case True
    then obtain buf where buf: "received e fd = Inr buf" using assms(4) by blast
    show ?thesis
    proof (cases "buf = []")
      case empty: True
      then have cl: "closing isset e fd" using True buf by (simp add: closing_def)
      let ?s = "s\<lparr>clients := done @ (-1, u) # todo @ rest, allset := removeAll fd (allset s), closed_fds := closed_fds s @ [fd]\<rparr>"
      have d: "client_del fd (clients s) = Inr (done @ (-1, u) # todo @ rest)"
        using client_del_used [of "done" fd u "todo @ rest"] Cons.prems(1,3) True by (simp add: c)
      have "select_scan h isset e (length done) s = select_scan h isset e (length (done @ [(-1, u)])) ?s"
        using at True buf empty d by (simp add: select_scan.simps [of h isset e "length done"])
      also have "\<dots> = bnd (run_requests h (requests isset e todo) (handler ?s)) (\<lambda>st.
        Inr (?s\<lparr>clients := (done @ [(-1, u)]) @ map (mark isset e) todo @ rest,
             allset := filter (\<lambda>fd. fd \<notin> set (gone isset e todo)) (allset ?s),
             closed_fds := closed_fds ?s @ gone isset e todo, handler := st\<rparr>))"
        using Cons.prems mark_table_ok [of "done" fd u "todo @ rest"] by (intro Cons.IH) (auto simp: c)
      finally show ?thesis using True buf empty cl
        by (simp add: c mark_pair filter_removeAll request_of_None)
    next
      case False
      then have ne: "\<not> closing isset e fd" using buf by (simp add: closing_def)
      have s: "select_scan h isset e (length done) s = bnd (h buf fd u (handler s)) (\<lambda>st.
          select_scan h isset e (length (done @ [c])) (s\<lparr>handler := st\<rparr>))"
        using at True buf False by (simp add: select_scan.simps [of h isset e "length done"] bnd_def split: sum.split)
      have "select_scan h isset e (length (done @ [c])) (s\<lparr>handler := st\<rparr>) =
        bnd (run_requests h (requests isset e todo) st) (\<lambda>st.
        Inr (s\<lparr>handler := st, clients := (done @ [c]) @ map (mark isset e) todo @ rest,
             allset := filter (\<lambda>fd. fd \<notin> set (gone isset e todo)) (allset s),
             closed_fds := closed_fds s @ gone isset e todo, handler := st\<rparr>))" for st
        using Cons.prems Cons.IH [of "s\<lparr>handler := st\<rparr>" "done @ [c]"] by simp
      moreover have "request_of isset e fd = Some buf" using True buf False by (simp add: request_of_Some)
      ultimately show ?thesis using s True buf False ne by (simp add: c mark_pair bnd_assoc)
    qed
  qed
qed

section \<open>Reachable states\<close>

text \<open>The kernel gives a new connection a descriptor that is not open.\<close>

definition event_ok :: "'st selloop \<Rightarrow> event \<Rightarrow> bool" where
  "event_ok s e \<longleftrightarrow> (\<forall>fd uid. accepted e = Inr (fd, uid) \<longrightarrow> 0 \<le> fd \<and> fd \<notin> set (allset s)) \<and>
     (\<forall>fd. readable e fd \<longrightarrow> (\<exists>buf. received e fd = Inr buf))"

inductive sel_reach :: "(string \<Rightarrow> int \<Rightarrow> int \<Rightarrow> 'st \<Rightarrow> 'st res) \<Rightarrow> int \<Rightarrow> int \<Rightarrow> 'st \<Rightarrow> 'st selloop \<Rightarrow> bool"
  for h junk listenfd st0 where
  sel_init: "sel_reach h junk listenfd st0 (select_start listenfd st0)"
| sel_step: "sel_reach h junk listenfd st0 s \<Longrightarrow> event_ok s e \<Longrightarrow> select_round h junk listenfd e s = Inr s' \<Longrightarrow>
    sel_reach h junk listenfd st0 s'"

definition sel_inv :: "int \<Rightarrow> 'st selloop \<Rightarrow> bool" where
  "sel_inv listenfd s \<longleftrightarrow> table_ok (clients s) \<and> 0 \<le> listenfd \<and> listenfd \<notin> fst ` set (used (clients s)) \<and>
     set (allset s) = insert listenfd (fst ` set (used (clients s))) \<and> (\<forall>fd \<in> set (allset s). fd \<le> maxfd s) \<and>
     maxi1 s \<le> length (clients s) \<and> (\<forall>j < length (clients s). maxi1 s \<le> j \<longrightarrow> fst (clients s ! j) = -1)"

lemma used_mark:
  "used (map (mark isset e) cl) = filter (\<lambda>c. \<not> closing isset e (fst c)) (used cl)"
  by (induction cl) (auto simp: mark_def closing_def)

lemma conns_filter:
  assumes "table_ok cl"
  shows "map_of (filter (\<lambda>c. P (fst c)) (used cl)) = (\<lambda>fd. if P fd then conns cl fd else None)"
proof -
  have "map_of (filter (\<lambda>c. P (fst c)) xs) fd = (if P fd then map_of xs fd else None)" for xs :: "client list" and fd
    by (induction xs) auto
  then show ?thesis by (simp add: conns_def fun_eq_iff)
qed

text \<open>The state after a round without a new connection, for the final state \<open>st\<close> of the handler.\<close>

definition served :: "event \<Rightarrow> 'st selloop \<Rightarrow> 'st \<Rightarrow> 'st selloop" where
  "served e s st = s\<lparr>clients := map (mark (fd_isset e s) e) (clients s),
     allset := filter (\<lambda>fd. fd \<notin> set (gone (fd_isset e s) e (clients s))) (allset s),
     closed_fds := closed_fds s @ gone (fd_isset e s) e (clients s), handler := st\<rparr>"

lemma select_round_serves:
  assumes "sel_inv l s" "event_ok s e" "\<not> fd_isset e s l"
  shows "select_round h junk l e s = bnd (run_requests h (requests (fd_isset e s) e (clients s)) (handler s)) (\<lambda>st. Inr (served e s st))"
proof -
  let ?todo = "take (maxi1 s) (clients s)" and ?rest = "drop (maxi1 s) (clients s)" and ?i = "fd_isset e s"
  have len: "maxi1 s = length ?todo" using assms(1) by (simp add: sel_inv_def)
  have r: "fst c = -1" if "c \<in> set ?rest" for c
  proof -
    from that obtain j where "j < length ?rest" "c = ?rest ! j" by (auto simp: in_set_conv_nth)
    then show ?thesis using assms(1) by (simp add: sel_inv_def)
  qed
  have neg: "requests ?i e cl = [] \<and> gone ?i e cl = [] \<and> map (mark ?i e) cl = cl" if "\<forall>c \<in> set cl. fst c = -1" for cl
    using that by (induct cl) (auto simp: mark_def closing_def request_of_None)
  have app: "requests ?i e (xs @ ys) = requests ?i e xs @ requests ?i e ys" "gone ?i e (xs @ ys) = gone ?i e xs @ gone ?i e ys" for xs ys
    by (simp_all add: requests_append gone_def)
  have nr: "requests ?i e ?rest = [] \<and> gone ?i e ?rest = [] \<and> map (mark ?i e) ?rest = ?rest" using r by (intro neg) blast
  have q: "requests ?i e (clients s) = requests ?i e ?todo" "gone ?i e (clients s) = gone ?i e ?todo"
    "map (mark ?i e) (clients s) = map (mark ?i e) ?todo @ ?rest"
    using app(1) [of ?todo ?rest] app(2) [of ?todo ?rest] map_append [of "mark ?i e" ?todo ?rest] nr by simp_all
  have "select_scan h ?i e (length ([] :: client list)) s = bnd (run_requests h (requests ?i e ?todo) (handler s)) (\<lambda>st.
      Inr (s\<lparr>clients := [] @ map (mark ?i e) ?todo @ ?rest, allset := filter (\<lambda>fd. fd \<notin> set (gone ?i e ?todo)) (allset s),
             closed_fds := closed_fds s @ gone ?i e ?todo, handler := st\<rparr>))"
    using assms(1,2) len by (intro select_scan_spec) (auto simp: sel_inv_def event_ok_def fd_isset_def)
  then show ?thesis using assms(3) q by (simp add: select_round_def served_def)
qed

lemma served_inv:
  assumes "sel_inv l s" "\<not> fd_isset e s l"
  shows "sel_inv l (served e s st)"
    "conns (clients (served e s st)) = (\<lambda>fd. if closing (fd_isset e s) e fd then None else conns (clients s) fd)"
proof -
  let ?i = "fd_isset e s" and ?cl = "clients s"
  have u: "used (map (mark ?i e) ?cl) = filter (\<lambda>c. \<not> closing ?i e (fst c)) (used ?cl)" by (rule used_mark)
  have t: "table_ok ?cl" using assms(1) by (simp add: sel_inv_def)
  then show "conns (clients (served e s st)) = (\<lambda>fd. if closing ?i e fd then None else conns ?cl fd)"
    using conns_filter [OF t, of "\<lambda>fd. \<not> closing ?i e fd"] by (auto simp: conns_def served_def u fun_eq_iff)
  have tm: "table_ok (map (mark ?i e) ?cl)" using t by (auto simp: table_ok_def u distinct_map_filter)
  have gl: "closing ?i e fd \<Longrightarrow> fd \<noteq> l" for fd using assms(2) by (auto simp: closing_def)
  have g: "fd \<in> set (gone ?i e ?cl) \<longleftrightarrow> closing ?i e fd" if "fd \<in> fst ` set (used ?cl)" for fd
    using that by (auto simp: gone_def used_def)
  have "l \<notin> set (gone ?i e ?cl)" using gl by (auto simp: gone_def)
  moreover have "fst ` {c \<in> set (used ?cl). \<not> closing ?i e (fst c)} = {fd \<in> fst ` set (used ?cl). \<not> closing ?i e fd}" by auto
  ultimately have "set (filter (\<lambda>fd. fd \<notin> set (gone ?i e ?cl)) (allset s)) = insert l (fst ` set (used (map (mark ?i e) ?cl)))"
    using assms(1) g by (auto simp: sel_inv_def u)
  then show "sel_inv l (served e s st)"
    using assms(1) tm by (auto simp: sel_inv_def served_def u mark_def)
qed

lemma select_round_accepts:
  assumes "sel_inv l s" "event_ok s e" "fd_isset e s l" "accepted e = Inr (fd, uid)"
  shows "\<exists>s'. select_round h junk l e s = Inr s' \<and> sel_inv l s' \<and>
    conns (clients s') = (conns (clients s))(fd \<mapsto> uid) \<and> handler s' = handler s"
proof -
  have fd: "0 \<le> fd" "fd \<notin> set (allset s)" using assms(2,4) by (auto simp: event_ok_def)
  then have "fd \<notin> fst ` set (used (clients s))" "fd \<noteq> l" using assms(1) by (auto simp: sel_inv_def)
  with client_add_used [of "clients s" fd junk uid] assms(1) fd(1) obtain i cl' where a:
    "client_add junk fd uid (clients s) = Inr (i, cl')" "table_ok cl'" "conns cl' = (conns (clients s))(fd \<mapsto> uid)"
    "fst ` set (used cl') = insert fd (fst ` set (used (clients s)))" "i < length cl'" "length (clients s) \<le> length cl'"
    "\<And>j. j < length cl' \<Longrightarrow> j \<noteq> i \<Longrightarrow> cl' ! j = (if j < length (clients s) then clients s ! j else (-1, junk))"
    by (auto simp: sel_inv_def)
  let ?s = "s\<lparr>clients := cl', allset := fd # allset s, maxfd := max fd (maxfd s), maxi1 := max (i + 1) (maxi1 s)\<rparr>"
  have "select_round h junk l e s = Inr ?s" using assms(3,4) a(1) by (simp add: select_round_def)
  moreover have "fst (cl' ! j) = -1" if "j < length cl'" "max (i + 1) (maxi1 s) \<le> j" for j
    using a(7) [of j] that assms(1) by (auto simp: sel_inv_def)
  then have "sel_inv l ?s" using assms(1) a fd \<open>fd \<noteq> l\<close> by (auto simp: sel_inv_def le_max_iff_disj)
  ultimately show ?thesis using a(3) by auto
qed

lemma sel_reach_inv:
  assumes "sel_reach h junk l st0 s" "0 \<le> l"
  shows "sel_inv l s"
  using assms(1)
proof induction
  case sel_init
  then show ?case using assms(2) by (simp add: sel_inv_def select_start_def table_ok_def)
next
  case (sel_step s e s')
  show ?case
  proof (cases "fd_isset e s l")
    case True
    then obtain fd uid where a: "accepted e = Inr (fd, uid)" using sel_step(3) by (auto simp: select_round_def split: sum.splits)
    show ?thesis using select_round_accepts [OF sel_step.IH sel_step(2) True a, of h junk] sel_step(3) by auto
  next
    case False
    have "bnd (run_requests h (requests (fd_isset e s) e (clients s)) (handler s)) (\<lambda>st. Inr (served e s st)) = Inr s'"
      using select_round_serves [OF sel_step.IH sel_step(2) False, of h junk] sel_step(3) by simp
    then show ?thesis using served_inv(1) [OF sel_step.IH False] by (auto simp: bnd_Inr_iff)
  qed
qed

lemma requests_mem:
  "(fd, u, buf) \<in> set (requests isset e cl) \<longleftrightarrow> (fd, u) \<in> set cl \<and> request_of isset e fd = Some buf"
  by (induct isset e cl rule: requests.induct) (auto split: option.splits)

lemma requests_fst: "set (map fst (requests isset e cl)) \<subseteq> {fd \<in> fst ` set (used cl). 0 \<le> fd}"
  by (force simp: requests_mem request_of_Some used_def)

lemma requests_distinct: "distinct (map fst (used cl)) \<Longrightarrow> distinct (map fst (requests isset e cl))"
proof (induct isset e cl rule: requests.induct)
  case (2 isset e fd u cl)
  show ?case
  proof (cases "request_of isset e fd")
    case None
    then show ?thesis using 2 by (simp split: if_splits)
  next
    case (Some buf)
    then have "fd \<noteq> -1" by (auto simp: request_of_Some)
    then show ?thesis using 2 Some requests_fst [of isset e cl] by auto
  qed
qed simp

lemma conns_mem: "table_ok cl \<Longrightarrow> conns cl fd = Some u \<longleftrightarrow> (fd, u) \<in> set cl \<and> 0 \<le> fd"
  by (auto simp: conns_def table_ok_def) (auto simp: used_def)

lemma requests_set:
  assumes "table_ok cl"
  shows "set (requests isset e cl) = {(fd, u, buf). conns cl fd = Some u \<and> isset fd \<and> received e fd = Inr buf \<and> buf \<noteq> []}"
  by (auto simp: requests_mem conns_mem [OF assms] request_of_Some)

section \<open>Properties\<close>

text \<open>
  C34. The loop with \<^verbatim>\<open>select\<close> keeps a correct table of its clients. In every reachable state a
  new connection is entered with its user id, in a free entry, and nothing else changes; otherwise
  each client with data gets its request handled exactly once, under the user id with which it
  connected, the clients that have closed their connection are removed, and the others stay.
\<close>

theorem select_loop_correct:
  assumes "sel_reach h junk l st0 s" "0 \<le> l" "event_ok s e"
  shows "if fd_isset e s l
    then (case accepted e of
        Inl err \<Rightarrow> select_round h junk l e s = Inl (Log_sys ''serv_accept error: %d'')
      | Inr (fd, uid) \<Rightarrow> \<exists>s'. select_round h junk l e s = Inr s' \<and> conns (clients s') = (conns (clients s))(fd \<mapsto> uid) \<and> handler s' = handler s)
    else \<exists>reqs. distinct (map fst reqs) \<and>
      set reqs = {(fd, u, buf). conns (clients s) fd = Some u \<and> readable e fd \<and> received e fd = Inr buf \<and> buf \<noteq> []} \<and>
      (case run_requests h reqs (handler s) of
         Inl x \<Rightarrow> select_round h junk l e s = Inl x
       | Inr st \<Rightarrow> \<exists>s'. select_round h junk l e s = Inr s' \<and> handler s' = st \<and>
           conns (clients s') = (\<lambda>fd. if readable e fd \<and> received e fd = Inr [] then None else conns (clients s) fd))"
proof (cases "fd_isset e s l")
  case True
  then show ?thesis using select_round_accepts [OF sel_reach_inv [OF assms(1,2)] assms(3) True, of _ _ h junk]
    by (auto simp: select_round_def split: sum.splits prod.splits)
next
  case False
  note inv = sel_reach_inv [OF assms(1,2)]
  let ?i = "fd_isset e s" and ?cl = "clients s"
  have t: "table_ok ?cl" using inv by (simp add: sel_inv_def)
  have i: "?i fd \<longleftrightarrow> readable e fd" if "conns ?cl fd = Some u" for fd u
  proof -
    have "fd \<in> fst ` set (used ?cl)" using that by (auto simp: conns_def dest: map_of_SomeD intro: rev_image_eqI)
    then show ?thesis using inv by (auto simp: fd_isset_def sel_inv_def)
  qed
  have "set (requests ?i e ?cl) = {(fd, u, buf). conns ?cl fd = Some u \<and> readable e fd \<and> received e fd = Inr buf \<and> buf \<noteq> []}"
    using requests_set [OF t, of ?i e] i by auto
  moreover have "conns ?cl fd = Some u \<Longrightarrow> 0 \<le> fd" for fd u using t by (auto simp: conns_def table_ok_def dest!: map_of_SomeD)
  then have "conns (clients (served e s st)) = (\<lambda>fd. if readable e fd \<and> received e fd = Inr [] then None else conns ?cl fd)" for st
    using served_inv(2) [OF inv False, of st] i by (auto simp: fun_eq_iff closing_def) (metis not_None_eq)+
  moreover have "handler (served e s st) = st" for st by (simp add: served_def)
  ultimately show ?thesis
    using False requests_distinct [of ?cl ?i e] t [unfolded table_ok_def] select_round_serves [OF inv assms(3) False, of h junk]
    by (auto split: sum.split intro!: exI [of _ "requests ?i e ?cl"])
qed

text \<open>Events in which one descriptor takes part, for concrete runs.\<close>

definition connects :: "int \<Rightarrow> int \<Rightarrow> int \<Rightarrow> event" where
  "connects l fd uid = \<lparr>readable = (\<lambda>x. x = l), hungup = (\<lambda>x. False), accepted = Inr (fd, uid), received = (\<lambda>x. Inr [])\<rparr>"

definition hangs_up :: "int \<Rightarrow> event" where
  "hangs_up fd = \<lparr>readable = (\<lambda>x. x = fd), hungup = (\<lambda>x. x = fd), accepted = Inl 0, received = (\<lambda>x. Inr [])\<rparr>"

definition sends :: "int \<Rightarrow> string \<Rightarrow> event" where
  "sends fd buf = \<lparr>readable = (\<lambda>x. x = fd), hungup = (\<lambda>x. False), accepted = Inl 0, received = (\<lambda>x. Inr buf)\<rparr>"

fun rounds :: "('e \<Rightarrow> 's \<Rightarrow> 's res) \<Rightarrow> 'e list \<Rightarrow> 's \<Rightarrow> 's res" where
  "rounds f [] s = Inr s"
| "rounds f (e # es) s = bnd (f e s) (rounds f es)"

text \<open>A handler that records the requests with the user ids they are attributed to.\<close>

definition recorder :: "string \<Rightarrow> int \<Rightarrow> int \<Rightarrow> (string \<times> int \<times> int) list \<Rightarrow> (string \<times> int \<times> int) list res" where
  "recorder buf fd uid st = Inr (st @ [(buf, fd, uid)])"

lemmas event_simps = connects_def hangs_up_def sends_def

lemma select_loop_correct_witness:
  "\<exists>s'. select_round recorder 0 3 (connects 3 5 100) (select_start 3 []) = Inr s' \<and> conns (clients s') 5 = Some 100"
  using select_loop_correct [of recorder 0 3 "[]" "select_start 3 []" "connects 3 5 100", OF sel_init]
  by (auto simp: event_ok_def event_simps select_start_def fd_isset_def)

lemma select_example:
  "\<exists>s. rounds (select_round recorder 0 3) [connects 3 5 ua, connects 3 6 ub, connects 3 7 uc, hangs_up 5, sends 7 ''x''] (select_start 3 [])
    = Inr s \<and> handler s = [(''x'', 7, uc)]"
  by (simp add: event_simps select_start_def select_round_def fd_isset_def select_scan.simps client_add_def client_del_def
      client_alloc_def NALLOC_def numeral_eq_Suc recorder_def Let_def)

lemma poll_example:
  "\<exists>s0 s. poll_start 0 3 [] = Inr s0 \<and>
    rounds (poll_round recorder 0) [connects 3 5 ua, connects 3 6 ub, connects 3 7 uc, hangs_up 5, sends 7 ''x''] s0
    = Inr s \<and> conns (pclients s) 7 = Some uc \<and> phandler s = [(''x'', 7, ua)]"
  by (simp add: event_simps poll_start_def poll_round_def do_poll_def poll_accept_def poll_scan.simps poll_hungup_def
      client_add_def client_del_def client_alloc_def NALLOC_def no_pollfd_def numeral_eq_Suc recorder_def Let_def conns_def)

text \<open>
  The two loops are not equivalent. Three clients connect, the first hangs up, and the third
  sends a request. The loop with \<^verbatim>\<open>select\<close> handles it under the user id of the third client. The loop
  with \<^verbatim>\<open>poll\<close> packs its array of descriptors but not the table of clients, and looks the user id up
  at the index in the array: it handles the request under the user id of the client that left,
  although the table still has the right one.
\<close>

theorem poll_loop_wrong_user:
  "let events = [connects 3 5 ua, connects 3 6 ub, connects 3 7 uc, hangs_up 5, sends 7 ''x''] in
    (\<exists>s. rounds (select_round recorder 0 3) events (select_start 3 []) = Inr s \<and> handler s = [(''x'', 7, uc)]) \<and>
    (\<exists>s0 s. poll_start 0 3 [] = Inr s0 \<and> rounds (poll_round recorder 0) events s0 = Inr s \<and>
       conns (pclients s) 7 = Some uc \<and> phandler s = [(''x'', 7, ua)])"
  unfolding Let_def using select_example [of ua ub uc] poll_example [of ua ub uc] by blast

end
