(* ===== verification/MemStream.thy ===== *)
theory MemStream
  imports CLib
begin

text \<open>
  \<^verbatim>\<open>exercises/fmemopen.c\<close>: streams on a buffer in memory. The functions that \<^verbatim>\<open>funopen\<close> registers
  are modelled one by one. Sizes and positions of type \<^verbatim>\<open>size_t\<close> are \<open>nat\<close>; where the code
  keeps them in an \<^verbatim>\<open>int\<close> the conversion is written out.
\<close>

unbundle bit_operations_syntax

section \<open>The program\<close>

record memstream =
  mbuf :: string
  rsize :: nat
  vsize :: nat
  curpos :: nat
  flags :: "32 word"

definition MS_READ :: "32 word" where "MS_READ = 0x01"
definition MS_WRITE :: "32 word" where "MS_WRITE = 0x02"
definition MS_APPEND :: "32 word" where "MS_APPEND = 0x04"
definition MS_TRUNCATE :: "32 word" where "MS_TRUNCATE = 0x08"
definition MS_MYBUF :: "32 word" where "MS_MYBUF = 0x10"

lemmas MS_defs = MS_READ_def MS_WRITE_def MS_APPEND_def MS_TRUNCATE_def MS_MYBUF_def

text \<open>Conversion to a 32 bit \<^verbatim>\<open>int\<close>.\<close>

definition int32 :: "int \<Rightarrow> int" where
  "int32 x = (x + 2 ^ 31) mod 2 ^ 32 - 2 ^ 31"

text \<open>The loop of \<^verbatim>\<open>type_to_flags\<close>.\<close>

fun type_flags :: "string \<Rightarrow> 32 word \<Rightarrow> 32 word" where
  "type_flags [] fl = fl"
| "type_flags (c # cs) fl =
     (if c = CHR ''r'' then if fl \<noteq> 0 then 0 else type_flags cs (fl OR MS_READ)
      else if c = CHR ''w'' then if fl \<noteq> 0 then 0 else type_flags cs (fl OR (MS_WRITE OR MS_TRUNCATE))
      else if c = CHR ''a'' then if fl \<noteq> 0 then 0 else type_flags cs (fl OR MS_APPEND)
      else if c = CHR ''+'' then if fl = 0 then 0 else type_flags cs (fl OR (MS_READ OR MS_WRITE))
      else if c = CHR ''b'' then if fl = 0 then 0 else type_flags cs fl
      else 0)"

definition type_to_flags :: "string \<Rightarrow> 32 word" where
  "type_to_flags type = type_flags type 0"

fun find_end :: "string \<Rightarrow> nat \<Rightarrow> nat" where
  "find_end buf 0 = 0"
| "find_end [] len = 0"
| "find_end (c # buf) (Suc len) = (if c = NUL then 0 else Suc (find_end buf len))"

text \<open>
  \<^verbatim>\<open>fmemopen\<close>: the value of \<^verbatim>\<open>errno\<close> or the stream. The two allocations and \<^verbatim>\<open>funopen\<close> may fail;
  \<open>fresh\<close> is the memory that \<^verbatim>\<open>malloc\<close> returns.
\<close>

definition fmemopen :: "bool \<Rightarrow> bool \<Rightarrow> bool \<Rightarrow> string \<Rightarrow> string option \<Rightarrow> nat \<Rightarrow> string \<Rightarrow> string + memstream" where
  "fmemopen alloc1 alloc2 funopen fresh buf sz type =
     (if sz = 0 then Inl ''EINVAL''
      else if \<not> alloc1 then Inl ''ENOMEM''
      else let fl = type_to_flags type in
        if fl = 0 then Inl ''EINVAL''
        else bnd
          (case buf of
             None \<Rightarrow>
               if fl AND (MS_READ OR MS_WRITE) \<noteq> MS_READ OR MS_WRITE then Inl ''EINVAL''
               else if \<not> alloc2 then Inl ''ENOMEM''
               else Inr \<lparr>mbuf = fresh, rsize = sz, vsize = 0, curpos = 0, flags = fl OR MS_MYBUF\<rparr>
           | Some b \<Rightarrow>
               Inr \<lparr>mbuf = b, rsize = sz, vsize = 0, curpos = (if fl AND MS_APPEND \<noteq> 0 then find_end b sz else 0), flags = fl\<rparr>)
          (\<lambda>ms. let ms = ms\<lparr>vsize := (if flags ms AND MS_APPEND \<noteq> 0 then curpos ms
                                      else if flags ms AND MS_TRUNCATE \<noteq> 0 then 0 else sz)\<rparr>
                in if \<not> funopen then Inl ''errno of funopen'' else Inr ms))"

definition mstream_read :: "nat \<Rightarrow> memstream \<Rightarrow> (int \<times> string \<times> memstream) res" where
  "mstream_read len ms =
     (if flags ms AND MS_READ = 0 then Inr (-1, [], ms)
      else if curpos ms \<ge> vsize ms then Inr (0, [], ms)
      else let nr = min len (vsize ms - curpos ms) in
        if curpos ms + nr > length (mbuf ms) then Inl (Undef ''memcpy outside the buffer'')
        else Inr (int nr, take nr (drop (curpos ms) (mbuf ms)), ms\<lparr>curpos := curpos ms + nr\<rparr>))"

definition poke :: "nat \<Rightarrow> string \<Rightarrow> string \<Rightarrow> string" where
  "poke i d b = take i b @ d @ drop (i + length d) b"

text \<open>Every byte that is stored must lie in the buffer: the \<^verbatim>\<open>memcpy\<close> as well as the null bytes.\<close>

definition copy_in :: "nat \<Rightarrow> string \<Rightarrow> memstream \<Rightarrow> memstream res" where
  "copy_in i d ms = (if i + length d \<le> length (mbuf ms) then Inr (ms\<lparr>mbuf := poke i d (mbuf ms)\<rparr>)
     else Inl (Undef ''memcpy outside the buffer''))"

definition store_nul :: "nat \<Rightarrow> memstream \<Rightarrow> memstream res" where
  "store_nul i ms = (if i < length (mbuf ms) then Inr (ms\<lparr>mbuf := (mbuf ms)[i := NUL]\<rparr>)
     else Inl (Undef ''null byte outside the buffer''))"

definition mstream_write :: "string \<Rightarrow> memstream \<Rightarrow> (int \<times> memstream) res" where
  "mstream_write data ms =
     (if flags ms AND (MS_APPEND OR MS_WRITE) = 0 then Inr (-1, ms)
      else let off = int32 (int (if flags ms AND MS_APPEND \<noteq> 0 then vsize ms else curpos ms)) in
        if off < 0 \<or> int (rsize ms) < off then Inl (Undef ''memcpy outside the buffer'')
        else let nw = min (length data) (rsize ms - nat off) in
          bnd (copy_in (nat off) (take nw data) ms) (\<lambda>ms.
          let ms = ms\<lparr>curpos := nat off + nw\<rparr> in
          bnd (if curpos ms > vsize ms
               then let ms = ms\<lparr>vsize := curpos ms\<rparr> in
                 if flags ms AND (MS_READ OR MS_WRITE) = MS_READ OR MS_WRITE \<and> vsize ms < rsize ms
                 then store_nul (vsize ms) ms else Inr ms
               else Inr ms) (\<lambda>ms.
          bnd (if flags ms AND (MS_WRITE OR MS_APPEND) \<noteq> 0 \<and> flags ms AND MS_READ = 0
               then if curpos ms < rsize ms then store_nul (curpos ms) ms
                 else store_nul (rsize ms - 1) ms
               else Inr ms) (\<lambda>ms.
          Inr (int nw, ms)))))"

definition mstream_seek :: "int \<Rightarrow> whence \<Rightarrow> memstream \<Rightarrow> int \<times> memstream" where
  "mstream_seek pos whence ms =
     (let off = int32 (case whence of SEEK_SET \<Rightarrow> pos | SEEK_END \<Rightarrow> int (vsize ms) + pos | SEEK_CUR \<Rightarrow> int (curpos ms) + pos) in
      if off < 0 \<or> off > int (vsize ms) then (-1, ms) else (off, ms\<lparr>curpos := nat off\<rparr>))"

text \<open>\<^verbatim>\<open>mstream_close\<close>: the result and whether the buffer is freed.\<close>

definition mstream_close :: "memstream \<Rightarrow> int \<times> bool" where
  "mstream_close ms = (0, flags ms AND MS_MYBUF \<noteq> 0)"

section \<open>A file of bounded size\<close>

text \<open>What a stream promises: bytes, a position, a capacity and three permissions.\<close>

record bfile =
  content :: string
  pos :: nat
  cap :: nat
  may_read :: bool
  may_write :: bool
  appends :: bool

definition b_read :: "nat \<Rightarrow> bfile \<Rightarrow> int \<times> string \<times> bfile" where
  "b_read n f = (if \<not> may_read f then (-1, [], f)
     else let d = take n (drop (pos f) (content f)) in (int (length d), d, f\<lparr>pos := pos f + length d\<rparr>))"

text \<open>Without permission to read, a null byte follows the data that was written.\<close>

definition b_write :: "string \<Rightarrow> bfile \<Rightarrow> int \<times> bfile" where
  "b_write data f = (if \<not> may_write f then (-1, f)
     else let i = (if appends f then length (content f) else pos f); d = take (cap f - i) data;
              c = poke i d (content f); j = i + length d
       in (int (length d), f\<lparr>pos := j, content := (if may_read f then c else if j < cap f then c[j := NUL] else c[cap f - 1 := NUL])\<rparr>))"

definition b_seek :: "int \<Rightarrow> whence \<Rightarrow> bfile \<Rightarrow> int \<times> bfile" where
  "b_seek p w f =
     (let i = (case w of SEEK_SET \<Rightarrow> p | SEEK_END \<Rightarrow> int (length (content f)) + p | SEEK_CUR \<Rightarrow> int (pos f) + p) in
      if 0 \<le> i \<and> i \<le> int (length (content f)) then (i, f\<lparr>pos := nat i\<rparr>) else (-1, f))"

datatype mop = Read nat | Write string | Seek int whence

datatype mres = Got int string | Wrote int | At int

fun m_op :: "mop \<Rightarrow> memstream \<Rightarrow> (mres \<times> memstream) res" where
  "m_op (Read n) ms = bnd (mstream_read n ms) (\<lambda>(r, d, ms). Inr (Got r d, ms))"
| "m_op (Write d) ms = bnd (mstream_write d ms) (\<lambda>(r, ms). Inr (Wrote r, ms))"
| "m_op (Seek p w) ms = (case mstream_seek p w ms of (r, ms) \<Rightarrow> Inr (At r, ms))"

fun b_op :: "mop \<Rightarrow> bfile \<Rightarrow> mres \<times> bfile" where
  "b_op (Read n) f = (case b_read n f of (r, d, f) \<Rightarrow> (Got r d, f))"
| "b_op (Write d) f = (case b_write d f of (r, f) \<Rightarrow> (Wrote r, f))"
| "b_op (Seek p w) f = (case b_seek p w f of (r, f) \<Rightarrow> (At r, f))"

fun m_run :: "mop list \<Rightarrow> memstream \<Rightarrow> (mres list \<times> memstream) res" where
  "m_run [] ms = Inr ([], ms)"
| "m_run (x # xs) ms = bnd (m_op x ms) (\<lambda>(r, ms). bnd (m_run xs ms) (\<lambda>(rs, ms). Inr (r # rs, ms)))"

fun b_run :: "mop list \<Rightarrow> bfile \<Rightarrow> mres list \<times> bfile" where
  "b_run [] f = ([], f)"
| "b_run (x # xs) f = (case b_op x f of (r, f) \<Rightarrow> case b_run xs f of (rs, f) \<Rightarrow> (r # rs, f))"

definition file_of :: "memstream \<Rightarrow> bfile" where
  "file_of ms = \<lparr>content = take (vsize ms) (mbuf ms), pos = curpos ms, cap = rsize ms,
     may_read = (flags ms AND MS_READ \<noteq> 0), may_write = (flags ms AND (MS_APPEND OR MS_WRITE) \<noteq> 0),
     appends = (flags ms AND MS_APPEND \<noteq> 0)\<rparr>"

definition ms_inv :: "memstream \<Rightarrow> bool" where
  "ms_inv ms \<longleftrightarrow> curpos ms \<le> vsize ms \<and> vsize ms \<le> rsize ms \<and> length (mbuf ms) = rsize ms \<and> 0 < rsize ms \<and> rsize ms < 2 ^ 31"

text \<open>The amounts in \<^verbatim>\<open>fseek\<close> are taken as an \<^verbatim>\<open>int\<close>.\<close>

fun seek_ok :: "mop \<Rightarrow> bool" where
  "seek_ok (Seek p w) \<longleftrightarrow> - (2 ^ 31) \<le> p \<and> p < 2 ^ 31"
| "seek_ok _ \<longleftrightarrow> True"

section \<open>Facts\<close>

lemma int32_id: "- (2 ^ 31) \<le> x \<Longrightarrow> x < 2 ^ 31 \<Longrightarrow> int32 x = x"
  by (simp add: int32_def)

lemma int32_large: "2 ^ 31 \<le> x \<Longrightarrow> x < 2 ^ 32 \<Longrightarrow> int32 x < 0"
proof -
  assume x: "2 ^ 31 \<le> x" "x < 2 ^ 32"
  then have "(x + 2 ^ 31) mod 2 ^ 32 = (x + 2 ^ 31 - 2 ^ 32) mod 2 ^ 32" by (intro mod_pos_geq) auto
  also have "\<dots> = x + 2 ^ 31 - 2 ^ 32" using x by (intro mod_pos_pos_trivial) auto
  finally show ?thesis using x(2) by (simp add: int32_def)
qed

lemma length_poke: "i + length d \<le> length b \<Longrightarrow> length (poke i d b) = length b"
  by (simp add: poke_def)

lemma take_poke:
  assumes "i \<le> v" "i + length d \<le> length b" "v \<le> length b"
  shows "take (max v (i + length d)) (poke i d b) = poke i d (take v b)"
proof -
  have "length (take i b) = i" "max v (i + length d) - (i + length d) = v - (i + length d)" "i + length d \<le> max v (i + length d)"
    using assms by auto
  moreover have "take i (take v b) = take i b" using assms(1) by (simp add: min_def)
  ultimately show ?thesis by (simp add: poke_def drop_take add.commute)
qed

lemma read_refines:
  assumes "ms_inv ms"
  shows "\<exists>r d ms'. mstream_read n ms = Inr (r, d, ms') \<and> ms_inv ms' \<and> b_read n (file_of ms) = (r, d, file_of ms')"
proof (cases "flags ms AND MS_READ = 0 \<or> vsize ms \<le> curpos ms")
  case True
  then show ?thesis using assms by (auto simp: mstream_read_def b_read_def file_of_def)
next
  case False
  let ?nr = "min n (vsize ms - curpos ms)"
  have le: "curpos ms + ?nr \<le> length (mbuf ms)" "curpos ms + ?nr \<le> vsize ms" using assms False by (auto simp: ms_inv_def)
  have d: "take n (drop (curpos ms) (take (vsize ms) (mbuf ms))) = take ?nr (drop (curpos ms) (mbuf ms))"
    by (simp add: drop_take)
  have l: "length (take ?nr (drop (curpos ms) (mbuf ms))) = ?nr" using le by simp
  have "mstream_read n ms = Inr (int ?nr, take ?nr (drop (curpos ms) (mbuf ms)), ms\<lparr>curpos := curpos ms + ?nr\<rparr>)"
    unfolding mstream_read_def Let_def using False le by simp
  moreover have "b_read n (file_of ms) = (int ?nr, take ?nr (drop (curpos ms) (mbuf ms)), file_of (ms\<lparr>curpos := curpos ms + ?nr\<rparr>))"
    unfolding b_read_def Let_def file_of_def bfile.simps memstream.simps d l using False by simp
  ultimately show ?thesis using assms le by (auto simp: ms_inv_def)
qed

lemma RW_READ: "fl AND (MS_READ OR MS_WRITE) = MS_READ OR MS_WRITE \<Longrightarrow> fl AND MS_READ \<noteq> 0"
proof
  assume a: "fl AND (MS_READ OR MS_WRITE) = MS_READ OR MS_WRITE" "fl AND MS_READ = 0"
  have "(MS_READ OR MS_WRITE) AND MS_READ = MS_READ" by (simp add: MS_defs)
  then have "fl AND MS_READ = (fl AND (MS_READ OR MS_WRITE)) AND MS_READ" by (simp only: and.assoc)
  also have "\<dots> = MS_READ" using a(1) by (simp add: MS_defs)
  finally show False using a(2) by (simp add: MS_defs)
qed

text \<open>What a write leaves in the buffer: the data, and a null byte in some cases.\<close>

definition write_buf :: "nat \<Rightarrow> string \<Rightarrow> memstream \<Rightarrow> string" where
  "write_buf i d ms =
     (let b = poke i d (mbuf ms); j = i + length d in
      if flags ms AND MS_READ = 0 then b[(if j < rsize ms then j else rsize ms - 1) := NUL]
      else if vsize ms < j \<and> flags ms AND (MS_READ OR MS_WRITE) = MS_READ OR MS_WRITE \<and> j < rsize ms then b[j := NUL]
      else b)"

lemma write_eq:
  assumes "flags ms AND (MS_APPEND OR MS_WRITE) \<noteq> 0" "i = (if flags ms AND MS_APPEND \<noteq> 0 then vsize ms else curpos ms)"
    and "i \<le> rsize ms" "rsize ms < 2 ^ 31" "length (mbuf ms) = rsize ms" "0 < rsize ms"
  shows "mstream_write d ms =
    (let d = take (rsize ms - i) d; j = i + length d in
     Inr (int (length d), ms\<lparr>mbuf := write_buf i d ms, curpos := j, vsize := max (vsize ms) j\<rparr>))"
proof -
  have o: "int32 (int i) = int i" using assms(3,4) by (intro int32_id) auto
  have w: "flags ms AND (MS_WRITE OR MS_APPEND) \<noteq> 0" using assms(1) by (simp add: or.commute)
  define nw where "nw = min (length d) (rsize ms - i)"
  have d: "take nw d = take (rsize ms - i) d" "length (take (rsize ms - i) d) = nw" by (simp_all add: nw_def min_def)
  have l: "i + nw \<le> rsize ms" "length (take (rsize ms - i) d) = nw" using assms(3) by (auto simp: nw_def)
  show ?thesis
    unfolding mstream_write_def Let_def assms(2) [symmetric] o nat_int nw_def [symmetric] d write_buf_def copy_in_def
    using assms(1,3,5,6) w RW_READ [of "flags ms"] l
    by (cases "vsize ms < i + nw"; cases "flags ms AND MS_READ = 0"; cases "i + nw < rsize ms")
      (simp_all add: max_def store_nul_def length_poke)
qed

lemma b_write_eq:
  assumes "may_write f" "i = (if appends f then length (content f) else pos f)" "d' = take (cap f - i) d"
  shows "b_write d f = (int (length d'), f\<lparr>pos := i + length d', content := (let c = poke i d' (content f); j = i + length d' in
    if may_read f then c else if j < cap f then c[j := NUL] else c[cap f - 1 := NUL])\<rparr>)"
  unfolding assms(2,3) using assms(1) by (simp add: b_write_def Let_def)

lemma write_refines:
  assumes "ms_inv ms"
  shows "\<exists>r ms'. mstream_write d ms = Inr (r, ms') \<and> ms_inv ms' \<and> b_write d (file_of ms) = (r, file_of ms')"
proof (cases "flags ms AND (MS_APPEND OR MS_WRITE) = 0")
  case True
  then show ?thesis using assms by (auto simp: mstream_write_def b_write_def file_of_def)
next
  case False
  define i where "i = (if flags ms AND MS_APPEND \<noteq> 0 then vsize ms else curpos ms)"
  have i: "i \<le> vsize ms" "i \<le> rsize ms" "rsize ms < 2 ^ 31" using assms by (auto simp: ms_inv_def i_def)
  define d' where "d' = take (rsize ms - i) d"
  define v where "v = max (vsize ms) (i + length d')"
  have l: "i + length d' \<le> rsize ms" "length (mbuf ms) = rsize ms" "vsize ms \<le> rsize ms" "0 < rsize ms"
    using assms i by (auto simp: ms_inv_def d'_def)
  let ?ms = "ms\<lparr>mbuf := write_buf i d' ms, curpos := i + length d', vsize := v\<rparr>"
  have w: "mstream_write d ms = Inr (int (length d'), ?ms)"
    using write_eq [OF False i_def i(2,3) l(2,4), of d] by (simp add: d'_def v_def Let_def)
  have lb: "length (write_buf i d' ms) = rsize ms" using l by (simp add: write_buf_def Let_def length_poke)
  have t: "take v (poke i d' (mbuf ms)) = poke i d' (take (vsize ms) (mbuf ms))"
    unfolding v_def using l i(1) by (intro take_poke) auto
  have lp: "length (poke i d' (take (vsize ms) (mbuf ms))) \<le> v" unfolding t [symmetric] by simp
  have vj: "v = i + length d'" if "vsize ms < i + length d'" using that by (simp add: v_def)
  have tj: "take (i + length d') (poke i d' (mbuf ms)) = poke i d' (take (vsize ms) (mbuf ms))" if "vsize ms < i + length d'"
    using t vj [OF that] by simp
  have c: "take v (write_buf i d' ms) = (let c = poke i d' (take (vsize ms) (mbuf ms)); j = i + length d' in
      if flags ms AND MS_READ \<noteq> 0 then c else if j < rsize ms then c[j := NUL] else c[rsize ms - 1 := NUL])"
    using lp vj tj by (auto simp: write_buf_def Let_def take_update_swap t list_update_beyond)
  have fi: "(if appends (file_of ms) then length (content (file_of ms)) else pos (file_of ms)) = i"
    using l by (simp add: file_of_def i_def)
  have F: "may_write (file_of ms)" "d' = take (cap (file_of ms) - i) d" using False by (simp_all add: file_of_def d'_def)
  have "b_write d (file_of ms) = (int (length d'), file_of ?ms)"
    unfolding b_write_eq [OF F(1) fi [symmetric] F(2)] by (simp add: file_of_def c Let_def)
  moreover have "ms_inv ?ms" using assms l lb by (auto simp: ms_inv_def v_def)
  ultimately show ?thesis using w by blast
qed

lemma seek_refines:
  assumes "ms_inv ms" "- (2 ^ 31) \<le> p" "p < 2 ^ 31"
  shows "\<exists>r ms'. mstream_seek p w ms = (r, ms') \<and> ms_inv ms' \<and> b_seek p w (file_of ms) = (r, file_of ms')"
proof -
  define i where "i = (case w of SEEK_SET \<Rightarrow> p | SEEK_END \<Rightarrow> int (vsize ms) + p | SEEK_CUR \<Rightarrow> int (curpos ms) + p)"
  have r: "- (2 ^ 31) \<le> i" "i < 2 ^ 32" "vsize ms < 2 ^ 31" using assms by (auto simp: i_def ms_inv_def split: whence.split)
  have c: "length (take (vsize ms) (mbuf ms)) = vsize ms" using assms(1) by (simp add: ms_inv_def)
  have "0 \<le> i \<and> i \<le> int (vsize ms) \<Longrightarrow> int32 i = i" using r(3) by (intro int32_id) auto
  moreover have "int32 i < 0 \<or> int32 i > int (vsize ms)" if "\<not> (0 \<le> i \<and> i \<le> int (vsize ms))"
    using that r int32_id [of i] int32_large [of i] by (cases "i < 2 ^ 31") auto
  ultimately have "int32 i < 0 \<or> int32 i > int (vsize ms) \<longleftrightarrow> \<not> (0 \<le> i \<and> i \<le> int (vsize ms))"
    "0 \<le> i \<and> i \<le> int (vsize ms) \<Longrightarrow> int32 i = i" by auto
  moreover have "b_seek p w (file_of ms) = (if 0 \<le> i \<and> i \<le> int (vsize ms) then (i, (file_of ms)\<lparr>pos := nat i\<rparr>) else (-1, file_of ms))"
    using c by (cases w) (simp_all add: b_seek_def file_of_def i_def Let_def)
  ultimately show ?thesis using assms(1)
    by (auto simp: mstream_seek_def file_of_def i_def [symmetric] ms_inv_def Let_def)
qed

lemma op_refines:
  assumes "ms_inv ms" "seek_ok x"
  shows "\<exists>r ms'. m_op x ms = Inr (r, ms') \<and> ms_inv ms' \<and> b_op x (file_of ms) = (r, file_of ms')"
proof (cases x)
  case (Read n)
  with read_refines [OF assms(1), of n] show ?thesis by force
next
  case (Write d)
  with write_refines [OF assms(1), of d] show ?thesis by force
next
  case (Seek p w)
  with seek_refines [OF assms(1), of p w] assms(2) show ?thesis by force
qed

lemma run_refines:
  "ms_inv ms \<Longrightarrow> \<forall>x \<in> set xs. seek_ok x \<Longrightarrow>
    \<exists>rs ms'. m_run xs ms = Inr (rs, ms') \<and> ms_inv ms' \<and> b_run xs (file_of ms) = (rs, file_of ms')"
proof (induction xs arbitrary: ms)
  case (Cons x xs)
  obtain r ms' where x: "m_op x ms = Inr (r, ms')" "ms_inv ms'" "b_op x (file_of ms) = (r, file_of ms')"
    using op_refines Cons.prems by fastforce
  show ?case using Cons.IH [OF x(2)] Cons.prems(2) x by fastforce
qed simp

lemma type_flags_rest:
  "fl \<noteq> 0 \<Longrightarrow> type_flags cs fl = (if set cs \<subseteq> {CHR ''+'', CHR ''b''} then fl OR (if CHR ''+'' \<in> set cs then MS_READ OR MS_WRITE else 0) else 0)"
proof (induction cs arbitrary: fl)
  case (Cons c cs)
  have "fl OR (MS_READ OR MS_WRITE) \<noteq> 0" using Cons.prems by (simp add: or_eq_0_iff)
  moreover have "(fl OR (MS_READ OR MS_WRITE)) OR (MS_READ OR MS_WRITE) = fl OR (MS_READ OR MS_WRITE)" by (simp add: or.assoc)
  ultimately show ?case using Cons by auto
qed simp

text \<open>The mode of a stream: the letter, and whether a plus sign follows.\<close>

definition mode_flags :: "char \<Rightarrow> bool \<Rightarrow> 32 word" where
  "mode_flags c upd = (if c = CHR ''r'' then MS_READ else if c = CHR ''w'' then MS_WRITE OR MS_TRUNCATE else MS_APPEND) OR
     (if upd then MS_READ OR MS_WRITE else 0)"

text \<open>What the code accepts: a letter, then any number of plus signs and letters \<^verbatim>\<open>b\<close>.\<close>

fun accepted :: "string \<Rightarrow> bool" where
  "accepted [] = False"
| "accepted (c # cs) = (c \<in> {CHR ''r'', CHR ''w'', CHR ''a''} \<and> set cs \<subseteq> {CHR ''+'', CHR ''b''})"

lemma type_to_flags_mode:
  "type_to_flags type = (if accepted type then mode_flags (hd type) (CHR ''+'' \<in> set (tl type)) else 0)"
proof (cases type)
  case (Cons c cs)
  have "MS_READ \<noteq> 0" "MS_WRITE OR MS_TRUNCATE \<noteq> 0" "MS_APPEND \<noteq> 0" by (simp_all add: MS_defs)
  then show ?thesis by (auto simp: Cons type_to_flags_def type_flags_rest mode_flags_def)
qed (simp add: type_to_flags_def)

lemma mode_flags_bits:
  assumes "c \<in> {CHR ''r'', CHR ''w'', CHR ''a''}"
  shows "mode_flags c upd \<noteq> 0"
    "mode_flags c upd AND MS_READ \<noteq> 0 \<longleftrightarrow> c = CHR ''r'' \<or> upd"
    "mode_flags c upd AND (MS_APPEND OR MS_WRITE) \<noteq> 0 \<longleftrightarrow> c \<noteq> CHR ''r'' \<or> upd"
    "mode_flags c upd AND MS_APPEND \<noteq> 0 \<longleftrightarrow> c = CHR ''a''"
    "mode_flags c upd AND MS_TRUNCATE \<noteq> 0 \<longleftrightarrow> c = CHR ''w''"
    "mode_flags c upd AND (MS_READ OR MS_WRITE) = MS_READ OR MS_WRITE \<longleftrightarrow> upd"
    "mode_flags c upd AND MS_MYBUF = 0"
  using assms by (auto simp: mode_flags_def MS_defs)

lemma mybuf_bits:
  "(fl OR MS_MYBUF) AND MS_MYBUF \<noteq> 0"
  "(fl OR MS_MYBUF) AND (MS_READ OR MS_WRITE) = fl AND (MS_READ OR MS_WRITE)"
  "(fl OR MS_MYBUF) AND MS_READ = fl AND MS_READ" "(fl OR MS_MYBUF) AND (MS_APPEND OR MS_WRITE) = fl AND (MS_APPEND OR MS_WRITE)"
  "(fl OR MS_MYBUF) AND MS_APPEND = fl AND MS_APPEND" "(fl OR MS_MYBUF) AND MS_TRUNCATE = fl AND MS_TRUNCATE"
  by (simp_all add: MS_defs bit.conj_disj_distrib2)

lemma find_end_cstr: "n \<le> length b \<Longrightarrow> find_end b n = length (takeWhile (\<lambda>c. c \<noteq> NUL) (take n b)) \<and>
    take (find_end b n) b = takeWhile (\<lambda>c. c \<noteq> NUL) (take n b)"
  by (induction b n rule: find_end.induct) auto

section \<open>Properties\<close>

text \<open>
  The modes of \<^verbatim>\<open>fopen\<close>, as the C standard and the manual list them. A string of their letters that
  is none of them, such as \<open>r++\<close>, is stuttered; \<open>settled\<close> is the mode it repeats letters of.
\<close>

definition fopen_modes :: "string list" where
  "fopen_modes = [''r'', ''rb'', ''w'', ''wb'', ''a'', ''ab'', ''r+'', ''rb+'', ''r+b'', ''w+'', ''wb+'', ''w+b'',
     ''a+'', ''ab+'', ''a+b'']"

definition stuttered :: "string \<Rightarrow> bool" where
  "stuttered type \<longleftrightarrow> type \<notin> set fopen_modes \<and>
     (\<exists>c \<in> set ''rwa''. hd type = c \<and> type \<noteq> [] \<and> list_all (\<lambda>x. x \<in> set ''+b'') (tl type))"

definition settled :: "string \<Rightarrow> string" where
  "settled type = (if CHR ''+'' \<in> set (tl type) then [hd type, CHR ''+''] else [hd type])"

lemma fopen_modes_accepted: "type \<in> set fopen_modes \<Longrightarrow> accepted type"
  by (auto simp: fopen_modes_def)

lemma accepted_iff: "accepted type \<longleftrightarrow> type \<in> set fopen_modes \<or> stuttered type"
proof -
  have "stuttered type \<longleftrightarrow> type \<notin> set fopen_modes \<and> accepted type"
    unfolding stuttered_def by (cases type) (auto simp: list_all_iff)
  then show ?thesis using fopen_modes_accepted by blast
qed

lemma settled_flags: "accepted type \<Longrightarrow> settled type \<in> set fopen_modes \<and> type_to_flags (settled type) = type_to_flags type"
  by (cases type) (auto simp: type_to_flags_mode settled_def fopen_modes_def)

text \<open>The stream that a mode, a buffer and a size stand for; \<open>None\<close> if there is none.\<close>

definition opened_file :: "string option \<Rightarrow> nat \<Rightarrow> string \<Rightarrow> string \<Rightarrow> bfile option" where
  "opened_file buf sz type fresh =
     (let c = hd type; upd = CHR ''+'' \<in> set (tl type); old = (case buf of None \<Rightarrow> fresh | Some b \<Rightarrow> b);
          start = (if c = CHR ''w'' then [] else if c = CHR ''r'' then old
                   else if buf = None then [] else takeWhile (\<lambda>c. c \<noteq> NUL) old) in
      if sz = 0 \<or> buf = None \<and> \<not> upd then None
      else Some \<lparr>content = start, pos = (if c = CHR ''a'' then length start else 0), cap = sz,
        may_read = (c = CHR ''r'' \<or> upd), may_write = (c \<noteq> CHR ''r'' \<or> upd), appends = (c = CHR ''a'')\<rparr>)"

lemma fmemopen_opens:
  assumes "sz < 2 ^ 31" "length fresh = sz" "\<forall>b. buf = Some b \<longrightarrow> length b = sz" and good: "accepted type"
  shows "case opened_file buf sz type fresh of
      None \<Rightarrow> fmemopen True True True fresh buf sz type = Inl ''EINVAL''
    | Some f \<Rightarrow> \<exists>ms. fmemopen True True True fresh buf sz type = Inr ms \<and> ms_inv ms \<and> file_of ms = f \<and> mstream_close ms = (0, buf = None)"
proof (cases "opened_file buf sz type fresh")
  case None
  then have n: "sz = 0 \<or> buf = None \<and> CHR ''+'' \<notin> set (tl type)"
    by (simp add: opened_file_def Let_def split: if_splits)
  have "hd type \<in> {CHR ''r'', CHR ''w'', CHR ''a''}" if "accepted type" using that by (cases type) auto
  then have "accepted type \<Longrightarrow> CHR ''+'' \<notin> set (tl type) \<Longrightarrow> type_to_flags type AND (MS_READ OR MS_WRITE) \<noteq> MS_READ OR MS_WRITE"
    using mode_flags_bits(6) [of "hd type" False] by (simp add: type_to_flags_mode)
  with n have "fmemopen True True True fresh buf sz type = Inl ''EINVAL''"
    using good by (cases "sz = 0") (auto simp: fmemopen_def type_to_flags_mode Let_def)
  then show ?thesis using None by simp
next
  case (Some f)
  let ?c = "hd type" and ?u = "CHR ''+'' \<in> set (tl type)"
  have ok: "sz \<noteq> 0" "accepted type" "buf = None \<Longrightarrow> ?u" using Some good by (auto simp: opened_file_def Let_def split: if_splits)
  then have c: "?c \<in> {CHR ''r'', CHR ''w'', CHR ''a''}" by (cases type) auto
  note m = mode_flags_bits [OF c, of ?u] and fl = type_to_flags_mode [of type]
  show ?thesis
  proof (cases buf)
    case None
    have f: "f = \<lparr>content = (if ?c = CHR ''r'' then fresh else []), pos = 0, cap = sz, may_read = True, may_write = True, appends = (?c = CHR ''a'')\<rparr>"
      using Some ok c None by (auto simp: opened_file_def Let_def)
    let ?ms = "\<lparr>mbuf = fresh, rsize = sz, vsize = (if ?c = CHR ''r'' then sz else 0), curpos = 0, flags = mode_flags ?c ?u OR MS_MYBUF\<rparr>"
    have "fmemopen True True True fresh buf sz type = Inr ?ms"
      using ok(1,2) ok(3) [OF None] None m c by (auto simp: fmemopen_def fl mybuf_bits Let_def)
    moreover have "ms_inv ?ms" using assms ok(1) by (simp add: ms_inv_def)
    moreover have "file_of ?ms = f" using f c m ok(3) [OF None] assms(2) by (auto simp: file_of_def mybuf_bits)
    ultimately show ?thesis using Some None by (simp add: mstream_close_def mybuf_bits MS_MYBUF_def)
  next
    case (Some b)
    have l: "length b = sz" using assms(3) Some by simp
    let ?e = "if ?c = CHR ''a'' then find_end b sz else 0"
    let ?ms = "\<lparr>mbuf = b, rsize = sz, vsize = (if ?c = CHR ''a'' then ?e else if ?c = CHR ''w'' then 0 else sz), curpos = ?e, flags = mode_flags ?c ?u\<rparr>"
    have e: "find_end b sz = length (takeWhile (\<lambda>c. c \<noteq> NUL) b)" "take (find_end b sz) b = takeWhile (\<lambda>c. c \<noteq> NUL) b"
      "find_end b sz \<le> sz" using find_end_cstr [of sz b] l length_takeWhile_le [of _ b] by auto
    have o: "fmemopen True True True fresh buf sz type = Inr ?ms" using ok m by (simp add: fmemopen_def fl Some Let_def)
    have i: "ms_inv ?ms" using assms ok(1) e l by (auto simp: ms_inv_def)
    have f: "f = \<lparr>content = take (vsize ?ms) b, pos = ?e, cap = sz, may_read = (?c = CHR ''r'' \<or> ?u),
        may_write = (?c \<noteq> CHR ''r'' \<or> ?u), appends = (?c = CHR ''a'')\<rparr>"
      using \<open>opened_file buf sz type fresh = Some f\<close> ok(1,2) c e l by (auto simp: opened_file_def Let_def Some)
    have f2: "file_of ?ms = f" unfolding f file_of_def memstream.simps m(2-4) by (rule refl)
    show ?thesis using o i f2 \<open>opened_file buf sz type fresh = Some f\<close> Some m(7) by (simp add: mstream_close_def)
  qed
qed

lemma fmemopen_full: "fmemopen alloc1 alloc2 funopen fresh buf sz type = Inr ms \<Longrightarrow> fmemopen True True True fresh buf sz type = Inr ms"
  by (cases buf; cases alloc1; cases alloc2; cases funopen) (simp_all add: fmemopen_def Let_def bnd_def split: if_splits)

lemma fmemopen_fails:
  "\<not> alloc1 \<or> \<not> funopen \<or> buf = None \<and> \<not> alloc2 \<Longrightarrow> \<exists>err. fmemopen alloc1 alloc2 funopen fresh buf sz type = Inl err"
  by (cases buf; cases alloc1; cases alloc2; cases funopen) (simp_all add: fmemopen_def Let_def bnd_def)

lemma fmemopen_rejects:
  "\<not> accepted type \<Longrightarrow> \<exists>err. fmemopen alloc1 alloc2 funopen fresh buf sz type = Inl err"
  by (simp add: fmemopen_def type_to_flags_mode Let_def)

lemma fmemopen_settled:
  "accepted type \<Longrightarrow> fmemopen alloc1 alloc2 funopen fresh buf sz type = fmemopen alloc1 alloc2 funopen fresh buf sz (settled type)"
  using settled_flags [of type] by (simp add: fmemopen_def)

text \<open>
  C36. \<^verbatim>\<open>fmemopen\<close> opens what the modes of \<^verbatim>\<open>fopen\<close> stand for: the whole buffer for reading, an empty
  stream for writing, the string in the buffer with the position at its end for appending; the
  permissions are those of the mode, and without a buffer only the updating modes open. The
  buffer is freed by \<^verbatim>\<open>mstream_close\<close> exactly if it was allocated here; a failed allocation or
  \<^verbatim>\<open>funopen\<close> is reported. A string that is none of these modes is an error with one exception,
  which \<^verbatim>\<open>fopen\<close> does not have: a mode whose plus signs or letters b are repeated, such as \<open>r++\<close> or
  \<open>rbb+\<close>, is taken for the mode without the repetition.
\<close>

theorem fmemopen_modes:
  assumes "sz < 2 ^ 31" "length fresh = sz" "\<forall>b. buf = Some b \<longrightarrow> length b = sz"
  shows "(type \<in> set fopen_modes \<longrightarrow> (case opened_file buf sz type fresh of
      None \<Rightarrow> (\<exists>err. fmemopen alloc1 alloc2 funopen fresh buf sz type = Inl err)
    | Some f \<Rightarrow> (\<exists>ms. fmemopen True True True fresh buf sz type = Inr ms \<and> ms_inv ms \<and> file_of ms = f \<and> mstream_close ms = (0, buf = None)) \<and>
        (\<not> alloc1 \<or> \<not> funopen \<or> buf = None \<and> \<not> alloc2 \<longrightarrow> (\<exists>err. fmemopen alloc1 alloc2 funopen fresh buf sz type = Inl err)))) \<and>
    (type \<notin> set fopen_modes \<longrightarrow>
      (if stuttered type
       then settled type \<in> set fopen_modes \<and>
         fmemopen alloc1 alloc2 funopen fresh buf sz type = fmemopen alloc1 alloc2 funopen fresh buf sz (settled type)
       else (\<exists>err. fmemopen alloc1 alloc2 funopen fresh buf sz type = Inl err))) \<and>
    stuttered ''r++'' \<and> settled ''r++'' = ''r+'' \<and> stuttered ''rbb+'' \<and> settled ''rbb+'' = ''r+''"
proof (intro conjI impI)
  assume "type \<in> set fopen_modes"
  note o = fmemopen_opens [OF assms fopen_modes_accepted [OF this]]
  show "case opened_file buf sz type fresh of
      None \<Rightarrow> \<exists>err. fmemopen alloc1 alloc2 funopen fresh buf sz type = Inl err
    | Some f \<Rightarrow> (\<exists>ms. fmemopen True True True fresh buf sz type = Inr ms \<and> ms_inv ms \<and> file_of ms = f \<and> mstream_close ms = (0, buf = None)) \<and>
        (\<not> alloc1 \<or> \<not> funopen \<or> buf = None \<and> \<not> alloc2 \<longrightarrow> (\<exists>err. fmemopen alloc1 alloc2 funopen fresh buf sz type = Inl err))"
  proof (cases "opened_file buf sz type fresh")
    case None
    have "fmemopen alloc1 alloc2 funopen fresh buf sz type \<noteq> Inr ms" for ms
      using fmemopen_full [of alloc1 alloc2 funopen fresh buf sz type ms] o None by auto
    then show ?thesis using None by (cases "fmemopen alloc1 alloc2 funopen fresh buf sz type") auto
  next
    case (Some f)
    then show ?thesis using o fmemopen_fails by auto
  qed
next
  assume "type \<notin> set fopen_modes"
  then show "if stuttered type
       then settled type \<in> set fopen_modes \<and>
         fmemopen alloc1 alloc2 funopen fresh buf sz type = fmemopen alloc1 alloc2 funopen fresh buf sz (settled type)
       else (\<exists>err. fmemopen alloc1 alloc2 funopen fresh buf sz type = Inl err)"
    using accepted_iff [of type] settled_flags [of type] fmemopen_settled [of type] fmemopen_rejects [of type] by auto
qed (simp_all add: stuttered_def settled_def fopen_modes_def)

theorem fmemopen_modes_witness:
  "\<exists>ms. fmemopen True True True ''....'' (Some (''ab'' @ [NUL, NUL])) 4 ''a+'' = Inr ms \<and> curpos ms = Suc (Suc 0)"
  using fmemopen_modes [where sz = 4 and fresh = "''....''" and buf = "Some (''ab'' @ [NUL, NUL])" and type = "''a+''"
    and ?alloc1.0 = True and ?alloc2.0 = True and funopen = True]
  by (auto simp: opened_file_def file_of_def fopen_modes_def)

text \<open>
  C37. A memory stream is a file of bounded size. Every sequence of reads, writes and seeks on a
  stream that \<^verbatim>\<open>fmemopen\<close> returned stays inside the buffer (no read, copy or null byte outside it:
  each of them is checked in the model and would end the run in \<open>Undef\<close>) and gives the results that it gives on
  an abstract file: a read returns the bytes at the position, a write replaces them as far as
  there is room, a seek moves within the file. In a stream opened for writing only, the byte after
  the data written is replaced by a null byte even in the middle of the stream. An offset is
  truncated to an \<^verbatim>\<open>int\<close>: seeking to \<open>2 ^ 32\<close> succeeds, at position 0.
\<close>

theorem stream_refines:
  assumes "fmemopen alloc1 alloc2 funopen fresh buf sz type = Inr ms"
    and "sz < 2 ^ 31" "length fresh = sz" "\<forall>b. buf = Some b \<longrightarrow> length b = sz" "\<forall>x \<in> set ops. seek_ok x"
  shows "\<exists>rs ms'. m_run ops ms = Inr (rs, ms') \<and> b_run ops (file_of ms) = (rs, file_of ms') \<and>
    curpos ms' \<le> vsize ms' \<and> vsize ms' \<le> rsize ms' \<and> length (mbuf ms') = rsize ms' \<and>
    mstream_seek (2 ^ 32) SEEK_SET ms' = (0, ms'\<lparr>curpos := 0\<rparr>) \<and> fst (b_seek (2 ^ 32) SEEK_SET (file_of ms')) = -1"
proof -
  have acc: "accepted type"
    using fmemopen_rejects [of type alloc1 alloc2 funopen fresh buf sz] assms(1) by (cases "accepted type") auto
  have "ms_inv ms"
    using fmemopen_opens [OF assms(2-4) acc] fmemopen_full [OF assms(1)] by (auto split: option.splits)
  then obtain rs ms' where r: "m_run ops ms = Inr (rs, ms')" "ms_inv ms'" "b_run ops (file_of ms) = (rs, file_of ms')"
    using run_refines assms(5) by blast
  have "int32 (2 ^ 32) = 0" by (simp add: int32_def)
  then show ?thesis using r by (intro exI [of _ rs] exI [of _ ms']) (simp add: ms_inv_def mstream_seek_def b_seek_def file_of_def)
qed

theorem stream_refines_witness:
  "\<exists>ms rs ms'. fmemopen True True True ''........'' None 8 ''w+'' = Inr ms \<and>
    m_run [Write ''hello'', Seek 1 SEEK_SET, Read 3] ms = Inr (rs, ms') \<and> rs = [Wrote 5, At 1, Got 3 ''ell'']"
proof -
  let ?ms = "\<lparr>mbuf = ''........'', rsize = 8, vsize = 0, curpos = 0, flags = 0x1B\<rparr>"
  have o: "fmemopen True True True ''........'' None 8 ''w+'' = Inr ?ms"
    by (simp add: fmemopen_def type_to_flags_def MS_defs)
  have b: "b_run [Write ''hello'', Seek 1 SEEK_SET, Read 3] (file_of ?ms) = (rs, f) \<Longrightarrow> rs = [Wrote 5, At 1, Got 3 ''ell'']" for rs f
    by (simp add: file_of_def MS_defs b_write_def b_seek_def b_read_def poke_def Let_def)
  from stream_refines [OF o, of "[Write ''hello'', Seek 1 SEEK_SET, Read 3]"] o b show ?thesis by (auto simp del: b_run.simps m_run.simps)
qed

end
