(* ===== verification/SemLib.thy ===== *)
theory SemLib
  imports CLib
begin

text \<open>
  \<^verbatim>\<open>lib/semaph.c\<close>: semaphores on sets of three System V semaphores, used by several processes at
  once. The kernel's side (\<^verbatim>\<open>semget\<close>, \<^verbatim>\<open>semop\<close>, \<^verbatim>\<open>semctl\<close>, undoing at exit) is modelled for the
  set of one key. Each function of the library is a machine whose steps are its system calls, so
  that the calls of different processes interleave in every way; a process can also die at any
  time.
\<close>

section \<open>Semaphore sets\<close>

definition BIGCOUNT :: nat where "BIGCOUNT = 10000"

definition SEMVMX :: int where "SEMVMX = 32767"

text \<open>An operation: number of the semaphore, amount, and whether it is undone at exit.\<close>

type_synonym sembuf = "nat \<times> int \<times> bool"

definition op_lock :: "sembuf list" where "op_lock = [(2, 0, False), (2, 1, True)]"
definition op_endcreate :: "sembuf list" where "op_endcreate = [(1, -1, True), (2, -1, True)]"
definition op_open :: "sembuf list" where "op_open = [(1, -1, True)]"
definition op_close :: "sembuf list" where "op_close = [(2, 0, False), (2, 1, True), (1, 1, True)]"
definition op_unlock :: "sembuf list" where "op_unlock = [(2, -1, True)]"
definition op_op :: "int \<Rightarrow> sembuf list" where "op_op value = [(0, value, True)]"

text \<open>
  The set that belongs to the key, if there is one, its values, and the amounts to be added when
  a process exits. \<open>next_id\<close> is an identifier not used before.
\<close>

record kern =
  live :: "nat option"
  vals :: "nat \<Rightarrow> int"
  adj :: "nat \<Rightarrow> nat \<Rightarrow> int"
  next_id :: nat

datatype opres = Applied "nat \<Rightarrow> int" | Blocked | Out_of_range

fun run_ops :: "sembuf list \<Rightarrow> (nat \<Rightarrow> int) \<Rightarrow> opres" where
  "run_ops [] v = Applied v"
| "run_ops ((n, d, u) # r) v =
     (if d = 0 then if v n = 0 then run_ops r v else Blocked
      else if v n + d < 0 then Blocked
      else if v n + d > SEMVMX then Out_of_range
      else run_ops r (v(n := v n + d)))"

fun undo_ops :: "sembuf list \<Rightarrow> (nat \<Rightarrow> int) \<Rightarrow> (nat \<Rightarrow> int)" where
  "undo_ops [] a = a"
| "undo_ops ((n, d, u) # r) a = undo_ops r (if u then a(n := a n - d) else a)"

datatype semres = Ok kern | Sleeps | Error string

definition semop :: "nat \<Rightarrow> nat \<Rightarrow> sembuf list \<Rightarrow> kern \<Rightarrow> semres" where
  "semop p sid ops k =
     (if live k \<noteq> Some sid then Error ''EINVAL''
      else case run_ops ops (vals k) of
        Applied v \<Rightarrow> Ok (k\<lparr>vals := v, adj := (adj k)(p := undo_ops ops (adj k p))\<rparr>)
      | Blocked \<Rightarrow> Sleeps
      | Out_of_range \<Rightarrow> Error ''ERANGE'')"

text \<open>A process that sleeps in \<^verbatim>\<open>semop\<close> is woken with another error if the set is removed.\<close>

definition semop_woken :: "nat \<Rightarrow> nat \<Rightarrow> sembuf list \<Rightarrow> kern \<Rightarrow> semres" where
  "semop_woken p sid ops k = (if live k \<noteq> Some sid then Error ''EIDRM'' else semop p sid ops k)"

text \<open>\<^verbatim>\<open>semget\<close> with \<^verbatim>\<open>IPC_CREAT\<close>, and the three commands of \<^verbatim>\<open>semctl\<close>; \<^verbatim>\<open>SETVAL\<close> clears the amounts to undo.\<close>

definition semget_creat :: "kern \<Rightarrow> nat \<times> kern" where
  "semget_creat k = (case live k of
       Some sid \<Rightarrow> (sid, k)
     | None \<Rightarrow> (next_id k, k\<lparr>live := Some (next_id k), vals := (\<lambda>_. 0), adj := (\<lambda>_ _. 0), next_id := next_id k + 1\<rparr>))"

definition semctl_getval :: "nat \<Rightarrow> nat \<Rightarrow> kern \<Rightarrow> int option" where
  "semctl_getval sid n k = (if live k = Some sid then Some (vals k n) else None)"

definition semctl_setval :: "nat \<Rightarrow> nat \<Rightarrow> int \<Rightarrow> kern \<Rightarrow> kern option" where
  "semctl_setval sid n v k = (if live k = Some sid \<and> 0 \<le> v \<and> v \<le> SEMVMX
     then Some (k\<lparr>vals := (vals k)(n := v), adj := (\<lambda>p. (adj k p)(n := 0))\<rparr>) else None)"

definition semctl_rmid :: "nat \<Rightarrow> kern \<Rightarrow> kern option" where
  "semctl_rmid sid k = (if live k = Some sid then Some (k\<lparr>live := None, adj := (\<lambda>_ _. 0)\<rparr>) else None)"

definition exit_undo :: "nat \<Rightarrow> kern \<Rightarrow> kern" where
  "exit_undo p k = k\<lparr>vals := (\<lambda>n. if adj k p n = 0 then vals k n else max 0 (min SEMVMX (vals k n + adj k p n))), adj := (adj k)(p := (\<lambda>_. 0))\<rparr>"

section \<open>The functions of the library\<close>

text \<open>
  Where a process is: outside the library, between two system calls of a function, holding the
  identifier of an open semaphore, or dead after a report. A process that sleeps in a
  \<^verbatim>\<open>semop\<close> is at the constructor with the suffix \<open>_s\<close>.
\<close>

datatype pc =
    Outside | Has nat | Exited string
  | C_get int | C_lock nat int | C_lock_s nat int | C_getval nat int | C_set0 nat int | C_set1 nat | C_end nat | C_end_s nat
  | O_get | O_op nat | O_op_s nat
  | X_lock nat | X_lock_s nat | X_getval nat | X_rm nat | X_unlock nat | X_unlock_s nat
  | R_rm nat
  | P_op nat int | P_op_s nat int

definition err_sys :: "nat \<Rightarrow> string \<Rightarrow> kern \<Rightarrow> pc \<times> kern" where
  "err_sys p msg k = (Exited msg, exit_undo p k)"

definition C_locking :: "nat \<Rightarrow> nat \<Rightarrow> int \<Rightarrow> semres \<Rightarrow> kern \<Rightarrow> pc \<times> kern" where
  "C_locking p sid initval r k = (case r of
       Ok k' \<Rightarrow> (C_getval sid initval, k')
     | Sleeps \<Rightarrow> (C_lock_s sid initval, k)
     | Error e \<Rightarrow> if e = ''EINVAL'' then (C_get initval, k) else err_sys p ''can't lock'' k)"

definition calling :: "nat \<Rightarrow> pc \<Rightarrow> pc \<Rightarrow> string \<Rightarrow> semres \<Rightarrow> kern \<Rightarrow> pc \<times> kern" where
  "calling p ok sleep msg r k = (case r of Ok k' \<Rightarrow> (ok, k') | Sleeps \<Rightarrow> (sleep, k) | Error e \<Rightarrow> err_sys p msg k)"

fun create_step :: "nat \<Rightarrow> pc \<Rightarrow> kern \<Rightarrow> pc \<times> kern" where
  "create_step p (C_get initval) k = (case semget_creat k of (sid, k) \<Rightarrow> (C_lock sid initval, k))"
| "create_step p (C_lock sid initval) k = C_locking p sid initval (semop p sid op_lock k) k"
| "create_step p (C_lock_s sid initval) k = C_locking p sid initval (semop_woken p sid op_lock k) k"
| "create_step p (C_getval sid initval) k = (case semctl_getval sid 1 k of
       None \<Rightarrow> err_sys p ''can't GETVAL'' k
     | Some v \<Rightarrow> if v = 0 then (C_set0 sid initval, k) else (C_end sid, k))"
| "create_step p (C_set0 sid initval) k = (case semctl_setval sid 0 initval k of
       None \<Rightarrow> err_sys p ''can SETVAL[0]'' k | Some k \<Rightarrow> (C_set1 sid, k))"
| "create_step p (C_set1 sid) k = (case semctl_setval sid 1 (int BIGCOUNT) k of
       None \<Rightarrow> err_sys p ''can SETVAL[1]'' k | Some k \<Rightarrow> (C_end sid, k))"
| "create_step p (C_end sid) k = calling p (Has sid) (C_end_s sid) ''can't end create'' (semop p sid op_endcreate k) k"
| "create_step p (C_end_s sid) k = calling p (Has sid) (C_end_s sid) ''can't end create'' (semop_woken p sid op_endcreate k) k"
| "create_step p c k = (c, k)"

fun open_step :: "nat \<Rightarrow> pc \<Rightarrow> kern \<Rightarrow> pc \<times> kern" where
  "open_step p O_get k = (case live k of None \<Rightarrow> (Outside, k) | Some sid \<Rightarrow> (O_op sid, k))"
| "open_step p (O_op sid) k = calling p (Has sid) (O_op_s sid) ''can't open'' (semop p sid op_open k) k"
| "open_step p (O_op_s sid) k = calling p (Has sid) (O_op_s sid) ''can't open'' (semop_woken p sid op_open k) k"
| "open_step p c k = (c, k)"

definition rm_step :: "nat \<Rightarrow> nat \<Rightarrow> kern \<Rightarrow> pc \<times> kern" where
  "rm_step p sid k = (case semctl_rmid sid k of None \<Rightarrow> err_sys p ''can't IPC_RMID'' k | Some k \<Rightarrow> (Outside, k))"

fun close_step :: "nat \<Rightarrow> pc \<Rightarrow> kern \<Rightarrow> pc \<times> kern" where
  "close_step p (X_lock sid) k = calling p (X_getval sid) (X_lock_s sid) ''can't semop'' (semop p sid op_close k) k"
| "close_step p (X_lock_s sid) k = calling p (X_getval sid) (X_lock_s sid) ''can't semop'' (semop_woken p sid op_close k) k"
| "close_step p (X_getval sid) k = (case semctl_getval sid 1 k of
       None \<Rightarrow> err_sys p ''can't GETVAL'' k
     | Some v \<Rightarrow> if v > int BIGCOUNT then err_sys p ''sem[1] > BIGCOUNT'' k
         else if v = int BIGCOUNT then (X_rm sid, k) else (X_unlock sid, k))"
| "close_step p (X_rm sid) k = rm_step p sid k"
| "close_step p (X_unlock sid) k = calling p Outside (X_unlock_s sid) ''can't unlock'' (semop p sid op_unlock k) k"
| "close_step p (X_unlock_s sid) k = calling p Outside (X_unlock_s sid) ''can't unlock'' (semop_woken p sid op_unlock k) k"
| "close_step p c k = (c, k)"

fun op_step :: "nat \<Rightarrow> pc \<Rightarrow> kern \<Rightarrow> pc \<times> kern" where
  "op_step p (P_op sid value) k = (if value = 0 then err_sys p ''can't have value == 0'' k
     else calling p (Has sid) (P_op_s sid value) ''sem_op error'' (semop p sid (op_op value) k) k)"
| "op_step p (P_op_s sid value) k = calling p (Has sid) (P_op_s sid value) ''sem_op error'' (semop_woken p sid (op_op value) k) k"
| "op_step p c k = (c, k)"

text \<open>The calls. \<^verbatim>\<open>IPC_PRIVATE\<close> is 0.\<close>

definition sem_create :: "int \<Rightarrow> int \<Rightarrow> pc" where
  "sem_create key initval = (if key = 0 \<or> key = -1 then Outside else C_get initval)"

definition sem_open :: "int \<Rightarrow> pc" where
  "sem_open key = (if key = 0 \<or> key = -1 then Outside else O_get)"

definition sem_close :: "nat \<Rightarrow> pc" where "sem_close sid = X_lock sid"
definition sem_rm :: "nat \<Rightarrow> pc" where "sem_rm sid = R_rm sid"
definition sem_op :: "nat \<Rightarrow> int \<Rightarrow> pc" where "sem_op sid value = P_op sid value"
definition sem_wait :: "nat \<Rightarrow> pc" where "sem_wait sid = sem_op sid (-1)"
definition sem_signal :: "nat \<Rightarrow> pc" where "sem_signal sid = sem_op sid 1"

fun sem_step :: "nat \<Rightarrow> pc \<Rightarrow> kern \<Rightarrow> pc \<times> kern" where
  "sem_step p (R_rm sid) k = rm_step p sid k"
| "sem_step p c k =
     (case c of
        O_get \<Rightarrow> open_step p c k | O_op _ \<Rightarrow> open_step p c k | O_op_s _ \<Rightarrow> open_step p c k
      | P_op _ _ \<Rightarrow> op_step p c k | P_op_s _ _ \<Rightarrow> op_step p c k
      | X_lock _ \<Rightarrow> close_step p c k | X_lock_s _ \<Rightarrow> close_step p c k | X_getval _ \<Rightarrow> close_step p c k
      | X_rm _ \<Rightarrow> close_step p c k | X_unlock _ \<Rightarrow> close_step p c k | X_unlock_s _ \<Rightarrow> close_step p c k
      | _ \<Rightarrow> create_step p c k)"

section \<open>Processes\<close>

text \<open>
  Up to \<open>BIGCOUNT\<close> processes. \<open>others\<close> tells whether they call \<^verbatim>\<open>sem_open\<close> and \<^verbatim>\<open>sem_rm\<close> as well as
  \<^verbatim>\<open>sem_create\<close>, \<^verbatim>\<open>sem_close\<close> and \<^verbatim>\<open>sem_op\<close>.
\<close>

type_synonym sys = "kern \<times> (nat \<Rightarrow> pc)"

definition sys_init :: sys where
  "sys_init = (\<lparr>live = None, vals = (\<lambda>_. 0), adj = (\<lambda>_ _. 0), next_id = 0\<rparr>, \<lambda>_. Outside)"

inductive sem_sys :: "int \<Rightarrow> bool \<Rightarrow> sys \<Rightarrow> bool" for key others where
  sys_start: "sem_sys key others sys_init"
| sys_create: "sem_sys key others (k, pcs) \<Longrightarrow> p < BIGCOUNT \<Longrightarrow> pcs p = Outside \<Longrightarrow>
    sem_sys key others (k, pcs(p := sem_create key initval))"
| sys_create_fails: "sem_sys key others (k, pcs) \<Longrightarrow> pcs p = C_get initval \<Longrightarrow> sem_sys key others (k, pcs(p := Outside))"
| sys_open: "others \<Longrightarrow> sem_sys key others (k, pcs) \<Longrightarrow> p < BIGCOUNT \<Longrightarrow> pcs p = Outside \<Longrightarrow>
    sem_sys key others (k, pcs(p := sem_open key))"
| sys_close: "sem_sys key others (k, pcs) \<Longrightarrow> pcs p = Has sid \<Longrightarrow> sem_sys key others (k, pcs(p := sem_close sid))"
| sys_op: "sem_sys key others (k, pcs) \<Longrightarrow> pcs p = Has sid \<Longrightarrow> sem_sys key others (k, pcs(p := sem_op sid value))"
| sys_rm: "others \<Longrightarrow> sem_sys key others (k, pcs) \<Longrightarrow> pcs p = Has sid \<Longrightarrow> sem_sys key others (k, pcs(p := sem_rm sid))"
| sys_step: "sem_sys key others (k, pcs) \<Longrightarrow> sem_step p (pcs p) k = (c, k') \<Longrightarrow> sem_sys key others (k', pcs(p := c))"
| sys_die: "sem_sys key others (k, pcs) \<Longrightarrow> sem_sys key others (exit_undo p k, pcs(p := Outside))"

section \<open>The invariant\<close>

text \<open>The identifier under which a process has the semaphore open, and under which it has the lock.\<close>

fun uses :: "pc \<Rightarrow> nat option" where
  "uses (Has i) = Some i"
| "uses (X_lock i) = Some i"
| "uses (X_lock_s i) = Some i"
| "uses (P_op i v) = Some i"
| "uses (P_op_s i v) = Some i"
| "uses (R_rm i) = Some i"
| "uses _ = None"

fun holds :: "pc \<Rightarrow> nat option" where
  "holds (C_getval i v) = Some i"
| "holds (C_set0 i v) = Some i"
| "holds (C_set1 i) = Some i"
| "holds (C_end i) = Some i"
| "holds (C_end_s i) = Some i"
| "holds (X_getval i) = Some i"
| "holds (X_rm i) = Some i"
| "holds (X_unlock i) = Some i"
| "holds (X_unlock_s i) = Some i"
| "holds _ = None"

definition users :: "(nat \<Rightarrow> pc) \<Rightarrow> nat set" where
  "users pcs = {p. uses (pcs p) \<noteq> None}"

text \<open>What is known at each point of a function, of the counter \<open>v\<close> and the set \<open>U\<close> of users.\<close>

fun stage_ok :: "pc \<Rightarrow> int \<Rightarrow> nat set \<Rightarrow> bool" where
  "stage_ok (C_set0 i w) v U \<longleftrightarrow> v = 0 \<and> U = {}"
| "stage_ok (C_set1 i) v U \<longleftrightarrow> v = 0 \<and> U = {}"
| "stage_ok (C_end i) v U \<longleftrightarrow> v = int BIGCOUNT - int (card U)"
| "stage_ok (C_end_s i) v U \<longleftrightarrow> v = int BIGCOUNT - int (card U)"
| "stage_ok (X_getval i) v U \<longleftrightarrow> v = int BIGCOUNT - int (card U)"
| "stage_ok (X_rm i) v U \<longleftrightarrow> v = int BIGCOUNT \<and> U = {}"
| "stage_ok (X_unlock i) v U \<longleftrightarrow> v = int BIGCOUNT - int (card U)"
| "stage_ok (X_unlock_s i) v U \<longleftrightarrow> v = int BIGCOUNT - int (card U)"
| "stage_ok O_get v U \<longleftrightarrow> False"
| "stage_ok (O_op i) v U \<longleftrightarrow> False"
| "stage_ok (O_op_s i) v U \<longleftrightarrow> False"
| "stage_ok (R_rm i) v U \<longleftrightarrow> False"
| "stage_ok (Exited m) v U \<longleftrightarrow> m \<in> {''can't lock'', ''can SETVAL[0]'', ''sem_op error'', ''can't have value == 0''}"
| "stage_ok _ v U \<longleftrightarrow> True"

definition counter_ok :: "int \<Rightarrow> nat set \<Rightarrow> bool" where
  "counter_ok v U \<longleftrightarrow> v = 0 \<and> U = {} \<or> v = int BIGCOUNT - int (card U)"

definition sem_inv :: "sys \<Rightarrow> bool" where
  "sem_inv s \<longleftrightarrow> (case s of (k, pcs) \<Rightarrow>
     (\<forall>p. pcs p \<noteq> Outside \<longrightarrow> p < BIGCOUNT) \<and>
     (\<forall>p i. uses (pcs p) = Some i \<or> holds (pcs p) = Some i \<longrightarrow> live k = Some i) \<and>
     (\<forall>p. adj k p 1 = (if uses (pcs p) \<noteq> None then 1 else 0) \<and> adj k p 2 = (if holds (pcs p) \<noteq> None then -1 else 0)) \<and>
     (\<forall>p q. holds (pcs p) \<noteq> None \<longrightarrow> holds (pcs q) \<noteq> None \<longrightarrow> p = q) \<and>
     (live k \<noteq> None \<longrightarrow> vals k 2 = (if \<exists>p. holds (pcs p) \<noteq> None then 1 else 0) \<and> counter_ok (vals k 1) (users pcs)) \<and>
     (\<forall>p. stage_ok (pcs p) (vals k 1) (users pcs)))"

lemma users_upd: "users (pcs(p := c)) = (if uses c \<noteq> None then insert p (users pcs) else users pcs - {p})"
  by (auto simp: users_def)

lemma users_finite: "(\<forall>p. pcs p \<noteq> Outside \<longrightarrow> p < BIGCOUNT) \<Longrightarrow> users pcs \<subseteq> {..<BIGCOUNT} \<and> finite (users pcs)"
proof -
  assume a: "\<forall>p. pcs p \<noteq> Outside \<longrightarrow> p < BIGCOUNT"
  have "users pcs \<subseteq> {..<BIGCOUNT}" using a by (force simp: users_def)
  then show ?thesis using finite_subset by blast
qed

lemma stage_ok_free: "holds c = None \<Longrightarrow> stage_ok c v U \<Longrightarrow> stage_ok c v' U'"
  by (cases c) auto

lemma card_shrinks: "finite U \<Longrightarrow> p \<in> U \<Longrightarrow> int (card (U - {p})) = int (card U) - 1"
  by (metis card.remove of_nat_Suc add_diff_cancel_left' finite_Diff of_nat_1 of_nat_add plus_1_eq_Suc)

lemma stage_ok_shrinks: "stage_ok c v U \<Longrightarrow> finite U \<Longrightarrow> p \<in> U \<Longrightarrow> stage_ok c (v + 1) (U - {p})"
  by (cases c) (auto simp: card_shrinks simp del: card_Diff_insert)

lemma counter_ok_shrinks: "counter_ok v U \<Longrightarrow> finite U \<Longrightarrow> p \<in> U \<Longrightarrow> counter_ok (v + 1) (U - {p})"
  by (auto simp: counter_ok_def card_shrinks simp del: card_Diff_insert)

lemma counter_ok_grows: "v = int BIGCOUNT - int (card U) \<Longrightarrow> finite U \<Longrightarrow> p \<notin> U \<Longrightarrow> counter_ok (v - 1) (insert p U)"
  by (simp add: counter_ok_def)

lemma sem_invD:
  assumes "sem_inv (k, pcs)"
  shows "pcs p \<noteq> Outside \<Longrightarrow> p < BIGCOUNT"
    "uses (pcs p) = Some i \<Longrightarrow> live k = Some i" "holds (pcs p) = Some i \<Longrightarrow> live k = Some i"
    "adj k p 1 = (if uses (pcs p) \<noteq> None then 1 else 0)" "adj k p 2 = (if holds (pcs p) \<noteq> None then -1 else 0)"
    "holds (pcs p) \<noteq> None \<Longrightarrow> holds (pcs q) \<noteq> None \<Longrightarrow> p = q"
    "live k \<noteq> None \<Longrightarrow> vals k 2 = (if \<exists>p. holds (pcs p) \<noteq> None then 1 else 0)"
    "live k \<noteq> None \<Longrightarrow> counter_ok (vals k 1) (users pcs)"
    "stage_ok (pcs p) (vals k 1) (users pcs)"
    "finite (users pcs)" "users pcs \<subseteq> {..<BIGCOUNT}"
  using assms users_finite [of pcs] unfolding sem_inv_def by blast+

text \<open>The invariant after process \<open>p\<close> has moved to \<open>c\<close>.\<close>

lemma inv_move:
  assumes I: "sem_inv (k, pcs)" and "c \<noteq> Outside \<Longrightarrow> p < BIGCOUNT" "live k' = live k"
    and "\<And>i. uses c = Some i \<or> holds c = Some i \<Longrightarrow> live k = Some i"
    and "\<And>q. q \<noteq> p \<Longrightarrow> adj k' q 1 = adj k q 1 \<and> adj k' q 2 = adj k q 2"
    and "adj k' p 1 = (if uses c \<noteq> None then 1 else 0)" "adj k' p 2 = (if holds c \<noteq> None then -1 else 0)"
    and "\<And>q. holds c \<noteq> None \<Longrightarrow> q \<noteq> p \<Longrightarrow> holds (pcs q) = None"
    and "live k \<noteq> None \<Longrightarrow> vals k' 2 = (if holds c \<noteq> None \<or> (\<exists>q. q \<noteq> p \<and> holds (pcs q) \<noteq> None) then 1 else 0)"
    and "live k \<noteq> None \<Longrightarrow> counter_ok (vals k' 1) (users (pcs(p := c)))"
    and "stage_ok c (vals k' 1) (users (pcs(p := c)))"
    and "\<And>q. q \<noteq> p \<Longrightarrow> stage_ok (pcs q) (vals k' 1) (users (pcs(p := c)))"
  shows "sem_inv (k', pcs(p := c))"
proof -
  note D = sem_invD [OF I]
  have "(\<exists>q. holds ((pcs(p := c)) q) \<noteq> None) \<longleftrightarrow> holds c \<noteq> None \<or> (\<exists>q. q \<noteq> p \<and> holds (pcs q) \<noteq> None)"
    by (metis fun_upd_apply)
  then have "live k' \<noteq> None \<longrightarrow> vals k' 2 = (if \<exists>q. holds ((pcs(p := c)) q) \<noteq> None then 1 else 0) \<and> counter_ok (vals k' 1) (users (pcs(p := c)))"
    using assms(3,9,10) by simp
  moreover have "\<forall>q. (pcs(p := c)) q \<noteq> Outside \<longrightarrow> q < BIGCOUNT" using D(1) assms(2) by simp
  moreover have "\<forall>q i. uses ((pcs(p := c)) q) = Some i \<or> holds ((pcs(p := c)) q) = Some i \<longrightarrow> live k' = Some i"
    using D(2,3) assms(3,4) by simp
  moreover have "\<forall>q. adj k' q 1 = (if uses ((pcs(p := c)) q) \<noteq> None then 1 else 0) \<and> adj k' q 2 = (if holds ((pcs(p := c)) q) \<noteq> None then -1 else 0)"
    using D(4,5) assms(5-7) by simp
  moreover have "\<forall>q r. holds ((pcs(p := c)) q) \<noteq> None \<longrightarrow> holds ((pcs(p := c)) r) \<noteq> None \<longrightarrow> q = r"
    using D(6) assms(8) by (metis fun_upd_apply)
  moreover have "\<forall>q. stage_ok ((pcs(p := c)) q) (vals k' 1) (users (pcs(p := c)))" using assms(11,12) by simp
  ultimately show ?thesis unfolding sem_inv_def by blast
qed

text \<open>Moves that neither change the users nor the holder of the lock.\<close>

lemma inv_keep:
  assumes I: "sem_inv (k, pcs)" and "c \<noteq> Outside \<Longrightarrow> p < BIGCOUNT" "live k' = live k" "uses c = uses (pcs p)" "holds c = holds (pcs p)"
    and "\<And>q. adj k' q 1 = adj k q 1 \<and> adj k' q 2 = adj k q 2" "vals k' 1 = vals k 1" "vals k' 2 = vals k 2"
    and "stage_ok c (vals k 1) (users pcs)"
  shows "sem_inv (k', pcs(p := c))"
proof -
  note D = sem_invD [OF I]
  have u: "users (pcs(p := c)) = users pcs" using assms(4) by (auto simp: users_def)
  have "(\<exists>q. holds (pcs q) \<noteq> None) \<longleftrightarrow> holds c \<noteq> None \<or> (\<exists>q. q \<noteq> p \<and> holds (pcs q) \<noteq> None)" using assms(5) by metis
  then have v: "live k \<noteq> None \<Longrightarrow> vals k' 2 = (if holds c \<noteq> None \<or> (\<exists>q. q \<noteq> p \<and> holds (pcs q) \<noteq> None) then 1 else 0)"
    using D(7) assms(8) by simp
  have h: "holds (pcs q) = None" if "holds c \<noteq> None" "q \<noteq> p" for q using D(6) that assms(5) by metis
  have a: "adj k' p 1 = (if uses c \<noteq> None then 1 else 0)" "adj k' p 2 = (if holds c \<noteq> None then -1 else 0)"
    using D(4,5) assms(4-6) by simp_all
  have l: "live k = Some i" if "uses c = Some i \<or> holds c = Some i" for i using that assms(4,5) D(2,3) by metis
  show ?thesis
    using D(8,9) assms(9) by (intro inv_move [OF I assms(2,3) l assms(6) a h v]) (simp_all only: u assms(7) not_False_eq_True simp_thms)
qed

lemmas sembuf_defs = op_lock_def op_endcreate_def op_open_def op_close_def op_unlock_def op_op_def

lemma semop_woken_live: "live k = Some sid \<Longrightarrow> semop_woken p sid ops k = semop p sid ops k"
  by (simp add: semop_woken_def)

text \<open>A process that holds the lock finds the other processes outside of it.\<close>

lemma holder_alone: "sem_inv (k, pcs) \<Longrightarrow> holds (pcs p) \<noteq> None \<Longrightarrow> q \<noteq> p \<Longrightarrow> holds (pcs q) = None"
  using sem_invD(6) by metis

lemma free_lock: "sem_inv (k, pcs) \<Longrightarrow> live k \<noteq> None \<Longrightarrow> vals k 2 = 0 \<Longrightarrow> holds (pcs q) = None"
  using sem_invD(7) [of k pcs] by (metis zero_neq_one)

lemma stage_ok_others:
  "sem_inv (k, pcs) \<Longrightarrow> holds (pcs q) = None \<Longrightarrow> stage_ok (pcs q) v U"
  using sem_invD(9) stage_ok_free by blast

text \<open>The lock taken by \<^verbatim>\<open>sem_create\<close>.\<close>

lemma inv_lock_create:
  assumes I: "sem_inv (k, pcs)" and "pcs p = C_lock sid v \<or> pcs p = C_lock_s sid v" "semop p sid op_lock k = Ok k'"
  shows "sem_inv (k', pcs(p := C_getval sid v))"
proof -
  note D = sem_invD [OF I]
  have live: "live k = Some sid" and v2: "vals k 2 = 0" and k': "k' = k\<lparr>vals := (vals k)(2 := 1), adj := (adj k)(p := (adj k p)(2 := adj k p 2 - 1))\<rparr>"
    using assms(3) by (auto simp: semop_def op_lock_def SEMVMX_def split: if_splits)
  note f = free_lock [OF I _ v2]
  have np: "uses (pcs p) = None" "pcs p \<noteq> Outside" using assms(2) by auto
  then have u: "users (pcs(p := C_getval sid v)) = users pcs" by (auto simp: users_def)
  show ?thesis
    using D(1) [OF np(2)] D(4,5) [of p] D(8) f [of p] stage_ok_others [OF I f] live np
    by (intro inv_move [OF I]) (simp_all add: k' f live u)
qed

text \<open>The counter initialised, and the end of \<^verbatim>\<open>sem_create\<close>.\<close>

lemma inv_set1:
  assumes I: "sem_inv (k, pcs)" and "pcs p = C_set1 sid" "semctl_setval sid 1 (int BIGCOUNT) k = Some k'"
  shows "sem_inv (k', pcs(p := C_end sid))"
proof -
  note D = sem_invD [OF I]
  have live: "live k = Some sid" and k': "k' = k\<lparr>vals := (vals k)(1 := int BIGCOUNT), adj := (\<lambda>p. (adj k p)(1 := 0))\<rparr>"
    using assms(3) by (auto simp: semctl_setval_def split: if_splits)
  have h: "holds (pcs p) \<noteq> None" "uses (pcs p) = None" "pcs p \<noteq> Outside" using assms(2) by simp_all
  have st: "users pcs = {}" using D(9) [of p] assms(2) by simp
  then have u: "users (pcs(p := C_end sid)) = {}" "uses (pcs q) = None" for q by (auto simp: users_def)
  have v2: "vals k 2 = 1" using D(7) live h(1) by auto
  show ?thesis
    using D(1) [OF h(3)] D(5) [of p] D(4) holder_alone [OF I h(1)] stage_ok_others [OF I holder_alone [OF I h(1)]] live h v2
    by (intro inv_move [OF I]) (simp_all add: k' u counter_ok_def)
qed

lemma inv_end_create:
  assumes I: "sem_inv (k, pcs)" and "pcs p = C_end sid \<or> pcs p = C_end_s sid" "semop p sid op_endcreate k = Ok k'"
  shows "sem_inv (k', pcs(p := Has sid))"
proof -
  note D = sem_invD [OF I]
  have live: "live k = Some sid" and k': "k' = k\<lparr>vals := (vals k)(1 := vals k 1 - 1, 2 := vals k 2 - 1),
      adj := (adj k)(p := (adj k p)(1 := adj k p 1 + 1, 2 := adj k p 2 + 1))\<rparr>"
    using assms(3) by (auto simp: semop_def op_endcreate_def SEMVMX_def split: if_splits)
  have h: "holds (pcs p) \<noteq> None" "uses (pcs p) = None" "pcs p \<noteq> Outside" using assms(2) by auto
  have st: "vals k 1 = int BIGCOUNT - int (card (users pcs))" using D(9) [of p] assms(2) by auto
  have np: "p \<notin> users pcs" using h(2) by (simp add: users_def)
  have u: "users (pcs(p := Has sid)) = insert p (users pcs)" by (simp add: users_upd)
  have v2: "vals k 2 = 1" using D(7) live h(1) by auto
  have no: "\<forall>q. q = p \<or> holds (pcs q) = None" using holder_alone [OF I h(1)] by metis
  show ?thesis
    using D(1) [OF h(3)] D(4,5) [of p] holder_alone [OF I h(1)] stage_ok_others [OF I holder_alone [OF I h(1)]] live h v2
      counter_ok_grows [OF st D(10) np]
    by (intro inv_move [OF I]) (simp_all add: k' u, insert no, blast)
qed

text \<open>The lock taken and released by \<^verbatim>\<open>sem_close\<close>.\<close>

lemma inv_lock_close:
  assumes I: "sem_inv (k, pcs)" and "pcs p = X_lock sid \<or> pcs p = X_lock_s sid" "semop p sid op_close k = Ok k'"
  shows "sem_inv (k', pcs(p := X_getval sid))"
proof -
  note D = sem_invD [OF I]
  have live: "live k = Some sid" and v2: "vals k 2 = 0" and k': "k' = k\<lparr>vals := (vals k)(2 := 1, 1 := vals k 1 + 1),
      adj := (adj k)(p := (adj k p)(2 := adj k p 2 - 1, 1 := adj k p 1 - 1))\<rparr>"
    using assms(3) by (auto simp: semop_def op_close_def SEMVMX_def split: if_splits)
  note f = free_lock [OF I _ v2]
  have np: "uses (pcs p) \<noteq> None" "pcs p \<noteq> Outside" using assms(2) by auto
  then have pu: "p \<in> users pcs" by (simp add: users_def)
  have u: "users (pcs(p := X_getval sid)) = users pcs - {p}" by (simp add: users_upd)
  have c: "counter_ok (vals k 1) (users pcs)" using D(8) live by simp
  then have st: "vals k 1 + 1 = int BIGCOUNT - int (card (users pcs - {p}))"
    using pu card_shrinks [OF D(10) pu] by (auto simp: counter_ok_def simp del: card_Diff_insert)
  show ?thesis
    using D(1) [OF np(2)] D(4,5) [of p] f [of p] stage_ok_others [OF I f] live np counter_ok_shrinks [OF c D(10) pu] st
    by (intro inv_move [OF I]) (simp_all add: k' f live u)
qed

lemma inv_unlock:
  assumes I: "sem_inv (k, pcs)" and "pcs p = X_unlock sid \<or> pcs p = X_unlock_s sid" "semop p sid op_unlock k = Ok k'"
  shows "sem_inv (k', pcs(p := Outside))"
proof -
  note D = sem_invD [OF I]
  have live: "live k = Some sid" and k': "k' = k\<lparr>vals := (vals k)(2 := vals k 2 - 1), adj := (adj k)(p := (adj k p)(2 := adj k p 2 + 1))\<rparr>"
    using assms(3) by (auto simp: semop_def op_unlock_def SEMVMX_def split: if_splits)
  have h: "holds (pcs p) \<noteq> None" "uses (pcs p) = None" using assms(2) by auto
  have u: "users (pcs(p := Outside)) = users pcs" using h(2) by (auto simp: users_def)
  have v2: "vals k 2 = 1" using D(7) live h(1) by auto
  have no: "\<forall>q. q = p \<or> holds (pcs q) = None" using holder_alone [OF I h(1)] by metis
  show ?thesis
    using D(4,5) [of p] D(8) holder_alone [OF I h(1)] stage_ok_others [OF I holder_alone [OF I h(1)]] live h v2
    by (intro inv_move [OF I]) (simp_all add: k' u, insert no, blast)
qed

text \<open>Removal of the set, its creation, and the end of a process.\<close>

lemma inv_removed:
  assumes I: "sem_inv (k, pcs)" and "pcs p = X_rm sid"
  shows "sem_inv (k\<lparr>live := None, adj := (\<lambda>_ _. 0)\<rparr>, pcs(p := Outside))"
proof -
  note D = sem_invD [OF I]
  have h: "holds (pcs p) \<noteq> None" using assms(2) by simp
  have "users pcs = {}" using D(9) [of p] assms(2) by simp
  then have "uses (pcs q) = None" for q by (auto simp: users_def)
  moreover have "users (pcs(p := Outside)) = {}" using \<open>users pcs = {}\<close> by (auto simp: users_def)
  ultimately show ?thesis
    using D(1) holder_alone [OF I h] stage_ok_others [OF I holder_alone [OF I h]] by (simp add: sem_inv_def)
qed

lemma inv_created:
  assumes I: "sem_inv (k, pcs)" and "live k = None" "pcs p = C_get v"
  shows "sem_inv (k\<lparr>live := Some i, vals := (\<lambda>_. 0), adj := (\<lambda>_ _. 0), next_id := j\<rparr>, pcs(p := C_lock i v))"
proof -
  note D = sem_invD [OF I]
  have n: "uses (pcs q) = None" "holds (pcs q) = None" for q using D(2,3) assms(2) by (metis option.exhaust option.distinct(1))+
  then have "users (pcs(p := C_lock i v)) = {}" by (auto simp: users_def)
  then show ?thesis using D(1) n assms(3) stage_ok_others [OF I n(2)] by (auto simp: sem_inv_def counter_ok_def)
qed

lemma inv_exit:
  assumes I: "sem_inv (k, pcs)" and "uses c = None" "holds c = None" "c \<noteq> Outside \<Longrightarrow> p < BIGCOUNT" "\<And>v U. stage_ok c v U"
  shows "sem_inv (exit_undo p k, pcs(p := c))"
proof -
  note D = sem_invD [OF I]
  have u: "users (pcs(p := c)) = users pcs - {p}" using assms(2) by (simp add: users_upd)
  have other: "holds (pcs q) = None" if "holds (pcs p) \<noteq> None" "q \<noteq> p" for q using holder_alone [OF I that] .
  have lv: "live k \<noteq> None" if "uses (pcs p) \<noteq> None \<or> holds (pcs p) \<noteq> None" using that D(2,3) by fastforce
  have x: "\<not> (uses (pcs p) \<noteq> None \<and> holds (pcs p) \<noteq> None)" by (cases "pcs p") auto
  let ?k = "exit_undo p k"
  have v1: "vals ?k 1 = (if p \<in> users pcs then vals k 1 + 1 else vals k 1)" if "live k \<noteq> None"
  proof -
    have "0 \<le> vals k 1 + 1 \<and> vals k 1 + 1 \<le> SEMVMX" if pu: "p \<in> users pcs"
    proof -
      have "card (users pcs) \<le> BIGCOUNT" using card_mono [OF _ D(11)] by simp
      then show ?thesis using D(8) \<open>live k \<noteq> None\<close> pu by (auto simp: counter_ok_def SEMVMX_def BIGCOUNT_def)
    qed
    then show ?thesis using D(4) [of p] by (auto simp: exit_undo_def users_def)
  qed
  have v2: "vals ?k 2 = (if holds (pcs p) \<noteq> None then 0 else vals k 2)" if "live k \<noteq> None"
    using D(5) [of p] D(7) [OF that] by (auto simp: exit_undo_def SEMVMX_def)
  have live: "live ?k = live k" by (simp add: exit_undo_def)
  have pu: "p \<in> users pcs \<longleftrightarrow> uses (pcs p) \<noteq> None" by (simp add: users_def)
  have st: "stage_ok (pcs q) (vals ?k 1) (users pcs - {p})" if "q \<noteq> p" for q
  proof (cases "live k")
    case None
    then have "holds (pcs q) = None" using D(3) by (metis option.exhaust option.distinct(1))
    then show ?thesis by (rule stage_ok_others [OF I])
  next
    case (Some i)
    then show ?thesis using v1 stage_ok_shrinks [OF D(9) D(10), of p q] D(9) [of q] by (cases "p \<in> users pcs") simp_all
  qed
  have co: "counter_ok (vals ?k 1) (users pcs - {p})" if "live k \<noteq> None"
    using v1 [OF that] counter_ok_shrinks [OF D(8) [OF that] D(10), of p] D(8) [OF that] by (cases "p \<in> users pcs") simp_all
  have v2': "vals ?k 2 = (if \<exists>q. q \<noteq> p \<and> holds (pcs q) \<noteq> None then 1 else 0)" if "live k \<noteq> None"
  proof (cases "holds (pcs p) = None")
    case True
    then have "(\<exists>q. holds (pcs q) \<noteq> None) \<longleftrightarrow> (\<exists>q. q \<noteq> p \<and> holds (pcs q) \<noteq> None)" by metis
    then show ?thesis using v2 [OF that] D(7) [OF that] True by simp
  next
    case False
    then have "\<not> (\<exists>q. q \<noteq> p \<and> holds (pcs q) \<noteq> None)" using other [OF False] by metis
    then show ?thesis using v2 [OF that] False by simp
  qed
  show ?thesis
  proof (rule inv_move [OF I assms(4) live])
    show "adj ?k q 1 = adj k q 1 \<and> adj ?k q 2 = adj k q 2" if "q \<noteq> p" for q using that by (simp add: exit_undo_def)
    show "adj ?k p 1 = (if uses c \<noteq> None then 1 else 0)" "adj ?k p 2 = (if holds c \<noteq> None then -1 else 0)"
      using assms(2,3) by (simp_all add: exit_undo_def)
    show "vals ?k 2 = (if holds c \<noteq> None \<or> (\<exists>q. q \<noteq> p \<and> holds (pcs q) \<noteq> None) then 1 else 0)" if "live k \<noteq> None"
      using v2' [OF that] unfolding assms(3) by simp
    show "counter_ok (vals ?k 1) (users (pcs(p := c)))" if "live k \<noteq> None" unfolding u by (rule co [OF that])
    show "stage_ok (pcs q) (vals ?k 1) (users (pcs(p := c)))" if "q \<noteq> p" for q unfolding u by (rule st [OF that])
  qed (use assms(2,3,5) in simp_all)
qed

section \<open>The invariant holds\<close>

lemma calling_inv:
  assumes "calling p ok sleep msg r k = (c, k')" "\<And>k'. r = Ok k' \<Longrightarrow> sem_inv (k', pcs(p := ok))"
    and "r = Sleeps \<Longrightarrow> sem_inv (k, pcs(p := sleep))" "\<And>e. r = Error e \<Longrightarrow> sem_inv (exit_undo p k, pcs(p := Exited msg))"
  shows "sem_inv (k', pcs(p := c))"
  using assms by (cases r) (auto simp: calling_def err_sys_def)

lemma semop_no_error:
  assumes "live k = Some sid" "vals k 1 \<le> int BIGCOUNT" "vals k 2 \<le> 1" "ops = op_endcreate \<or> ops = op_close \<or> ops = op_unlock"
  shows "semop p sid ops k \<noteq> Error e"
  using assms by (auto simp: semop_def sembuf_defs SEMVMX_def BIGCOUNT_def split: if_splits)

lemma inv_bounds:
  assumes I: "sem_inv (k, pcs)" and "live k \<noteq> None"
  shows "vals k 1 \<le> int BIGCOUNT" "vals k 2 \<le> 1"
  using sem_invD(7,8) [OF I assms(2)] by (auto simp: counter_ok_def)

lemma semop_op_fixed:
  "semop p sid (op_op v) k = Ok k' \<Longrightarrow> live k' = live k \<and> vals k' 1 = vals k 1 \<and> vals k' 2 = vals k 2 \<and>
    (\<forall>q. adj k' q 1 = adj k q 1 \<and> adj k' q 2 = adj k q 2)"
  by (auto simp: semop_def op_op_def split: if_splits)

lemma counter_zero:
  assumes I: "sem_inv (k, pcs)" and "live k \<noteq> None" "uses (pcs p) = None" "p < BIGCOUNT"
  shows "if vals k 1 = 0 then users pcs = {} else vals k 1 = int BIGCOUNT - int (card (users pcs))"
proof -
  note D = sem_invD [OF I]
  have "users pcs \<subseteq> {..<BIGCOUNT} - {p}" using D(11) assms(3) by (auto simp: users_def)
  then have "card (users pcs) \<le> card ({..<BIGCOUNT} - {p})" by (intro card_mono) auto
  then have "card (users pcs) < BIGCOUNT" using assms(4) by simp
  then show ?thesis using D(8) [OF assms(2)] by (auto simp: counter_ok_def)
qed

lemma step_inv_create:
  assumes I: "sem_inv (k, pcs)" and "create_step p (pcs p) k = (c, k')"
  shows "sem_inv (k', pcs(p := c))"
proof -
  note D = sem_invD [OF I]
  have keep: "sem_inv (k, pcs(p := d))" if "pcs p \<noteq> Outside" "uses d = uses (pcs p)" "holds d = holds (pcs p)" "stage_ok d (vals k 1) (users pcs)" for d
    using that D(1) by (intro inv_keep [OF I]) auto
  have exit: "sem_inv (exit_undo p k, pcs(p := Exited m))" if "pcs p \<noteq> Outside" "\<And>v U. stage_ok (Exited m) v U" for m
    using that D(1) by (intro inv_exit [OF I]) auto
  have locking: "sem_inv (k', pcs(p := c))"
    if "C_locking p sid v r k = (c, k')" "pcs p = C_lock sid v \<or> pcs p = C_lock_s sid v" "\<And>j. r = Ok j \<Longrightarrow> semop p sid op_lock k = Ok j" for sid v r
    using that keep [of "C_lock_s sid v"] keep [of "C_get v"] exit [of "''can't lock''"] inv_lock_create [OF I that(2)]
    by (cases r) (auto simp: C_locking_def err_sys_def split: if_splits)
  have ending: "sem_inv (k', pcs(p := c))"
    if "calling p (Has sid) (C_end_s sid) m (semop p sid op_endcreate k) k = (c, k')" "pcs p = C_end sid \<or> pcs p = C_end_s sid" for sid m
  proof -
    have live: "live k = Some sid" using D(3) [of p sid] that(2) by auto
    show ?thesis
    proof (rule calling_inv [OF that(1)])
      show "sem_inv (k, pcs(p := C_end_s sid))" using that(2) D(9) [of p] by (intro keep) auto
      show "sem_inv (j, pcs(p := Has sid))" if "semop p sid op_endcreate k = Ok j" for j
        by (rule inv_end_create [OF I \<open>pcs p = C_end sid \<or> pcs p = C_end_s sid\<close> that])
    qed (use semop_no_error [OF live inv_bounds [OF I]] live in auto)
  qed
  show ?thesis
  proof (cases "pcs p")
    case (C_get v)
    then show ?thesis using assms(2) keep inv_created [OF I _ C_get]
      by (cases "live k") (auto simp: semget_creat_def)
  next
    case (C_lock sid v)
    then show ?thesis using assms(2) by (intro locking [of sid v]) auto
  next
    case (C_lock_s sid v)
    then show ?thesis using assms(2) by (intro locking [of sid v "semop_woken p sid op_lock k"]) (auto simp: semop_woken_def split: if_splits)
  next
    case (C_getval sid v)
    then have live: "live k = Some sid" using D(3) [of p sid] by simp
    have "if vals k 1 = 0 then users pcs = {} else vals k 1 = int BIGCOUNT - int (card (users pcs))"
      using C_getval D(1) [of p] live by (intro counter_zero [OF I]) auto
    then show ?thesis using assms(2) keep [of "C_set0 sid v"] keep [of "C_end sid"] C_getval live
      by (auto simp: semctl_getval_def split: if_splits)
  next
    case (C_set0 sid v)
    then have st: "vals k 1 = 0" "users pcs = {}" "p < BIGCOUNT" using D(9) [of p] D(1) [of p] by simp_all
    show ?thesis
    proof (cases "semctl_setval sid 0 v k")
      case None
      then show ?thesis using assms(2) exit [of "''can SETVAL[0]''"] C_set0 by (auto simp: err_sys_def)
    next
      case (Some j)
      then have "c = C_set1 sid" "k' = j" using assms(2) C_set0 by auto
      moreover have "live j = live k \<and> vals j 1 = vals k 1 \<and> vals j 2 = vals k 2 \<and> (\<forall>q. adj j q 1 = adj k q 1 \<and> adj j q 2 = adj k q 2)"
        using Some by (auto simp: semctl_setval_def split: if_splits)
      ultimately show ?thesis using C_set0 st by (intro inv_keep [OF I]) auto
    qed
  next
    case (C_set1 sid)
    then have "live k = Some sid" using D(3) [of p sid] by simp
    then have "semctl_setval sid 1 (int BIGCOUNT) k \<noteq> None" by (simp add: semctl_setval_def BIGCOUNT_def SEMVMX_def)
    then show ?thesis using assms(2) C_set1 inv_set1 [OF I C_set1] by auto
  next
    case (C_end sid)
    then show ?thesis using assms(2) by (intro ending [of sid]) auto
  next
    case (C_end_s sid)
    then have "live k = Some sid" using D(3) [of p sid] by simp
    then show ?thesis using assms(2) C_end_s by (intro ending [of sid]) (auto simp: semop_woken_live)
  qed (use assms(2) I in \<open>auto simp: fun_upd_idem\<close>)
qed

lemma step_inv_close:
  assumes I: "sem_inv (k, pcs)" and "close_step p (pcs p) k = (c, k')"
  shows "sem_inv (k', pcs(p := c))"
proof -
  note D = sem_invD [OF I]
  have keep: "sem_inv (k, pcs(p := d))" if "pcs p \<noteq> Outside" "uses d = uses (pcs p)" "holds d = holds (pcs p)" "stage_ok d (vals k 1) (users pcs)" for d
    using that D(1) by (intro inv_keep [OF I]) auto
  have locking: "sem_inv (k', pcs(p := c))"
    if "calling p (X_getval sid) (X_lock_s sid) m (semop p sid op_close k) k = (c, k')" "pcs p = X_lock sid \<or> pcs p = X_lock_s sid" for sid m
  proof -
    have live: "live k = Some sid" using D(2) [of p sid] that(2) by auto
    show ?thesis
    proof (rule calling_inv [OF that(1)])
      show "sem_inv (k, pcs(p := X_lock_s sid))" using that(2) by (intro keep) auto
      show "sem_inv (j, pcs(p := X_getval sid))" if "semop p sid op_close k = Ok j" for j
        by (rule inv_lock_close [OF I \<open>pcs p = X_lock sid \<or> pcs p = X_lock_s sid\<close> that])
    qed (use semop_no_error [OF live inv_bounds [OF I]] live in auto)
  qed
  have unlocking: "sem_inv (k', pcs(p := c))"
    if "calling p Outside (X_unlock_s sid) m (semop p sid op_unlock k) k = (c, k')" "pcs p = X_unlock sid \<or> pcs p = X_unlock_s sid" for sid m
  proof -
    have live: "live k = Some sid" using D(3) [of p sid] that(2) by auto
    show ?thesis
    proof (rule calling_inv [OF that(1)])
      show "sem_inv (k, pcs(p := X_unlock_s sid))" using that(2) D(9) [of p] by (intro keep) auto
      show "sem_inv (j, pcs(p := Outside))" if "semop p sid op_unlock k = Ok j" for j
        by (rule inv_unlock [OF I \<open>pcs p = X_unlock sid \<or> pcs p = X_unlock_s sid\<close> that])
    qed (use semop_no_error [OF live inv_bounds [OF I]] live in auto)
  qed
  show ?thesis
  proof (cases "pcs p")
    case (X_lock sid)
    then show ?thesis using assms(2) by (intro locking [of sid]) auto
  next
    case (X_lock_s sid)
    then have "live k = Some sid" using D(2) [of p sid] by simp
    then show ?thesis using assms(2) X_lock_s by (intro locking [of sid]) (auto simp: semop_woken_live)
  next
    case (X_getval sid)
    then have live: "live k = Some sid" and st: "vals k 1 = int BIGCOUNT - int (card (users pcs))" using D(3) [of p sid] D(9) [of p] by simp_all
    have ck: "(c, k') = (if vals k 1 = int BIGCOUNT then X_rm sid else X_unlock sid, k)"
      using assms(2) X_getval live st by (auto simp: semctl_getval_def split: if_splits)
    show ?thesis
    proof (cases "vals k 1 = int BIGCOUNT")
      case True
      then have "users pcs = {}" using st D(10) by simp
      then show ?thesis using ck True X_getval keep [of "X_rm sid"] by simp
    next
      case False
      then show ?thesis using ck st X_getval keep [of "X_unlock sid"] by simp
    qed
  next
    case (X_rm sid)
    then have "live k = Some sid" using D(3) [of p sid] by simp
    then show ?thesis using assms(2) X_rm inv_removed [OF I X_rm] by (auto simp: rm_step_def semctl_rmid_def)
  next
    case (X_unlock sid)
    then show ?thesis using assms(2) by (intro unlocking [of sid]) auto
  next
    case (X_unlock_s sid)
    then have "live k = Some sid" using D(3) [of p sid] by simp
    then show ?thesis using assms(2) X_unlock_s by (intro unlocking [of sid]) (auto simp: semop_woken_live)
  qed (use assms(2) I in \<open>auto simp: fun_upd_idem\<close>)
qed

lemma step_inv_op:
  assumes I: "sem_inv (k, pcs)" and "op_step p (pcs p) k = (c, k')"
  shows "sem_inv (k', pcs(p := c))"
proof -
  note D = sem_invD [OF I]
  have exit: "sem_inv (exit_undo p k, pcs(p := Exited m))" if "pcs p \<noteq> Outside" "\<And>v U. stage_ok (Exited m) v U" for m
    using that D(1) by (intro inv_exit [OF I]) auto
  have op: "sem_inv (k', pcs(p := c))"
    if "calling p (Has sid) (P_op_s sid v) ''sem_op error'' (semop p sid (op_op v) k) k = (c, k')" "pcs p = P_op sid v \<or> pcs p = P_op_s sid v" for sid v
  proof (rule calling_inv [OF that(1)])
    show "sem_inv (k, pcs(p := P_op_s sid v))" using that(2) D(1) [of p] by (intro inv_keep [OF I]) auto
    show "sem_inv (j, pcs(p := Has sid))" if "semop p sid (op_op v) k = Ok j" for j
      using semop_op_fixed [OF that] \<open>pcs p = P_op sid v \<or> pcs p = P_op_s sid v\<close> D(1) [of p] by (intro inv_keep [OF I]) auto
    show "sem_inv (exit_undo p k, pcs(p := Exited ''sem_op error''))" using that(2) by (intro exit) auto
  qed
  show ?thesis
  proof (cases "pcs p")
    case (P_op sid v)
    then show ?thesis using assms(2) exit [of "''can't have value == 0''"] op [of sid v]
      by (auto simp: err_sys_def split: if_splits)
  next
    case (P_op_s sid v)
    then have "live k = Some sid" using D(2) [of p sid] by simp
    then show ?thesis using assms(2) P_op_s by (intro op [of sid v]) (auto simp: semop_woken_live)
  qed (use assms(2) I in \<open>auto simp: fun_upd_idem\<close>)
qed

lemma step_inv:
  assumes I: "sem_inv (k, pcs)" and "sem_step p (pcs p) k = (c, k')"
  shows "sem_inv (k', pcs(p := c))"
  using assms(2) step_inv_create [OF I, of p c k'] step_inv_close [OF I, of p c k'] step_inv_op [OF I, of p c k'] sem_invD(9) [OF I, of p] I
  by (cases "pcs p") (auto simp: fun_upd_idem)

lemma sem_sys_inv: "sem_sys key False s \<Longrightarrow> sem_inv s"
proof (induction rule: sem_sys.induct)
  case sys_start
  then show ?case by (simp add: sys_init_def sem_inv_def counter_ok_def)
next
  case (sys_create k pcs p initval)
  then show ?case by (intro inv_keep) (auto simp: sem_create_def)
next
  case (sys_create_fails k pcs p initval)
  then show ?case by (intro inv_keep) auto
next
  case (sys_close k pcs p sid)
  then show ?case using sem_invD(1) [OF sys_close.IH, of p] by (intro inv_keep) (auto simp: sem_close_def)
next
  case (sys_op k pcs p sid v)
  then show ?case using sem_invD(1) [OF sys_op.IH, of p] by (intro inv_keep) (auto simp: sem_op_def)
next
  case (sys_step k pcs p c k')
  then show ?case using step_inv by blast
next
  case (sys_die k pcs p)
  then show ?case by (intro inv_exit) auto
qed auto

section \<open>Concrete runs\<close>

text \<open>\<open>n\<close> steps of process \<open>p\<close>.\<close>

fun solo :: "nat \<Rightarrow> nat \<Rightarrow> sys \<Rightarrow> sys" where
  "solo p 0 s = s"
| "solo p (Suc n) (k, pcs) = (case sem_step p (pcs p) k of (c, k') \<Rightarrow> solo p n (k', pcs(p := c)))"

lemma solo_sys: "sem_sys key others s \<Longrightarrow> sem_sys key others (solo p n s)"
proof (induction p n s rule: solo.induct)
  case (2 p n k pcs)
  obtain c k' where c: "sem_step p (pcs p) k = (c, k')" by (metis surj_pair)
  then show ?case using 2 sys_step by fastforce
qed simp

lemma solo_reaches:
  assumes "sem_sys key others s" "Q (fst (solo p n s)) (snd (solo p n s))"
  shows "\<exists>k pcs. sem_sys key others (k, pcs) \<and> Q k pcs"
  using solo_sys [OF assms(1), of p n] assms(2) by (cases "solo p n s") auto

lemmas step_simps = semget_creat_def C_locking_def semop_def semop_woken_def sembuf_defs SEMVMX_def BIGCOUNT_def calling_def err_sys_def
  semctl_getval_def semctl_setval_def semctl_rmid_def rm_step_def

text \<open>Process 0 has created the semaphore.\<close>

definition one_user :: "kern \<Rightarrow> (nat \<Rightarrow> pc) \<Rightarrow> bool" where
  "one_user k pcs \<longleftrightarrow> live k = Some 0 \<and> vals k 1 = 9999 \<and> vals k 2 = 0 \<and> pcs 0 = Has 0 \<and> pcs 1 = Outside"

lemma created: "\<exists>k pcs. sem_sys 5 others (k, pcs) \<and> one_user k pcs"
proof -
  have "sem_sys 5 others (fst sys_init, (snd sys_init)(0 := sem_create 5 3))"
    by (rule sys_create) (simp_all add: sys_start BIGCOUNT_def sys_init_def sys_start [unfolded sys_init_def])
  then show ?thesis
    by (rule solo_reaches [where p = 0 and n = 6])
      (simp_all add: sys_init_def sem_create_def eval_nat_numeral step_simps one_user_def)
qed

text \<open>The same process has closed it and got the value of the counter, or not yet.\<close>

definition closing_at :: "pc \<Rightarrow> kern \<Rightarrow> (nat \<Rightarrow> pc) \<Rightarrow> bool" where
  "closing_at c k pcs \<longleftrightarrow> live k = Some 0 \<and> vals k 1 = 10000 \<and> vals k 2 = 1 \<and> pcs 0 = c \<and> pcs 1 = Outside"

lemma closed:
  "\<exists>k pcs. sem_sys 5 others (k, pcs) \<and> closing_at (X_getval 0) k pcs"
  "\<exists>k pcs. sem_sys 5 others (k, pcs) \<and> closing_at (X_rm 0) k pcs"
proof -
  obtain k pcs where k: "sem_sys 5 others (k, pcs)" "one_user k pcs" using created by blast
  have s: "sem_sys 5 others (k, pcs(0 := sem_close 0))" by (rule sys_close [OF k(1)]) (use k(2) in \<open>simp add: one_user_def\<close>)
  then show "\<exists>k pcs. sem_sys 5 others (k, pcs) \<and> closing_at (X_getval 0) k pcs"
    by (rule solo_reaches [where p = 0 and n = 1]) (use k(2) in \<open>simp_all add: sem_close_def step_simps closing_at_def one_user_def\<close>)
  from s show "\<exists>k pcs. sem_sys 5 others (k, pcs) \<and> closing_at (X_rm 0) k pcs"
    by (rule solo_reaches [where p = 0 and n = 2])
      (use k(2) in \<open>simp_all add: eval_nat_numeral sem_close_def step_simps closing_at_def one_user_def\<close>)
qed

lemma sleeper_dies: "\<exists>k pcs. sem_sys 5 False (k, pcs) \<and> pcs 1 = Exited ''can't lock''"
proof -
  obtain k pcs where k: "sem_sys 5 False (k, pcs)" "closing_at (X_getval 0) k pcs" using closed(1) by blast
  have "sem_sys 5 False (k, pcs(1 := sem_create 5 3))"
    by (rule sys_create [OF k(1)]) (use k(2) in \<open>simp_all add: BIGCOUNT_def closing_at_def\<close>)
  from solo_sys [OF solo_sys [OF this, of 1 2], of 0 2] show ?thesis
    by (rule solo_reaches [where p = 1 and n = 1])
      (use k(2) in \<open>simp_all add: sem_create_def eval_nat_numeral step_simps closing_at_def\<close>)
qed

lemma opener_loses: "\<exists>k pcs. sem_sys 5 True (k, pcs) \<and> pcs 1 = Has 0 \<and> live k = None"
proof -
  obtain k pcs where k: "sem_sys 5 True (k, pcs)" "closing_at (X_rm 0) k pcs" using closed(2) by blast
  have "sem_sys 5 True (k, pcs(1 := sem_open 5))"
    by (rule sys_open [OF _ k(1)]) (use k(2) in \<open>simp_all add: BIGCOUNT_def closing_at_def\<close>)
  from solo_sys [OF this, of 1 2] show ?thesis
    by (rule solo_reaches [where p = 0 and n = 1])
      (use k(2) in \<open>simp_all add: sem_open_def eval_nat_numeral step_simps closing_at_def\<close>)
qed

section \<open>Properties\<close>

text \<open>
  C38. Semaphores created and closed by up to 10000 processes are safe, in every interleaving of
  their system calls and whenever processes die: an open semaphore is never removed, at most one
  process is between taking and releasing the lock, the counter counts the processes that have the
  semaphore open, its value is initialised and the set removed only while no process has it open,
  and no process stops with a report other than the four named.
\<close>

theorem semaphore_safe:
  assumes "sem_sys key False (k, pcs)"
  shows "(\<forall>p i. uses (pcs p) = Some i \<longrightarrow> live k = Some i \<and> vals k 1 = int BIGCOUNT - int (card (users pcs))) \<and>
    (\<forall>p q. holds (pcs p) \<noteq> None \<and> holds (pcs q) \<noteq> None \<longrightarrow> p = q) \<and>
    (\<forall>p i v. pcs p = C_set0 i v \<or> pcs p = C_set1 i \<or> pcs p = X_rm i \<longrightarrow> users pcs = {}) \<and>
    (\<forall>p m. pcs p = Exited m \<longrightarrow> m \<in> {''can't lock'', ''can SETVAL[0]'', ''sem_op error'', ''can't have value == 0''})"
proof -
  note D = sem_invD [OF sem_sys_inv [OF assms]]
  have "vals k 1 = int BIGCOUNT - int (card (users pcs))" if "uses (pcs p) = Some i" for p i
    using D(8) D(2) [OF that] that by (auto simp: counter_ok_def users_def)
  moreover have "users pcs = {}" if "pcs p = C_set0 i v \<or> pcs p = C_set1 i \<or> pcs p = X_rm i" for p i v
    using D(9) [of p] that by auto
  moreover have "m \<in> {''can't lock'', ''can SETVAL[0]'', ''sem_op error'', ''can't have value == 0''}" if "pcs p = Exited m" for p m
    using D(9) [of p] that by simp
  ultimately show ?thesis using D(2,6) by blast
qed

theorem semaphore_safe_witness:
  "\<exists>k pcs. sem_sys 5 False (k, pcs) \<and> uses (pcs 0) = Some 0 \<and> live k = Some 0"
proof -
  obtain k pcs where k: "sem_sys 5 False (k, pcs)" "one_user k pcs" using created by blast
  then have "uses (pcs 0) = Some 0" by (simp add: one_user_def)
  with semaphore_safe [OF k(1)] k(1) show ?thesis by blast
qed

text \<open>
  Two ways in which the library fails. A process that sleeps on the lock in \<^verbatim>\<open>sem_create\<close>
  while another removes the set is woken with \<^verbatim>\<open>EIDRM\<close>, which is not the error the code looks for,
  and stops with a report instead of creating the semaphore again. And \<^verbatim>\<open>sem_open\<close>, which takes no
  lock, can succeed between the test of \<^verbatim>\<open>sem_close\<close> and the removal: the process has an open
  semaphore that does not exist.
\<close>

theorem semaphore_races:
  "(\<exists>k pcs. sem_sys 5 False (k, pcs) \<and> pcs 1 = Exited ''can't lock'') \<and>
   (\<exists>k pcs. sem_sys 5 True (k, pcs) \<and> pcs 1 = Has 0 \<and> live k = None)"
  using sleeper_dies opener_loses by blast

end
