(* ===== verification/TtyModes.thy ===== *)
theory TtyModes
  imports CLib 
begin

text \<open>
  \<^verbatim>\<open>lib/ttymodes.c\<close>: putting a terminal into cbreak or raw mode and restoring it. The settings of
  the terminal behind each descriptor are part of the state; \<^verbatim>\<open>tcsetattr\<close> may fail, and it may
  report success although the settings are different from the ones asked for.
\<close>

unbundle bit_operations_syntax

section \<open>Terminals\<close>

record termios =
  c_iflag :: "32 word"
  c_oflag :: "32 word"
  c_cflag :: "32 word"
  c_lflag :: "32 word"
  c_cc :: "nat \<Rightarrow> 8 word"

definition ECHO :: "32 word" where "ECHO = 0x8"
definition ICANON :: "32 word" where "ICANON = 0x2"
definition IEXTEN :: "32 word" where "IEXTEN = 0x8000"
definition ISIG :: "32 word" where "ISIG = 0x1"
definition BRKINT :: "32 word" where "BRKINT = 0x2"
definition ICRNL :: "32 word" where "ICRNL = 0x100"
definition INPCK :: "32 word" where "INPCK = 0x10"
definition ISTRIP :: "32 word" where "ISTRIP = 0x20"
definition IXON :: "32 word" where "IXON = 0x400"
definition CSIZE :: "32 word" where "CSIZE = 0x30"
definition PARENB :: "32 word" where "PARENB = 0x100"
definition CS8 :: "32 word" where "CS8 = 0x30"
definition OPOST :: "32 word" where "OPOST = 0x1"
definition VTIME :: nat where "VTIME = 5"
definition VMIN :: nat where "VMIN = 6"

lemmas tty_consts = CSIZE_def PARENB_def CS8_def VTIME_def VMIN_def

datatype ttymode = RESET | RAW | CBREAK

datatype setout = Set_all | Set_fails | Set_other termios

text \<open>
  The static variables, the terminals, and the outcomes of the calls to come; where a list is
  exhausted the calls succeed.
\<close>

record tty =
  save_termios :: termios
  ttysavefd :: int
  ttystate :: ttymode
  terms :: "int \<Rightarrow> termios"
  gets_fail :: "bool list"
  sets :: "setout list"
  errno :: string

definition tcgetattr :: "int \<Rightarrow> tty \<Rightarrow> termios option \<times> tty" where
  "tcgetattr fd s = (case gets_fail s of
       [] \<Rightarrow> (Some (terms s fd), s)
     | b # r \<Rightarrow> if b then (None, s\<lparr>gets_fail := r, errno := ''ENOTTY''\<rparr>) else (Some (terms s fd), s\<lparr>gets_fail := r\<rparr>))"

definition tcsetattr :: "int \<Rightarrow> termios \<Rightarrow> tty \<Rightarrow> bool \<times> tty" where
  "tcsetattr fd t s = (case sets s of
       [] \<Rightarrow> (True, s\<lparr>terms := (terms s)(fd := t)\<rparr>)
     | out # r \<Rightarrow> let s = s\<lparr>sets := r\<rparr> in
         case out of
           Set_all \<Rightarrow> (True, s\<lparr>terms := (terms s)(fd := t)\<rparr>)
         | Set_fails \<Rightarrow> (False, s\<lparr>errno := ''EIO''\<rparr>)
         | Set_other u \<Rightarrow> (True, s\<lparr>terms := (terms s)(fd := u)\<rparr>))"

section \<open>The program\<close>

definition cbreak_of :: "termios \<Rightarrow> termios" where
  "cbreak_of b = b\<lparr>c_lflag := c_lflag b AND NOT (ECHO OR ICANON), c_cc := (c_cc b)(VMIN := 1, VTIME := 0)\<rparr>"

definition cbreak_ok :: "termios \<Rightarrow> bool" where
  "cbreak_ok b \<longleftrightarrow> c_lflag b AND (ECHO OR ICANON) = 0 \<and> c_cc b VMIN = 1 \<and> c_cc b VTIME = 0"

definition raw_of :: "termios \<Rightarrow> termios" where
  "raw_of b = b\<lparr>c_lflag := c_lflag b AND NOT (ECHO OR ICANON OR IEXTEN OR ISIG),
     c_iflag := c_iflag b AND NOT (BRKINT OR ICRNL OR INPCK OR ISTRIP OR IXON),
     c_cflag := (c_cflag b AND NOT (CSIZE OR PARENB)) OR CS8,
     c_oflag := c_oflag b AND NOT OPOST, c_cc := (c_cc b)(VMIN := 1, VTIME := 0)\<rparr>"

definition raw_ok :: "termios \<Rightarrow> bool" where
  "raw_ok b \<longleftrightarrow> c_lflag b AND (ECHO OR ICANON OR IEXTEN OR ISIG) = 0 \<and>
     c_iflag b AND (BRKINT OR ICRNL OR INPCK OR ISTRIP OR IXON) = 0 \<and>
     c_cflag b AND (CSIZE OR PARENB OR CS8) = CS8 \<and> c_oflag b AND OPOST = 0 \<and>
     c_cc b VMIN = 1 \<and> c_cc b VTIME = 0"

text \<open>The part that \<^verbatim>\<open>tty_cbreak\<close> and \<^verbatim>\<open>tty_raw\<close> share: the new settings, the test that they stuck.\<close>

definition set_mode :: "(termios \<Rightarrow> termios) \<Rightarrow> (termios \<Rightarrow> bool) \<Rightarrow> ttymode \<Rightarrow> int \<Rightarrow> tty \<Rightarrow> int \<times> tty" where
  "set_mode change check m fd s =
     (if ttystate s \<noteq> RESET then (-1, s\<lparr>errno := ''EINVAL''\<rparr>)
      else case tcgetattr fd s of
        (None, s) \<Rightarrow> (-1, s)
      | (Some buf, s) \<Rightarrow>
          case tcsetattr fd (change buf) (s\<lparr>save_termios := buf\<rparr>) of
            (False, s) \<Rightarrow> (-1, s)
          | (True, s) \<Rightarrow>
              case tcgetattr fd s of
                (None, s) \<Rightarrow> (-1, (snd (tcsetattr fd (save_termios s) s))\<lparr>errno := errno s\<rparr>)
              | (Some buf, s) \<Rightarrow>
                  if \<not> check buf then (-1, (snd (tcsetattr fd (save_termios s) s))\<lparr>errno := ''EINVAL''\<rparr>)
                  else (0, s\<lparr>ttystate := m, ttysavefd := fd\<rparr>))"

definition tty_cbreak :: "int \<Rightarrow> tty \<Rightarrow> int \<times> tty" where
  "tty_cbreak = set_mode cbreak_of cbreak_ok CBREAK"

definition tty_raw :: "int \<Rightarrow> tty \<Rightarrow> int \<times> tty" where
  "tty_raw = set_mode raw_of raw_ok RAW"

definition tty_reset :: "int \<Rightarrow> tty \<Rightarrow> int \<times> tty" where
  "tty_reset fd s =
     (if ttystate s = RESET then (0, s)
      else case tcsetattr fd (save_termios s) s of
        (False, s) \<Rightarrow> (-1, s)
      | (True, s) \<Rightarrow> (0, s\<lparr>ttystate := RESET\<rparr>))"

definition tty_atexit :: "tty \<Rightarrow> tty" where
  "tty_atexit s = (if ttysavefd s \<ge> 0 then snd (tty_reset (ttysavefd s) s) else s)"

definition tty_termios :: "tty \<Rightarrow> termios" where
  "tty_termios s = save_termios s"

section \<open>Facts\<close>

lemma and_not_and: "(x AND NOT m) AND m = (0 :: 'a :: len word)"
  by (simp only: and.assoc bit.conj_cancel_left and_zero_eq)

lemma mode_sticks: "cbreak_ok (cbreak_of b)" "raw_ok (raw_of b)"
proof -
  show "cbreak_ok (cbreak_of b)"
    by (simp add: cbreak_ok_def cbreak_of_def and_not_and VMIN_def VTIME_def del: bit.de_Morgan_disj)
  have "(y OR CS8) AND (CSIZE OR PARENB OR CS8) = CS8" if "y AND (CSIZE OR PARENB) = 0" for y :: "32 word"
  proof -
    have c: "CSIZE OR PARENB OR CS8 = CSIZE OR PARENB" "CS8 AND (CSIZE OR PARENB) = CS8" by (simp_all add: tty_consts)
    show ?thesis unfolding c(1) bit.conj_disj_distrib2 that c(2) by simp
  qed
  then have "((c_cflag b AND NOT (CSIZE OR PARENB)) OR CS8) AND (CSIZE OR PARENB OR CS8) = CS8" using and_not_and by blast
  then show "raw_ok (raw_of b)"
    by (simp add: raw_ok_def raw_of_def and_not_and VTIME_def VMIN_def del: bit.de_Morgan_disj)
qed

lemma tcgetattr_fixed:
  "tcgetattr fd s = (r, s') \<Longrightarrow> terms s' = terms s \<and> save_termios s' = save_termios s \<and> ttystate s' = ttystate s \<and>
    ttysavefd s' = ttysavefd s \<and> sets s' = sets s \<and> (r = None \<or> r = Some (terms s fd))"
  by (auto simp: tcgetattr_def split: list.splits if_splits)

lemma tcsetattr_fixed:
  "tcsetattr fd t s = (b, s') \<Longrightarrow> save_termios s' = save_termios s \<and> ttystate s' = ttystate s \<and> ttysavefd s' = ttysavefd s \<and>
    sets s' = tl (sets s) \<and> (\<forall>g. g \<noteq> fd \<longrightarrow> terms s' g = terms s g) \<and> (\<not> b \<longrightarrow> terms s' = terms s)"
  by (auto simp: tcsetattr_def Let_def split: list.splits setout.splits)

text \<open>The driver does all that the next call asks for.\<close>

definition obeys :: "tty \<Rightarrow> bool" where
  "obeys s \<longleftrightarrow> sets s = [] \<or> hd (sets s) = Set_all"

lemma tcsetattr_obeys: "obeys s \<Longrightarrow> tcsetattr fd t s = (True, s\<lparr>terms := (terms s)(fd := t), sets := tl (sets s)\<rparr>)"
  by (auto simp: tcsetattr_def obeys_def Let_def split: list.splits)

text \<open>What a change of mode does, for both modes.\<close>

lemma set_mode_correct:
  assumes "ttystate s = RESET" "set_mode change check m fd s = (r, s')"
  shows "(\<forall>g. g \<noteq> fd \<longrightarrow> terms s' g = terms s g) \<and>
    (r = 0 \<longrightarrow> check (terms s' fd) \<and> ttystate s' = m \<and> ttysavefd s' = fd \<and> save_termios s' = terms s fd \<and>
       (obeys s \<longrightarrow> terms s' fd = change (terms s fd))) \<and>
    (r \<noteq> 0 \<longrightarrow> r = -1 \<and> ttystate s' = RESET \<and> (sets s = [] \<or> tl (sets s) = [] \<or> hd (tl (sets s)) = Set_all \<longrightarrow> terms s' = terms s))"
proof -
  obtain o1 s1 where g1: "tcgetattr fd s = (o1, s1)" by (metis surj_pair)
  note f1 = tcgetattr_fixed [OF g1]
  show ?thesis
  proof (cases o1)
    case None
    then show ?thesis using assms g1 f1 by (auto simp: set_mode_def)
  next
    case (Some buf)
    then have buf: "buf = terms s fd" using f1 by simp
    obtain b s2 where t1: "tcsetattr fd (change buf) (s1\<lparr>save_termios := buf\<rparr>) = (b, s2)" by (metis surj_pair)
    note f2 = tcsetattr_fixed [OF t1]
    obtain o2 s3 where g2: "tcgetattr fd s2 = (o2, s3)" by (metis surj_pair)
    note f3 = tcgetattr_fixed [OF g2]
    obtain b' s4 where t2: "tcsetattr fd (save_termios s3) s3 = (b', s4)" by (metis surj_pair)
    note f4 = tcsetattr_fixed [OF t2]
    have sv: "save_termios s3 = terms s fd" "sets s3 = tl (sets s)" "ttystate s3 = RESET" "terms s3 = terms s2" "\<forall>g. g \<noteq> fd \<longrightarrow> terms s2 g = terms s g"
      using f1 f2 f3 buf assms(1) by simp_all
    have restored: "terms s4 = terms s" if "sets s = [] \<or> tl (sets s) = [] \<or> hd (tl (sets s)) = Set_all"
    proof -
      have "obeys s3" using that sv(2) by (auto simp: obeys_def)
      then have "terms s4 fd = terms s fd" using tcsetattr_obeys [of s3 fd "save_termios s3"] t2 sv(1) by auto
      then show ?thesis using f4 sv(4,5) by (metis ext)
    qed
    have ch: "terms s2 fd = change (terms s fd)" if "obeys s"
    proof -
      have "obeys (s1\<lparr>save_termios := buf\<rparr>)" using that f1 by (simp add: obeys_def)
      then show ?thesis using tcsetattr_obeys [of "s1\<lparr>save_termios := buf\<rparr>" fd "change buf"] t1 buf by auto
    qed
    show ?thesis
    proof (cases b)
      case False
      then show ?thesis using assms g1 t1 Some f1 f2 by (auto simp: set_mode_def)
    next
      case True
      show ?thesis
      proof (cases "o2 = None \<or> \<not> check (the o2)")
        case bad: True
        then have "r = -1" "terms s' = terms s4" "ttystate s' = RESET"
          using assms g1 t1 Some g2 t2 True f4 sv(3) by (auto simp: set_mode_def split: option.splits if_splits)
        then show ?thesis using restored f4 sv(4,5) by simp
      next
        case False
        then have "o2 = Some (terms s2 fd)" "check (terms s2 fd)" using f3 by auto
        then have "r = 0" "s' = s3\<lparr>ttystate := m, ttysavefd := fd\<rparr>"
          using assms g1 t1 Some g2 True by (simp_all add: set_mode_def)
        then show ?thesis using sv ch \<open>check (terms s2 fd)\<close> by simp
      qed
    qed
  qed
qed

lemma set_mode_again: "ttystate s \<noteq> RESET \<Longrightarrow> set_mode change check m fd s = (-1, s\<lparr>errno := ''EINVAL''\<rparr>)"
  by (simp add: set_mode_def)

lemma reset_obeys:
  "obeys s \<Longrightarrow> ttystate s \<noteq> RESET \<Longrightarrow>
    tty_reset fd s = (0, s\<lparr>terms := (terms s)(fd := save_termios s), sets := tl (sets s), ttystate := RESET\<rparr>)"
  by (simp add: tty_reset_def tcsetattr_obeys)

section \<open>Properties\<close>

text \<open>
  C40. A terminal in cbreak or raw mode can always be restored. The two functions return 0 only if
  the settings that the mode asks for are in force, whatever the driver did; if they return -1 and
  the driver carries out the restoring call, the terminal is as before. After success another
  change is refused without an effect, and \<^verbatim>\<open>tty_reset\<close> (or \<^verbatim>\<open>tty_atexit\<close>) brings back exactly the
  settings from before. \<^verbatim>\<open>tty_reset\<close> with another descriptor gives that one the saved settings,
  and forgets the terminal that is still in the mode.
\<close>

theorem tty_modes_restore:
  assumes "(enter, ok) \<in> {(tty_raw, raw_ok), (tty_cbreak, cbreak_ok)}" "ttystate s = RESET" "0 \<le> fd" "enter fd s = (r, s')"
  shows "if r = 0
    then ok (terms s' fd) \<and> tty_termios s' = terms s fd \<and> (\<forall>g. g \<noteq> fd \<longrightarrow> terms s' g = terms s g) \<and>
      tty_raw g s' = (-1, s'\<lparr>errno := ''EINVAL''\<rparr>) \<and> tty_cbreak g s' = (-1, s'\<lparr>errno := ''EINVAL''\<rparr>) \<and>
      (obeys s' \<longrightarrow> (\<exists>t. tty_reset fd s' = (0, t) \<and> tty_atexit s' = t \<and> ttystate t = RESET \<and> terms t = terms s) \<and>
        (g \<noteq> fd \<longrightarrow> (\<exists>t. tty_reset g s' = (0, t) \<and> ttystate t = RESET \<and> terms t g = terms s fd \<and> ok (terms t fd))))
    else r = -1 \<and> ttystate s' = RESET \<and> (sets s = [] \<or> tl (sets s) = [] \<or> hd (tl (sets s)) = Set_all \<longrightarrow> terms s' = terms s)"
proof -
  obtain change m where e: "enter = set_mode change ok m" and m: "m \<noteq> RESET"
    using assms(1) by (auto simp: tty_raw_def tty_cbreak_def)
  note c = set_mode_correct [OF assms(2), of change ok m fd r s', folded e, OF assms(4)]
  show ?thesis
  proof (cases "r = 0")
    case False
    then show ?thesis using c by simp
  next
    case True
    then have s': "ok (terms s' fd)" "ttystate s' = m" "ttysavefd s' = fd" "save_termios s' = terms s fd" "\<forall>g. g \<noteq> fd \<longrightarrow> terms s' g = terms s g"
      using c by simp_all
    then have n: "ttystate s' \<noteq> RESET" using m by simp
    have r: "tty_reset h s' = (0, s'\<lparr>terms := (terms s')(h := terms s fd), sets := tl (sets s'), ttystate := RESET\<rparr>)" if "obeys s'" for h
      using reset_obeys [OF that n, of h] s'(4) by simp
    have "(terms s')(fd := terms s fd) = terms s" using s'(5) by (auto simp: fun_eq_iff)
    then show ?thesis
      using True s' r assms(3) set_mode_again [OF n] by (simp add: tty_raw_def tty_cbreak_def tty_termios_def tty_atexit_def)
  qed
qed

definition tty_example :: tty where
  "tty_example = \<lparr>save_termios = \<lparr>c_iflag = 0, c_oflag = 0, c_cflag = 0, c_lflag = 0, c_cc = (\<lambda>_. 0)\<rparr>, ttysavefd = -1, ttystate = RESET,
     terms = (\<lambda>_. \<lparr>c_iflag = 0x500, c_oflag = 1, c_cflag = 0xB0, c_lflag = 0x8A3B, c_cc = (\<lambda>_. 4)\<rparr>), gets_fail = [], sets = [], errno = []\<rparr>"

theorem tty_modes_restore_witness:
  "\<exists>s' t. tty_raw 0 tty_example = (0, s') \<and> raw_ok (terms s' 0) \<and> tty_reset 0 s' = (0, t) \<and> terms t = terms tty_example"
proof -
  obtain s' where s': "tty_raw 0 tty_example = (0, s')" "obeys s'"
    using mode_sticks(2) by (simp add: tty_raw_def set_mode_def tcgetattr_def tcsetattr_def tty_example_def obeys_def)
  from tty_modes_restore [of tty_raw raw_ok tty_example 0 0 s' 0] s' show ?thesis
    by (simp add: tty_example_def)
qed

end
