(* ===== verification/FooTable.thy ===== *)
theory FooTable
  imports CLib "HOL-Library.Multiset"
begin

text \<open>
  \<^verbatim>\<open>threads/mutex2.c\<close>: a hash table of objects with reference counts, used by many threads. Every
  function is a machine whose steps end where a thread has to wait for a lock, so that the
  critical sections of different threads interleave in every way. The shorter functions of
  \<^verbatim>\<open>threads/mutex3.c\<close>, which count under the lock of the table, are compared with them.
\<close>

section \<open>Objects and the table\<close>

definition NHASH :: nat where "NHASH = 29"

definition HASH :: "int \<Rightarrow> nat" where "HASH i = nat (i mod 2 ^ 64) mod NHASH"

text \<open>
  A lock is the thread that has it. Address 0 is \<^verbatim>\<open>NULL\<close>; an address without object is free memory. The
  count is an \<^verbatim>\<open>int\<close> in C and an integer here: as it is the number of references to the object (C16),
  the two differ only from \<open>2 ^ 31\<close> references to one object on.
\<close>

record foo =
  f_count :: int
  f_lock :: "nat option"
  f_id :: int
  f_next :: nat

record table =
  fh :: "nat \<Rightarrow> nat"
  heap :: "nat \<Rightarrow> foo option"
  hashlock :: "nat option"

definition put :: "nat \<Rightarrow> foo \<Rightarrow> table \<Rightarrow> table" where
  "put p f s = s\<lparr>heap := (heap s)(p \<mapsto> f)\<rparr>"

text \<open>Access to an object, and a critical section under its lock; \<open>None\<close> while another thread has it.\<close>

definition with_foo :: "nat \<Rightarrow> table \<Rightarrow> (foo \<Rightarrow> 'a res) \<Rightarrow> 'a res" where
  "with_foo p s g = (case heap s p of None \<Rightarrow> Inl (Undef ''object is freed'') | Some f \<Rightarrow> g f)"

definition under_lock :: "nat \<Rightarrow> table \<Rightarrow> (foo \<Rightarrow> 'a res) \<Rightarrow> 'a res option" where
  "under_lock p s g = (case heap s p of
       None \<Rightarrow> Some (Inl (Undef ''object is freed''))
     | Some f \<Rightarrow> if f_lock f = None then Some (g f) else None)"

text \<open>The loops over a chain. \<open>None\<close> is a loop that does not end.\<close>

partial_function (option) search :: "(nat \<Rightarrow> foo option) \<Rightarrow> int \<Rightarrow> nat \<Rightarrow> nat res option" where
  "search h i p = (if p = 0 then Some (Inr 0)
     else case h p of None \<Rightarrow> Some (Inl (Undef ''object is freed''))
        | Some f \<Rightarrow> if f_id f = i then Some (Inr p) else search h i (f_next f))"

partial_function (option) before :: "(nat \<Rightarrow> foo option) \<Rightarrow> nat \<Rightarrow> nat \<Rightarrow> nat res option" where
  "before h fp tfp = (case h tfp of None \<Rightarrow> Some (Inl (Undef ''object is freed''))
     | Some f \<Rightarrow> if f_next f = fp then Some (Inr tfp) else before h fp (f_next f))"

definition ended :: "'a res option \<Rightarrow> 'a res" where
  "ended r = (case r of None \<Rightarrow> Inl Diverges | Some x \<Rightarrow> x)"

text \<open>The removal of an object from its chain.\<close>

definition unlink :: "nat \<Rightarrow> foo \<Rightarrow> table \<Rightarrow> table res" where
  "unlink fp f s =
     (let idx = HASH (f_id f); tfp = fh s idx in
      if tfp = fp then Inr (s\<lparr>fh := (fh s)(idx := f_next f)\<rparr>)
      else bnd (ended (before (heap s) fp tfp)) (\<lambda>tfp.
           with_foo tfp s (\<lambda>g. Inr (put tfp (g\<lparr>f_next := f_next f\<rparr>) s))))"

section \<open>The functions of mutex2.c\<close>

text \<open>Where a thread is, with the object or the identifier it is working on.\<close>

datatype pc =
    Idle
  | A_lock nat | A_init nat
  | H_lock nat
  | F_lock int | F_search int | F_want nat
  | R_first nat | R_table nat | R_second nat | R_free nat

text \<open>
  A step gives the new place, the table and the references that the threads have: one for each
  \<^verbatim>\<open>foo_alloc\<close>, \<^verbatim>\<open>foo_hold\<close> and successful \<^verbatim>\<open>foo_find\<close> that is not yet taken back by \<^verbatim>\<open>foo_rele\<close>.
\<close>

type_synonym refs = "(nat \<times> nat) multiset"
type_synonym outcome = "(pc \<times> table \<times> refs) res option"

text \<open>\<^verbatim>\<open>foo_alloc\<close> up to the first lock; \<open>p\<close> is what \<^verbatim>\<open>malloc\<close> returns, \<open>junk\<close> is in the new memory.\<close>

definition foo_alloc :: "nat \<Rightarrow> nat \<Rightarrow> nat \<Rightarrow> int \<Rightarrow> table \<Rightarrow> refs \<Rightarrow> pc \<times> table \<times> refs" where
  "foo_alloc t p junk i s R = (A_lock p, put p \<lparr>f_count = 1, f_lock = None, f_id = i, f_next = junk\<rparr> s, add_mset (t, p) R)"

fun alloc_step :: "nat \<Rightarrow> pc \<Rightarrow> table \<Rightarrow> refs \<Rightarrow> outcome" where
  "alloc_step t (A_lock p) s R =
     (if hashlock s \<noteq> None then None
      else Some (with_foo p s (\<lambda>f.
        let idx = HASH (f_id f);
            s = put p (f\<lparr>f_next := fh s idx, f_lock := Some t\<rparr>) s
        in Inr (A_init p, s\<lparr>fh := (fh s)(idx := p)\<rparr>, R))))"
| "alloc_step t (A_init p) s R = Some (with_foo p s (\<lambda>f. Inr (Idle, put p (f\<lparr>f_lock := None\<rparr>) s, R)))"
| "alloc_step t c s R = None"

fun hold_step :: "nat \<Rightarrow> pc \<Rightarrow> table \<Rightarrow> refs \<Rightarrow> outcome" where
  "hold_step t (H_lock p) s R = under_lock p s (\<lambda>f. Inr (Idle, put p (f\<lparr>f_count := f_count f + 1\<rparr>) s, add_mset (t, p) R))"
| "hold_step t c s R = None"

fun find_step :: "nat \<Rightarrow> pc \<Rightarrow> table \<Rightarrow> refs \<Rightarrow> outcome" where
  "find_step t (F_lock i) s R = (if hashlock s \<noteq> None then None else Some (Inr (F_search i, s\<lparr>hashlock := Some t\<rparr>, R)))"
| "find_step t (F_search i) s R =
     Some (bnd (ended (search (heap s) i (fh s (HASH i)))) (\<lambda>p.
       if p = 0 then Inr (Idle, s\<lparr>hashlock := None\<rparr>, R) else Inr (F_want p, s, R)))"
| "find_step t (F_want p) s R =
     under_lock p s (\<lambda>f. Inr (Idle, (put p (f\<lparr>f_count := f_count f + 1\<rparr>) s)\<lparr>hashlock := None\<rparr>, add_mset (t, p) R))"
| "find_step t c s R = None"

fun rele_step :: "nat \<Rightarrow> pc \<Rightarrow> table \<Rightarrow> refs \<Rightarrow> outcome" where
  "rele_step t (R_first p) s R =
     under_lock p s (\<lambda>f. if f_count f = 1 then Inr (R_table p, s, R)
       else Inr (Idle, put p (f\<lparr>f_count := f_count f - 1\<rparr>) s, R - {#(t, p)#}))"
| "rele_step t (R_table p) s R = (if hashlock s \<noteq> None then None else Some (Inr (R_second p, s\<lparr>hashlock := Some t\<rparr>, R)))"
| "rele_step t (R_second p) s R =
     under_lock p s (\<lambda>f.
       if f_count f \<noteq> 1
       then Inr (Idle, (put p (f\<lparr>f_count := f_count f - 1\<rparr>) s)\<lparr>hashlock := None\<rparr>, R - {#(t, p)#})
       else bnd (unlink p f s) (\<lambda>s. Inr (R_free p, (put p (f\<lparr>f_lock := Some t\<rparr>) s)\<lparr>hashlock := None\<rparr>, R - {#(t, p)#})))"
| "rele_step t (R_free p) s R = Some (with_foo p s (\<lambda>f. Inr (Idle, s\<lparr>heap := (heap s)(p := None)\<rparr>, R)))"
| "rele_step t c s R = None"

definition foo_step :: "nat \<Rightarrow> pc \<Rightarrow> table \<Rightarrow> refs \<Rightarrow> outcome" where
  "foo_step t c s R = (case c of
       Idle \<Rightarrow> None
     | A_lock _ \<Rightarrow> alloc_step t c s R | A_init _ \<Rightarrow> alloc_step t c s R
     | H_lock _ \<Rightarrow> hold_step t c s R
     | F_lock _ \<Rightarrow> find_step t c s R | F_search _ \<Rightarrow> find_step t c s R | F_want _ \<Rightarrow> find_step t c s R
     | _ \<Rightarrow> rele_step t c s R)"

section \<open>Threads\<close>

text \<open>A thread holds or releases an object only if it has a reference to it.\<close>

type_synonym threads = "table \<times> refs \<times> (nat \<Rightarrow> pc)"

definition threads_init :: threads where
  "threads_init = (\<lparr>fh = (\<lambda>_. 0), heap = (\<lambda>_. None), hashlock = None\<rparr>, {#}, \<lambda>_. Idle)"

inductive foo_sys :: "threads \<Rightarrow> bool" where
  foo_start: "foo_sys threads_init"
| foo_call_alloc: "foo_sys (s, R, c) \<Longrightarrow> c t = Idle \<Longrightarrow> p \<noteq> 0 \<Longrightarrow> heap s p = None \<Longrightarrow> foo_alloc t p junk i s R = (d, s', R') \<Longrightarrow>
    foo_sys (s', R', c(t := d))"
| foo_call_hold: "foo_sys (s, R, c) \<Longrightarrow> c t = Idle \<Longrightarrow> (t, p) \<in># R \<Longrightarrow> foo_sys (s, R, c(t := H_lock p))"
| foo_call_find: "foo_sys (s, R, c) \<Longrightarrow> c t = Idle \<Longrightarrow> foo_sys (s, R, c(t := F_lock i))"
| foo_call_rele: "foo_sys (s, R, c) \<Longrightarrow> c t = Idle \<Longrightarrow> (t, p) \<in># R \<Longrightarrow> foo_sys (s, R, c(t := R_first p))"
| foo_steps: "foo_sys (s, R, c) \<Longrightarrow> foo_step t (c t) s R = Some (Inr (d, s', R')) \<Longrightarrow> foo_sys (s', R', c(t := d))"

section \<open>Chains\<close>

primrec chain :: "(nat \<Rightarrow> foo option) \<Rightarrow> nat \<Rightarrow> nat list \<Rightarrow> bool" where
  "chain h p [] \<longleftrightarrow> p = 0"
| "chain h p (x # xs) \<longleftrightarrow> p = x \<and> x \<noteq> 0 \<and> (\<exists>f. h x = Some f \<and> chain h (f_next f) xs)"

lemma chain_other: "p \<notin> set xs \<Longrightarrow> chain (h(p := v)) q xs = chain h q xs"
  by (induction xs arbitrary: q) auto

lemma chain_same: "h p = Some f \<Longrightarrow> f_next g = f_next f \<Longrightarrow> chain (h(p \<mapsto> g)) q xs = chain h q xs"
  by (induction xs arbitrary: q) auto

lemma chain_alive: "chain h q xs \<Longrightarrow> p \<in> set xs \<Longrightarrow> h p \<noteq> None \<and> p \<noteq> 0"
  by (induction xs arbitrary: q) auto

lemma search_chain:
  "chain h p xs \<Longrightarrow> search h i p = Some (Inr (case List.find (\<lambda>x. f_id (the (h x)) = i) xs of None \<Rightarrow> 0 | Some x \<Rightarrow> x))"
  by (induction xs arbitrary: p) (auto simp: search.simps)

lemma before_chain:
  "chain h p (xs @ y # fp # ys) \<Longrightarrow> fp \<notin> set (xs @ [y]) \<Longrightarrow> before h fp p = Some (Inr y)"
proof (induction xs arbitrary: p)
  case (Cons x xs)
  then obtain f where f: "p = x" "h x = Some f" "chain h (f_next f) (xs @ y # fp # ys)" by auto
  then have "f_next f \<noteq> fp" using Cons.prems(2) by (cases xs) auto
  then show ?case using f Cons.IH [OF f(3)] Cons.prems(2) by (simp add: before.simps [of h fp x])
qed (auto simp: before.simps [of h fp y])

lemma chain_cut:
  assumes "chain h p (xs @ y # fp # ys)" "distinct (xs @ y # fp # ys)" "h y = Some g" "h fp = Some f"
  shows "chain (h(y \<mapsto> g\<lparr>f_next := f_next f\<rparr>)) p (xs @ y # ys)"
  using assms
proof (induction xs arbitrary: p)
  case Nil
  then have "chain (h(y \<mapsto> g\<lparr>f_next := f_next f\<rparr>)) (f_next f) ys = chain h (f_next f) ys" by (intro chain_other) auto
  then show ?case using Nil by (simp add: fun_upd_def)
next
  case (Cons x xs)
  then show ?case by auto
qed

text \<open>What the removal does when the object is in its chain.\<close>

definition unlinked :: "nat list \<Rightarrow> foo \<Rightarrow> table \<Rightarrow> table" where
  "unlinked xs f s = (if xs = [] then s\<lparr>fh := (fh s)(HASH (f_id f) := f_next f)\<rparr>
     else put (last xs) ((the (heap s (last xs)))\<lparr>f_next := f_next f\<rparr>) s)"

lemma unlink_exact:
  assumes "chain (heap s) (fh s (HASH (f_id f))) (xs @ fp # ys)" "distinct (xs @ fp # ys)"
  shows "unlink fp f s = Inr (unlinked xs f s)"
proof (cases xs rule: rev_cases)
  case Nil
  then show ?thesis using assms(1) by (simp add: unlink_def unlinked_def)
next
  case (snoc zs y)
  let ?i = "HASH (f_id f)"
  obtain g where g: "heap s y = Some g" using chain_alive [OF assms(1), of y] snoc by auto
  have "fh s ?i \<noteq> fp" using assms(1,2) snoc by (cases zs) auto
  moreover have "before (heap s) fp (fh s ?i) = Some (Inr y)" using assms(1,2) snoc by (intro before_chain [of _ _ zs _ _ ys]) auto
  ultimately show ?thesis by (simp add: unlink_def Let_def ended_def with_foo_def g unlinked_def snoc)
qed

lemma unlinked_chain:
  assumes "chain (heap s) (fh s (HASH (f_id f))) (xs @ fp # ys)" "distinct (xs @ fp # ys)" "heap s fp = Some f"
  shows "chain (heap (unlinked xs f s)) (fh (unlinked xs f s) (HASH (f_id f))) (xs @ ys) \<and> hashlock (unlinked xs f s) = hashlock s \<and>
    (\<forall>i. i \<noteq> HASH (f_id f) \<longrightarrow> fh (unlinked xs f s) i = fh s i) \<and> (\<forall>q. q \<notin> set xs \<longrightarrow> heap (unlinked xs f s) q = heap s q) \<and>
    (\<forall>q g. heap s q = Some g \<longrightarrow> (\<exists>n. heap (unlinked xs f s) q = Some (g\<lparr>f_next := n\<rparr>))) \<and>
    (\<forall>q. heap s q = None \<longrightarrow> heap (unlinked xs f s) q = None)"
proof (cases xs rule: rev_cases)
  case Nil
  moreover have "\<exists>n. g = g\<lparr>f_next := n\<rparr>" for g :: foo by (rule exI [of _ "f_next g"]) simp
  ultimately show ?thesis using assms by (simp add: unlinked_def)
next
  case (snoc zs y)
  let ?i = "HASH (f_id f)"
  obtain g where g: "heap s y = Some g" using chain_alive [OF assms(1), of y] snoc by auto
  have c: "chain ((heap s)(y \<mapsto> g\<lparr>f_next := f_next f\<rparr>)) (fh s ?i) (zs @ y # ys)"
    using assms snoc g by (intro chain_cut [of _ _ _ _ fp]) auto
  have "\<exists>n. ((heap s)(y \<mapsto> g\<lparr>f_next := f_next f\<rparr>)) q = Some (k\<lparr>f_next := n\<rparr>)" if "heap s q = Some k" for q k
    using that g by (cases "q = y") (auto intro: exI [of _ "f_next k"])
  then show ?thesis using c g snoc by (auto simp: put_def unlinked_def)
qed

section \<open>References\<close>

definition refs_to :: "refs \<Rightarrow> nat \<Rightarrow> nat" where
  "refs_to R p = size (filter_mset (\<lambda>x. snd x = p) R)"

lemma refs_to_empty [simp]: "refs_to {#} p = 0"
  by (simp add: refs_to_def)

lemma refs_to_add [simp]: "refs_to (add_mset (t, q) R) p = refs_to R p + (if q = p then 1 else 0)"
  by (simp add: refs_to_def)

lemma refs_to_remove: "(t, q) \<in># R \<Longrightarrow> refs_to (R - {#(t, q)#}) p = refs_to R p - (if q = p then 1 else 0)"
  using refs_to_add [of t q "R - {#(t, q)#}" p] by simp

lemma refs_to_pos: "(t, p) \<in># R \<Longrightarrow> 0 < refs_to R p"
  using refs_to_add [of t p "R - {#(t, p)#}" p] by simp

lemma refs_to_unique: "refs_to R p = 1 \<Longrightarrow> (t, p) \<in># R \<Longrightarrow> (u, p) \<in># R \<Longrightarrow> t = u"
proof (rule ccontr)
  assume a: "refs_to R p = 1" "(t, p) \<in># R" "(u, p) \<in># R" "t \<noteq> u"
  then have "(u, p) \<in># R - {#(t, p)#}" by (simp add: in_diff_count)
  then show False using refs_to_pos [of u p "R - {#(t, p)#}"] refs_to_remove [OF a(2), of p] a(1) by simp
qed

section \<open>The invariant\<close>

definition owner :: "table \<Rightarrow> nat \<Rightarrow> nat option" where
  "owner s p = (case heap s p of None \<Rightarrow> None | Some f \<Rightarrow> f_lock f)"

definition linked :: "(nat \<Rightarrow> nat list) \<Rightarrow> nat set" where
  "linked B = (\<Union>i. set (B i))"

text \<open>The chain of each slot; the objects that have a reference; what a thread knows where it is.\<close>

definition table_ok :: "table \<Rightarrow> (nat \<Rightarrow> nat list) \<Rightarrow> bool" where
  "table_ok s B \<longleftrightarrow> (\<forall>i. chain (heap s) (fh s i) (B i) \<and> distinct (B i) \<and>
     (\<forall>p \<in> set (B i). \<exists>f. heap s p = Some f \<and> HASH (f_id f) = i))"

definition counts_ok :: "table \<Rightarrow> refs \<Rightarrow> bool" where
  "counts_ok s R \<longleftrightarrow> (\<forall>p. 0 < refs_to R p \<longrightarrow> (\<exists>f. heap s p = Some f \<and> f_count f = int (refs_to R p)))"

definition links_ok :: "refs \<Rightarrow> (nat \<Rightarrow> nat list) \<Rightarrow> (nat \<Rightarrow> pc) \<Rightarrow> bool" where
  "links_ok R B c \<longleftrightarrow> (\<forall>p \<in> linked B. 0 < refs_to R p) \<and> (\<forall>p. 0 < refs_to R p \<longrightarrow> p \<in> linked B \<or> (\<exists>t. c t = A_lock p))"

fun stage :: "table \<Rightarrow> refs \<Rightarrow> (nat \<Rightarrow> nat list) \<Rightarrow> nat \<Rightarrow> pc \<Rightarrow> bool" where
  "stage s R B t Idle \<longleftrightarrow> True"
| "stage s R B t (A_lock p) \<longleftrightarrow> (t, p) \<in># R \<and> refs_to R p = 1 \<and> p \<notin> linked B \<and> p \<noteq> 0 \<and> owner s p = None"
| "stage s R B t (A_init p) \<longleftrightarrow> (t, p) \<in># R \<and> owner s p = Some t"
| "stage s R B t (H_lock p) \<longleftrightarrow> (t, p) \<in># R"
| "stage s R B t (F_lock i) \<longleftrightarrow> True"
| "stage s R B t (F_search i) \<longleftrightarrow> hashlock s = Some t"
| "stage s R B t (F_want p) \<longleftrightarrow> hashlock s = Some t \<and> p \<in> linked B"
| "stage s R B t (R_first p) \<longleftrightarrow> (t, p) \<in># R"
| "stage s R B t (R_table p) \<longleftrightarrow> (t, p) \<in># R"
| "stage s R B t (R_second p) \<longleftrightarrow> (t, p) \<in># R \<and> hashlock s = Some t"
| "stage s R B t (R_free p) \<longleftrightarrow> refs_to R p = 0 \<and> p \<notin> linked B \<and> owner s p = Some t"

definition foo_inv :: "threads \<Rightarrow> bool" where
  "foo_inv x \<longleftrightarrow> (case x of (s, R, c) \<Rightarrow>
     \<exists>B. table_ok s B \<and> counts_ok s R \<and> links_ok R B c \<and> (\<forall>t. stage s R B t (c t)))"

lemma stage_frame:
  assumes "stage s R B u d" "\<And>q. (u, q) \<in># R \<Longrightarrow> (u, q) \<in># R'"
    and "hashlock s = Some u \<Longrightarrow> hashlock s' = Some u \<and> linked B \<subseteq> linked B'"
    and "\<And>q. owner s q = Some u \<Longrightarrow> owner s' q = Some u"
    and "\<And>q. (u, q) \<in># R \<Longrightarrow> refs_to R q = 1 \<Longrightarrow> q \<notin> linked B \<Longrightarrow> owner s q = None \<Longrightarrow> refs_to R' q = 1 \<and> q \<notin> linked B' \<and> owner s' q = None"
    and "\<And>q. owner s q = Some u \<Longrightarrow> refs_to R q = 0 \<Longrightarrow> q \<notin> linked B \<Longrightarrow> refs_to R' q = 0 \<and> q \<notin> linked B'"
  shows "stage s' R' B' u d"
  using assms by (cases d) auto

text \<open>Changes of an object that leave its identifier, its link and its lock alone.\<close>

lemma put_same:
  assumes "heap s p = Some f" "f_next g = f_next f" "f_id g = f_id f"
  shows "table_ok (put p g s) B = table_ok s B" "f_lock g = f_lock f \<Longrightarrow> owner (put p g s) q = owner s q"
proof -
  have c: "chain ((heap s)(p \<mapsto> g)) q xs = chain (heap s) q xs" for q xs using assms by (intro chain_same) auto
  have hp: "heap (put p g s) = (heap s)(p \<mapsto> g)" "fh (put p g s) = fh s" by (simp_all add: put_def)
  have e: "(\<exists>f'. ((heap s)(p \<mapsto> g)) q = Some f' \<and> HASH (f_id f') = i) \<longleftrightarrow> (\<exists>f'. heap s q = Some f' \<and> HASH (f_id f') = i)" for q i
    using assms by (cases "q = p") auto
  show "table_ok (put p g s) B = table_ok s B"
    unfolding table_ok_def hp c e ..
  show "f_lock g = f_lock f \<Longrightarrow> owner (put p g s) q = owner s q" using assms(1) by (simp add: owner_def put_def)
qed

lemma table_ok_hashlock [simp]: "table_ok (s\<lparr>hashlock := l\<rparr>) B = table_ok s B"
  by (simp add: table_ok_def)

lemma owner_hashlock [simp]: "owner (s\<lparr>hashlock := l\<rparr>) = owner s"
  by (simp add: owner_def fun_eq_iff)

lemma counts_ok_hashlock [simp]: "counts_ok (s\<lparr>hashlock := l\<rparr>) R = counts_ok s R"
  by (simp add: counts_ok_def)

lemma heap_put [simp]: "heap (put p f s) = (heap s)(p \<mapsto> f)" "hashlock (put p f s) = hashlock s" "fh (put p f s) = fh s"
  by (simp_all add: put_def)

lemma counts_ok_put:
  "counts_ok s R \<Longrightarrow> (\<And>q. q \<noteq> p \<Longrightarrow> refs_to R' q = refs_to R q) \<Longrightarrow> f_count g = int (refs_to R' p) \<Longrightarrow> counts_ok (put p g s) R'"
  by (auto simp: counts_ok_def)

lemma foo_invI:
  assumes "table_ok s B" "counts_ok s R" "links_ok R B c" "stage s R B t (c t)" "\<And>u. u \<noteq> t \<Longrightarrow> stage s R B u (c u)"
  shows "foo_inv (s, R, c)"
proof -
  have "stage s R B u (c u)" for u using assms(4,5) by (cases "u = t") auto
  then show ?thesis using assms(1-3) unfolding foo_inv_def by auto
qed

lemma foo_invE:
  assumes "foo_inv (s, R, c)"
  obtains B where "table_ok s B" "counts_ok s R" "links_ok R B c" "\<And>t. stage s R B t (c t)"
  using assms unfolding foo_inv_def by auto

text \<open>A reference added to, or taken from, an object whose count changes with it.\<close>

lemma inv_count:
  assumes "table_ok s B" "counts_ok s R" "links_ok R B c" "\<And>u. stage s R B u (c u)"
    and "heap s p = Some f" "\<And>q. c t \<noteq> A_lock q" "d = Idle"
    and "hashlock s' = hashlock s \<or> hashlock s' = None \<and> hashlock s = Some t" "heap s' = heap (put p (f\<lparr>f_count := int (refs_to R' p)\<rparr>) s)" "fh s' = fh s"
    and "\<And>q. q \<noteq> p \<Longrightarrow> refs_to R' q = refs_to R q" "\<And>u q. u \<noteq> t \<Longrightarrow> (u, q) \<in># R' \<longleftrightarrow> (u, q) \<in># R"
    and "0 < refs_to R' p" "p \<in> linked B \<or> (t, p) \<in># R"
  shows "foo_inv (s', R', c(t := d))"
proof (rule foo_invI [of _ B])
  let ?s = "put p (f\<lparr>f_count := int (refs_to R' p)\<rparr>) s"
  have ow: "owner s' q = owner s q" for q
    using put_same(2) [OF assms(5), of "f\<lparr>f_count := int (refs_to R' p)\<rparr>" q] assms(9) by (simp add: owner_def)
  have "table_ok ?s B" using put_same(1) [OF assms(5)] assms(1) by simp
  then show "table_ok s' B" using assms(9,10) by (simp add: table_ok_def)
  have "counts_ok ?s R'" using assms(2,11) by (intro counts_ok_put) auto
  then show "counts_ok s' R'" using assms(9) by (simp add: counts_ok_def)
  have pos: "0 < refs_to R p" using assms(3,14) refs_to_pos by (auto simp: links_ok_def)
  have al: "(\<exists>u. c u = A_lock q) \<longleftrightarrow> (\<exists>u. (c(t := d)) u = A_lock q)" for q
    using assms(6,7) by (metis fun_upd_apply pc.distinct(1))
  have "0 < refs_to R' q \<longleftrightarrow> 0 < refs_to R q" for q using pos assms(11,13) by (cases "q = p") auto
  then show "links_ok R' B (c(t := d))" using assms(3) unfolding links_ok_def al [symmetric] by simp
  show "stage s' R' B t ((c(t := d)) t)" using assms(7) by simp
  show "stage s' R' B u ((c(t := d)) u)" if u: "u \<noteq> t" for u
  proof -
    have "refs_to R' q = 1 \<and> q \<notin> linked B \<and> owner s' q = None"
      if "(u, q) \<in># R" "refs_to R q = 1" "q \<notin> linked B" "owner s q = None" for q
    proof -
      have "q \<noteq> p" using that(1-3) assms(14) refs_to_unique u by blast
      then show ?thesis using that assms(11) ow by simp
    qed
    moreover have "refs_to R' q = 0 \<and> q \<notin> linked B" if "refs_to R q = 0" "q \<notin> linked B" for q
      using that pos assms(11) by (cases "q = p") auto
    ultimately have "stage s' R' B u (c u)"
      using assms(8,12) u ow by (intro stage_frame [OF assms(4)]) auto
    then show ?thesis using u by simp
  qed
qed

text \<open>Moves that only take or leave the lock of the table.\<close>

lemma inv_pc:
  assumes "table_ok s B" "counts_ok s R" "links_ok R B c" "\<And>u. stage s R B u (c u)"
    and "\<And>q. c t \<noteq> A_lock q" "\<And>q. d \<noteq> A_lock q"
    and "l = hashlock s \<or> hashlock s = None \<or> hashlock s = Some t"
    and "stage (s\<lparr>hashlock := l\<rparr>) R B t d"
  shows "foo_inv (s\<lparr>hashlock := l\<rparr>, R, c(t := d))"
proof (rule foo_invI [of _ B])
  have al: "(\<exists>u. c u = A_lock q) \<longleftrightarrow> (\<exists>u. (c(t := d)) u = A_lock q)" for q
    using assms(5,6) by (metis fun_upd_apply)
  show "links_ok R B (c(t := d))" using assms(3) unfolding links_ok_def al .
  show "stage (s\<lparr>hashlock := l\<rparr>) R B u ((c(t := d)) u)" if "u \<noteq> t" for u
  proof -
    have "stage (s\<lparr>hashlock := l\<rparr>) R B u (c u)" using assms(7) that by (intro stage_frame [OF assms(4)]) auto
    then show ?thesis using that by simp
  qed
qed (use assms(1,2,8) in auto)

lemma linked_alive: "table_ok s B \<Longrightarrow> p \<in> linked B \<Longrightarrow> \<exists>f. heap s p = Some f"
  by (auto simp: table_ok_def linked_def)

lemma ref_alive: "counts_ok s R \<Longrightarrow> 0 < refs_to R p \<Longrightarrow> \<exists>f. heap s p = Some f \<and> f_count f = int (refs_to R p)"
  by (simp add: counts_ok_def)

definition step_ok :: "nat \<Rightarrow> (nat \<Rightarrow> pc) \<Rightarrow> outcome \<Rightarrow> bool" where
  "step_ok t c r \<longleftrightarrow> r = None \<or> (\<exists>d s R. r = Some (Inr (d, s, R)) \<and> foo_inv (s, R, c(t := d)))"

lemma step_ok_None [simp]: "step_ok t c None"
  by (simp add: step_ok_def)

lemma step_ok_Some [simp]: "step_ok t c (Some (Inr (d, s, R))) \<longleftrightarrow> foo_inv (s, R, c(t := d))"
  by (simp add: step_ok_def)

lemma under_lock_ok:
  "heap s p = Some f \<Longrightarrow> (f_lock f = None \<Longrightarrow> step_ok t c (Some (g f))) \<Longrightarrow> step_ok t c (under_lock p s g)"
  by (simp add: under_lock_def)

lemma hold_ok:
  assumes "table_ok s B" "counts_ok s R" "links_ok R B c" "\<And>u. stage s R B u (c u)" "c t = H_lock p"
  shows "step_ok t c (hold_step t (c t) s R)"
proof -
  have m: "(t, p) \<in># R" using assms(4) [of t] assms(5) by simp
  obtain f where f: "heap s p = Some f" "f_count f = int (refs_to R p)" using ref_alive [OF assms(2) refs_to_pos [OF m]] by blast
  have "foo_inv (put p (f\<lparr>f_count := f_count f + 1\<rparr>) s, add_mset (t, p) R, c(t := Idle))"
    using m f(2) assms(5) by (intro inv_count [OF assms(1-4) f(1)]) (auto simp: add.commute)
  then show ?thesis unfolding assms(5) hold_step.simps by (intro under_lock_ok [OF f(1)]) simp
qed

lemma find_ok:
  assumes "table_ok s B" "counts_ok s R" "links_ok R B c" "\<And>u. stage s R B u (c u)" "c t = F_lock i \<or> c t = F_search i \<or> c t = F_want p"
  shows "step_ok t c (find_step t (c t) s R)"
proof -
  note move = inv_pc [OF assms(1-4), of t]
  consider (1) "c t = F_lock i" | (2) "c t = F_search i" | (3) "c t = F_want p" using assms(5) by blast
  then show ?thesis
  proof cases
    case 1
    then have "hashlock s = None \<Longrightarrow> foo_inv (s\<lparr>hashlock := Some t\<rparr>, R, c(t := F_search i))" by (intro move) auto
    then show ?thesis unfolding 1 by simp
  next
    case 2
    then have l: "hashlock s = Some t" using assms(4) [of t] by simp
    let ?xs = "B (HASH i)"
    have ch: "chain (heap s) (fh s (HASH i)) ?xs" using assms(1) by (simp add: table_ok_def)
    define r where "r = List.find (\<lambda>x. f_id (the (heap s x)) = i) ?xs"
    have se: "ended (search (heap s) i (fh s (HASH i))) = Inr (case r of None \<Rightarrow> 0 | Some x \<Rightarrow> x)"
      using search_chain [OF ch] by (simp add: ended_def r_def)
    show ?thesis
    proof (cases r)
      case None
      have "foo_inv (s\<lparr>hashlock := None\<rparr>, R, c(t := Idle))" using 2 l by (intro move) auto
      then show ?thesis unfolding 2 find_step.simps se by (simp add: None)
    next
      case (Some x)
      then have x: "x \<in> set ?xs" unfolding r_def by (auto simp: find_Some_iff)
      then have "x \<noteq> 0" "x \<in> linked B" using chain_alive [OF ch x] by (auto simp: linked_def)
      moreover have "foo_inv (s\<lparr>hashlock := hashlock s\<rparr>, R, c(t := F_want x))" using 2 l \<open>x \<in> linked B\<close> by (intro move) auto
      ultimately show ?thesis unfolding 2 find_step.simps se by (simp add: Some)
    qed
  next
    case 3
    then have l: "hashlock s = Some t" "p \<in> linked B" using assms(4) [of t] by simp_all
    then have "0 < refs_to R p" using assms(3) by (simp add: links_ok_def)
    then obtain f where f: "heap s p = Some f" "f_count f = int (refs_to R p)" using ref_alive [OF assms(2)] by blast
    have "foo_inv ((put p (f\<lparr>f_count := f_count f + 1\<rparr>) s)\<lparr>hashlock := None\<rparr>, add_mset (t, p) R, c(t := Idle))"
      using l f(2) 3 by (intro inv_count [OF assms(1-4) f(1)]) (auto simp: add.commute)
    then show ?thesis unfolding 3 find_step.simps by (intro under_lock_ok [OF f(1)]) simp
  qed
qed

lemma slot_chain_cong: "(\<And>q. q \<in> set xs \<Longrightarrow> h q = h' q) \<Longrightarrow> chain h p xs = chain h' p xs"
  by (induction xs arbitrary: p) auto

lemma in_remove: "u \<noteq> t \<Longrightarrow> (u, q) \<in># R - {#(t, p)#} \<longleftrightarrow> (u, q) \<in># R"
  by (simp add: in_diff_count)

lemma slots_disjoint:
  assumes "table_ok s B" "p \<in> set (B i)" "p \<in> set (B j)"
  shows "i = j"
proof -
  have "\<And>k. p \<in> set (B k) \<Longrightarrow> \<exists>f. heap s p = Some f \<and> HASH (f_id f) = k" using assms(1) by (simp add: table_ok_def)
  from this [OF assms(2)] this [OF assms(3)] show ?thesis by auto
qed

lemma linked_slot: "table_ok s B \<Longrightarrow> p \<in> linked B \<Longrightarrow> heap s p = Some f \<Longrightarrow> p \<in> set (B (HASH (f_id f)))"
  by (fastforce simp: table_ok_def linked_def)

lemma alock_other:
  assumes "links_ok R B c" "\<And>q. c t \<noteq> A_lock q" "\<And>q. d \<noteq> A_lock q" "\<And>q. q \<noteq> p \<Longrightarrow> refs_to R' q = refs_to R q"
    and "0 < refs_to R' p \<Longrightarrow> p \<in> linked B'" "p \<in> linked B' \<Longrightarrow> 0 < refs_to R' p" "\<And>q. q \<noteq> p \<Longrightarrow> q \<in> linked B' \<longleftrightarrow> q \<in> linked B"
  shows "links_ok R' B' (c(t := d))"
proof -
  have al: "(\<exists>u. c u = A_lock q) \<longleftrightarrow> (\<exists>u. (c(t := d)) u = A_lock q)" for q
    using assms(2,3) by (metis fun_upd_apply)
  have "q \<in> linked B' \<Longrightarrow> 0 < refs_to R' q" for q
    using assms(1,4,6,7) by (cases "q = p") (auto simp: links_ok_def)
  moreover have "0 < refs_to R' q \<Longrightarrow> q \<in> linked B' \<or> (\<exists>u. c u = A_lock q)" for q
    using assms(1,4,5,7) by (cases "q = p") (auto simp: links_ok_def)
  ultimately show ?thesis unfolding links_ok_def al [symmetric] by blast
qed

text \<open>The last reference: the object leaves the table.\<close>

lemma last_removed:
  assumes T: "table_ok s B" and C: "counts_ok s R" and L: "links_ok R B c" and S: "\<And>u. stage s R B u (c u)"
    and "c t = R_second p" "heap s p = Some f" "f_lock f = None" "refs_to R p = 1"
  shows "\<exists>s1. unlink p f s = Inr s1 \<and> foo_inv ((put p (f\<lparr>f_lock := Some t\<rparr>) s1)\<lparr>hashlock := None\<rparr>, R - {#(t, p)#}, c(t := R_free p))"
proof -
  have m: "(t, p) \<in># R" and h: "hashlock s = Some t" using S [of t] assms(5) by simp_all
  have "p \<in> linked B"
  proof (rule ccontr)
    assume "p \<notin> linked B"
    moreover have "0 < refs_to R p" using assms(8) by simp
    ultimately obtain u where u: "c u = A_lock p" using L unfolding links_ok_def by blast
    then have "(u, p) \<in># R" using S [of u] by simp
    then have "u = t" using refs_to_unique [OF assms(8) m] by simp
    then show False using u assms(5) by simp
  qed
  let ?i = "HASH (f_id f)"
  from linked_slot [OF T \<open>p \<in> linked B\<close> assms(6)] obtain xs ys where B: "B ?i = xs @ p # ys" by (meson split_list)
  have T': "chain (heap s) (fh s j) (B j)" "distinct (B j)" "q \<in> set (B j) \<Longrightarrow> \<exists>g. heap s q = Some g \<and> HASH (f_id g) = j" for j q
    using T by (simp_all add: table_ok_def)
  from unlink_exact [of s f xs p ys] unlinked_chain [of s f xs p ys] T'(1) [of ?i] T'(2) [of ?i] assms(6) B obtain s1 where
    s1: "unlink p f s = Inr s1" "chain (heap s1) (fh s1 ?i) (xs @ ys)" "hashlock s1 = hashlock s" "\<And>j. j \<noteq> ?i \<Longrightarrow> fh s1 j = fh s j"
      "\<And>q. q \<notin> set xs \<Longrightarrow> heap s1 q = heap s q" "\<And>q g. heap s q = Some g \<Longrightarrow> \<exists>n. heap s1 q = Some (g\<lparr>f_next := n\<rparr>)" "\<And>q. heap s q = None \<Longrightarrow> heap s1 q = None"
    by auto
  define B' where "B' = B(?i := xs @ ys)"
  let ?s = "(put p (f\<lparr>f_lock := Some t\<rparr>) s1)\<lparr>hashlock := None\<rparr>" and ?R = "R - {#(t, p)#}"
  have d: "p \<notin> set xs" "p \<notin> set ys" "distinct (xs @ ys)" using T'(2) [of ?i] B by auto
  have pB: "p \<in> set (B ?i)" using B by simp
  have sl: "set (B' j) = set (B j) - {p}" for j
  proof (cases "j = ?i")
    case True
    then show ?thesis using d B by (auto simp: B'_def)
  next
    case False
    then have "p \<notin> set (B j)" using slots_disjoint [OF T pB, of j] by blast
    then show ?thesis using False by (simp add: B'_def)
  qed
  have ln: "q \<in> linked B' \<longleftrightarrow> q \<in> linked B \<and> q \<noteq> p" for q
  proof -
    have "q \<in> set (B' j) \<longleftrightarrow> q \<in> set (B j) \<and> q \<noteq> p" for j using sl [of j] by blast
    then show ?thesis by (auto simp: linked_def)
  qed
  have r: "refs_to ?R q = refs_to R q" if "q \<noteq> p" for q using refs_to_remove [OF m, of q] that by simp
  have r0: "refs_to ?R p = 0" using refs_to_remove [OF m, of p] assms(8) by simp
  have ow: "owner ?s q = owner s q" if "q \<noteq> p" for q
    using s1(6) [of q] s1(7) [of q] that by (cases "heap s q") (auto simp: owner_def)
  have op: "owner s p = None" "owner ?s p = Some t" using assms(6,7) by (simp_all add: owner_def)
  have "table_ok ?s B'"
    unfolding table_ok_def
  proof (intro allI conjI ballI)
    fix j
    show "distinct (B' j)" using T'(2) d(3) by (simp add: B'_def)
    show "chain (heap ?s) (fh ?s j) (B' j)"
    proof (cases "j = ?i")
      case True
      then show ?thesis using s1(2) d(1,2) chain_other [of p "xs @ ys"] by (simp add: B'_def)
    next
      case False
      then have e: "heap s q = heap ?s q" if "q \<in> set (B j)" for q
      proof -
        have "q \<notin> set (B ?i)" using slots_disjoint [OF T that, of ?i] False by blast
        then have "q \<notin> set xs" "q \<noteq> p" using B by auto
        then show ?thesis using s1(5) [of q] by simp
      qed
      have "chain (heap s) (fh s j) (B j) = chain (heap ?s) (fh s j) (B j)" by (rule slot_chain_cong [OF e])
      then show ?thesis using T'(1) [of j] s1(4) [OF False] False by (simp add: B'_def)
    qed
    fix q assume "q \<in> set (B' j)"
    then have "q \<in> set (B j)" "q \<noteq> p" using sl [of j] by simp_all
    then obtain g where g: "heap s q = Some g" "HASH (f_id g) = j" using T'(3) by blast
    then show "\<exists>g. heap ?s q = Some g \<and> HASH (f_id g) = j" using s1(6) [OF g(1)] \<open>q \<noteq> p\<close> by auto
  qed
  moreover have "counts_ok ?s ?R"
    unfolding counts_ok_def
  proof (intro allI impI)
    fix q assume "0 < refs_to ?R q"
    then have q: "q \<noteq> p" using r0 by auto
    then obtain g where g: "heap s q = Some g" "f_count g = int (refs_to R q)" using ref_alive [OF C, of q] r \<open>0 < refs_to ?R q\<close> by auto
    then show "\<exists>g. heap ?s q = Some g \<and> f_count g = int (refs_to ?R q)" using s1(6) [OF g(1)] q r [OF q] by auto
  qed
  moreover have "links_ok ?R B' (c(t := R_free p))"
    using assms(5) r r0 ln by (intro alock_other [OF L, of _ _ p]) auto
  moreover have "stage ?s ?R B' t ((c(t := R_free p)) t)" using r0 ln op by simp
  moreover have "stage ?s ?R B' u ((c(t := R_free p)) u)" if u: "u \<noteq> t" for u
  proof -
    have "refs_to ?R q = 1 \<and> q \<notin> linked B' \<and> owner ?s q = None"
      if "(u, q) \<in># R" "refs_to R q = 1" "q \<notin> linked B" "owner s q = None" for q
    proof -
      have "q \<noteq> p" using that(1,2) refs_to_unique m u by blast
      then show ?thesis using that r ow ln by simp
    qed
    moreover have "owner ?s q = Some u" if "owner s q = Some u" for q using that ow op by (cases "q = p") auto
    moreover have "refs_to ?R q = 0 \<and> q \<notin> linked B'" if "refs_to R q = 0" "q \<notin> linked B" for q
      using that assms(8) r [of q] ln by (cases "q = p") auto
    ultimately have "stage ?s ?R B' u (c u)" using u h by (intro stage_frame [OF S]) (auto simp: in_remove)
    then show ?thesis using u by simp
  qed
  ultimately show ?thesis using s1(1) foo_invI [of ?s B' ?R _ t] by blast
qed

lemma rele_ok:
  assumes "table_ok s B" "counts_ok s R" "links_ok R B c" "\<And>u. stage s R B u (c u)"
    and "c t = R_first p \<or> c t = R_table p \<or> c t = R_second p \<or> c t = R_free p"
  shows "step_ok t c (rele_step t (c t) s R)"
proof -
  note move = inv_pc [OF assms(1-4), of t]
  have down: "foo_inv (s', R - {#(t, p)#}, c(t := Idle))"
    if "(t, p) \<in># R" "heap s p = Some f" "f_count f = int (refs_to R p)" "refs_to R p \<noteq> 1" "\<And>q. c t \<noteq> A_lock q"
      "s' = put p (f\<lparr>f_count := f_count f - 1\<rparr>) s \<or> hashlock s = Some t \<and> s' = (put p (f\<lparr>f_count := f_count f - 1\<rparr>) s)\<lparr>hashlock := None\<rparr>" for f s'
  proof -
    have "1 < refs_to R p" using refs_to_pos [OF that(1)] that(4) by linarith
    then have r: "int (refs_to (R - {#(t, p)#}) p) = f_count f - 1" "0 < refs_to (R - {#(t, p)#}) p"
      using refs_to_remove [OF that(1), of p] that(3) by auto
    have o: "refs_to (R - {#(t, p)#}) q = refs_to R q" if "q \<noteq> p" for q using refs_to_remove [OF \<open>(t, p) \<in># R\<close>, of q] that by simp
    show ?thesis using that(1,5,6) r o by (intro inv_count [OF assms(1-4) that(2)]) (auto simp: in_remove)
  qed
  have m: "(t, p) \<in># R \<Longrightarrow> \<exists>f. heap s p = Some f \<and> f_count f = int (refs_to R p)" using ref_alive [OF assms(2) refs_to_pos] by blast
  consider (1) "c t = R_first p" | (2) "c t = R_table p" | (3) "c t = R_second p" | (4) "c t = R_free p" using assms(5) by blast
  then show ?thesis
  proof cases
    case 1
    then have r: "(t, p) \<in># R" using assms(4) [of t] by simp
    then obtain f where f: "heap s p = Some f" "f_count f = int (refs_to R p)" using m by blast
    have "foo_inv (s\<lparr>hashlock := hashlock s\<rparr>, R, c(t := R_table p))" using 1 r by (intro move) auto
    moreover have "foo_inv (put p (f\<lparr>f_count := f_count f - 1\<rparr>) s, R - {#(t, p)#}, c(t := Idle))" if "f_count f \<noteq> 1"
      using that f 1 by (intro down [OF r f]) auto
    ultimately show ?thesis unfolding 1 rele_step.simps by (intro under_lock_ok [OF f(1)]) simp
  next
    case 2
    then have "(t, p) \<in># R" using assms(4) [of t] by simp
    then have "hashlock s = None \<Longrightarrow> foo_inv (s\<lparr>hashlock := Some t\<rparr>, R, c(t := R_second p))" using 2 by (intro move) auto
    then show ?thesis unfolding 2 by simp
  next
    case 3
    then have r: "(t, p) \<in># R" "hashlock s = Some t" using assms(4) [of t] by simp_all
    then obtain f where f: "heap s p = Some f" "f_count f = int (refs_to R p)" using m by blast
    have dn: "foo_inv ((put p (f\<lparr>f_count := f_count f - 1\<rparr>) s)\<lparr>hashlock := None\<rparr>, R - {#(t, p)#}, c(t := Idle))" if "f_count f \<noteq> 1"
      using that f 3 r(2) by (intro down [OF r(1) f]) auto
    have rm: "\<exists>s1. unlink p f s = Inr s1 \<and> foo_inv ((put p (f\<lparr>f_lock := Some t\<rparr>) s1)\<lparr>hashlock := None\<rparr>, R - {#(t, p)#}, c(t := R_free p))"
      if "f_count f = 1" "f_lock f = None" using last_removed [OF assms(1-4) 3 f(1)] that f(2) by simp
    show ?thesis unfolding 3 rele_step.simps using dn rm by (intro under_lock_ok [OF f(1)]) auto
  next
    case 4
    then have st: "refs_to R p = 0" "p \<notin> linked B" "owner s p = Some t" using assms(4) [of t] by simp_all
    then obtain f where f: "heap s p = Some f" by (auto simp: owner_def split: option.splits)
    let ?s = "s\<lparr>heap := (heap s)(p := None)\<rparr>"
    have np: "p \<notin> set (B i)" for i using st(2) by (auto simp: linked_def)
    have ow: "owner ?s q = owner s q" if "q \<noteq> p" for q using that by (simp add: owner_def)
    have "foo_inv (?s, R, c(t := Idle))"
    proof (rule foo_invI [of _ B])
      show "table_ok ?s B" using assms(1) np by (auto simp: table_ok_def chain_other)
      show "counts_ok ?s R" using assms(2) st(1) by (auto simp: counts_ok_def)
      show "links_ok R B (c(t := Idle))" using 4 st(1,2) by (intro alock_other [OF assms(3), of _ _ p]) auto
      show "stage ?s R B u ((c(t := Idle)) u)" if u: "u \<noteq> t" for u
      proof -
        have o1: "owner ?s q = Some u" if "owner s q = Some u" for q using that u st(3) ow [of q] by (cases "q = p") auto
        have o2: "owner ?s q = None" if "owner s q = None" for q using that st(3) ow [of q] by (cases "q = p") auto
        have "stage ?s R B u (c u)" using o1 o2 by (intro stage_frame [OF assms(4)]) auto
        then show ?thesis using u by simp
      qed
    qed simp
    then show ?thesis unfolding 4 by (simp add: with_foo_def f)
  qed
qed

lemma alloc_ok:
  assumes "table_ok s B" "counts_ok s R" "links_ok R B c" "\<And>u. stage s R B u (c u)" "c t = A_lock p \<or> c t = A_init p"
  shows "step_ok t c (alloc_step t (c t) s R)"
proof -
  have m: "(t, p) \<in># R" using assms(4) [of t] assms(5) by auto
  obtain f where f: "heap s p = Some f" "f_count f = int (refs_to R p)" using ref_alive [OF assms(2) refs_to_pos [OF m]] by blast
  show ?thesis
  proof (cases "c t = A_lock p")
    case True
    then have st: "refs_to R p = 1" "p \<notin> linked B" "p \<noteq> 0" "owner s p = None" using assms(4) [of t] by simp_all
    let ?i = "HASH (f_id f)"
    let ?s = "(put p (f\<lparr>f_next := fh s ?i, f_lock := Some t\<rparr>) s)\<lparr>fh := (fh s)(?i := p)\<rparr>" and ?B = "B(?i := p # B ?i)"
    have np: "p \<notin> set (B j)" for j using st(2) by (auto simp: linked_def)
    have ln: "linked ?B = insert p (linked B)" by (auto simp: linked_def split: if_splits)
    have ow: "owner ?s q = owner s q" if "q \<noteq> p" for q using that by (simp add: owner_def)
    have ch: "chain ((heap s)(p \<mapsto> g)) q (B j) = chain (heap s) q (B j)" for g q j by (rule chain_other [OF np])
    have "foo_inv (?s, R, c(t := A_init p))" if h: "hashlock s = None"
    proof (rule foo_invI [of _ ?B])
      show "table_ok ?s ?B"
        unfolding table_ok_def
      proof (intro allI conjI ballI)
        fix j
        have T: "chain (heap s) (fh s j) (B j)" "distinct (B j)" "\<And>q. q \<in> set (B j) \<Longrightarrow> \<exists>g. heap s q = Some g \<and> HASH (f_id g) = j"
          using assms(1) by (simp_all add: table_ok_def)
        show "chain (heap ?s) (fh ?s j) (?B j)" using T(1) st(3) by (cases "j = ?i") (simp_all add: ch)
        show "distinct (?B j)" using T(2) np by (cases "j = ?i") simp_all
        show "\<exists>g. heap ?s q = Some g \<and> HASH (f_id g) = j" if "q \<in> set (?B j)" for q
          using that T(3) [of q] by (cases "q = p") (auto simp: np split: if_splits)
      qed
      show "counts_ok ?s R" using assms(2) f by (auto simp: counts_ok_def)
      show "links_ok R ?B (c(t := A_init p))"
      proof -
        have "0 < refs_to R q \<Longrightarrow> q \<in> linked B \<or> (\<exists>u. c u = A_lock q)" for q using assms(3) by (simp add: links_ok_def)
        then have "0 < refs_to R q \<Longrightarrow> q \<in> linked ?B \<or> (\<exists>u. (c(t := A_init p)) u = A_lock q)" for q
          using True ln by (metis fun_upd_other insert_iff pc.inject(1))
        then show ?thesis using assms(3) st(1) ln by (auto simp: links_ok_def)
      qed
      show "stage ?s R ?B t ((c(t := A_init p)) t)" using m by (simp add: owner_def)
      show "stage ?s R ?B u ((c(t := A_init p)) u)" if u: "u \<noteq> t" for u
      proof -
        have "q \<noteq> p" if "(u, q) \<in># R" for q using that refs_to_unique [OF st(1) m] u by blast
        moreover have "owner ?s q = Some u" if "owner s q = Some u" for q using that st(4) ow by (cases "q = p") auto
        moreover have "q \<noteq> p" if "refs_to R q = 0" for q using that st(1) by auto
        ultimately have "stage ?s R ?B u (c u)" using ow ln h by (intro stage_frame [OF assms(4)]) auto
        then show ?thesis using u by simp
      qed
    qed
    then show ?thesis unfolding True by (simp add: with_foo_def f(1) Let_def)
  next
    case False
    then have c: "c t = A_init p" using assms(5) by simp
    then have st: "owner s p = Some t" using assms(4) [of t] by simp
    let ?s = "put p (f\<lparr>f_lock := None\<rparr>) s"
    have ow: "owner ?s q = owner s q" if "q \<noteq> p" for q using that by (simp add: owner_def)
    have op: "owner ?s p = None" by (simp add: owner_def)
    have "foo_inv (?s, R, c(t := Idle))"
    proof (rule foo_invI [of _ B])
      show "table_ok ?s B" using assms(1) put_same(1) [OF f(1)] by simp
      show "counts_ok ?s R" using f by (intro counts_ok_put [OF assms(2)]) auto
      have al: "(\<exists>u. c u = A_lock q) \<longleftrightarrow> (\<exists>u. (c(t := Idle)) u = A_lock q)" for q
        using c by (metis fun_upd_apply pc.distinct(1) pc.distinct(21))
      show "links_ok R B (c(t := Idle))" using assms(3) unfolding links_ok_def al .
      show "stage ?s R B u ((c(t := Idle)) u)" if u: "u \<noteq> t" for u
      proof -
        have o1: "owner ?s q = Some u" if "owner s q = Some u" for q using that st u ow by (cases "q = p") auto
        have o2: "owner ?s q = None" if "owner s q = None" for q using that op ow by (cases "q = p") auto
        have "stage ?s R B u (c u)" using o1 o2 by (intro stage_frame [OF assms(4)]) auto
        then show ?thesis using u by simp
      qed
    qed simp
    then show ?thesis unfolding c by (simp add: with_foo_def f(1))
  qed
qed

lemma call_alloc_ok:
  assumes "table_ok s B" "counts_ok s R" "links_ok R B c" "\<And>u. stage s R B u (c u)" "c t = Idle" "p \<noteq> 0" "heap s p = None"
    and "foo_alloc t p junk i s R = (d, s', R')"
  shows "foo_inv (s', R', c(t := d))"
proof -
  let ?f = "\<lparr>f_count = 1, f_lock = None, f_id = i, f_next = junk\<rparr>"
  have e: "d = A_lock p" "s' = put p ?f s" "R' = add_mset (t, p) R" using assms(8) by (auto simp: foo_alloc_def)
  have r0: "refs_to R p = 0" using assms(2,7) by (auto simp: counts_ok_def)
  then have nr: "(u, p) \<notin># R" for u using refs_to_pos by fastforce
  have np: "p \<notin> linked B" using linked_alive [OF assms(1), of p] assms(7) by auto
  then have nb: "p \<notin> set (B j)" for j by (auto simp: linked_def)
  have ow: "owner s' q = owner s q" for q using assms(7) by (cases "q = p") (simp_all add: e owner_def)
  show ?thesis
  proof (rule foo_invI [of _ B])
    show "table_ok s' B" using assms(1,7) nb by (auto simp: table_ok_def e chain_other)
    show "counts_ok s' R'" unfolding e using r0 by (intro counts_ok_put [OF assms(2)]) auto
    show "links_ok R' B (c(t := d))"
    proof -
      have "0 < refs_to R q \<Longrightarrow> q \<in> linked B \<or> (\<exists>u. c u = A_lock q)" for q using assms(3) by (simp add: links_ok_def)
      then have o: "0 < refs_to R q \<Longrightarrow> q \<in> linked B \<or> (\<exists>u. (c(t := d)) u = A_lock q)" for q
        using assms(5) by (metis fun_upd_other pc.distinct(1))
      have n: "(c(t := d)) t = A_lock p" by (simp add: e)
      have "q \<in> linked B \<or> (\<exists>u. (c(t := d)) u = A_lock q)" if "0 < refs_to R' q" for q
      proof (cases "q = p")
        case True
        then show ?thesis using n by blast
      next
        case False
        then have "0 < refs_to R q" using that by (simp add: e(3))
        then show ?thesis by (rule o)
      qed
      then show ?thesis using assms(3) by (auto simp: links_ok_def e(3))
    qed
    show "stage s' R' B t ((c(t := d)) t)" using r0 np assms(6) ow [of p] assms(7) by (simp add: e owner_def)
    show "stage s' R' B u ((c(t := d)) u)" if u: "u \<noteq> t" for u
    proof -
      have "stage s' R' B u (c u)"
        using ow nr assms(7) by (intro stage_frame [OF assms(4)]) (auto simp: e(3), auto simp: e(2) owner_def split: option.splits)
      then show ?thesis using u by simp
    qed
  qed
qed

lemma foo_step_ok:
  assumes "foo_inv (s, R, c)"
  shows "step_ok t c (foo_step t (c t) s R)"
proof -
  obtain B where B: "table_ok s B" "counts_ok s R" "links_ok R B c" "\<And>u. stage s R B u (c u)"
    using foo_invE [OF assms] by blast
  note ok = alloc_ok [OF B, of t] hold_ok [OF B, of t] find_ok [OF B, of t] rele_ok [OF B, of t]
  show ?thesis
  proof (cases "c t")
    case (F_search i)
    then show ?thesis using ok(3) [of i 0] by (simp add: foo_step_def)
  next
    case (F_lock i)
    then show ?thesis using ok(3) [of i 0] by (simp add: foo_step_def)
  next
    case (F_want p)
    then show ?thesis using ok(3) [of 0 p] by (simp add: foo_step_def)
  qed (use ok in \<open>auto simp: foo_step_def\<close>)
qed

lemma call_ok:
  assumes "foo_inv (s, R, c)" "c t = Idle" "d = F_lock i \<or> (t, p) \<in># R \<and> (d = H_lock p \<or> d = R_first p)"
  shows "foo_inv (s, R, c(t := d))"
proof -
  obtain B where B: "table_ok s B" "counts_ok s R" "links_ok R B c" "\<And>u. stage s R B u (c u)"
    using foo_invE [OF assms(1)] by blast
  have "foo_inv (s\<lparr>hashlock := hashlock s\<rparr>, R, c(t := d))" using assms(2,3) by (intro inv_pc [OF B]) auto
  then show ?thesis by simp
qed

lemma foo_sys_inv: "foo_sys x \<Longrightarrow> foo_inv x"
proof (induction rule: foo_sys.induct)
  case foo_start
  then show ?case by (auto simp: threads_init_def foo_inv_def table_ok_def counts_ok_def links_ok_def linked_def intro!: exI [of _ "\<lambda>_. []"])
next
  case (foo_call_alloc s R c t p junk i d s' R')
  from foo_invE [OF foo_call_alloc.IH] show ?case using call_alloc_ok foo_call_alloc.hyps by metis
next
  case (foo_call_hold s R c t p)
  then show ?case by (intro call_ok) auto
next
  case (foo_call_find s R c t i)
  then show ?case by (intro call_ok) auto
next
  case (foo_call_rele s R c t p)
  then show ?case by (intro call_ok) auto
next
  case (foo_steps s R c t d s' R')
  then show ?case using foo_step_ok [OF foo_steps.IH, of t] by simp
qed

section \<open>The functions of mutex3.c\<close>

text \<open>Each runs under the lock of the table from its first to its last access, so it is one step.\<close>

definition foo_hold3 :: "nat \<Rightarrow> table \<Rightarrow> table res" where
  "foo_hold3 p s = with_foo p s (\<lambda>f. Inr (put p (f\<lparr>f_count := f_count f + 1\<rparr>) s))"

definition foo_find3 :: "int \<Rightarrow> table \<Rightarrow> (nat \<times> table) res" where
  "foo_find3 i s = bnd (ended (search (heap s) i (fh s (HASH i)))) (\<lambda>p.
     if p = 0 then Inr (0, s) else with_foo p s (\<lambda>f. Inr (p, put p (f\<lparr>f_count := f_count f + 1\<rparr>) s)))"

definition foo_rele3 :: "nat \<Rightarrow> table \<Rightarrow> table res" where
  "foo_rele3 p s = with_foo p s (\<lambda>f.
     let f = f\<lparr>f_count := f_count f - 1\<rparr>; s = put p f s in
     if f_count f = 0 then bnd (unlink p f s) (\<lambda>s. with_foo p s (\<lambda>f. Inr (s\<lparr>heap := (heap s)(p := None)\<rparr>)))
     else Inr s)"

text \<open>A function of \<^verbatim>\<open>mutex2.c\<close> run by one thread without interruption; at most \<open>n\<close> steps.\<close>

fun alone :: "nat \<Rightarrow> nat \<Rightarrow> pc \<Rightarrow> table \<Rightarrow> refs \<Rightarrow> (table \<times> refs) res option" where
  "alone n t Idle s R = Some (Inr (s, R))"
| "alone 0 t c s R = None"
| "alone (Suc n) t c s R = (case foo_step t c s R of
       Some (Inr (d, s', R')) \<Rightarrow> alone n t d s' R' | Some (Inl e) \<Rightarrow> Some (Inl e) | None \<Rightarrow> None)"

lemma hold_alone:
  "heap s p = Some f \<Longrightarrow> f_lock f = None \<Longrightarrow>
    alone 1 t (H_lock p) s R = Some (bnd (foo_hold3 p s) (\<lambda>s'. Inr (s', add_mset (t, p) R)))"
  by (simp add: foo_step_def under_lock_def foo_hold3_def with_foo_def)

lemma find_alone:
  assumes "table_ok s B" "hashlock s = None" "\<And>p. owner s p = None"
  shows "alone 3 t (F_lock i) s R = Some (bnd (foo_find3 i s) (\<lambda>(p, s'). Inr (s', if p = 0 then R else add_mset (t, p) R)))"
proof -
  have ch: "chain (heap s) (fh s (HASH i)) (B (HASH i))" using assms(1) by (simp add: table_ok_def)
  show ?thesis
  proof (cases "List.find (\<lambda>x. f_id (the (heap s x)) = i) (B (HASH i))")
    case None
    then show ?thesis using assms(2) search_chain [OF ch, of i]
      by (simp add: eval_nat_numeral foo_step_def foo_find3_def ended_def)
  next
    case (Some x)
    then have "x \<in> set (B (HASH i))" by (auto simp: find_Some_iff)
    then obtain f where f: "heap s x = Some f" "x \<noteq> 0" using chain_alive [OF ch] by blast
    then have "f_lock f = None" using assms(3) [of x] by (simp add: owner_def)
    then show ?thesis using Some f assms(2) search_chain [OF ch, of i]
      by (simp add: eval_nat_numeral foo_step_def foo_find3_def ended_def under_lock_def with_foo_def put_def)
  qed
qed

lemma rele_alone:
  assumes T: "table_ok s B" and "hashlock s = None" "\<And>p. owner s p = None" "p \<in> linked B" "heap s p = Some f"
  shows "alone 4 t (R_first p) s R = Some (bnd (foo_rele3 p s) (\<lambda>s'. Inr (s', R - {#(t, p)#})))"
proof (cases "f_count f = 1")
  case False
  moreover have "f_lock f = None" using assms(3) [of p] assms(5) by (simp add: owner_def)
  ultimately show ?thesis using assms(5) by (simp add: eval_nat_numeral foo_step_def under_lock_def foo_rele3_def with_foo_def Let_def)
next
  case True
  have fl: "f_lock f = None" using assms(3) [of p] assms(5) by (simp add: owner_def)
  let ?i = "HASH (f_id f)"
  from linked_slot [OF T assms(4,5)] obtain xs ys where B: "B ?i = xs @ p # ys" by (meson split_list)
  have ch: "chain (heap s) (fh s ?i) (xs @ p # ys)" "distinct (xs @ p # ys)"
    using T B unfolding table_ok_def by metis+
  let ?f = "f\<lparr>f_count := 0\<rparr>" and ?s = "s\<lparr>hashlock := Some t\<rparr>"
  have u2: "unlink p f ?s = Inr (unlinked xs f ?s)" using ch by (intro unlink_exact) auto
  have "chain (heap (put p ?f s)) (fh (put p ?f s) (HASH (f_id ?f))) (xs @ p # ys)"
    using ch(1) chain_same [of "heap s" p f ?f] assms(5) by simp
  then have u3: "unlink p ?f (put p ?f s) = Inr (unlinked xs ?f (put p ?f s))" using ch(2) by (intro unlink_exact) auto
  have np: "xs \<noteq> [] \<Longrightarrow> last xs \<noteq> p" using ch(2) by auto
  obtain h2 where h2: "heap (unlinked xs f ?s) p = Some h2" using assms(5) np by (cases "xs = []") (auto simp: unlinked_def)
  have h3: "heap (unlinked xs ?f (put p ?f s)) p = Some ?f" using np by (cases "xs = []") (auto simp: unlinked_def)
  have "alone 4 t (R_first p) s R =
      Some (Inr (((put p (f\<lparr>f_lock := Some t\<rparr>) (unlinked xs f ?s))\<lparr>hashlock := None\<rparr>)\<lparr>heap := (heap (unlinked xs f ?s))(p := None)\<rparr>, R - {#(t, p)#}))"
    using True fl assms(2,5) u2 by (simp add: eval_nat_numeral foo_step_def under_lock_def with_foo_def)
  moreover have "foo_rele3 p s = Inr ((unlinked xs ?f (put p ?f s))\<lparr>heap := (heap (unlinked xs ?f (put p ?f s)))(p := None)\<rparr>)"
    using True assms(5) u3 h3 by (simp add: foo_rele3_def with_foo_def Let_def)
  moreover have "((put p (f\<lparr>f_lock := Some t\<rparr>) (unlinked xs f ?s))\<lparr>hashlock := None\<rparr>)\<lparr>heap := (heap (unlinked xs f ?s))(p := None)\<rparr> =
      (unlinked xs ?f (put p ?f s))\<lparr>heap := (heap (unlinked xs ?f (put p ?f s)))(p := None)\<rparr>"
    using np assms(2) by (cases s) (auto simp: unlinked_def put_def fun_eq_iff)
  ultimately show ?thesis by simp
qed

section \<open>Properties\<close>

text \<open>
  C16. The table of objects with reference counts is safe for any number of threads and any
  interleaving of their critical sections. No function touches an object that has been freed, and
  every loop over a chain ends; an object to which a thread has a reference exists, and its count
  is the number of references to it (fewer than \<open>2 ^ 31\<close> of them: the overflow of the C \<^verbatim>\<open>int\<close> is not
  modelled); every object in the table has a reference. Run by one thread
  without interruption, the functions of \<^verbatim>\<open>mutex2.c\<close> do exactly what those of \<^verbatim>\<open>mutex3.c\<close> do.
\<close>

theorem foo_table_safe:
  assumes "foo_sys (s, R, c)"
  shows "(\<forall>t e. foo_step t (c t) s R \<noteq> Some (Inl e)) \<and>
    (\<forall>t p. (t, p) \<in># R \<longrightarrow> (\<exists>f. heap s p = Some f \<and> f_count f = int (size (filter_mset (\<lambda>x. snd x = p) R)))) \<and>
    (\<forall>i p. ended (search (heap s) i (fh s (HASH i))) = Inr p \<and> p \<noteq> 0 \<longrightarrow> (\<exists>t f. (t, p) \<in># R \<and> heap s p = Some f \<and> f_id f = i)) \<and>
    (hashlock s = None \<and> (\<forall>p f. heap s p = Some f \<longrightarrow> f_lock f = None) \<and> (\<forall>t p. c t \<noteq> A_lock p) \<longrightarrow>
       (\<forall>t i. alone 3 t (F_lock i) s R = Some (bnd (foo_find3 i s) (\<lambda>(p, s'). Inr (s', if p = 0 then R else add_mset (t, p) R)))) \<and>
       (\<forall>t p. (t, p) \<in># R \<longrightarrow> alone 1 t (H_lock p) s R = Some (bnd (foo_hold3 p s) (\<lambda>s'. Inr (s', add_mset (t, p) R))) \<and>
          alone 4 t (R_first p) s R = Some (bnd (foo_rele3 p s) (\<lambda>s'. Inr (s', R - {#(t, p)#})))))"
proof -
  have inv: "foo_inv (s, R, c)" by (rule foo_sys_inv [OF assms])
  obtain B where B: "table_ok s B" "counts_ok s R" "links_ok R B c" "\<And>u. stage s R B u (c u)" using foo_invE [OF inv] by blast
  have 1: "foo_step t (c t) s R \<noteq> Some (Inl e)" for t e using foo_step_ok [OF inv, of t] by (auto simp: step_ok_def)
  have 2: "\<exists>f. heap s p = Some f \<and> f_count f = int (size (filter_mset (\<lambda>x. snd x = p) R))" if "(t, p) \<in># R" for t p
    using ref_alive [OF B(2) refs_to_pos [OF that]] by (simp add: refs_to_def)
  have 3: "\<exists>t f. (t, p) \<in># R \<and> heap s p = Some f \<and> f_id f = i" if found: "ended (search (heap s) i (fh s (HASH i))) = Inr p" "p \<noteq> 0" for i p
  proof -
    have ch: "chain (heap s) (fh s (HASH i)) (B (HASH i))" using B(1) by (simp add: table_ok_def)
    then obtain x where x: "List.find (\<lambda>x. f_id (the (heap s x)) = i) (B (HASH i)) = Some x" "p = x"
      using found search_chain [OF ch, of i] by (auto simp: ended_def split: option.splits)
    then have m: "p \<in> set (B (HASH i))" "f_id (the (heap s p)) = i" by (auto simp: find_Some_iff)
    then have "0 < refs_to R p" using B(3) by (auto simp: links_ok_def linked_def)
    then obtain y where "y \<in># filter_mset (\<lambda>x. snd x = p) R" unfolding refs_to_def by (metis multiset_nonemptyE size_empty less_irrefl)
    then have "(fst y, p) \<in># R" by (cases y) auto
    then show ?thesis using chain_alive [OF ch m(1)] m(2) by auto
  qed
  have 4: "alone 3 t (F_lock i) s R = Some (bnd (foo_find3 i s) (\<lambda>(p, s'). Inr (s', if p = 0 then R else add_mset (t, p) R)))"
    "(t, p) \<in># R \<Longrightarrow> alone 1 t (H_lock p) s R = Some (bnd (foo_hold3 p s) (\<lambda>s'. Inr (s', add_mset (t, p) R))) \<and>
          alone 4 t (R_first p) s R = Some (bnd (foo_rele3 p s) (\<lambda>s'. Inr (s', R - {#(t, p)#})))"
    if "hashlock s = None" "\<forall>p f. heap s p = Some f \<longrightarrow> f_lock f = None" "\<forall>t p. c t \<noteq> A_lock p" for t i p
  proof -
    have o: "owner s q = None" for q using that(2) by (simp add: owner_def split: option.splits)
    show "alone 3 t (F_lock i) s R = Some (bnd (foo_find3 i s) (\<lambda>(p, s'). Inr (s', if p = 0 then R else add_mset (t, p) R)))"
      by (rule find_alone [OF B(1) that(1) o])
    assume m: "(t, p) \<in># R"
    then obtain f where f: "heap s p = Some f" using 2 by blast
    have "p \<in> linked B" using B(3) that(3) refs_to_pos [OF m] unfolding links_ok_def by blast
    then show "alone 1 t (H_lock p) s R = Some (bnd (foo_hold3 p s) (\<lambda>s'. Inr (s', add_mset (t, p) R))) \<and>
          alone 4 t (R_first p) s R = Some (bnd (foo_rele3 p s) (\<lambda>s'. Inr (s', R - {#(t, p)#})))"
      using rele_alone [OF B(1) that(1) o _ f] hold_alone [OF f] that(2) f by blast
  qed
  show ?thesis using 1 2 3 4 by blast
qed

theorem foo_table_safe_witness:
  "\<exists>s c. foo_sys (s, {#(0, 1)#}, c) \<and> c 0 = Idle \<and> (\<exists>f. heap s 1 = Some f \<and> f_count f = 1)"
proof -
  let ?s0 = "\<lparr>fh = (\<lambda>_. 0), heap = (\<lambda>_. None), hashlock = None\<rparr>"
  have a: "foo_alloc 0 1 0 7 ?s0 {#} = (A_lock 1, put 1 \<lparr>f_count = 1, f_lock = None, f_id = 7, f_next = 0\<rparr> ?s0, {#(0, 1)#})"
    by (simp add: foo_alloc_def)
  have 1: "foo_sys (put 1 \<lparr>f_count = 1, f_lock = None, f_id = 7, f_next = 0\<rparr> ?s0, {#(0, 1)#}, (\<lambda>_. Idle)(0 := A_lock 1))"
    by (rule foo_call_alloc [OF foo_start [unfolded threads_init_def] _ _ _ a]) simp_all
  obtain s1 where 2: "foo_sys (s1, {#(0, 1)#}, ((\<lambda>_. Idle)(0 := A_lock 1))(0 := A_init 1))" "heap s1 1 \<noteq> None"
    using foo_steps [OF 1, of 0] by (simp add: foo_step_def with_foo_def put_def Let_def)
  obtain s2 where 3: "foo_sys (s2, {#(0, 1)#}, (((\<lambda>_. Idle)(0 := A_lock 1))(0 := A_init 1))(0 := Idle))"
    using foo_steps [OF 2(1), of 0] 2(2) by (auto simp: foo_step_def with_foo_def)
  from foo_table_safe [OF 3] have "\<exists>f. heap s2 1 = Some f \<and> f_count f = 1" by simp
  moreover have "((((\<lambda>_. Idle)(0 := A_lock 1))(0 := A_init 1))(0 := Idle)) 0 = Idle" by simp
  ultimately show ?thesis using 3 by blast
qed

end
