(* ===== verification/BarrierSort.thy ===== *)
theory BarrierSort
  imports Prelude "HOL-Library.Multiset"
begin

text \<open>
  \<^verbatim>\<open>threads/barrier.c\<close>: an array is sorted in pieces by several threads, and merged after all of them
  have come to a barrier. \<open>n\<close> is the number of threads (\<^verbatim>\<open>NTHR\<close>), \<open>t\<close> the size of a piece (\<^verbatim>\<open>TNUM\<close>);
  \<open>lmax\<close> is \<^verbatim>\<open>LONG_MAX\<close>. The program has \<open>n = 8\<close> and \<open>t = 1000000\<close>. \<^verbatim>\<open>heapsort\<close> is the function of the
  C library of BSD, an argument.
\<close>

section \<open>Merging\<close>

definition NTHR :: nat where "NTHR = 8"
definition NUMNUM :: nat where "NUMNUM = 8000000"
definition TNUM :: nat where "TNUM = NUMNUM div NTHR"

definition complong :: "int \<Rightarrow> int \<Rightarrow> int" where
  "complong l1 l2 = (if l1 = l2 then 0 else if l1 < l2 then -1 else 1)"

text \<open>The inner loop: the smallest head of a piece that is not used up, and the piece it is in.\<close>

fun pick :: "nat \<Rightarrow> int list \<Rightarrow> nat list \<Rightarrow> nat list \<Rightarrow> int \<Rightarrow> nat option \<Rightarrow> nat option" where
  "pick t nums idx [] num minidx = minidx"
| "pick t nums idx (i # is) num minidx =
     (if idx ! i < (i + 1) * t \<and> nums ! (idx ! i) < num
      then pick t nums idx is (nums ! (idx ! i)) (Some i)
      else pick t nums idx is num minidx)"

text \<open>
  The outer loop, \<open>k\<close> rounds before its end. \<^verbatim>\<open>minidx\<close> keeps its value from round to round; it has
  none in the beginning.
\<close>

fun merge_loop :: "nat \<Rightarrow> nat \<Rightarrow> int \<Rightarrow> int list \<Rightarrow> nat \<Rightarrow> nat list \<Rightarrow> nat option \<Rightarrow> int list res" where
  "merge_loop n t lmax nums 0 idx minidx = Inr []"
| "merge_loop n t lmax nums (Suc k) idx minidx =
     (case pick t nums idx [0..<n] lmax minidx of
        None \<Rightarrow> Inl (Undef ''minidx is not set'')
      | Some m \<Rightarrow>
          if length nums \<le> idx ! m then Inl (Undef ''read past the end of nums'')
          else bnd (merge_loop n t lmax nums k (idx[m := idx ! m + 1]) (Some m)) (\<lambda>r.
               Inr (nums ! (idx ! m) # r)))"

definition merge :: "nat \<Rightarrow> nat \<Rightarrow> int \<Rightarrow> int list \<Rightarrow> int list res" where
  "merge n t lmax nums = merge_loop n t lmax nums (n * t) (map (\<lambda>i. i * t) [0..<n]) None"

section \<open>The threads\<close>

text \<open>
  Where the threads are. \<open>arrived\<close> counts the calls of \<^verbatim>\<open>pthread_barrier_wait\<close>; the barrier is used
  once, and opens when \<open>n + 1\<close> threads have come. Each thread works on a piece of its own, so that
  its \<^verbatim>\<open>heapsort\<close> is one step.
\<close>

datatype worker = Sorting | Sorted | Waiting | Returned

datatype main_pc = Creating nat | At_barrier | Ended "int list res"

record sorter =
  nums :: "int list"
  workers :: "worker list"
  main :: main_pc
  arrived :: nat

definition sort_piece :: "((int \<Rightarrow> int \<Rightarrow> int) \<Rightarrow> int list \<Rightarrow> int list) \<Rightarrow> nat \<Rightarrow> nat \<Rightarrow> int list \<Rightarrow> int list" where
  "sort_piece heapsort t idx a = take idx a @ heapsort complong (take t (drop idx a)) @ drop (idx + t) a"

fun thr_fn :: "((int \<Rightarrow> int \<Rightarrow> int) \<Rightarrow> int list \<Rightarrow> int list) \<Rightarrow> nat \<Rightarrow> nat \<Rightarrow> nat \<Rightarrow> worker \<Rightarrow> sorter \<Rightarrow> sorter option" where
  "thr_fn hs n t i Sorting s =
     Some (s\<lparr>nums := sort_piece hs t (i * t) (nums s), workers := (workers s)[i := Sorted]\<rparr>)"
| "thr_fn hs n t i Sorted s = Some (s\<lparr>arrived := arrived s + 1, workers := (workers s)[i := Waiting]\<rparr>)"
| "thr_fn hs n t i Waiting s =
     (if arrived s = n + 1 then Some (s\<lparr>workers := (workers s)[i := Returned]\<rparr>) else None)"
| "thr_fn hs n t i Returned s = None"

text \<open>\<open>ok\<close> tells whether \<^verbatim>\<open>pthread_create\<close> succeeds.\<close>

fun main_step :: "nat \<Rightarrow> nat \<Rightarrow> int \<Rightarrow> bool \<Rightarrow> main_pc \<Rightarrow> sorter \<Rightarrow> sorter option" where
  "main_step n t lmax ok (Creating i) s =
     (if i < n then
        if ok then Some (s\<lparr>workers := workers s @ [Sorting], main := Creating (i + 1)\<rparr>)
        else Some (s\<lparr>main := Ended (Inl (Err_sys ''can't create thread''))\<rparr>)
      else Some (s\<lparr>arrived := arrived s + 1, main := At_barrier\<rparr>))"
| "main_step n t lmax ok At_barrier s =
     (if arrived s = n + 1 then Some (s\<lparr>main := Ended (merge n t lmax (nums s))\<rparr>) else None)"
| "main_step n t lmax ok (Ended r) s = None"

text \<open>A schedule says who moves next. Nothing moves after the end of \<^verbatim>\<open>main\<close>.\<close>

datatype move = Main bool | Thread nat

definition sorter_step :: "((int \<Rightarrow> int \<Rightarrow> int) \<Rightarrow> int list \<Rightarrow> int list) \<Rightarrow> nat \<Rightarrow> nat \<Rightarrow> int \<Rightarrow> move \<Rightarrow> sorter \<Rightarrow> sorter option" where
  "sorter_step hs n t lmax v s = (case main s of Ended _ \<Rightarrow> None | _ \<Rightarrow>
     (case v of
        Main ok \<Rightarrow> main_step n t lmax ok (main s) s
      | Thread i \<Rightarrow> if i < length (workers s) then thr_fn hs n t i (workers s ! i) s else None))"

fun sorter_run :: "((int \<Rightarrow> int \<Rightarrow> int) \<Rightarrow> int list \<Rightarrow> int list) \<Rightarrow> nat \<Rightarrow> nat \<Rightarrow> int \<Rightarrow> move list \<Rightarrow> sorter \<Rightarrow> sorter option" where
  "sorter_run hs n t lmax [] s = Some s"
| "sorter_run hs n t lmax (v # vs) s =
     (case sorter_step hs n t lmax v s of None \<Rightarrow> None | Some s' \<Rightarrow> sorter_run hs n t lmax vs s')"

definition sorter_start :: "int list \<Rightarrow> sorter" where
  "sorter_start random = \<lparr>nums = random, workers = [], main = Creating 0, arrived = 0\<rparr>"

section \<open>Merging is correct\<close>

text \<open>The part of piece \<open>i\<close> that is not used up, and all that is left.\<close>

definition rest :: "nat \<Rightarrow> int list \<Rightarrow> nat list \<Rightarrow> nat \<Rightarrow> int list" where
  "rest t a idx i = take ((i + 1) * t - idx ! i) (drop (idx ! i) a)"

definition left :: "nat \<Rightarrow> nat \<Rightarrow> int list \<Rightarrow> nat list \<Rightarrow> int multiset" where
  "left n t a idx = (\<Sum>i<n. mset (rest t a idx i))"

definition merging :: "nat \<Rightarrow> nat \<Rightarrow> int \<Rightarrow> int list \<Rightarrow> nat list \<Rightarrow> bool" where
  "merging n t lmax a idx \<longleftrightarrow> length a = n * t \<and> length idx = n \<and> (\<forall>x \<in> set a. x < lmax) \<and>
     (\<forall>i<n. idx ! i \<le> (i + 1) * t \<and> sorted (rest t a idx i))"

lemma piece_end: "i < n \<Longrightarrow> (i + 1) * t \<le> n * (t::nat)"
  by (simp del: mult_Suc add: mult_le_mono1)

lemma rest_Cons:
  assumes "idx ! i < (i + 1) * t" "i < n" "length a = n * t"
  shows "rest t a idx i = a ! (idx ! i) # take ((i + 1) * t - Suc (idx ! i)) (drop (Suc (idx ! i)) a)"
proof -
  have "idx ! i < length a" using assms piece_end [of i n t] by simp
  moreover obtain d where "(i + 1) * t - idx ! i = Suc d" using assms(1) by (metis Suc_diff_Suc)
  moreover have "(i + 1) * t - Suc (idx ! i) = d" using calculation by simp
  ultimately show ?thesis by (simp add: rest_def Cons_nth_drop_Suc [symmetric])
qed

lemma rest_Nil: "(i + 1) * t \<le> idx ! i \<Longrightarrow> rest t a idx i = []"
  by (simp add: rest_def)

lemma rest_advance:
  assumes "m < length idx"
  shows "rest t a (idx[m := k]) i = (if i = m then take ((m + 1) * t - k) (drop k a) else rest t a idx i)"
  using assms by (simp add: rest_def)

text \<open>What the inner loop finds.\<close>

lemma pick_min:
  assumes "pick t a idx is num m0 = m"
  shows "(m = m0 \<and> (\<forall>i \<in> set is. idx ! i < (i + 1) * t \<longrightarrow> num \<le> a ! (idx ! i))) \<or>
    (\<exists>i \<in> set is. m = Some i \<and> idx ! i < (i + 1) * t \<and> a ! (idx ! i) < num \<and>
      (\<forall>j \<in> set is. idx ! j < (j + 1) * t \<longrightarrow> a ! (idx ! i) \<le> a ! (idx ! j)))"
  using assms
proof (induction "is" arbitrary: num m0)
  case (Cons i "is")
  let ?avail = "\<lambda>i. idx ! i < (i + 1) * t" and ?hd = "\<lambda>i. a ! (idx ! i)"
  show ?case
  proof (cases "?avail i \<and> ?hd i < num")
    case True
    with Cons.prems have "pick t a idx is (?hd i) (Some i) = m" by simp
    from Cons.IH [OF this] show ?thesis
    proof (elim disjE bexE conjE)
      fix j
      assume j: "j \<in> set is" "m = Some j" "?avail j" "?hd j < ?hd i"
        "\<forall>k \<in> set is. ?avail k \<longrightarrow> ?hd j \<le> ?hd k"
      with True have "\<forall>k \<in> set (i # is). ?avail k \<longrightarrow> ?hd j \<le> ?hd k" "?hd j < num" by auto
      with j show ?thesis by auto
    qed (use True in auto)
  next
    case False
    with Cons.prems have "pick t a idx is num m0 = m" by auto
    from Cons.IH [OF this] show ?thesis
    proof (elim disjE bexE conjE)
      fix j
      assume j: "j \<in> set is" "m = Some j" "?avail j" "?hd j < num"
        "\<forall>k \<in> set is. ?avail k \<longrightarrow> ?hd j \<le> ?hd k"
      with False have "\<forall>k \<in> set (i # is). ?avail k \<longrightarrow> ?hd j \<le> ?hd k" by auto
      with j show ?thesis by auto
    qed (use False in auto)
  qed
qed simp

text \<open>One round: the smallest number that is left is taken out.\<close>

lemma sum_mset_less: "finite A \<Longrightarrow> i \<in> A \<Longrightarrow> x \<in># f i \<Longrightarrow> x \<in># (\<Sum>i\<in>A. f i)"
  by (metis sum.remove union_iff)

lemma in_left: "x \<in># left n t a idx \<longleftrightarrow> (\<exists>i<n. x \<in> set (rest t a idx i))"
  by (auto simp: left_def set_mset_sum)

lemma rest_min:
  assumes "merging n t lmax a idx" "i < n" "x \<in> set (rest t a idx i)"
  shows "idx ! i < (i + 1) * t" "a ! (idx ! i) \<le> x"
proof -
  show avail: "idx ! i < (i + 1) * t"
    using assms(3) rest_Nil [of i t idx a] by (cases "idx ! i < (i + 1) * t") auto
  have "sorted (rest t a idx i)" using assms(1,2) by (simp add: merging_def)
  with assms(3) show "a ! (idx ! i) \<le> x"
    using rest_Cons [OF avail assms(2)] assms(1) by (auto simp: merging_def)
qed

lemma merging_pick:
  assumes inv: "merging n t lmax a idx" and "left n t a idx \<noteq> {#}"
  obtains m where "pick t a idx [0..<n] lmax m0 = Some m" "m < n" "idx ! m < (m + 1) * t"
    "\<forall>x \<in># left n t a idx. a ! (idx ! m) \<le> x"
proof -
  from assms(2) obtain i x where "i < n" "x \<in> set (rest t a idx i)"
    using in_left by (metis multiset_nonemptyE)
  note avail = rest_min(1) [OF inv this]
  have "idx ! i < length a" using avail \<open>i < n\<close> piece_end [of i n t] inv by (simp add: merging_def)
  then have "\<not> lmax \<le> a ! (idx ! i)" using inv by (auto simp: merging_def not_le)
  with avail \<open>i < n\<close> obtain m where m: "pick t a idx [0..<n] lmax m0 = Some m" "m < n"
      "idx ! m < (m + 1) * t" and
      least: "\<forall>j<n. idx ! j < (j + 1) * t \<longrightarrow> a ! (idx ! m) \<le> a ! (idx ! j)"
    using pick_min [OF refl, of t a idx "[0..<n]" lmax m0] by auto
  have "a ! (idx ! m) \<le> x" if "x \<in># left n t a idx" for x
    using that rest_min [OF inv] least in_left by (meson order_trans)
  with m that show ?thesis by blast
qed

lemma merging_advance:
  assumes inv: "merging n t lmax a idx" and "m < n" "idx ! m < (m + 1) * t"
  shows "merging n t lmax a (idx[m := idx ! m + 1])"
    and "left n t a idx = add_mset (a ! (idx ! m)) (left n t a (idx[m := idx ! m + 1]))"
proof -
  let ?idx = "idx[m := idx ! m + 1]"
  have len: "m < length idx" using inv \<open>m < n\<close> by (simp add: merging_def)
  have m: "rest t a idx m = a ! (idx ! m) # rest t a ?idx m"
    using rest_Cons [OF assms(3,2)] inv len by (simp add: rest_advance merging_def)
  have other: "rest t a ?idx i = rest t a idx i" if "i \<noteq> m" for i
    using that len by (simp add: rest_advance)
  have "sorted (rest t a ?idx i)" if "i < n" for i
  proof (cases "i = m")
    case True
    have "sorted (rest t a idx m)" using inv \<open>m < n\<close> by (simp add: merging_def)
    then show ?thesis using m True by simp
  qed (use other that inv in \<open>simp add: merging_def\<close>)
  then show "merging n t lmax a ?idx"
    using inv assms(3) len by (auto simp: merging_def nth_list_update)
  have split: "left n t a j = mset (rest t a j m) + (\<Sum>i\<in>{..<n} - {m}. mset (rest t a j i))" for j
    using \<open>m < n\<close> by (simp add: left_def sum.remove)
  show "left n t a idx = add_mset (a ! (idx ! m)) (left n t a ?idx)"
    unfolding split [of idx] split [of ?idx] m using other by (auto intro: sum.cong)
qed

lemma merge_loop_sorts:
  assumes "merging n t lmax a idx" "size (left n t a idx) = k"
  shows "\<exists>r. merge_loop n t lmax a k idx m0 = Inr r \<and> sorted r \<and> mset r = left n t a idx"
  using assms
proof (induction k arbitrary: idx m0)
  case (Suc k)
  then have "left n t a idx \<noteq> {#}" by auto
  from merging_pick [OF Suc.prems(1) this] obtain m where m:
      "pick t a idx [0..<n] lmax m0 = Some m" "m < n" "idx ! m < (m + 1) * t"
      "\<forall>x \<in># left n t a idx. a ! (idx ! m) \<le> x" by metis
  note adv = merging_advance [OF Suc.prems(1) m(2,3)]
  with Suc.prems(2) have "size (left n t a (idx[m := idx ! m + 1])) = k" by simp
  from Suc.IH [OF adv(1) this] obtain r where r:
      "merge_loop n t lmax a k (idx[m := idx ! m + 1]) (Some m) = Inr r" "sorted r"
      "mset r = left n t a (idx[m := idx ! m + 1])" by blast
  have "idx ! m < length a"
    using m(2,3) piece_end [of m n t] Suc.prems(1) by (simp add: merging_def)
  moreover have "\<forall>x \<in> set r. a ! (idx ! m) \<le> x" using m(4) adv(2) r(3) by (simp flip: set_mset_mset)
  ultimately show ?case using m(1) r adv(2) by simp
qed simp

definition piece :: "nat \<Rightarrow> nat \<Rightarrow> int list \<Rightarrow> int list" where
  "piece t i a = take t (drop (i * t) a)"

lemma mset_pieces: "(\<Sum>i<n. mset (piece t i a)) = mset (take (n * t) a)"
proof (induction n)
  case (Suc n)
  have "take (n * t + t) a = take (n * t) a @ piece t n a"
    by (simp add: piece_def take_add)
  with Suc show ?case by (simp add: add.commute)
qed simp

lemma merge_sorts:
  assumes "length a = n * t" "\<forall>x \<in> set a. x < lmax" "\<forall>i<n. sorted (piece t i a)"
  shows "merge n t lmax a = Inr (sort a)"
proof -
  let ?idx = "map (\<lambda>i. i * t) [0..<n]"
  have "rest t a ?idx i = piece t i a" if "i < n" for i
    using that by (simp add: rest_def piece_def)
  then have "merging n t lmax a ?idx" "left n t a ?idx = mset a"
    using assms mset_pieces [where n = n and t = t and a = a] by (simp_all add: merging_def left_def)
  from merge_loop_sorts [OF this(1)] this(2) assms(1) show ?thesis
    unfolding merge_def by (metis properties_for_sort size_mset)
qed

text \<open>With \<^verbatim>\<open>LONG_MAX\<close> among the numbers, the index of the last minimum is used again and leaves its piece.\<close>

lemma merge_long_max: "x < lmax \<Longrightarrow> merge 2 1 lmax [lmax, x] = Inl (Undef ''read past the end of nums'')"
  by (simp add: merge_def numeral_2_eq_2 upt_rec)

section \<open>The threads sort every piece before it is merged\<close>

lemma sorted_complong: "sorted_wrt (\<lambda>x y. complong x y \<le> 0) xs = sorted xs"
proof -
  have "(\<lambda>x y. complong x y \<le> 0) = (\<le>)" by (auto simp: complong_def fun_eq_iff)
  then show ?thesis by simp
qed

text \<open>What the manual of \<^verbatim>\<open>heapsort\<close> promises for \<^verbatim>\<open>complong\<close>.\<close>

definition heapsort_sorts :: "((int \<Rightarrow> int \<Rightarrow> int) \<Rightarrow> int list \<Rightarrow> int list) \<Rightarrow> bool" where
  "heapsort_sorts hs \<longleftrightarrow>
     (\<forall>xs. mset (hs complong xs) = mset xs \<and> sorted_wrt (\<lambda>x y. complong x y \<le> 0) (hs complong xs))"

lemma heapsort_sorts: "heapsort_sorts hs \<Longrightarrow> hs complong xs = sort xs"
  by (metis heapsort_sorts_def properties_for_sort sorted_complong)

lemma piece_sort_piece:
  assumes "heapsort_sorts hs" "length a = n * t" "i < n" "j < n"
  shows "piece t j (sort_piece hs t (i * t) a) = (if j = i then sort (piece t i a) else piece t j a)"
proof -
  have i: "i * t + t \<le> length a" using assms(2,3) piece_end [of i n t] by (simp add: add.commute)
  consider "j = i" | "j * t + t \<le> i * t" | "i * t + t \<le> j * t" "j > i"
    by (metis add.commute linorder_neqE_nat mult_Suc mult_le_mono1 Suc_leI)
  then show ?thesis
  proof cases
    case 1 then show ?thesis
      using i assms(1) by (simp add: piece_def sort_piece_def heapsort_sorts)
  next
    case 2
    show ?thesis
    proof (cases "j = i")
      case False
      have "t \<le> i * t - j * t" "t \<le> length a - j * t" using 2 i by linarith+
      with False 2 i assms(1) show ?thesis by (simp add: piece_def sort_piece_def heapsort_sorts drop_take min_def)
    qed (use i assms(1) in \<open>simp add: piece_def sort_piece_def heapsort_sorts\<close>)
  next
    case 3
    with i assms(1) show ?thesis by (simp add: piece_def sort_piece_def heapsort_sorts)
  qed
qed

lemma sort_piece_perm:
  assumes "heapsort_sorts hs" "length a = n * t" "i < n"
  shows "mset (sort_piece hs t (i * t) a) = mset a" "length (sort_piece hs t (i * t) a) = length a"
proof -
  have "mset a = mset (take (i * t) a) + mset (take t (drop (i * t) a)) + mset (drop (i * t + t) a)"
    by (metis append.assoc append_take_drop_id drop_drop add.commute mset_append)
  then show "mset (sort_piece hs t (i * t) a) = mset a"
    using assms(1) by (simp add: sort_piece_def heapsort_sorts)
  then show "length (sort_piece hs t (i * t) a) = length a" by (rule mset_eq_length)
qed

definition at_barrier :: "worker list \<Rightarrow> nat set" where
  "at_barrier ws = {i. i < length ws \<and> (ws ! i = Waiting \<or> ws ! i = Returned)}"

definition sorter_inv :: "nat \<Rightarrow> nat \<Rightarrow> int list \<Rightarrow> bool \<Rightarrow> sorter \<Rightarrow> bool" where
  "sorter_inv n t random failed s \<longleftrightarrow>
     length (nums s) = n * t \<and> mset (nums s) = mset random \<and> length (workers s) \<le> n \<and>
     (\<forall>i < length (workers s). workers s ! i \<noteq> Sorting \<longrightarrow> sorted (piece t i (nums s))) \<and>
     (case main s of
        Creating i \<Rightarrow> length (workers s) = i \<and> arrived s = card (at_barrier (workers s))
      | At_barrier \<Rightarrow> length (workers s) = n \<and> arrived s = card (at_barrier (workers s)) + 1
      | Ended r \<Rightarrow> r = Inr (sort random) \<or> failed \<and> r = Inl (Err_sys ''can't create thread''))"

lemma at_barrier_le: "at_barrier ws \<subseteq> {..<length ws}"
  by (auto simp: at_barrier_def)

lemma finite_at_barrier [simp]: "finite (at_barrier ws)"
  by (rule finite_subset [OF at_barrier_le]) simp

lemma at_barrier_simps [simp]:
  "at_barrier (ws @ [Sorting]) = at_barrier ws"
  "i < length ws \<Longrightarrow> ws ! i = Sorting \<Longrightarrow> at_barrier (ws[i := Sorted]) = at_barrier ws"
  "i < length ws \<Longrightarrow> ws ! i = Sorted \<Longrightarrow> at_barrier (ws[i := Waiting]) = insert i (at_barrier ws)"
  "i < length ws \<Longrightarrow> ws ! i = Waiting \<Longrightarrow> at_barrier (ws[i := Returned]) = at_barrier ws"
  by (auto simp: at_barrier_def nth_append nth_list_update less_Suc_eq split: if_splits)

lemma Sorted_not_at_barrier [simp]: "ws ! i = Sorted \<Longrightarrow> i \<notin> at_barrier ws"
  by (simp add: at_barrier_def)

text \<open>When the barrier opens for \<^verbatim>\<open>main\<close>, all threads have come to it.\<close>

lemma all_at_barrier:
  assumes "card (at_barrier ws) = length ws" "i < length ws"
  shows "ws ! i = Waiting \<or> ws ! i = Returned"
proof -
  have "at_barrier ws = {..<length ws}"
    using assms(1) at_barrier_le by (metis card_lessThan card_subset_eq finite_lessThan)
  with assms(2) show ?thesis by (auto simp: at_barrier_def)
qed

lemma thr_fn_inv:
  assumes "sorter_inv n t random failed s" "heapsort_sorts hs" "i < length (workers s)"
    "\<not> (\<exists>r. main s = Ended r)" "thr_fn hs n t i (workers s ! i) s = Some s'"
  shows "sorter_inv n t random failed s'"
proof (cases "workers s ! i")
  case Sorting
  have i: "i < n" and len: "length (nums s) = n * t" using assms(1,3) by (simp_all add: sorter_inv_def)
  note p = sort_piece_perm [OF assms(2) len i] piece_sort_piece [OF assms(2) len i]
  show ?thesis
    using assms Sorting p by (auto simp: sorter_inv_def nth_list_update split: main_pc.splits)
next
  case Sorted
  then show ?thesis
    using assms by (auto simp: sorter_inv_def nth_list_update split: main_pc.splits if_splits)
qed (use assms in \<open>auto simp: sorter_inv_def nth_list_update split: main_pc.splits if_splits\<close>)

lemma main_step_inv:
  assumes "sorter_inv n t random failed s" "\<forall>x \<in> set random. x < lmax"
    "main_step n t lmax ok (main s) s = Some s'"
  shows "sorter_inv n t random (failed \<or> \<not> ok) s'"
proof (cases "main s")
  case (Creating i)
  with assms(1,3) show ?thesis by (auto simp: sorter_inv_def nth_append less_Suc_eq split: if_splits)
next
  case At_barrier
  with assms(3) have s': "arrived s = n + 1" "s' = s\<lparr>main := Ended (merge n t lmax (nums s))\<rparr>"
    by (auto split: if_splits)
  with assms(1) At_barrier have inv: "length (nums s) = n * t" "mset (nums s) = mset random"
      "length (workers s) = n" "card (at_barrier (workers s)) = length (workers s)"
      "\<forall>i<n. workers s ! i \<noteq> Sorting \<longrightarrow> sorted (piece t i (nums s))"
    by (auto simp: sorter_inv_def)
  have "sorted (piece t i (nums s))" if "i < n" for i
    using all_at_barrier [OF inv(4), of i] inv(3,5) that by (metis worker.distinct(3,5))
  moreover have "\<forall>x \<in> set (nums s). x < lmax" using assms(2) inv(2) by (metis set_mset_mset)
  ultimately have "merge n t lmax (nums s) = Inr (sort (nums s))" using merge_sorts inv(1) by blast
  moreover have "sort (nums s) = sort random" using inv(2) by (simp add: properties_for_sort)
  ultimately show ?thesis using s' inv by (simp add: sorter_inv_def)
qed (use assms(3) in simp)

lemma sorter_run_inv:
  assumes "sorter_inv n t random failed s" "heapsort_sorts hs" "\<forall>x \<in> set random. x < lmax"
    "sorter_run hs n t lmax vs s = Some s'"
  shows "sorter_inv n t random (failed \<or> Main False \<in> set vs) s'"
  using assms(1,4)
proof (induction vs arbitrary: failed s)
  case (Cons v vs)
  then obtain s1 where s1: "sorter_step hs n t lmax v s = Some s1" "sorter_run hs n t lmax vs s1 = Some s'"
    by (auto split: option.splits)
  have "sorter_inv n t random (failed \<or> v = Main False) s1"
  proof (cases v)
    case (Main ok)
    with s1(1) main_step_inv [OF Cons.prems(1) assms(3), of ok s1] show ?thesis
      by (auto simp: sorter_step_def split: main_pc.splits)
  next
    case (Thread i)
    with s1(1) thr_fn_inv [OF Cons.prems(1) assms(2), of i s1] show ?thesis
      by (auto simp: sorter_step_def split: main_pc.splits if_splits)
  qed
  from Cons.IH [OF this s1(2)] show ?case by (simp add: disj_assoc eq_commute [of v])
qed simp

section \<open>Every schedule ends\<close>

fun done_by :: "worker \<Rightarrow> nat" where
  "done_by Sorting = 1" | "done_by Sorted = 2" | "done_by Waiting = 3" | "done_by Returned = 4"

fun done_main :: "main_pc \<Rightarrow> nat" where
  "done_main (Creating i) = 0" | "done_main At_barrier = 1" | "done_main (Ended r) = 2"

definition progress :: "sorter \<Rightarrow> nat" where
  "progress s = sum_list (map done_by (workers s)) + done_main (main s)"

lemma sum_list_done_by: "sum_list (map done_by ws) \<le> 4 * length ws"
proof (induction ws)
  case (Cons w ws)
  moreover have "done_by w \<le> 4" by (cases w) simp_all
  ultimately show ?case by simp
qed simp

lemma sum_list_done_by_update:
  assumes "i < length ws" "done_by w = done_by (ws ! i) + 1"
  shows "sum_list (map done_by (ws[i := w])) = sum_list (map done_by ws) + 1"
proof -
  have "done_by (ws ! i) \<le> sum_list (map done_by ws)"
    using assms(1) by (simp add: member_le_sum_list)
  then show ?thesis using assms by (simp add: map_update sum_list_update)
qed

lemma sorter_step_progress:
  assumes "sorter_step hs n t lmax v s = Some s'"
  shows "progress s < progress s'"
proof (cases v)
  case (Main ok)
  then show ?thesis
    using assms by (cases "main s") (auto simp: sorter_step_def progress_def split: if_splits)
next
  case (Thread i)
  with assms have "i < length (workers s)" "thr_fn hs n t i (workers s ! i) s = Some s'"
    by (auto simp: sorter_step_def split: main_pc.splits if_splits)
  then show ?thesis
    by (cases "workers s ! i") (auto simp: progress_def sum_list_done_by_update split: if_splits)
qed

lemma sorter_run_progress:
  "sorter_run hs n t lmax vs s = Some s' \<Longrightarrow> progress s + length vs \<le> progress s'"
  by (induction vs arbitrary: s) (fastforce dest: sorter_step_progress split: option.splits)+

lemma sorter_not_stuck:
  assumes "sorter_inv n t random failed s" "\<not> (\<exists>r. main s = Ended r)"
  shows "\<exists>v s'. v \<noteq> Main False \<and> sorter_step hs n t lmax v s = Some s'"
proof (cases "main s")
  case (Creating i)
  then have "\<exists>s'. sorter_step hs n t lmax (Main True) s = Some s'" by (simp add: sorter_step_def)
  then show ?thesis by blast
next
  case At_barrier
  show ?thesis
  proof (cases "card (at_barrier (workers s)) = length (workers s)")
    case True
    with assms(1) At_barrier have "sorter_step hs n t lmax (Main True) s \<noteq> None"
      by (simp add: sorter_inv_def sorter_step_def)
    then show ?thesis by blast
  next
    case False
    then obtain i where "i < length (workers s)" "i \<notin> at_barrier (workers s)"
      by (metis at_barrier_le card_lessThan lessThan_iff subsetI subset_antisym)
    then have "sorter_step hs n t lmax (Thread i) s \<noteq> None"
      using At_barrier by (cases "workers s ! i") (auto simp: sorter_step_def at_barrier_def)
    then show ?thesis by blast
  qed
qed (use assms(2) in blast)

lemma sorter_start_inv: "length random = n * t \<Longrightarrow> sorter_inv n t random False (sorter_start random)"
  by (simp add: sorter_inv_def sorter_start_def at_barrier_def)

section \<open>Properties\<close>

text \<open>
  C8. However the threads of barrier.c are scheduled, the program ends after at most four steps of
  every thread and two of \<open>main\<close>, no state before its end is a deadlock, and what it prints in the
  end is the sorted list of all the numbers, unless a thread cannot be created.
\<close>

theorem barrier_sort_correct:
  assumes "heapsort_sorts hs" "length random = n * t" "\<forall>x \<in> set random. x < lmax"
    "sorter_run hs n t lmax vs (sorter_start random) = Some s"
  shows "length vs \<le> 4 * n + 2 \<and>
    ((\<exists>r. main s = Ended r) \<or> (\<exists>v s'. v \<noteq> Main False \<and> sorter_step hs n t lmax v s = Some s')) \<and>
    (\<forall>r. main s = Ended r \<and> Main False \<notin> set vs \<longrightarrow> r = Inr (sort random))"
proof (intro conjI allI impI)
  note inv = sorter_run_inv [OF sorter_start_inv [OF assms(2)] assms(1,3,4)]
  have "done_main (main s) \<le> 2" by (cases "main s") simp_all
  then have "progress s \<le> 4 * n + 2"
    using sum_list_done_by [of "workers s"] inv by (simp add: progress_def sorter_inv_def)
  with sorter_run_progress [OF assms(4)] show "length vs \<le> 4 * n + 2"
    by (simp add: progress_def sorter_start_def)
  show "(\<exists>r. main s = Ended r) \<or> (\<exists>v s'. v \<noteq> Main False \<and> sorter_step hs n t lmax v s = Some s')"
    using sorter_not_stuck [OF inv] by blast
  show "r = Inr (sort random)" if "main s = Ended r \<and> Main False \<notin> set vs" for r
    using inv that by (simp add: sorter_inv_def)
qed

lemma barrier_sort_correct_witness:
  "main (the (sorter_run (\<lambda>_. sort) 2 2 9
      [Main True, Thread 0, Main True, Thread 1, Thread 1, Main True, Thread 0, Main True]
      (sorter_start [3, 1, 2, 0]))) = Ended (Inr (sort [3, 1, 2, 0]))"
proof -
  have hs: "heapsort_sorts (\<lambda>_. sort)" by (simp add: heapsort_sorts_def sorted_complong)
  let ?vs = "[Main True, Thread 0, Main True, Thread 1, Thread 1, Main True, Thread 0, Main True]"
  have "\<exists>s r. sorter_run (\<lambda>_. sort) 2 2 9 ?vs (sorter_start [3, 1, 2, 0]) = Some s \<and> main s = Ended r"
    by (simp add: sorter_start_def sorter_step_def)
  then obtain s r where "sorter_run (\<lambda>_. sort) 2 2 9 ?vs (sorter_start [3, 1, 2, 0]) = Some s"
      "main s = Ended r" by blast
  with barrier_sort_correct [OF hs _ _ this(1)] show ?thesis by simp
qed

text \<open>The program itself: the numbers of \<^verbatim>\<open>random\<close> are below \<^verbatim>\<open>LONG_MAX\<close> where \<^verbatim>\<open>long\<close> has 64 bits.\<close>

lemma NUMNUM_pieces: "NUMNUM = NTHR * TNUM"
  by (simp add: NUMNUM_def NTHR_def TNUM_def)

end
