(* ===== verification/FtwTree.thy ===== *)
theory FtwTree
  imports Prelude
begin

text \<open>
  \<^verbatim>\<open>filedir/ftw8.c\<close>: a walk through a file hierarchy that calls a function for every file and keeps
  the path in one buffer, and \<^verbatim>\<open>lib/pathalloc.c\<close>, which allocates the buffer. The reference is the
  list of all files in the order of a depth-first walk.
\<close>

section \<open>The size of a path\<close>

record path_statics =
  pathmax :: int
  posix_version :: int
  xsi_version :: int

definition PATH_MAX_GUESS :: int where "PATH_MAX_GUESS = 1024"

text \<open>
  \<open>version\<close> and \<open>xsi\<close> are what \<^verbatim>\<open>sysconf\<close> returns, \<open>pc\<close> and \<open>err\<close> what \<^verbatim>\<open>pathconf\<close> returns and leaves in
  \<^verbatim>\<open>errno\<close>. The result is the size of the buffer. Initially \<open>pathmax\<close> is \<^verbatim>\<open>PATH_MAX\<close> or 0, the others 0.
\<close>

definition path_alloc :: "int \<Rightarrow> int \<Rightarrow> int \<Rightarrow> int \<Rightarrow> path_statics \<Rightarrow> (nat \<times> path_statics) res" where
  "path_alloc version xsi pc err s =
     (let s = (if posix_version s = 0 then s\<lparr>posix_version := version\<rparr> else s);
          s = (if xsi_version s = 0 then s\<lparr>xsi_version := xsi\<rparr> else s)
      in bnd (if pathmax s = 0 then
                if pc < 0 then
                  if err = 0 then Inr (s\<lparr>pathmax := PATH_MAX_GUESS\<rparr>)
                  else Inl (Err_sys ''pathconf error for _PC_PATH_MAX'')
                else Inr (s\<lparr>pathmax := pc + 1\<rparr>)
              else Inr s) (\<lambda>s.
         Inr (nat (if posix_version s < 200112 \<and> xsi_version s < 4 then pathmax s + 1 else pathmax s), s)))"

lemma path_alloc_size:
  assumes "path_alloc version xsi pc err s = Inr (sz, s')" "0 \<le> pathmax s"
  shows "pathmax s' \<le> int sz \<and> sz \<le> nat (pathmax s') + 1 \<and>
    (pathmax s \<noteq> 0 \<longrightarrow> pathmax s' = pathmax s) \<and> 0 < pathmax s'"
  using assms
  by (auto simp: path_alloc_def Let_def bnd_Inr_iff PATH_MAX_GUESS_def split: if_splits)

section \<open>The file system\<close>

text \<open>
  What the kernel answers: the type of a file, the names in a directory. \<open>PMAX\<close> is its limit for
  paths, with the null byte; a longer one is refused by \<^verbatim>\<open>lstat\<close>. A name has at most \<^verbatim>\<open>NAME_MAX\<close> bytes.
\<close>

datatype ftype = S_IFREG | S_IFDIR | S_IFBLK | S_IFCHR | S_IFIFO | S_IFLNK | S_IFSOCK

record fs =
  lstat :: "string \<Rightarrow> ftype option"
  opendir :: "string \<Rightarrow> string list option"
  closedir :: "string \<Rightarrow> bool"

definition NAME_MAX :: nat where "NAME_MAX = 255"

definition fs_limits :: "nat \<Rightarrow> fs \<Rightarrow> bool" where
  "fs_limits PMAX F \<longleftrightarrow> (\<forall>p. PMAX \<le> length p \<longrightarrow> lstat F p = None) \<and>
     (\<forall>p ns. opendir F p = Some ns \<longrightarrow> (\<forall>x \<in> set ns. length x \<le> NAME_MAX))"

section \<open>The walk\<close>

datatype ftw = FTW_F | FTW_D | FTW_DNR | FTW_NS

text \<open>The function that is called: path, file type if known, kind of call.\<close>

type_synonym 's func = "string \<Rightarrow> ftype option \<Rightarrow> ftw \<Rightarrow> 's \<Rightarrow> ('s \<times> int) res"

text \<open>
  The buffer is its contents up to the null byte and its size; \<open>user\<close> is the state of the function
  called. \<open>opened\<close> counts the open directories, \<open>ftw_log\<close> has the messages of \<^verbatim>\<open>err_ret\<close>.
\<close>

record 's walker =
  fullpath :: string
  pathlen :: nat
  user :: 's
  opened :: nat
  ftw_log :: "string list"

definition call :: "'s func \<Rightarrow> ftype option \<Rightarrow> ftw \<Rightarrow> 's walker \<Rightarrow> ('s walker \<times> int) res" where
  "call func t k w = bnd (func (fullpath w) t k (user w)) (\<lambda>(u, ret). Inr (w\<lparr>user := u\<rparr>, ret))"

text \<open>\<^verbatim>\<open>strcpy(&fullpath[n], s)\<close>\<close>

definition put_path :: "nat \<Rightarrow> string \<Rightarrow> 's walker \<Rightarrow> 's walker res" where
  "put_path n s w = (if n + length s + 1 \<le> pathlen w then Inr (w\<lparr>fullpath := take n (fullpath w) @ s\<rparr>)
     else Inl (Undef ''fullpath overrun''))"

text \<open>
  The first argument bounds the depth of the recursion. \<open>n\<close> is the length of the path of the directory
  with its slash.
\<close>

fun dopath :: "nat \<Rightarrow> fs \<Rightarrow> 's func \<Rightarrow> 's walker \<Rightarrow> ('s walker \<times> int) res"
  and dirloop :: "nat \<Rightarrow> fs \<Rightarrow> 's func \<Rightarrow> nat \<Rightarrow> string list \<Rightarrow> int \<Rightarrow> 's walker \<Rightarrow> ('s walker \<times> int) res" where
  "dopath 0 F func w = Inl Diverges"
| "dopath (Suc k) F func w =
     (case lstat F (fullpath w) of
        None \<Rightarrow> call func None FTW_NS w
      | Some t \<Rightarrow>
        if t \<noteq> S_IFDIR then call func (Some t) FTW_F w
        else bnd (call func (Some t) FTW_D w) (\<lambda>(w, ret).
          if ret \<noteq> 0 then Inr (w, ret)
          else
            let n = length (fullpath w);
                w = (if pathlen w < n + NAME_MAX + 2 then w\<lparr>pathlen := 2 * pathlen w\<rparr> else w)
            in bnd (put_path n ''/'' w) (\<lambda>w.
               case opendir F (fullpath w) of
                 None \<Rightarrow> call func (Some t) FTW_DNR w
               | Some names \<Rightarrow>
                   bnd (dirloop k F func (n + 1) names ret (w\<lparr>opened := opened w + 1\<rparr>)) (\<lambda>(w, ret).
                   let w = w\<lparr>fullpath := take n (fullpath w), opened := opened w - 1\<rparr>
                   in Inr (if closedir F (fullpath w) then w
                           else w\<lparr>ftw_log := ftw_log w @ [''can't close directory '' @ fullpath w]\<rparr>, ret)))))"
| "dirloop k F func n [] ret w = Inr (w, ret)"
| "dirloop k F func n (x # names) ret w =
     (if x = ''.'' \<or> x = ''..'' then dirloop k F func n names ret w
      else bnd (put_path n x w) (\<lambda>w.
           bnd (dopath k F func w) (\<lambda>(w, ret).
           if ret \<noteq> 0 then Inr (w, ret) else dirloop k F func n names ret w)))"

definition myftw :: "nat \<Rightarrow> fs \<Rightarrow> nat \<Rightarrow> string \<Rightarrow> 's func \<Rightarrow> 's \<Rightarrow> ('s walker \<times> int) res" where
  "myftw k F sz pathname func u =
     (let len = (if sz \<le> length pathname then length pathname * 2 else sz);
          w = \<lparr>fullpath = [], pathlen = len, user = u, opened = 0, ftw_log = []\<rparr>
      in bnd (put_path 0 pathname w) (dopath k F func))"

section \<open>The program\<close>

record counts =
  nreg :: nat
  ndir :: nat
  nblk :: nat
  nchr :: nat
  nfifo :: nat
  nslink :: nat
  nsock :: nat
  messages :: "string list"

definition myfunc :: "counts func" where
  "myfunc pathname t type c = (case type of
       FTW_F \<Rightarrow> (case t of
           Some S_IFREG \<Rightarrow> Inr (c\<lparr>nreg := nreg c + 1\<rparr>, 0)
         | Some S_IFBLK \<Rightarrow> Inr (c\<lparr>nblk := nblk c + 1\<rparr>, 0)
         | Some S_IFCHR \<Rightarrow> Inr (c\<lparr>nchr := nchr c + 1\<rparr>, 0)
         | Some S_IFIFO \<Rightarrow> Inr (c\<lparr>nfifo := nfifo c + 1\<rparr>, 0)
         | Some S_IFLNK \<Rightarrow> Inr (c\<lparr>nslink := nslink c + 1\<rparr>, 0)
         | Some S_IFSOCK \<Rightarrow> Inr (c\<lparr>nsock := nsock c + 1\<rparr>, 0)
         | Some S_IFDIR \<Rightarrow> Inl (Err_dump (''for S_IFDIR for '' @ pathname))
         | None \<Rightarrow> Inr (c, 0))
     | FTW_D \<Rightarrow> Inr (c\<lparr>ndir := ndir c + 1\<rparr>, 0)
     | FTW_DNR \<Rightarrow> Inr (c\<lparr>messages := messages c @ [''can't read directory '' @ pathname]\<rparr>, 0)
     | FTW_NS \<Rightarrow> Inr (c\<lparr>messages := messages c @ [''stat error for '' @ pathname]\<rparr>, 0))"

text \<open>\<^verbatim>\<open>main\<close>: the numbers it prints and the number it divides by for the percentages, and its exit status.\<close>

definition ntot :: "counts \<Rightarrow> nat" where
  "ntot c = (let n = nreg c + ndir c + nblk c + nchr c + nfifo c + nslink c + nsock c in if n = 0 then 1 else n)"

definition ftw8_main :: "nat \<Rightarrow> fs \<Rightarrow> nat \<Rightarrow> string list \<Rightarrow> (nat list \<times> nat \<times> int) res" where
  "ftw8_main k F sz args = (case args of
       [pathname] \<Rightarrow> bnd (myftw k F sz pathname myfunc \<lparr>nreg = 0, ndir = 0, nblk = 0, nchr = 0, nfifo = 0,
           nslink = 0, nsock = 0, messages = []\<rparr>) (\<lambda>(w, ret).
         let c = user w in
         Inr ([nreg c, ndir c, nblk c, nchr c, nfifo c, nslink c, nsock c], ntot c, ret))
     | _ \<Rightarrow> Inl (Err_quit ''usage:  ftw  <starting-pathname>''))"

section \<open>The files of a hierarchy\<close>

fun visits :: "nat \<Rightarrow> fs \<Rightarrow> string \<Rightarrow> (string \<times> ftype option \<times> ftw) list" where
  "visits 0 F p = []"
| "visits (Suc k) F p = (case lstat F p of
       None \<Rightarrow> [(p, None, FTW_NS)]
     | Some t \<Rightarrow>
         if t \<noteq> S_IFDIR then [(p, Some t, FTW_F)]
         else (p, Some t, FTW_D) # (case opendir F (p @ ''/'') of
             None \<Rightarrow> [(p @ ''/'', Some t, FTW_DNR)]
           | Some names \<Rightarrow> concat (map (\<lambda>x. visits k F (p @ ''/'' @ x)) (filter (\<lambda>x. x \<noteq> ''.'' \<and> x \<noteq> ''..'') names))))"

fun walk :: "'s func \<Rightarrow> (string \<times> ftype option \<times> ftw) list \<Rightarrow> 's \<Rightarrow> ('s \<times> int) res" where
  "walk func [] u = Inr (u, 0)"
| "walk func ((p, t, k) # vs) u =
     bnd (func p t k u) (\<lambda>(u, ret). if ret \<noteq> 0 then Inr (u, ret) else walk func vs u)"

lemma walk_append:
  "walk func (xs @ ys) u = bnd (walk func xs u) (\<lambda>(u, ret). if ret \<noteq> 0 then Inr (u, ret) else walk func ys u)"
  by (induction func xs u rule: walk.induct) (auto simp: bnd_assoc intro!: bnd_cong)

text \<open>Depth \<open>PMAX - length p\<close> is enough for all files below \<open>p\<close>.\<close>

lemma visits_enough:
  assumes "fs_limits PMAX F" "Suc PMAX \<le> k + length p" "0 < k"
  shows "visits (Suc k) F p = visits k F p"
  using assms(2,3)
proof (induction k arbitrary: p)
  case (Suc k)
  show ?case
  proof (cases "lstat F p = Some S_IFDIR")
    case True
    then have "length p < PMAX" using assms(1) by (auto simp: fs_limits_def not_le [symmetric])
    then have "visits (Suc k) F (p @ ''/'' @ x) = visits k F (p @ ''/'' @ x)" for x
      using Suc.IH [of "p @ ''/'' @ x"] Suc.prems by simp
    then show ?thesis by (subst (1 2) visits.simps) (simp add: True del: visits.simps split: option.split)
  qed (auto split: option.split)
qed simp

section \<open>The walk visits them\<close>

text \<open>
  A walk below \<open>p\<close>, started in \<open>w\<close>: it ends as the walk over the list does, the buffer still begins
  with \<open>p\<close>, and every directory that was opened is closed.
\<close>

definition walked :: "string \<Rightarrow> 's walker \<Rightarrow> ('s walker \<times> int) res \<Rightarrow> ('s \<times> int) res \<Rightarrow> bool" where
  "walked p w m v \<longleftrightarrow> (case m of
       Inl e \<Rightarrow> v = Inl e
     | Inr (w', ret) \<Rightarrow> v = Inr (user w', ret) \<and> take (length p) (fullpath w') = p \<and>
         length (fullpath w') < pathlen w' \<and> pathlen w \<le> pathlen w' \<and> opened w' = opened w)"

lemma walked_call:
  "length (fullpath w) < pathlen w \<Longrightarrow> take (length p) (fullpath w) = p \<Longrightarrow> pathlen w0 \<le> pathlen w \<Longrightarrow> opened w0 = opened w \<Longrightarrow>
    walked p w0 (call func t k w) (walk func [(fullpath w, t, k)] (user w))"
  by (cases "func (fullpath w) t k (user w)") (auto simp: walked_def call_def)

lemma walked_dirloop:
  assumes dopath: "\<And>w. Suc PMAX \<le> k + length (fullpath w) \<Longrightarrow> length (fullpath w) < pathlen w \<Longrightarrow>
      NAME_MAX + 2 \<le> pathlen w \<Longrightarrow>
      walked (fullpath w) w (dopath k F func w) (walk func (visits k F (fullpath w)) (user w))"
    and "Suc PMAX \<le> k + length q" "q \<noteq> []"
  shows "\<forall>x \<in> set names. length x \<le> NAME_MAX \<Longrightarrow> take (length q) (fullpath w) = q \<Longrightarrow>
    length (fullpath w) < pathlen w \<Longrightarrow> length q + NAME_MAX + 1 \<le> pathlen w \<Longrightarrow>
    walked q w (dirloop k F func (length q) names 0 w)
      (walk func (concat (map (\<lambda>x. visits k F (q @ x)) (filter (\<lambda>x. x \<noteq> ''.'' \<and> x \<noteq> ''..'') names))) (user w))"
proof (induction names arbitrary: w)
  case (Cons x names)
  show ?case
  proof (cases "x = ''.'' \<or> x = ''..''")
    case False
    let ?w = "w\<lparr>fullpath := q @ x\<rparr>"
    have put: "put_path (length q) x w = Inr ?w" using Cons.prems by (simp add: put_path_def)
    have "Suc 0 \<le> length q" using assms(3) by (cases q) simp_all
    then have "walked (q @ x) ?w (dopath k F func ?w) (walk func (visits k F (q @ x)) (user w))"
      using dopath [of ?w] assms(2) Cons.prems by simp
    note head = this [unfolded walked_def]
    show ?thesis
    proof (cases "dopath k F func ?w")
      case (Inl e)
      with head put False show ?thesis by (auto simp: walked_def walk_append)
    next
      case (Inr y)
      obtain w1 ret where y: "y = (w1, ret)" by fastforce
      with head Inr have w1: "walk func (visits k F (q @ x)) (user w) = Inr (user w1, ret)"
          "take (length (q @ x)) (fullpath w1) = q @ x" "length (fullpath w1) < pathlen w1"
          "pathlen w \<le> pathlen w1" "opened w1 = opened w" by simp_all
      have q: "take (length q) (fullpath w1) = q"
        using arg_cong [OF w1(2), of "take (length q)"] by (simp add: min_def)
      show ?thesis
      proof (cases "ret = 0")
        case True
        have "walked q w1 (dirloop k F func (length q) names 0 w1)
            (walk func (concat (map (\<lambda>x. visits k F (q @ x)) (filter (\<lambda>x. x \<noteq> ''.'' \<and> x \<noteq> ''..'') names))) (user w1))"
          using Cons.IH [OF _ q w1(3)] Cons.prems w1(4) by simp
        with put False Inr y w1 True show ?thesis
          by (auto simp: walked_def walk_append split: sum.splits)
      qed (use put False Inr y w1 q in \<open>auto simp: walked_def walk_append\<close>)
    qed
  qed (use Cons in auto)
qed (simp add: walked_def)

lemma walked_dopath:
  assumes "fs_limits PMAX F"
  shows "Suc PMAX \<le> k + length (fullpath w) \<Longrightarrow> 0 < k \<Longrightarrow> length (fullpath w) < pathlen w \<Longrightarrow> NAME_MAX + 2 \<le> pathlen w \<Longrightarrow>
    walked (fullpath w) w (dopath k F func w) (walk func (visits k F (fullpath w)) (user w))"
proof (induction k arbitrary: w)
  case (Suc k)
  let ?p = "fullpath w"
  show ?case
  proof (cases "lstat F ?p")
    case None
    then show ?thesis using walked_call [of w ?p w func] Suc.prems by simp
  next
    case (Some t)
    show ?thesis
    proof (cases "t = S_IFDIR")
      case False
      then show ?thesis using walked_call [of w ?p w func] Suc.prems Some by simp
    next
      case True
      then have "length ?p < PMAX" using Some assms by (auto simp: fs_limits_def not_le [symmetric])
      then have k: "0 < k" "Suc PMAX \<le> k + length (?p @ ''/'')" using Suc.prems by simp_all
      let ?q = "?p @ ''/''" and ?go = "\<lambda>x. x \<noteq> ''.'' \<and> x \<noteq> ''..''"
      show ?thesis
      proof (cases "\<exists>u. func ?p (Some t) FTW_D (user w) = Inr (u, 0)")
        case False
        then show ?thesis using Some True Suc.prems
          by (cases "func ?p (Some t) FTW_D (user w)") (auto simp: walked_def call_def split: option.split)
      next
        case ok: True
        then obtain u where u: "func ?p (Some t) FTW_D (user w) = Inr (u, 0)" by blast
        let ?u = "w\<lparr>user := u\<rparr>"
        let ?w = "(if pathlen ?u < length ?p + NAME_MAX + 2 then ?u\<lparr>pathlen := 2 * pathlen ?u\<rparr> else ?u)\<lparr>fullpath := ?q\<rparr>"
        have w: "length ?p + NAME_MAX + 2 \<le> pathlen ?w" "pathlen w \<le> pathlen ?w" "fullpath ?w = ?q"
            "user ?w = u" "opened ?w = opened w"
          using Suc.prems by simp_all
        have eq: "dopath (Suc k) F func w = (case opendir F ?q of
             None \<Rightarrow> call func (Some t) FTW_DNR ?w
           | Some names \<Rightarrow>
               bnd (dirloop k F func (length ?p + 1) names 0 (?w\<lparr>opened := opened w + 1\<rparr>)) (\<lambda>(w, ret).
               let w = w\<lparr>fullpath := take (length ?p) (fullpath w), opened := opened w - 1\<rparr>
               in Inr (if closedir F (fullpath w) then w
                       else w\<lparr>ftw_log := ftw_log w @ [''can't close directory '' @ fullpath w]\<rparr>, ret)))"
          using Some True u Suc.prems by (auto simp: call_def put_path_def Let_def split: option.split)
        show ?thesis
        proof (cases "opendir F ?q")
          case None
          have "walked ?p w (call func (Some t) FTW_DNR ?w) (walk func [(?q, Some t, FTW_DNR)] u)"
            using walked_call [of ?w ?p w func] w by simp
          then show ?thesis unfolding eq using None Some True u by simp
        next
          case (Some names)
          let ?v = "?w\<lparr>opened := opened w + 1\<rparr>"
          have names: "\<forall>x \<in> set names. length x \<le> NAME_MAX" using assms Some by (auto simp: fs_limits_def)
          let ?d = "dirloop k F func (length ?q) names 0 ?v"
          let ?r = "walk func (concat (map (\<lambda>x. visits k F (?q @ x)) (filter ?go names))) u"
          have d: "walked ?q ?v ?d ?r"
            using walked_dirloop [OF Suc.IH k(2), of names ?v] k(1) names w by simp
          have v: "walk func (visits (Suc k) F ?p) (user w) = ?r"
            using \<open>lstat F ?p = Some t\<close> True u Some by simp
          show ?thesis
          proof (cases ?d)
            case (Inl e)
            with d have "?r = Inl e" by (simp add: walked_def)
            then show ?thesis unfolding v by (subst eq) (use Inl Some in \<open>simp add: walked_def\<close>)
          next
            case (Inr y)
            obtain w1 ret where y: "y = (w1, ret)" by fastforce
            with Inr d w have w1: "?r = Inr (user w1, ret)" "take (length ?q) (fullpath w1) = ?q"
                "length (fullpath w1) < pathlen w1" "pathlen w \<le> pathlen w1" "opened w1 = opened w + 1"
              by (simp_all add: walked_def del: take_append)
            have "length ?p < pathlen w1" using Suc.prems w1(4) by simp
            moreover have "take (length ?p) (fullpath w1) = ?p"
              using arg_cong [OF w1(2), of "take (length ?p)"] by (simp add: min_def)
            ultimately show ?thesis unfolding v using w1
              by (subst eq) (use Inr y Some in \<open>simp add: walked_def Let_def\<close>)
          qed
        qed
      qed
    qed
  qed
qed simp

lemma visits_all:
  assumes "fs_limits PMAX F" "PMAX < k"
  shows "visits k F p = visits (Suc PMAX) F p"
  using assms(2)
proof (induction "k - Suc PMAX" arbitrary: k)
  case (Suc d)
  then obtain j where j: "k = Suc j" "PMAX < j" "d = j - Suc PMAX" by (cases k) auto
  with visits_enough [OF assms(1), of j p] Suc.hyps(1) [of j] show ?case by simp
next
  case 0
  then have "k = Suc PMAX" by simp
  then show ?case by (rule arg_cong)
qed

lemma myftw_walked:
  assumes "fs_limits PMAX F" "pathname \<noteq> []" "NAME_MAX + 2 \<le> sz" "PMAX < k"
  shows "walked pathname \<lparr>fullpath = [], pathlen = 0, user = u, opened = 0, ftw_log = []\<rparr>
    (myftw k F sz pathname func u) (walk func (visits (Suc PMAX) F pathname) u)"
proof -
  define len where "len = (if sz \<le> length pathname then length pathname * 2 else sz)"
  let ?w = "\<lparr>fullpath = pathname, pathlen = len, user = u, opened = 0, ftw_log = []\<rparr>"
  have "0 < length pathname" using assms(2) by simp
  then have len: "length pathname < len" "NAME_MAX + 2 \<le> len" using assms(3) by (auto simp: len_def)
  then have "myftw k F sz pathname func u = dopath k F func ?w"
    by (simp add: myftw_def put_path_def flip: len_def)
  then show ?thesis
    using walked_dopath [OF assms(1), of k ?w func] assms(4) len visits_all [OF assms(1,4)]
    by (simp add: walked_def split: sum.splits prod.splits)
qed

section \<open>The counts\<close>

definition count_calls :: "(ftype option \<Rightarrow> ftw \<Rightarrow> bool) \<Rightarrow> (string \<times> ftype option \<times> ftw) list \<Rightarrow> nat" where
  "count_calls P vs = length (filter (\<lambda>(p, t, k). P t k) vs)"

abbreviation count_type :: "ftype \<Rightarrow> (string \<times> ftype option \<times> ftw) list \<Rightarrow> nat" where
  "count_type ty \<equiv> count_calls (\<lambda>t k. k = FTW_F \<and> t = Some ty)"

lemma count_calls_simps [simp]:
  "count_calls P [] = 0"
  "count_calls P ((p, t, k) # vs) = of_bool (P t k) + count_calls P vs"
  by (simp_all add: count_calls_def)

text \<open>A file that is reported as \<open>FTW_F\<close> has a type, and is not a directory.\<close>

definition typed_calls :: "(string \<times> ftype option \<times> ftw) list \<Rightarrow> bool" where
  "typed_calls vs \<longleftrightarrow> list_all (\<lambda>(p, t, k). k = FTW_F \<longrightarrow> t \<noteq> None \<and> t \<noteq> Some S_IFDIR) vs"

lemma typed_visits: "typed_calls (visits k F p)"
  unfolding typed_calls_def list_all_iff by (induction k F p rule: visits.induct) (auto split: option.splits if_splits)

lemma walk_myfunc:
  assumes "typed_calls vs"
  shows "\<exists>c'. walk myfunc vs c = Inr (c', 0) \<and> nreg c' = nreg c + count_type S_IFREG vs \<and>
    ndir c' = ndir c + count_calls (\<lambda>t k. k = FTW_D) vs \<and> nblk c' = nblk c + count_type S_IFBLK vs \<and>
    nchr c' = nchr c + count_type S_IFCHR vs \<and> nfifo c' = nfifo c + count_type S_IFIFO vs \<and>
    nslink c' = nslink c + count_type S_IFLNK vs \<and> nsock c' = nsock c + count_type S_IFSOCK vs"
  using assms
proof (induction vs arbitrary: c)
  case (Cons v vs)
  obtain q t k where v: "v = (q, t, k)" by (cases v)
  obtain c1 where c1: "myfunc q t k c = Inr (c1, 0)"
      "nreg c1 = nreg c + of_bool (k = FTW_F \<and> t = Some S_IFREG)" "ndir c1 = ndir c + of_bool (k = FTW_D)"
      "nblk c1 = nblk c + of_bool (k = FTW_F \<and> t = Some S_IFBLK)" "nchr c1 = nchr c + of_bool (k = FTW_F \<and> t = Some S_IFCHR)"
      "nfifo c1 = nfifo c + of_bool (k = FTW_F \<and> t = Some S_IFIFO)" "nslink c1 = nslink c + of_bool (k = FTW_F \<and> t = Some S_IFLNK)"
      "nsock c1 = nsock c + of_bool (k = FTW_F \<and> t = Some S_IFSOCK)"
  proof (cases k)
    case FTW_F
    with Cons.prems v obtain ty where "t = Some ty" "ty \<noteq> S_IFDIR" by (auto simp: typed_calls_def)
    with FTW_F that show thesis by (cases ty) (simp_all add: myfunc_def)
  qed (use that in \<open>simp_all add: myfunc_def\<close>)
  have "typed_calls vs" using Cons.prems by (simp add: typed_calls_def)
  from Cons.IH [OF this, of c1] show ?case
  proof (elim exE)
    fix c2
    assume "walk myfunc vs c1 = Inr (c2, 0) \<and> nreg c2 = nreg c1 + count_type S_IFREG vs \<and>
      ndir c2 = ndir c1 + count_calls (\<lambda>t k. k = FTW_D) vs \<and> nblk c2 = nblk c1 + count_type S_IFBLK vs \<and>
      nchr c2 = nchr c1 + count_type S_IFCHR vs \<and> nfifo c2 = nfifo c1 + count_type S_IFIFO vs \<and>
      nslink c2 = nslink c1 + count_type S_IFLNK vs \<and> nsock c2 = nsock c1 + count_type S_IFSOCK vs"
    with c1 show ?case by (intro exI [of _ c2]) (simp add: v)
  qed
qed simp

lemma visits_walk:
  "\<exists>c'. walk myfunc (visits k F p) c = Inr (c', 0) \<and> nreg c' = nreg c + count_type S_IFREG (visits k F p) \<and>
    ndir c' = ndir c + count_calls (\<lambda>t k. k = FTW_D) (visits k F p) \<and> nblk c' = nblk c + count_type S_IFBLK (visits k F p) \<and>
    nchr c' = nchr c + count_type S_IFCHR (visits k F p) \<and> nfifo c' = nfifo c + count_type S_IFIFO (visits k F p) \<and>
    nslink c' = nslink c + count_type S_IFLNK (visits k F p) \<and> nsock c' = nsock c + count_type S_IFSOCK (visits k F p)"
  by (rule walk_myfunc) (rule typed_visits)

section \<open>Properties\<close>

text \<open>
  C14. For every hierarchy within the limits of the kernel, a buffer from path_alloc and a starting
  path that is not empty, myftw ends, never writes past the buffer, calls the function for exactly
  the files of the hierarchy in the order of a depth-first walk up to the first result that is not
  zero, returns that result and leaves no directory open; the program prints the number of files of
  each type and exits with 0.
\<close>

theorem ftw_correct:
  assumes "fs_limits PMAX F" "pathname \<noteq> []" "PMAX < k"
    "path_alloc version xsi pc err st = Inr (sz, st')" "0 \<le> pathmax st" "int NAME_MAX + 2 \<le> pathmax st'"
  shows "walked pathname \<lparr>fullpath = [], pathlen = 0, user = u, opened = 0, ftw_log = []\<rparr>
      (myftw k F sz pathname func u) (walk func (visits (Suc PMAX) F pathname) u) \<and>
    (let vs = visits (Suc PMAX) F pathname;
         ns = [count_type S_IFREG vs, count_calls (\<lambda>t k. k = FTW_D) vs, count_type S_IFBLK vs, count_type S_IFCHR vs,
               count_type S_IFIFO vs, count_type S_IFLNK vs, count_type S_IFSOCK vs]
     in ftw8_main k F sz [pathname] = Inr (ns, max 1 (sum_list ns), 0))"
proof
  have sz: "NAME_MAX + 2 \<le> sz" using path_alloc_size [OF assms(4,5)] assms(6) by linarith
  note w = myftw_walked [OF assms(1,2) sz assms(3)]
  from w show "walked pathname \<lparr>fullpath = [], pathlen = 0, user = u, opened = 0, ftw_log = []\<rparr>
      (myftw k F sz pathname func u) (walk func (visits (Suc PMAX) F pathname) u)" .
  let ?vs = "visits (Suc PMAX) F pathname"
  let ?c = "\<lparr>nreg = 0, ndir = 0, nblk = 0, nchr = 0, nfifo = 0, nslink = 0, nsock = 0, messages = []\<rparr>"
  obtain c where c: "walk myfunc ?vs ?c = Inr (c, 0)" "nreg c = count_type S_IFREG ?vs"
      "ndir c = count_calls (\<lambda>t k. k = FTW_D) ?vs" "nblk c = count_type S_IFBLK ?vs" "nchr c = count_type S_IFCHR ?vs"
      "nfifo c = count_type S_IFIFO ?vs" "nslink c = count_type S_IFLNK ?vs" "nsock c = count_type S_IFSOCK ?vs"
    using visits_walk [of "Suc PMAX" F pathname ?c] by (auto simp del: visits.simps)
  with w [of ?c myfunc] obtain x where "myftw k F sz pathname myfunc ?c = Inr (x, 0)" "user x = c"
    by (auto simp: walked_def simp del: visits.simps split: sum.splits)
  with c show "let vs = ?vs; ns = [count_type S_IFREG vs, count_calls (\<lambda>t k. k = FTW_D) vs, count_type S_IFBLK vs,
         count_type S_IFCHR vs, count_type S_IFIFO vs, count_type S_IFLNK vs, count_type S_IFSOCK vs]
     in ftw8_main k F sz [pathname] = Inr (ns, max 1 (sum_list ns), 0)"
    by (simp add: ftw8_main_def ntot_def Let_def del: visits.simps)
qed

text \<open>A directory with a file, a directory that cannot be read and a link.\<close>

definition small_fs :: fs where
  "small_fs = \<lparr>lstat = (\<lambda>p. if p = ''d'' \<or> p = ''d/e'' then Some S_IFDIR else if p = ''d/f'' then Some S_IFREG
       else if p = ''d/l'' then Some S_IFLNK else None),
     opendir = (\<lambda>p. if p = ''d/'' then Some [''.'', ''..'', ''f'', ''e'', ''l''] else None), closedir = (\<lambda>p. True)\<rparr>"

lemma ftw_correct_witness: "ftw8_main 300 small_fs 4096 [''d''] = Inr ([1, 2, 0, 0, 0, 1, 0], 4, 0)"
proof -
  have lim: "fs_limits 4 small_fs" by (auto simp: fs_limits_def small_fs_def NAME_MAX_def split: if_splits)
  have pa: "path_alloc 200809 700 0 0 \<lparr>pathmax = 4096, posix_version = 0, xsi_version = 0\<rparr> =
      Inr (4096, \<lparr>pathmax = 4096, posix_version = 200809, xsi_version = 700\<rparr>)" by (simp add: path_alloc_def)
  have vs: "visits 5 small_fs ''d'' = [(''d'', Some S_IFDIR, FTW_D), (''d/f'', Some S_IFREG, FTW_F),
      (''d/e'', Some S_IFDIR, FTW_D), (''d/e/'', Some S_IFDIR, FTW_DNR), (''d/l'', Some S_IFLNK, FTW_F)]"
    by (simp add: small_fs_def numeral_eq_Suc)
  from ftw_correct [OF lim _ _ pa, of "''d''" 300 "()" "\<lambda>_ _ _ u. Inr (u, 0)"] vs
  show ?thesis by (simp add: NAME_MAX_def numeral_eq_Suc)
qed

end
