(* ===== verification/TellWait.thy ===== *)
theory TellWait
  imports Prelude
begin

text \<open>
  The synchronization of a parent with its child, by signals (\<^verbatim>\<open>lib/tellwait.c\<close>) and by pipes
  (\<^verbatim>\<open>ipc1/tellwait.c\<close>), and the program \<^verbatim>\<open>ipc1/devzero.c\<close>, which can be linked with either. What a
  program may expect of the four functions is the locale \<open>handshake\<close>; both implementations satisfy
  it, so the program is safe with both. With pipes it also ends; with signals it may hang.
\<close>

section \<open>The interface\<close>

datatype role = Parent | Child

fun peer :: "role \<Rightarrow> role" where
  "peer Parent = Child" | "peer Child = Parent"

text \<open>
  \<open>tell r\<close> is \<^verbatim>\<open>TELL_CHILD\<close> called by the parent or \<^verbatim>\<open>TELL_PARENT\<close> called by the child. A call of
  \<^verbatim>\<open>WAIT_CHILD\<close> or \<^verbatim>\<open>WAIT_PARENT\<close> takes several steps: \<open>None\<close> while the caller sleeps, otherwise the
  new state and whether the call has returned. \<open>kernel r\<close> is what the kernel does to the process.
\<close>

type_synonym 's tell = "role \<Rightarrow> 's \<Rightarrow> 's res"
type_synonym 's wait = "role \<Rightarrow> 's \<Rightarrow> (bool \<times> 's) res option"
type_synonym 's kernel = "role \<Rightarrow> 's \<Rightarrow> 's option"

section \<open>With signals\<close>

text \<open>
  \<^verbatim>\<open>SIGUSR2\<close> is only sent to the parent and \<^verbatim>\<open>SIGUSR1\<close> only to the child, so one pending bit for each
  process is enough; \<open>sig_blocked\<close> is its mask. In \<open>W_enter\<close> the process is about to call
  \<^verbatim>\<open>sigsuspend\<close>, in \<open>W_sleep\<close> it sleeps there with an empty mask.
\<close>

datatype wait_pc = W_test | W_enter | W_sleep | W_clear | W_unmask

record sigproc =
  sig_pending :: bool
  sig_blocked :: bool
  sigflag :: bool
  wait_pc :: wait_pc

type_synonym signals = "role \<Rightarrow> sigproc"

definition SIG_TELL_WAIT :: signals where
  "SIG_TELL_WAIT = (\<lambda>r. \<lparr>sig_pending = False, sig_blocked = True, sigflag = False, wait_pc = W_test\<rparr>)"

definition SIG_TELL :: "signals tell" where
  "SIG_TELL r s = Inr (s(peer r := (s (peer r))\<lparr>sig_pending := True\<rparr>))"

definition SIG_WAIT :: "signals wait" where
  "SIG_WAIT r s = (let p = s r in case wait_pc p of
       W_test \<Rightarrow> Some (Inr (False, s(r := p\<lparr>wait_pc := if sigflag p then W_clear else W_enter\<rparr>)))
     | W_enter \<Rightarrow> Some (Inr (False, s(r := p\<lparr>wait_pc := W_sleep\<rparr>)))
     | W_sleep \<Rightarrow> None
     | W_clear \<Rightarrow> Some (Inr (False, s(r := p\<lparr>sigflag := False, wait_pc := W_unmask\<rparr>)))
     | W_unmask \<Rightarrow> Some (Inr (True, s(r := p\<lparr>sig_blocked := False, wait_pc := W_test\<rparr>))))"

text \<open>The delivery of a signal runs \<^verbatim>\<open>sig_usr\<close>; \<^verbatim>\<open>sigsuspend\<close> returns after it.\<close>

definition sig_usr :: "signals kernel" where
  "sig_usr r s = (let p = s r in
     if sig_pending p \<and> (\<not> sig_blocked p \<or> wait_pc p = W_sleep)
     then Some (s(r := p\<lparr>sig_pending := False, sigflag := True,
                         wait_pc := if wait_pc p = W_sleep then W_test else wait_pc p\<rparr>))
     else None)"

section \<open>With pipes\<close>

text \<open>The bytes in the pipe a process reads from: \<^verbatim>\<open>pfd2\<close> for the parent, \<^verbatim>\<open>pfd1\<close> for the child.\<close>

type_synonym pipes = "role \<Rightarrow> char list"

definition PIPE_TELL_WAIT :: pipes where
  "PIPE_TELL_WAIT = (\<lambda>r. [])"

fun letter :: "role \<Rightarrow> char" where
  "letter Parent = CHR ''p''" | "letter Child = CHR ''c''"

definition PIPE_TELL :: "pipes tell" where
  "PIPE_TELL r s = Inr (s(peer r := s (peer r) @ [letter r]))"

definition PIPE_WAIT :: "pipes wait" where
  "PIPE_WAIT r s = (case s r of
       [] \<Rightarrow> None
     | c # cs \<Rightarrow> if c \<noteq> letter (peer r)
         then Some (Inl (Err_quit (case r of Parent \<Rightarrow> ''WAIT_CHILD: incorrect data'' | Child \<Rightarrow> ''WAIT_PARENT: incorrect data'')))
         else Some (Inr (True, s(r := cs))))"

definition no_kernel :: "'s kernel" where
  "no_kernel r s = None"

section \<open>The program devzero.c\<close>

definition NLOOPS :: nat where "NLOOPS = 1000"

text \<open>
  Where a process is in its loop. \<^verbatim>\<open>update\<close> is a read of the shared area and a write to it, in two
  steps. \<open>i\<close> is the loop variable of the process.
\<close>

datatype dz_pc = Load | Store int | Tell | Wait | Exit | Quit stop

record 's devzero =
  area :: int
  dz :: "role \<Rightarrow> dz_pc \<times> nat"
  sync :: 's

definition dz_start :: "nat \<Rightarrow> 's \<Rightarrow> 's devzero" where
  "dz_start n s = \<lparr>area = 0, dz = (\<lambda>r. case r of
      Parent \<Rightarrow> (if 0 < n then Load else Exit, 0)
    | Child \<Rightarrow> (if 1 < n + 1 then Wait else Exit, 1)), sync = s\<rparr>"

definition goto :: "role \<Rightarrow> dz_pc \<Rightarrow> nat \<Rightarrow> 's devzero \<Rightarrow> 's devzero" where
  "goto r c i d = d\<lparr>dz := (dz d)(r := (c, i))\<rparr>"

text \<open>The end of a round of the loop, for the parent after \<^verbatim>\<open>WAIT_CHILD\<close>, for the child after \<^verbatim>\<open>TELL_PARENT\<close>.\<close>

definition dz_told :: "nat \<Rightarrow> role \<Rightarrow> nat \<Rightarrow> 's devzero \<Rightarrow> 's devzero" where
  "dz_told n r i d = (case r of
       Parent \<Rightarrow> goto r Wait i d
     | Child \<Rightarrow> goto r (if i + 2 < n + 1 then Wait else Exit) (i + 2) d)"

definition dz_waited :: "nat \<Rightarrow> role \<Rightarrow> nat \<Rightarrow> 's devzero \<Rightarrow> 's devzero" where
  "dz_waited n r i d = (case r of
       Parent \<Rightarrow> goto r (if i + 2 < n then Load else Exit) (i + 2) d
     | Child \<Rightarrow> goto r Load i d)"

fun dz_message :: "role \<Rightarrow> string" where
  "dz_message Parent = ''parent: expected %d, got %d''"
| "dz_message Child = ''child: expected %d, got %d''"

definition dz_step :: "'s tell \<Rightarrow> 's wait \<Rightarrow> nat \<Rightarrow> role \<Rightarrow> 's devzero \<Rightarrow> 's devzero option" where
  "dz_step tell wait n r d = (case dz d r of
       (Load, i) \<Rightarrow> Some (goto r (Store (area d)) i d)
     | (Store counter, i) \<Rightarrow>
         Some (goto r (if counter \<noteq> int i then Quit (Err_quit (dz_message r)) else Tell) i (d\<lparr>area := counter + 1\<rparr>))
     | (Tell, i) \<Rightarrow> (case tell r (sync d) of
           Inl e \<Rightarrow> Some (goto r (Quit e) i d)
         | Inr s \<Rightarrow> Some (dz_told n r i (d\<lparr>sync := s\<rparr>)))
     | (Wait, i) \<Rightarrow> (case wait r (sync d) of
           None \<Rightarrow> None
         | Some (Inl e) \<Rightarrow> Some (goto r (Quit e) i d)
         | Some (Inr (returned, s)) \<Rightarrow>
             Some (if returned then dz_waited n r i (d\<lparr>sync := s\<rparr>) else d\<lparr>sync := s\<rparr>))
     | (Exit, i) \<Rightarrow> None
     | (Quit e, i) \<Rightarrow> None)"

text \<open>A schedule of the two processes and the kernel.\<close>

datatype act = Run role | Kernel role

definition dz_act :: "'s tell \<Rightarrow> 's wait \<Rightarrow> 's kernel \<Rightarrow> nat \<Rightarrow> act \<Rightarrow> 's devzero \<Rightarrow> 's devzero option" where
  "dz_act tell wait krn n a d = (case a of
       Run r \<Rightarrow> dz_step tell wait n r d
     | Kernel r \<Rightarrow> map_option (\<lambda>s. d\<lparr>sync := s\<rparr>) (krn r (sync d)))"

fun dz_run :: "'s tell \<Rightarrow> 's wait \<Rightarrow> 's kernel \<Rightarrow> nat \<Rightarrow> act list \<Rightarrow> 's devzero \<Rightarrow> 's devzero option" where
  "dz_run tell wait krn n [] d = Some d"
| "dz_run tell wait krn n (a # as) d =
     (case dz_act tell wait krn n a d of None \<Rightarrow> None | Some d' \<Rightarrow> dz_run tell wait krn n as d')"

section \<open>The contract\<close>

text \<open>
  Whose turn it is: the places of parent and child, the calls that have been made and not yet waited
  for (to the parent, to the child) and the shared number.
\<close>

inductive turn :: "nat \<Rightarrow> dz_pc \<times> nat \<Rightarrow> dz_pc \<times> nat \<Rightarrow> nat \<Rightarrow> nat \<Rightarrow> int \<Rightarrow> bool" for n where
  load_p: "even i \<Longrightarrow> i < n \<Longrightarrow> turn n (Load, i) (Wait, Suc i) 0 0 (int i)"
| store_p: "even i \<Longrightarrow> i < n \<Longrightarrow> turn n (Store (int i), i) (Wait, Suc i) 0 0 (int i)"
| tell_p: "even i \<Longrightarrow> i < n \<Longrightarrow> turn n (Tell, i) (Wait, Suc i) 0 0 (int i + 1)"
| told_p: "even i \<Longrightarrow> i < n \<Longrightarrow> turn n (Wait, i) (Wait, Suc i) 0 (Suc 0) (int i + 1)"
| load_c: "even i \<Longrightarrow> i < n \<Longrightarrow> turn n (Wait, i) (Load, Suc i) 0 0 (int i + 1)"
| store_c: "even i \<Longrightarrow> i < n \<Longrightarrow> turn n (Wait, i) (Store (int i + 1), Suc i) 0 0 (int i + 1)"
| tell_c: "even i \<Longrightarrow> i < n \<Longrightarrow> turn n (Wait, i) (Tell, Suc i) 0 0 (int i + 2)"
| told_c: "even i \<Longrightarrow> i < n \<Longrightarrow>
    turn n (Wait, i) (if i + 2 < n then Wait else Exit, Suc (i + 2)) (Suc 0) 0 (int i + 2)"
| exit: "even i \<Longrightarrow> n \<le> i \<Longrightarrow> i \<le> n + 1 \<Longrightarrow> turn n (Exit, i) (Exit, Suc i) 0 0 (int i)"

lemma turn_next:
  assumes "even i" "i < n"
  shows "turn n (if i + 2 < n then Load else Exit, i + 2) (if i + 2 < n then Wait else Exit, Suc (i + 2)) 0 0 (int i + 2)"
proof (cases "i + 2 < n")
  case True
  with assms load_p [of "i + 2" n] show ?thesis by (simp add: add.commute)
next
  case False
  with assms exit [of "i + 2" n] show ?thesis by (simp add: add.commute)
qed

text \<open>
  \<open>tokens r s\<close> counts the calls of the peer that \<open>r\<close> has not yet waited for. A process tells only
  when the last call has been waited for.
\<close>

locale handshake =
  fixes tell :: "'s tell" and wait :: "'s wait" and krn :: "'s kernel" and start :: 's
    and ok :: "'s \<Rightarrow> bool" and tokens :: "role \<Rightarrow> 's \<Rightarrow> nat"
  assumes start: "ok start" "tokens r start = 0"
    and tell: "ok s \<Longrightarrow> tokens (peer r) s = 0 \<Longrightarrow>
      \<exists>s'. tell r s = Inr s' \<and> ok s' \<and> tokens (peer r) s' = 1 \<and> tokens r s' = tokens r s"
    and wait_stop: "ok s \<Longrightarrow> wait r s \<noteq> Some (Inl e)"
    and wait_returns: "ok s \<Longrightarrow> wait r s = Some (Inr (True, s')) \<Longrightarrow>
      ok s' \<and> tokens r s = Suc (tokens r s') \<and> tokens (peer r) s' = tokens (peer r) s"
    and wait_goes_on: "ok s \<Longrightarrow> wait r s = Some (Inr (False, s')) \<Longrightarrow> ok s' \<and> tokens q s' = tokens q s"
    and kernel: "ok s \<Longrightarrow> krn r s = Some s' \<Longrightarrow> ok s' \<and> tokens q s' = tokens q s"
begin

definition dz_inv :: "nat \<Rightarrow> 's devzero \<Rightarrow> bool" where
  "dz_inv n d \<longleftrightarrow> ok (sync d) \<and>
     turn n (dz d Parent) (dz d Child) (tokens Parent (sync d)) (tokens Child (sync d)) (area d)"

lemma dz_start_inv: "dz_inv n (dz_start n start)"
  using start load_p [of 0 n] exit [of 0 n] by (auto simp: dz_inv_def dz_start_def)

lemma dz_kernel_inv: "dz_inv n d \<Longrightarrow> krn r (sync d) = Some s \<Longrightarrow> dz_inv n (d\<lparr>sync := s\<rparr>)"
  using kernel [of "sync d" r s] by (simp add: dz_inv_def)

text \<open>A call of \<open>wait\<close>, by a process that is in \<open>Wait\<close>.\<close>

lemma wait_cases:
  assumes "ok s" "wait r s = Some x"
  obtains s' where "x = Inr (True, s')" "ok s'" "tokens r s = Suc (tokens r s')"
      "tokens (peer r) s' = tokens (peer r) s"
  | s' where "x = Inr (False, s')" "ok s'" "\<And>q. tokens q s' = tokens q s"
proof (cases x)
  case (Inl e)
  with assms wait_stop show ?thesis by blast
next
  case (Inr y)
  obtain b s' where "y = (b, s')" by fastforce
  with Inr assms wait_returns [of s r s'] wait_goes_on [of s r s'] that show ?thesis by (cases b) auto
qed

lemma dz_idle:
  assumes "dz_inv n d" "dz d r = (Wait, i)" "tokens r (sync d) = 0" "dz_step tell wait n r d = Some d'"
  shows "dz_inv n d'"
proof -
  from assms(2,4) obtain x where x: "wait r (sync d) = Some x" by (auto simp: dz_step_def split: option.splits)
  from assms(1) have "ok (sync d)" by (simp add: dz_inv_def)
  from this x show ?thesis
  proof (cases rule: wait_cases)
    case (2 s)
    with x assms show ?thesis by (auto simp: dz_inv_def dz_step_def)
  qed (use assms(3) in simp)
qed

lemma dz_waited:
  assumes "dz_inv n d" "dz d r = (Wait, i)" "dz_step tell wait n r d = Some d'"
  obtains "dz_inv n d'" | s where "ok s" "tokens r (sync d) = Suc (tokens r s)"
    "tokens (peer r) s = tokens (peer r) (sync d)" "d' = dz_waited n r i (d\<lparr>sync := s\<rparr>)"
proof -
  from assms(2,3) obtain x where x: "wait r (sync d) = Some x" by (auto simp: dz_step_def split: option.splits)
  from assms(1) have "ok (sync d)" by (simp add: dz_inv_def)
  from this x show thesis
  proof (cases rule: wait_cases)
    case (1 s)
    show thesis by (rule that(2) [of s]) (use 1 x assms in \<open>simp_all add: dz_step_def\<close>)
  next
    case (2 s)
    show thesis by (rule that(1)) (use 2 x assms in \<open>auto simp: dz_inv_def dz_step_def\<close>)
  qed
qed

lemma dz_parent_inv:
  assumes "dz_inv n d" "dz_step tell wait n Parent d = Some d'"
  shows "dz_inv n d'"
proof -
  have ok: "ok (sync d)"
    and "turn n (dz d Parent) (dz d Child) (tokens Parent (sync d)) (tokens Child (sync d)) (area d)"
    using assms(1) by (simp_all add: dz_inv_def)
  from this(2) show ?thesis
  proof (cases rule: turn.cases)
    case (load_p i) then show ?thesis
      using ok assms(2) turn.store_p [of i n] by (auto simp: dz_inv_def dz_step_def goto_def)
  next
    case (store_p i) then show ?thesis
      using ok assms(2) turn.tell_p [of i n] by (auto simp: dz_inv_def dz_step_def goto_def)
  next
    case (tell_p i)
    with tell [OF ok, of Parent] turn.told_p [of i n] assms(2) show ?thesis
      by (auto simp: dz_inv_def dz_step_def dz_told_def goto_def)
  next
    case (told_c i)
    from assms(1) told_c(1) assms(2) show ?thesis
    proof (cases rule: dz_waited)
      case (2 s)
      with told_c turn_next [of i n] show ?thesis by (simp add: dz_inv_def dz_waited_def goto_def)
    qed simp
  qed (use assms dz_idle in \<open>auto simp: dz_step_def\<close>)
qed

lemma dz_child_inv:
  assumes "dz_inv n d" "dz_step tell wait n Child d = Some d'"
  shows "dz_inv n d'"
proof -
  have ok: "ok (sync d)"
    and "turn n (dz d Parent) (dz d Child) (tokens Parent (sync d)) (tokens Child (sync d)) (area d)"
    using assms(1) by (simp_all add: dz_inv_def)
  from this(2) show ?thesis
  proof (cases rule: turn.cases)
    case (load_c i) then show ?thesis
      using ok assms(2) turn.store_c [of i n] by (auto simp: dz_inv_def dz_step_def goto_def)
  next
    case (store_c i) then show ?thesis
      using ok assms(2) turn.tell_c [of i n] by (auto simp: dz_inv_def dz_step_def goto_def add.commute)
  next
    case (tell_c i)
    with tell [OF ok, of Child] turn.told_c [of i n] assms(2) show ?thesis
      by (auto simp: dz_inv_def dz_step_def dz_told_def goto_def)
  next
    case (told_p i)
    from assms(1) told_p(2) assms(2) show ?thesis
    proof (cases rule: dz_waited)
      case (2 s)
      with told_p turn.load_c [of i n] show ?thesis by (simp add: dz_inv_def dz_waited_def goto_def)
    qed simp
  next
    case (told_c i)
    then show ?thesis using assms dz_idle by (cases "i + 2 < n") (auto simp: dz_step_def)
  qed (use assms dz_idle in \<open>auto simp: dz_step_def\<close>)
qed

lemma dz_run_inv: "dz_inv n d \<Longrightarrow> dz_run tell wait krn n as d = Some d' \<Longrightarrow> dz_inv n d'"
proof (induction "as" arbitrary: d)
  case (Cons a "as")
  then obtain d1 where d1: "dz_act tell wait krn n a d = Some d1" "dz_run tell wait krn n as d1 = Some d'"
    by (auto split: option.splits)
  have "dz_inv n d1"
  proof (cases a)
    case (Run r)
    with d1(1) Cons.prems(1) show ?thesis
      by (cases r) (auto simp: dz_act_def intro: dz_parent_inv dz_child_inv)
  qed (use d1(1) Cons.prems(1) in \<open>auto simp: dz_act_def intro: dz_kernel_inv\<close>)
  with Cons.IH d1(2) show ?case by blast
qed simp

end

section \<open>Both implementations satisfy it\<close>

definition proc_tokens :: "sigproc \<Rightarrow> nat" where
  "proc_tokens p = of_bool (sig_pending p) + of_bool (sigflag p) + of_bool (wait_pc p = W_unmask)"

definition proc_ok :: "sigproc \<Rightarrow> bool" where
  "proc_ok p \<longleftrightarrow> proc_tokens p \<le> 1 \<and> (wait_pc p = W_clear \<longrightarrow> sigflag p)"

definition sig_tokens :: "role \<Rightarrow> signals \<Rightarrow> nat" where
  "sig_tokens r s = proc_tokens (s r)"

definition sig_ok :: "signals \<Rightarrow> bool" where
  "sig_ok s \<longleftrightarrow> (\<forall>r. proc_ok (s r))"

lemma peer_simps [simp]: "peer (peer r) = r" "peer r \<noteq> r" "r \<noteq> peer r"
  by (cases r; simp)+

lemma all_role: "(\<forall>r. P r) \<longleftrightarrow> P Parent \<and> P Child"
  by (metis role.exhaust)

lemma sig_upd:
  "sig_ok s \<Longrightarrow> proc_ok p \<Longrightarrow> sig_ok (s(r := p))"
  "proc_tokens p = proc_tokens (s r) \<Longrightarrow> sig_tokens q (s(r := p)) = sig_tokens q s"
  by (simp_all add: sig_ok_def sig_tokens_def)

lemma SIG_WAIT_cases:
  assumes "proc_ok (s r)" "SIG_WAIT r s = Some x"
  obtains p where "x = Inr (True, s(r := p))" "proc_ok p" "proc_tokens (s r) = Suc (proc_tokens p)"
  | p where "x = Inr (False, s(r := p))" "proc_ok p" "proc_tokens p = proc_tokens (s r)"
  using assms by (cases "wait_pc (s r)") (auto simp: SIG_WAIT_def Let_def proc_ok_def proc_tokens_def)

lemma sig_usr_cases:
  assumes "proc_ok (s r)" "sig_usr r s = Some s'"
  obtains p where "s' = s(r := p)" "proc_ok p" "proc_tokens p = proc_tokens (s r)"
  using assms by (auto simp: sig_usr_def Let_def proc_ok_def proc_tokens_def split: if_splits)

interpretation sig: handshake SIG_TELL SIG_WAIT sig_usr SIG_TELL_WAIT sig_ok sig_tokens
proof
  show "sig_ok SIG_TELL_WAIT" "sig_tokens r SIG_TELL_WAIT = 0" for r
    by (simp_all add: sig_ok_def sig_tokens_def proc_ok_def proc_tokens_def SIG_TELL_WAIT_def)
next
  fix s r assume "sig_ok s" "sig_tokens (peer r) s = 0"
  then show "\<exists>s'. SIG_TELL r s = Inr s' \<and> sig_ok s' \<and> sig_tokens (peer r) s' = 1 \<and> sig_tokens r s' = sig_tokens r s"
    by (auto simp: SIG_TELL_def sig_ok_def sig_tokens_def proc_ok_def proc_tokens_def)
next
  fix s r e assume "sig_ok s"
  then show "SIG_WAIT r s \<noteq> Some (Inl e)"
    by (auto simp: sig_ok_def elim: SIG_WAIT_cases)
next
  fix s s' r assume s: "sig_ok s" "SIG_WAIT r s = Some (Inr (True, s'))"
  then have "proc_ok (s r)" by (simp add: sig_ok_def)
  from this s(2) show "sig_ok s' \<and> sig_tokens r s = Suc (sig_tokens r s') \<and> sig_tokens (peer r) s' = sig_tokens (peer r) s"
    by (cases rule: SIG_WAIT_cases) (use s(1) in \<open>auto simp: sig_upd sig_tokens_def\<close>)
next
  fix s s' r q assume s: "sig_ok s" "SIG_WAIT r s = Some (Inr (False, s'))"
  then have "proc_ok (s r)" by (simp add: sig_ok_def)
  from this s(2) show "sig_ok s' \<and> sig_tokens q s' = sig_tokens q s"
    by (cases rule: SIG_WAIT_cases) (use s(1) in \<open>auto simp: sig_upd\<close>)
next
  fix s s' r q assume s: "sig_ok s" "sig_usr r s = Some s'"
  then have "proc_ok (s r)" by (simp add: sig_ok_def)
  from this s(2) show "sig_ok s' \<and> sig_tokens q s' = sig_tokens q s"
    by (cases rule: sig_usr_cases) (use s(1) in \<open>auto simp: sig_upd\<close>)
qed

definition pipe_ok :: "pipes \<Rightarrow> bool" where
  "pipe_ok s \<longleftrightarrow> (\<forall>r. \<forall>c \<in> set (s r). c = letter (peer r))"

definition pipe_tokens :: "role \<Rightarrow> pipes \<Rightarrow> nat" where
  "pipe_tokens r s = length (s r)"

interpretation pip: handshake PIPE_TELL PIPE_WAIT no_kernel PIPE_TELL_WAIT pipe_ok pipe_tokens
  by unfold_locales
    (auto simp: pipe_ok_def pipe_tokens_def PIPE_TELL_WAIT_def PIPE_TELL_def PIPE_WAIT_def no_kernel_def
      split: list.splits if_splits)

section \<open>With pipes the program ends\<close>

fun dz_rank :: "role \<Rightarrow> dz_pc \<times> nat \<Rightarrow> nat" where
  "dz_rank Parent (c, i) = 2 * i + (case c of Store _ \<Rightarrow> 1 | Tell \<Rightarrow> 2 | Wait \<Rightarrow> 3 | _ \<Rightarrow> 0)"
| "dz_rank Child (c, i) = 2 * i + (case c of Load \<Rightarrow> 1 | Store _ \<Rightarrow> 2 | Tell \<Rightarrow> 3 | _ \<Rightarrow> 0)"

definition dz_progress :: "'s devzero \<Rightarrow> nat" where
  "dz_progress d = dz_rank Parent (dz d Parent) + dz_rank Child (dz d Child)"

text \<open>What an observer sees of the invariant.\<close>

definition dz_safe :: "nat \<Rightarrow> 's devzero \<Rightarrow> bool" where
  "dz_safe n d \<longleftrightarrow> (\<forall>r e. fst (dz d r) \<noteq> Quit e) \<and>
     (fst (dz d Parent) = Wait \<or> fst (dz d Child) = Wait \<or> fst (dz d Child) = Exit) \<and>
     (fst (dz d Parent) = Exit \<longrightarrow> fst (dz d Child) = Exit \<and> (even n \<longrightarrow> area d = int n))"

lemma even_end: "even i \<Longrightarrow> even n \<Longrightarrow> n \<le> i \<Longrightarrow> i \<le> Suc n \<Longrightarrow> i = (n::nat)"
  by presburger

lemma turn_safe: "turn n (dz d Parent) (dz d Child) tp tc (area d) \<Longrightarrow> dz_safe n d"
  unfolding dz_safe_def all_role by (erule turn.cases) (simp_all add: even_end split: if_splits)

lemma turn_progress: "turn n (dz d Parent) (dz d Child) tp tc (area d) \<Longrightarrow> even n \<Longrightarrow> dz_progress d \<le> 4 * n + 2"
  unfolding dz_progress_def by (erule turn.cases) (simp_all split: if_splits, presburger+)

lemma pipe_progress:
  assumes "dz_act PIPE_TELL PIPE_WAIT no_kernel n a d = Some d'" "dz_safe n d'"
  shows "dz_progress d' = dz_progress d + 1"
proof (cases a)
  case (Run r)
  obtain c i where ci: "dz d r = (c, i)" by fastforce
  from assms Run ci show ?thesis
    by (cases c; cases r)
      (auto simp: dz_act_def dz_step_def goto_def dz_progress_def dz_safe_def all_role PIPE_TELL_def PIPE_WAIT_def
        dz_told_def dz_waited_def split: if_splits option.splits list.splits)
qed (use assms(1) in \<open>simp add: dz_act_def no_kernel_def\<close>)

abbreviation "pipe_act \<equiv> dz_act PIPE_TELL PIPE_WAIT no_kernel"
abbreviation "pipe_run \<equiv> dz_run PIPE_TELL PIPE_WAIT no_kernel"
abbreviation "sig_act \<equiv> dz_act SIG_TELL SIG_WAIT sig_usr"
abbreviation "sig_run \<equiv> dz_run SIG_TELL SIG_WAIT sig_usr"

lemma pipe_run_progress:
  "pip.dz_inv n d \<Longrightarrow> pipe_run n as d = Some d' \<Longrightarrow> dz_progress d' = dz_progress d + length as"
proof (induction "as" arbitrary: d)
  case (Cons a "as")
  then obtain d1 where d1: "pipe_act n a d = Some d1" "pipe_run n as d1 = Some d'"
    by (auto split: option.splits)
  have inv: "pip.dz_inv n d1"
    using pip.dz_run_inv [of n d "[a]" d1] Cons.prems(1) d1(1) by simp
  then have "dz_safe n d1" using turn_safe by (auto simp: pip.dz_inv_def)
  with pipe_progress d1(1) have "dz_progress d1 = dz_progress d + 1" by blast
  with Cons.IH [OF inv d1(2)] show ?case by simp
qed simp

lemma pipe_not_stuck:
  assumes "pip.dz_inv n d" "fst (dz d Parent) \<noteq> Exit"
  shows "\<exists>a d'. pipe_act n a d = Some d'"
proof -
  have go: "pipe_act n (Run r) d \<noteq> None"
    if "fst (dz d r) \<in> {Load, Tell} \<union> range Store \<or> fst (dz d r) = Wait \<and> pipe_tokens r (sync d) \<noteq> 0" for r
    using that by (cases "dz d r") (auto simp: dz_act_def dz_step_def pipe_tokens_def PIPE_WAIT_def split: sum.splits list.splits)
  have "turn n (dz d Parent) (dz d Child) (pipe_tokens Parent (sync d)) (pipe_tokens Child (sync d)) (area d)"
    using assms(1) by (simp add: pip.dz_inv_def)
  then show ?thesis
    by (cases rule: turn.cases) (use assms(2) go [of Parent] go [of Child] in auto)
qed

section \<open>With signals it may hang\<close>

text \<open>
  The first call of \<^verbatim>\<open>WAIT_PARENT\<close> resets the signal mask. In the second, \<^verbatim>\<open>SIGUSR1\<close> arrives between
  the test of \<^verbatim>\<open>sigflag\<close> and \<^verbatim>\<open>sigsuspend\<close>, which then waits for a signal that has been there.
\<close>

definition lost_wakeup :: "act list" where
  "lost_wakeup = (let p = Run Parent; c = Run Child in
     [p, p, p] @ [c, c, Kernel Child, c, c, c] @ [c, c, c] @ [p, p, Kernel Parent, p, p, p] @
     [p, p] @ [c] @ [p] @ [Kernel Child] @ [c] @ [p, p])"

lemma all_act: "(\<forall>a. P a) \<longleftrightarrow> P (Run Parent) \<and> P (Run Child) \<and> P (Kernel Parent) \<and> P (Kernel Child)"
  by (metis act.exhaust role.exhaust)

lemma signals_hang:
  assumes "4 \<le> n"
  shows "\<exists>d. sig_run n lost_wakeup (dz_start n SIG_TELL_WAIT) = Some d \<and> (\<forall>a. sig_act n a d = None) \<and>
    fst (dz d Parent) = Wait \<and> fst (dz d Child) = Wait"
proof -
  have n: "0 < n" "2 < n" "3 < n + 1" using assms by simp_all
  then show ?thesis
    by (simp add: Let_def all_act lost_wakeup_def dz_start_def SIG_TELL_WAIT_def dz_act_def dz_step_def goto_def
      dz_told_def dz_waited_def SIG_TELL_def SIG_WAIT_def sig_usr_def)
qed

section \<open>Properties\<close>

text \<open>
  C19. With both implementations of \<open>TELL\<close> and \<open>WAIT\<close>, no schedule leads devzero.c to one of its error
  exits or lets parent and child update the shared number at the same time, and at the end the
  number is the number of rounds. With pipes every schedule ends there, after at most four steps for
  each round and without a deadlock. With signals there is a schedule of the program after which both
  processes wait for ever, because the second wait has lost the signal.
\<close>

theorem devzero_synchronized:
  assumes "even n"
  shows "(sig_run n as (dz_start n SIG_TELL_WAIT) = Some d \<longrightarrow> dz_safe n d) \<and>
    (pipe_run n bs (dz_start n PIPE_TELL_WAIT) = Some e \<longrightarrow>
       dz_safe n e \<and> length bs \<le> 4 * n \<and>
       (fst (dz e Parent) = Exit \<or> (\<exists>a e'. pipe_act n a e = Some e'))) \<and>
    (4 \<le> n \<longrightarrow> (\<exists>cs f. sig_run n cs (dz_start n SIG_TELL_WAIT) = Some f \<and>
       (\<forall>a. sig_act n a f = None) \<and> fst (dz f Parent) = Wait \<and> fst (dz f Child) = Wait))"
proof (intro conjI impI)
  assume "sig_run n as (dz_start n SIG_TELL_WAIT) = Some d"
  from sig.dz_run_inv [OF sig.dz_start_inv this] show "dz_safe n d"
    using turn_safe by (auto simp: sig.dz_inv_def)
next
  assume run: "pipe_run n bs (dz_start n PIPE_TELL_WAIT) = Some e"
  note inv = pip.dz_run_inv [OF pip.dz_start_inv run]
  show "dz_safe n e" using inv turn_safe by (auto simp: pip.dz_inv_def)
  have "dz_progress e \<le> 4 * n + 2"
    using inv turn_progress [OF _ assms] by (auto simp: pip.dz_inv_def)
  moreover have "2 \<le> dz_progress (dz_start n PIPE_TELL_WAIT)"
    by (simp add: dz_progress_def dz_start_def)
  moreover note pipe_run_progress [OF pip.dz_start_inv run]
  ultimately show "length bs \<le> 4 * n" by linarith
  show "fst (dz e Parent) = Exit \<or> (\<exists>a e'. pipe_act n a e = Some e')"
    using pipe_not_stuck [OF inv] by blast
next
  assume "4 \<le> n"
  from signals_hang [OF this] show "\<exists>cs f. sig_run n cs (dz_start n SIG_TELL_WAIT) = Some f \<and>
      (\<forall>a. sig_act n a f = None) \<and> fst (dz f Parent) = Wait \<and> fst (dz f Child) = Wait" by blast
qed

definition two_rounds :: "act list" where
  "two_rounds = [Run Parent, Run Parent, Run Parent, Run Child, Run Child, Run Child, Run Child, Run Parent]"

lemma devzero_synchronized_witness:
  "\<exists>e. pipe_run 2 two_rounds (dz_start 2 PIPE_TELL_WAIT) = Some e \<and> dz_safe 2 e \<and> fst (dz e Parent) = Exit"
proof -
  have "\<exists>e. pipe_run 2 two_rounds (dz_start 2 PIPE_TELL_WAIT) = Some e \<and> fst (dz e Parent) = Exit"
    by (simp add: two_rounds_def dz_start_def PIPE_TELL_WAIT_def dz_act_def dz_step_def goto_def
      dz_told_def dz_waited_def PIPE_TELL_def PIPE_WAIT_def)
  with devzero_synchronized [of 2 _ _ two_rounds] show ?thesis by auto
qed

end
