(* ===== verification/Popen.thy ===== *)
theory Popen
  imports Prelude
begin

text \<open>
  \<^verbatim>\<open>lib/popen.c\<close>: streams to and from commands. The table \<^verbatim>\<open>childpid\<close> has the process of every stream;
  the model has it with the descriptors of the calling process, and computes the descriptors the
  command is started with.
\<close>

section \<open>Processes and descriptors\<close>

text \<open>What a descriptor refers to: an end of pipe \<open>k\<close>, or something else.\<close>

datatype chan = Read_end nat | Write_end nat | Other nat

type_synonym descriptors = "nat \<Rightarrow> chan option"

datatype perrno = EINVAL | EMFILE | EINTR | Errno nat

record process =
  fds :: descriptors
  childpid :: "int list option"
  maxfd :: nat

definition STDIN_FILENO :: nat where "STDIN_FILENO = 0"
definition STDOUT_FILENO :: nat where "STDOUT_FILENO = 1"

definition close_fd :: "nat \<Rightarrow> descriptors \<Rightarrow> descriptors" where
  "close_fd i m = m(i := None)"

definition dup2 :: "nat \<Rightarrow> nat \<Rightarrow> descriptors \<Rightarrow> descriptors" where
  "dup2 i j m = m(j := m i)"

section \<open>popen\<close>

text \<open>The descriptors of the child when it calls \<^verbatim>\<open>execl\<close>; \<open>r\<close> and \<open>w\<close> are \<^verbatim>\<open>pfd[0]\<close> and \<^verbatim>\<open>pfd[1]\<close>.\<close>

definition popen_child :: "string \<Rightarrow> nat \<Rightarrow> nat \<Rightarrow> int list \<Rightarrow> nat \<Rightarrow> descriptors \<Rightarrow> descriptors" where
  "popen_child type r w pids mx m =
     (let m = (if hd type = CHR ''r''
               then let m = close_fd r m in
                    if w \<noteq> STDOUT_FILENO then close_fd w (dup2 w STDOUT_FILENO m) else m
               else let m = close_fd w m in
                    if r \<noteq> STDIN_FILENO then close_fd r (dup2 r STDIN_FILENO m) else m)
      in fold (\<lambda>i m. if 0 < pids ! i then close_fd i m else m) [0..<mx] m)"

text \<open>
  What the calls of \<^verbatim>\<open>popen\<close> return: \<^verbatim>\<open>open_max\<close>; \<^verbatim>\<open>pipe\<close> an error or the new pipe and its two
  descriptors; \<^verbatim>\<open>fork\<close> an error or the child; \<^verbatim>\<open>fdopen\<close> an error or a stream.
\<close>

record answers =
  open_max :: nat
  pipe :: "perrno + nat \<times> nat \<times> nat"
  fork :: "perrno + int"
  fdopen :: "perrno option"

text \<open>\<^verbatim>\<open>popen\<close> returns an error or the descriptor of the stream, the caller's state, and the descriptors of the child.\<close>

definition popen :: "answers \<Rightarrow> string \<Rightarrow> process \<Rightarrow> (perrno + nat) \<times> process \<times> descriptors option" where
  "popen a type p =
     (if type \<noteq> ''r'' \<and> type \<noteq> ''w'' then (Inl EINVAL, p, None)
      else
        let p = (case childpid p of
              None \<Rightarrow> p\<lparr>maxfd := open_max a, childpid := Some (replicate (open_max a) 0)\<rparr>
            | Some _ \<Rightarrow> p);
            pids = the (childpid p)
        in case pipe a of
             Inl e \<Rightarrow> (Inl e, p, None)
           | Inr (k, r, w) \<Rightarrow>
               let q = p\<lparr>fds := (fds p)(r \<mapsto> Read_end k, w \<mapsto> Write_end k)\<rparr> in
               if maxfd p \<le> r \<or> maxfd p \<le> w
               then (Inl EMFILE, q\<lparr>fds := close_fd w (close_fd r (fds q))\<rparr>, None)
               else case fork a of
                   Inl e \<Rightarrow> (Inl e, q, None)
                 | Inr pid \<Rightarrow>
                     let child = Some (popen_child type r w pids (maxfd q) (fds q));
                         (mine, other) = (if hd type = CHR ''r'' then (r, w) else (w, r));
                         q = q\<lparr>fds := close_fd other (fds q)\<rparr>
                     in case fdopen a of
                          Some e \<Rightarrow> (Inl e, q, child)
                        | None \<Rightarrow> (Inr mine, q\<lparr>childpid := Some (pids[mine := pid])\<rparr>, child))"

section \<open>pclose\<close>

text \<open>The loop with \<^verbatim>\<open>waitpid\<close>: its answers one after the other; \<open>Waits\<close> when the child is still running.\<close>

fun wait_loop :: "(perrno + int) list \<Rightarrow> (perrno + int) res" where
  "wait_loop [] = Inl Waits"
| "wait_loop (Inr stat # ws) = Inr (Inr stat)"
| "wait_loop (Inl e # ws) = (if e \<noteq> EINTR then Inr (Inl e) else wait_loop ws)"

text \<open>
  The stream is given by its descriptor; \<open>flushed\<close> tells whether \<^verbatim>\<open>fclose\<close> succeeds (an error when not;
  the descriptor is closed anyway), and \<open>waits pid\<close> is what \<^verbatim>\<open>waitpid\<close> for \<open>pid\<close> answers.
\<close>

definition pclose :: "perrno option \<Rightarrow> (int \<Rightarrow> (perrno + int) list) \<Rightarrow> nat \<Rightarrow> process \<Rightarrow> (perrno + int) res \<times> process" where
  "pclose flush waits fd p =
     (case childpid p of
        None \<Rightarrow> (Inr (Inl EINVAL), p)
      | Some pids \<Rightarrow>
          if maxfd p \<le> fd then (Inr (Inl EINVAL), p)
          else if pids ! fd = 0 then (Inr (Inl EINVAL), p)
          else let q = p\<lparr>childpid := Some (pids[fd := 0]), fds := close_fd fd (fds p)\<rparr> in
               case flush of
                 Some e \<Rightarrow> (Inr (Inl e), q)
               | None \<Rightarrow> (wait_loop (waits (pids ! fd)), q))"

section \<open>The table of streams\<close>

text \<open>The streams that are open, with their processes.\<close>

definition streams :: "process \<Rightarrow> nat \<Rightarrow> int option" where
  "streams p i = (case childpid p of None \<Rightarrow> None
     | Some pids \<Rightarrow> if i < length pids \<and> pids ! i \<noteq> 0 then Some (pids ! i) else None)"

definition popen_inv :: "process \<Rightarrow> bool" where
  "popen_inv p \<longleftrightarrow> (\<forall>pids. childpid p = Some pids \<longrightarrow> length pids = maxfd p) \<and>
     (\<forall>i pid. streams p i = Some pid \<longrightarrow> 0 < pid \<and> fds p i \<noteq> None)"

lemma fold_close: "fold (\<lambda>i m. if P i then close_fd i m else m) xs m = (\<lambda>i. if i \<in> set xs \<and> P i then None else m i)"
  by (induction xs arbitrary: m) (auto simp: close_fd_def fun_eq_iff)

text \<open>The descriptors of the child, but for the loop over the table.\<close>

definition redirected :: "string \<Rightarrow> nat \<Rightarrow> nat \<Rightarrow> nat \<Rightarrow> descriptors \<Rightarrow> descriptors" where
  "redirected type k r w m i =
     (if type = ''r'' \<and> i = STDOUT_FILENO then Some (Write_end k)
      else if type = ''w'' \<and> i = STDIN_FILENO then Some (Read_end k)
      else if i = r \<or> i = w then None else m i)"

lemma popen_child_eq:
  assumes "type = ''r'' \<or> type = ''w''" "r \<noteq> w" "length pids = mx"
  shows "popen_child type r w pids mx (m(r \<mapsto> Read_end k, w \<mapsto> Write_end k)) =
    (\<lambda>i. if i < mx \<and> 0 < pids ! i then None else redirected type k r w m i)"
proof
  fix i
  from assms(1) show "popen_child type r w pids mx (m(r \<mapsto> Read_end k, w \<mapsto> Write_end k)) i =
      (if i < mx \<and> 0 < pids ! i then None else redirected type k r w m i)"
  proof
    assume "type = ''r''"
    then show ?thesis using assms(2) unfolding popen_child_def fold_close
      by (simp add: Let_def redirected_def close_fd_def dup2_def STDIN_FILENO_def STDOUT_FILENO_def)
  next
    assume "type = ''w''"
    then show ?thesis using assms(2) unfolding popen_child_def fold_close
      by (simp add: Let_def redirected_def close_fd_def dup2_def STDIN_FILENO_def STDOUT_FILENO_def)
  qed
qed

text \<open>What the kernel answers to \<^verbatim>\<open>popen\<close>.\<close>

definition good_answers :: "answers \<Rightarrow> process \<Rightarrow> bool" where
  "good_answers a p \<longleftrightarrow> (\<forall>k r w. pipe a = Inr (k, r, w) \<longrightarrow> r \<noteq> w \<and> fds p r = None \<and> fds p w = None) \<and>
     (\<forall>pid. fork a = Inr pid \<longrightarrow> 0 < pid)"

text \<open>The table when \<^verbatim>\<open>pipe\<close> is called.\<close>

definition table :: "answers \<Rightarrow> process \<Rightarrow> process" where
  "table a p = (case childpid p of
      None \<Rightarrow> p\<lparr>maxfd := open_max a, childpid := Some (replicate (open_max a) 0)\<rparr> | Some _ \<Rightarrow> p)"

lemma table_simps [simp]: "fds (table a p) = fds p" "streams (table a p) = streams p"
  by (auto simp: table_def streams_def fun_eq_iff split: option.split)

lemma table_inv:
  assumes "popen_inv p"
  obtains pids where "childpid (table a p) = Some pids" "length pids = maxfd (table a p)"
    "\<And>i. i < maxfd (table a p) \<Longrightarrow> 0 < pids ! i \<longleftrightarrow> streams p i \<noteq> None"
    "popen_inv (table a p)"
proof -
  have inv: "popen_inv (table a p)"
    using assms by (auto simp: popen_inv_def) (auto simp: table_def split: option.splits)
  obtain pids where pids: "childpid (table a p) = Some pids" by (cases "childpid p") (auto simp: table_def)
  with inv have "length pids = maxfd (table a p)" by (simp add: popen_inv_def)
  moreover have "0 < pids ! i \<longleftrightarrow> streams p i \<noteq> None" if "i < maxfd (table a p)" for i
  proof -
    have "streams (table a p) i = (if pids ! i \<noteq> 0 then Some (pids ! i) else None)"
      using pids that calculation by (simp add: streams_def del: table_simps)
    moreover have "streams (table a p) i = Some pid \<Longrightarrow> 0 < pid" for pid
      using inv by (simp add: popen_inv_def del: table_simps)
    ultimately show ?thesis by (auto split: if_splits)
  qed
  ultimately show thesis using that pids inv by blast
qed

lemma streams_lt: "childpid p = Some pids \<Longrightarrow> streams p i \<noteq> None \<Longrightarrow> i < length pids"
  by (auto simp: streams_def split: if_splits)

lemma popen_forked:
  assumes "type = ''r'' \<or> type = ''w''" "pipe a = Inr (k, r, w)" "r < maxfd (table a p)" "w < maxfd (table a p)"
    "childpid (table a p) = Some pids" "fork a = Inr pid"
  shows "popen a type p =
    (let m = (fds p)(r \<mapsto> Read_end k, w \<mapsto> Write_end k);
         child = Some (popen_child type r w pids (maxfd (table a p)) m);
         fd = if type = ''r'' then r else w;
         q = (table a p)\<lparr>fds := close_fd (if type = ''r'' then w else r) m\<rparr>
     in case fdopen a of Some e \<Rightarrow> (Inl e, q, child)
        | None \<Rightarrow> (Inr fd, q\<lparr>childpid := Some (pids[fd := pid])\<rparr>, child))"
  using assms by (auto simp: popen_def Let_def simp flip: table_def split: option.split)


text \<open>A call of \<^verbatim>\<open>popen\<close> that succeeds.\<close>

lemma popen_success:
  assumes "popen_inv p" "good_answers a p" "popen a type p = (Inr fd, p', c)"
  obtains k r w pid m where "pipe a = Inr (k, r, w)" "fork a = Inr pid" "type = ''r'' \<or> type = ''w''"
    "fd = (if type = ''r'' then r else w)" "c = Some m" "popen_inv p'"
    "streams p' = (streams p)(fd \<mapsto> pid)"
    "fds p' = (fds p)(fd \<mapsto> if type = ''r'' then Read_end k else Write_end k)"
    "m = (\<lambda>i. if streams p i \<noteq> None then None else redirected type k r w (fds p) i)"
proof -
  obtain pids where t: "childpid (table a p) = Some pids" "length pids = maxfd (table a p)"
      "\<And>i. i < maxfd (table a p) \<Longrightarrow> 0 < pids ! i \<longleftrightarrow> streams p i \<noteq> None" "popen_inv (table a p)"
    using table_inv [OF assms(1)] by metis
  have type: "type = ''r'' \<or> type = ''w''" using assms(3) by (auto simp: popen_def split: if_splits)
  obtain k r w where pipe: "pipe a = Inr (k, r, w)"
    using assms(3) type by (cases "pipe a") (auto simp: popen_def Let_def split: prod.splits)
  with assms(2) have rw: "r \<noteq> w" "fds p r = None" "fds p w = None" by (auto simp: good_answers_def)
  have max: "r < maxfd (table a p)" "w < maxfd (table a p)"
    using assms(3) type pipe by (auto simp: popen_def table_def Let_def split: if_splits option.splits)
  obtain pid where fork: "fork a = Inr pid"
    using assms(3) type pipe max by (cases "fork a") (auto simp: popen_def table_def Let_def split: option.splits)
  with assms(2) have pid: "0 < pid" by (simp add: good_answers_def)
  have q: "fd = (if type = ''r'' then r else w)" "p' = (table a p)\<lparr>childpid := Some (pids[fd := pid]),
      fds := (fds p)(fd \<mapsto> if type = ''r'' then Read_end k else Write_end k)\<rparr>"
      "c = Some (popen_child type r w pids (maxfd (table a p)) ((fds p)(r \<mapsto> Read_end k, w \<mapsto> Write_end k)))"
    using assms(3) popen_forked [OF type pipe _ _ t(1) fork] max rw type
      fun_upd_idem [of "fds p", OF rw(2)] fun_upd_idem [of "fds p", OF rw(3)]
    by (auto simp: Let_def close_fd_def fun_upd_twist split: option.splits)
  have fd: "fd < maxfd (table a p)" using q(1) max by simp
  have "streams p' = (streams (table a p))(fd \<mapsto> pid)"
    using t(1,2) fd pid unfolding q(2) by (auto simp: streams_def fun_eq_iff nth_list_update simp del: table_simps)
  then have str: "streams p' = (streams p)(fd \<mapsto> pid)" by simp
  have "popen_inv p'" unfolding popen_inv_def str
    using assms(1) t(2) pid unfolding q(2) by (auto simp: popen_inv_def)
  moreover have "popen_child type r w pids (maxfd (table a p)) ((fds p)(r \<mapsto> Read_end k, w \<mapsto> Write_end k)) =
      (\<lambda>i. if streams p i \<noteq> None then None else redirected type k r w (fds p) i)"
  proof
    fix i
    have "i < maxfd (table a p) \<and> 0 < pids ! i \<longleftrightarrow> streams p i \<noteq> None"
      using t(3) [of i] t(2) streams_lt [OF t(1), of i] by (metis table_simps(2))
    then show "popen_child type r w pids (maxfd (table a p)) ((fds p)(r \<mapsto> Read_end k, w \<mapsto> Write_end k)) i =
        (if streams p i \<noteq> None then None else redirected type k r w (fds p) i)"
      using popen_child_eq [OF type rw(1) t(2), of "fds p" k] by simp
  qed
  ultimately show thesis
    using that [OF pipe fork type q(1,3)] str q(2) by simp
qed

lemma popen_fails:
  assumes "popen a type p = (Inl e, p', c)"
  shows "streams p' = streams p"
proof -
  have "childpid p' = childpid p \<or> childpid p' = childpid (table a p)"
    using assms by (auto simp: popen_def Let_def simp flip: table_def split: if_splits sum.splits option.splits prod.splits)
  then have "streams p' = streams p \<or> streams p' = streams (table a p)"
    by (auto simp: streams_def fun_eq_iff simp del: table_simps)
  then show ?thesis by simp
qed

text \<open>When \<^verbatim>\<open>fork\<close> fails, both ends of the new pipe stay open and nobody knows of them.\<close>

lemma popen_fork_leaks:
  assumes "type = ''r'' \<or> type = ''w''" "pipe a = Inr (k, r, w)" "r < maxfd (table a p)" "w < maxfd (table a p)" "fork a = Inl e"
  shows "popen a type p = (Inl e, (table a p)\<lparr>fds := (fds p)(r \<mapsto> Read_end k, w \<mapsto> Write_end k)\<rparr>, None)"
  using assms by (auto simp: popen_def Let_def simp flip: table_def)

lemma wait_loop_EINTR: "wait_loop (replicate n (Inl EINTR) @ Inr st # ws) = Inr (Inr st)"
  by (induction n) simp_all

lemma pclose_stream:
  assumes "popen_inv p" "streams p fd = Some pid"
  obtains q where "pclose None waits fd p = (wait_loop (waits pid), q)" "popen_inv q"
    "streams q = (streams p)(fd := None)" "fds q = (fds p)(fd := None)"
proof -
  from assms(2) obtain pids where pids: "childpid p = Some pids" "fd < length pids" "pids ! fd \<noteq> 0" "pid = pids ! fd"
    by (auto simp: streams_def split: option.splits if_splits)
  with assms(1) have max: "length pids = maxfd p" by (simp add: popen_inv_def)
  let ?q = "p\<lparr>childpid := Some (pids[fd := 0]), fds := close_fd fd (fds p)\<rparr>"
  have str: "streams ?q = (streams p)(fd := None)"
    using pids by (auto simp: streams_def fun_eq_iff)
  moreover have "popen_inv ?q" unfolding popen_inv_def str
    using assms(1) max by (auto simp: popen_inv_def close_fd_def)
  moreover have "pclose None waits fd p = (wait_loop (waits pid), ?q)"
    using pids max by (simp add: pclose_def Let_def)
  ultimately show thesis using that by (simp add: close_fd_def)
qed

lemma pclose_other:
  assumes "popen_inv p" "streams p fd = None"
  shows "pclose flush waits fd p = (Inr (Inl EINVAL), p)"
  using assms by (auto simp: pclose_def streams_def popen_inv_def split: option.splits)

section \<open>Properties\<close>

text \<open>
  C11. When popen succeeds, the caller has exactly one new descriptor, its end of the pipe; the command
  has the other end as its standard output or input, none of the streams that were opened before, and
  otherwise the descriptors of the caller (so its standard output is closed if that of the caller is
  itself such a stream). pclose then returns the status of exactly this command, however often the wait
  is interrupted, and leaves the descriptors and the streams as they were before popen. Every other
  descriptor is refused, and a failing popen adds no stream.
\<close>

theorem popen_pclose:
  assumes "popen_inv p" "good_answers a p" "popen a type p = (Inr fd, p', c)"
  shows "(\<exists>k r w pid. pipe a = Inr (k, r, w) \<and> fork a = Inr pid \<and> fd = (if type = ''r'' then r else w) \<and>
      fds p' = (fds p)(fd \<mapsto> if type = ''r'' then Read_end k else Write_end k) \<and>
      popen_inv p' \<and> streams p' = (streams p)(fd \<mapsto> pid) \<and>
      c = Some (\<lambda>i. if streams p i \<noteq> None then None else redirected type k r w (fds p) i) \<and>
      (\<forall>n st. \<exists>q. pclose None (\<lambda>x. if x = pid then replicate n (Inl EINTR) @ [Inr st] else []) fd p' = (Inr (Inr st), q) \<and>
         popen_inv q \<and> fds q = fds p \<and> streams q = (streams p)(fd := None))) \<and>
    (\<forall>i flush waits. streams p' i = None \<longrightarrow> pclose flush waits i p' = (Inr (Inl EINVAL), p')) \<and>
    (\<forall>b ty e q d. popen b ty p' = (Inl e, q, d) \<longrightarrow> streams q = streams p')"
proof (intro conjI)
  from assms obtain k r w pid m where ok: "pipe a = Inr (k, r, w)" "fork a = Inr pid"
      "fd = (if type = ''r'' then r else w)" "c = Some m" "popen_inv p'" "streams p' = (streams p)(fd \<mapsto> pid)"
      "fds p' = (fds p)(fd \<mapsto> if type = ''r'' then Read_end k else Write_end k)"
      "m = (\<lambda>i. if streams p i \<noteq> None then None else redirected type k r w (fds p) i)"
    by (rule popen_success)
  have "fds p fd = None" using assms(2) ok(1,3) by (auto simp: good_answers_def)
  then have fresh: "(fds p)(fd := None) = fds p" by (simp add: fun_upd_idem)
  have "\<exists>q. pclose None (\<lambda>x. if x = pid then replicate n (Inl EINTR) @ [Inr st] else []) fd p' = (Inr (Inr st), q) \<and>
      popen_inv q \<and> fds q = fds p \<and> streams q = (streams p)(fd := None)" for n st
    by (rule pclose_stream [OF ok(5), of fd pid "\<lambda>x. if x = pid then replicate n (Inl EINTR) @ [Inr st] else []"])
      (simp_all add: ok(6,7) fresh wait_loop_EINTR)
  with ok show "\<exists>k r w pid. pipe a = Inr (k, r, w) \<and> fork a = Inr pid \<and> fd = (if type = ''r'' then r else w) \<and>
      fds p' = (fds p)(fd \<mapsto> if type = ''r'' then Read_end k else Write_end k) \<and>
      popen_inv p' \<and> streams p' = (streams p)(fd \<mapsto> pid) \<and>
      c = Some (\<lambda>i. if streams p i \<noteq> None then None else redirected type k r w (fds p) i) \<and>
      (\<forall>n st. \<exists>q. pclose None (\<lambda>x. if x = pid then replicate n (Inl EINTR) @ [Inr st] else []) fd p' = (Inr (Inr st), q) \<and>
         popen_inv q \<and> fds q = fds p \<and> streams q = (streams p)(fd := None))" by blast
  show "\<forall>i flush waits. streams p' i = None \<longrightarrow> pclose flush waits i p' = (Inr (Inl EINVAL), p')"
    using pclose_other [OF ok(5)] by blast
  show "\<forall>b ty e q d. popen b ty p' = (Inl e, q, d) \<longrightarrow> streams q = streams p'"
    using popen_fails by blast
qed

text \<open>A caller with standard input, output and error output.\<close>

definition shell :: process where
  "shell = \<lparr>fds = (\<lambda>i. if i < 3 then Some (Other i) else None), childpid = None, maxfd = 0\<rparr>"

lemma popen_pclose_witness:
  "let (fd, p', c) = popen \<lparr>open_max = 10, pipe = Inr (7, 3, 4), fork = Inr 99, fdopen = None\<rparr> ''r'' shell in
     fd = Inr 3 \<and> fds p' 4 = None \<and> map (the c) [0, 1, 2, 3, 4] = [Some (Other 0), Some (Write_end 7), Some (Other 2), None, None]"
proof -
  let ?a = "\<lparr>open_max = 10, pipe = Inr (7, 3, 4), fork = Inr 99, fdopen = None\<rparr>"
  have "popen_inv shell" "good_answers ?a shell"
    by (simp_all add: popen_inv_def good_answers_def shell_def streams_def)
  moreover obtain fd p' c where run: "popen ?a ''r'' shell = (Inr fd, p', c)"
    by (simp add: popen_def shell_def Let_def)
  ultimately have "pipe ?a = Inr (7, 3, 4)" and "fd = 3 \<and> fds p' = (fds shell)(3 \<mapsto> Read_end 7) \<and>
      c = Some (\<lambda>i. if streams shell i \<noteq> None then None else redirected ''r'' 7 3 4 (fds shell) i)"
    using popen_pclose [of shell ?a "''r''" fd p' c] by auto
  then show ?thesis unfolding run
    by (simp add: shell_def streams_def redirected_def STDOUT_FILENO_def)
qed

end
