(* ===== verification/ErrLog.thy ===== *)
theory ErrLog
  imports Prelude
begin

text \<open>
  The error functions every program uses: \<^verbatim>\<open>lib/error.c\<close> and, for daemons, \<^verbatim>\<open>lib/errorlog.c\<close>. The text
  that \<^verbatim>\<open>vsnprintf\<close> makes of format and arguments, and \<^verbatim>\<open>strerror\<close>, are arguments.
\<close>

section \<open>The line buffer\<close>

definition MAXLINE :: nat where "MAXLINE = 4096"

text \<open>
  \<^verbatim>\<open>snprintf(buf + at, n, text)\<close> keeps at most \<open>n - 1\<close> characters of the text, and \<^verbatim>\<open>strcat\<close> adds one
  string to the buffer of \<open>MAXLINE\<close> bytes, where the null byte needs one.
\<close>

definition snprintf_at :: "string \<Rightarrow> nat \<Rightarrow> string \<Rightarrow> string res" where
  "snprintf_at buf n text = (if length buf + n \<le> MAXLINE then Inr (buf @ take (n - 1) text)
     else Inl (Undef ''buf overrun''))"

definition strcat :: "string \<Rightarrow> string \<Rightarrow> string res" where
  "strcat buf s = (if length buf + length s + 1 \<le> MAXLINE then Inr (buf @ s) else Inl (Undef ''buf overrun''))"

definition err_line :: "(int \<Rightarrow> string) \<Rightarrow> bool \<Rightarrow> int \<Rightarrow> string \<Rightarrow> string res" where
  "err_line strerror errnoflag error text =
     bnd (snprintf_at [] (MAXLINE - 1) text) (\<lambda>buf.
     bnd (if errnoflag then snprintf_at buf (MAXLINE - length buf - 1) ('': '' @ strerror error) else Inr buf) (\<lambda>buf.
     strcat buf [CHR 10]))"

section \<open>Where it goes\<close>

text \<open>
  \<open>shown\<close> is what has reached the file that standard output and error output share, \<open>buffered\<close> the
  part of standard output that has not. \<open>logged\<close> has priority and text of what went to \<^verbatim>\<open>syslog\<close>.
\<close>

record io =
  shown :: string
  buffered :: string
  logged :: "(int \<times> string) list"
  opened_log :: "(string \<times> int \<times> int) option"

datatype ending = Continues | Exits int | Aborts

definition LOG_ERR :: int where "LOG_ERR = 3"

definition err_doit :: "(int \<Rightarrow> string) \<Rightarrow> bool \<Rightarrow> int \<Rightarrow> string \<Rightarrow> io \<Rightarrow> io res" where
  "err_doit strerror errnoflag error text s =
     bnd (err_line strerror errnoflag error text) (\<lambda>buf.
     let s = s\<lparr>shown := shown s @ buffered s, buffered := []\<rparr>
     in Inr (s\<lparr>shown := shown s @ buf\<rparr>))"

definition log_doit :: "(int \<Rightarrow> string) \<Rightarrow> bool \<Rightarrow> bool \<Rightarrow> int \<Rightarrow> int \<Rightarrow> string \<Rightarrow> io \<Rightarrow> io res" where
  "log_doit strerror log_to_stderr errnoflag error priority text s =
     bnd (err_line strerror errnoflag error text) (\<lambda>buf.
     if log_to_stderr then
       let s = s\<lparr>shown := shown s @ buffered s, buffered := []\<rparr>
       in Inr (s\<lparr>shown := shown s @ buf\<rparr>)
     else Inr (s\<lparr>logged := logged s @ [(priority, buf)]\<rparr>))"

section \<open>The functions\<close>

definition err_ret :: "(int \<Rightarrow> string) \<Rightarrow> int \<Rightarrow> string \<Rightarrow> io \<Rightarrow> (io \<times> ending) res" where
  "err_ret strerror errno text s = bnd (err_doit strerror True errno text s) (\<lambda>s. Inr (s, Continues))"

definition err_sys :: "(int \<Rightarrow> string) \<Rightarrow> int \<Rightarrow> string \<Rightarrow> io \<Rightarrow> (io \<times> ending) res" where
  "err_sys strerror errno text s = bnd (err_doit strerror True errno text s) (\<lambda>s. Inr (s, Exits 1))"

definition err_cont :: "(int \<Rightarrow> string) \<Rightarrow> int \<Rightarrow> string \<Rightarrow> io \<Rightarrow> (io \<times> ending) res" where
  "err_cont strerror error text s = bnd (err_doit strerror True error text s) (\<lambda>s. Inr (s, Continues))"

definition err_exit :: "(int \<Rightarrow> string) \<Rightarrow> int \<Rightarrow> string \<Rightarrow> io \<Rightarrow> (io \<times> ending) res" where
  "err_exit strerror error text s = bnd (err_doit strerror True error text s) (\<lambda>s. Inr (s, Exits 1))"

definition err_dump :: "(int \<Rightarrow> string) \<Rightarrow> int \<Rightarrow> string \<Rightarrow> io \<Rightarrow> (io \<times> ending) res" where
  "err_dump strerror errno text s = bnd (err_doit strerror True errno text s) (\<lambda>s. Inr (s, Aborts))"

definition err_msg :: "(int \<Rightarrow> string) \<Rightarrow> string \<Rightarrow> io \<Rightarrow> (io \<times> ending) res" where
  "err_msg strerror text s = bnd (err_doit strerror False 0 text s) (\<lambda>s. Inr (s, Continues))"

definition err_quit :: "(int \<Rightarrow> string) \<Rightarrow> string \<Rightarrow> io \<Rightarrow> (io \<times> ending) res" where
  "err_quit strerror text s = bnd (err_doit strerror False 0 text s) (\<lambda>s. Inr (s, Exits 1))"

definition log_open :: "bool \<Rightarrow> string \<Rightarrow> int \<Rightarrow> int \<Rightarrow> io \<Rightarrow> io" where
  "log_open log_to_stderr ident option facility s =
     (if \<not> log_to_stderr then s\<lparr>opened_log := Some (ident, option, facility)\<rparr> else s)"

definition log_ret :: "(int \<Rightarrow> string) \<Rightarrow> bool \<Rightarrow> int \<Rightarrow> string \<Rightarrow> io \<Rightarrow> (io \<times> ending) res" where
  "log_ret strerror lts errno text s = bnd (log_doit strerror lts True errno LOG_ERR text s) (\<lambda>s. Inr (s, Continues))"

definition log_sys :: "(int \<Rightarrow> string) \<Rightarrow> bool \<Rightarrow> int \<Rightarrow> string \<Rightarrow> io \<Rightarrow> (io \<times> ending) res" where
  "log_sys strerror lts errno text s = bnd (log_doit strerror lts True errno LOG_ERR text s) (\<lambda>s. Inr (s, Exits 2))"

definition log_msg :: "(int \<Rightarrow> string) \<Rightarrow> bool \<Rightarrow> string \<Rightarrow> io \<Rightarrow> (io \<times> ending) res" where
  "log_msg strerror lts text s = bnd (log_doit strerror lts False 0 LOG_ERR text s) (\<lambda>s. Inr (s, Continues))"

definition log_quit :: "(int \<Rightarrow> string) \<Rightarrow> bool \<Rightarrow> string \<Rightarrow> io \<Rightarrow> (io \<times> ending) res" where
  "log_quit strerror lts text s = bnd (log_doit strerror lts False 0 LOG_ERR text s) (\<lambda>s. Inr (s, Exits 2))"

definition log_exit :: "(int \<Rightarrow> string) \<Rightarrow> bool \<Rightarrow> int \<Rightarrow> string \<Rightarrow> io \<Rightarrow> (io \<times> ending) res" where
  "log_exit strerror lts error text s = bnd (log_doit strerror lts True error LOG_ERR text s) (\<lambda>s. Inr (s, Exits 2))"

section \<open>What is written\<close>

text \<open>The line of the specification: the text, cut to fit with its newline.\<close>

definition line :: "string \<Rightarrow> string" where
  "line text = take (MAXLINE - 2) text @ [CHR 10]"

lemma err_line_eq:
  "err_line strerror flag error text = Inr (line (text @ (if flag then '': '' @ strerror error else [])))"
proof (cases flag)
  case True
  have n: "MAXLINE = 4094 + 2" by (simp add: MAXLINE_def)
  have "take 4094 text @ take (4094 - length (take 4094 text)) e = take 4094 (text @ e)" for e
    by (simp add: min_def)
  then show ?thesis using True
    by (auto simp: err_line_def snprintf_at_def strcat_def line_def n min_def)
qed (simp add: err_line_def snprintf_at_def strcat_def line_def MAXLINE_def)

lemma length_line: "length (line text) + 1 \<le> MAXLINE"
  by (simp add: line_def MAXLINE_def)

definition report :: "string \<Rightarrow> io \<Rightarrow> io" where
  "report text s = s\<lparr>shown := shown s @ buffered s @ line text, buffered := []\<rparr>"

definition to_syslog :: "string \<Rightarrow> io \<Rightarrow> io" where
  "to_syslog text s = s\<lparr>logged := logged s @ [(LOG_ERR, line text)]\<rparr>"

lemma err_doit_eq:
  "err_doit strerror flag error text s = Inr (report (text @ (if flag then '': '' @ strerror error else [])) s)"
  by (simp add: err_doit_def err_line_eq report_def)

lemma log_doit_eq:
  "log_doit strerror lts flag error LOG_ERR text s =
     Inr ((if lts then report else to_syslog) (text @ (if flag then '': '' @ strerror error else [])) s)"
  by (simp add: log_doit_def err_line_eq report_def to_syslog_def)

section \<open>Properties\<close>

text \<open>
  For texts of every length, the error functions write one line, the text cut to 4094 characters
  and a newline, without leaving their buffer of 4096 bytes and after all that standard output has
  buffered; err_sys, err_exit and err_quit then exit with 1, err_dump aborts, the others return. The
  functions for daemons write the same line to the error output, or, without that, to syslog, and exit
  with 2.
\<close>

theorem error_functions:
  "length (line text) + 1 \<le> MAXLINE \<and>
   (let e = report (text @ '': '' @ strerror n) s; m = report text s in
      err_ret strerror n text s = Inr (e, Continues) \<and> err_cont strerror n text s = Inr (e, Continues) \<and>
      err_sys strerror n text s = Inr (e, Exits 1) \<and> err_exit strerror n text s = Inr (e, Exits 1) \<and>
      err_dump strerror n text s = Inr (e, Aborts) \<and>
      err_msg strerror text s = Inr (m, Continues) \<and> err_quit strerror text s = Inr (m, Exits 1)) \<and>
   (let out = (if lts then report else to_syslog); e = out (text @ '': '' @ strerror n) s; m = out text s in
      log_ret strerror lts n text s = Inr (e, Continues) \<and> log_msg strerror lts text s = Inr (m, Continues) \<and>
      log_sys strerror lts n text s = Inr (e, Exits 2) \<and> log_exit strerror lts n text s = Inr (e, Exits 2) \<and>
      log_quit strerror lts text s = Inr (m, Exits 2))"
  using length_line [of "text"]
  by (simp add: Let_def err_doit_eq log_doit_eq err_ret_def err_cont_def err_sys_def err_exit_def
    err_dump_def err_msg_def err_quit_def log_ret_def log_msg_def log_sys_def log_exit_def log_quit_def)

end
