(* ===== verification/TtyName.thy ===== *)
theory TtyName
  imports Prelude
begin

text \<open>
  \<^verbatim>\<open>termios/ttyname.c\<close>: the name of the terminal behind a descriptor, by a breadth-first search of
  \<^verbatim>\<open>/dev\<close>. The list of directories grows while it is searched; paths are put together in one static
  buffer.
\<close>

section \<open>The file system\<close>

text \<open>What \<^verbatim>\<open>stat\<close> and \<^verbatim>\<open>readdir\<close> say. \<^verbatim>\<open>stat\<close> follows symbolic links.\<close>

record filestat =
  st_isdir :: bool
  st_ino :: nat
  st_dev :: nat

record devfs =
  stat :: "string \<Rightarrow> filestat option"
  opendir :: "string \<Rightarrow> string list option"

definition POSIX_PATH_MAX :: nat where "POSIX_PATH_MAX = 256"

section \<open>The list of directories\<close>

text \<open>\<open>.\<close>, \<open>..\<close> and \<^verbatim>\<open>/dev/fd\<close> are not added. The list is \<^verbatim>\<open>head\<close> to \<^verbatim>\<open>tail\<close>.\<close>

definition skipped :: "string \<Rightarrow> bool" where
  "skipped dirname = (let len = length dirname in
     dirname ! (len - 1) = CHR ''.'' \<and>
       (dirname ! (len - 2) = CHR ''/'' \<or> dirname ! (len - 2) = CHR ''.'' \<and> dirname ! (len - 3) = CHR ''/'')
     \<or> dirname = ''/dev/fd'')"

definition add :: "string \<Rightarrow> string list \<Rightarrow> string list" where
  "add dirname ds = (if skipped dirname then ds else ds @ [dirname])"

definition cleanup :: "string list \<Rightarrow> string list" where
  "cleanup ds = []"

section \<open>Searching\<close>

definition is_alias :: "string \<Rightarrow> bool" where
  "is_alias p \<longleftrightarrow> p = ''/dev/stdin'' \<or> p = ''/dev/stdout'' \<or> p = ''/dev/stderr''"

text \<open>The loop with \<^verbatim>\<open>readdir\<close>; \<open>prefix\<close> is the directory with its slash, and \<^verbatim>\<open>strncpy\<close> cuts the name.\<close>

fun scan_dir :: "devfs \<Rightarrow> filestat \<Rightarrow> string \<Rightarrow> string list \<Rightarrow> string list \<Rightarrow> string option \<times> string list" where
  "scan_dir F fdstat prefix [] ds = (None, ds)"
| "scan_dir F fdstat prefix (x # names) ds =
     (let pathname = prefix @ take (POSIX_PATH_MAX - length prefix) x in
      if is_alias pathname then scan_dir F fdstat prefix names ds
      else case stat F pathname of
          None \<Rightarrow> scan_dir F fdstat prefix names ds
        | Some devstat \<Rightarrow>
            if st_isdir devstat then scan_dir F fdstat prefix names (add pathname ds)
            else if st_ino devstat = st_ino fdstat \<and> st_dev devstat = st_dev fdstat then (Some pathname, ds)
            else scan_dir F fdstat prefix names ds)"

text \<open>The buffer has \<^verbatim>\<open>_POSIX_PATH_MAX + 1\<close> bytes: room for a path of \<^verbatim>\<open>_POSIX_PATH_MAX\<close>.\<close>

definition searchdir :: "devfs \<Rightarrow> filestat \<Rightarrow> string \<Rightarrow> string list \<Rightarrow> (string option \<times> string list) res" where
  "searchdir F fdstat dirname ds =
     (if POSIX_PATH_MAX < length dirname then Inl (Undef ''pathname overrun'')
      else case opendir F dirname of
          None \<Rightarrow> Inr (None, ds)
        | Some names \<Rightarrow>
            if POSIX_PATH_MAX < length dirname + 1 then Inl (Undef ''pathname overrun'')
            else Inr (scan_dir F fdstat (dirname @ ''/'') names ds))"

text \<open>The loop over the list, from its \<open>i\<close>-th element; the first argument bounds its rounds.\<close>

fun list_loop :: "nat \<Rightarrow> devfs \<Rightarrow> filestat \<Rightarrow> nat \<Rightarrow> string list \<Rightarrow> (string option \<times> string list) res" where
  "list_loop 0 F fdstat i ds = Inl Diverges"
| "list_loop (Suc k) F fdstat i ds =
     (if length ds \<le> i then Inr (None, ds)
      else bnd (searchdir F fdstat (ds ! i) ds) (\<lambda>(rval, ds).
           if rval \<noteq> None then Inr (rval, ds) else list_loop k F fdstat (i + 1) ds))"

text \<open>
  \<open>tty\<close> is what \<^verbatim>\<open>isatty\<close> says, \<open>fdstat\<close> what \<^verbatim>\<open>fstat\<close> gives and \<open>chr\<close> whether that is a character
  device. The result has the list that is left.
\<close>

definition ttyname :: "nat \<Rightarrow> devfs \<Rightarrow> bool \<Rightarrow> filestat option \<Rightarrow> bool \<Rightarrow> (string option \<times> string list) res" where
  "ttyname k F tty fdstat chr =
     (if \<not> tty then Inr (None, [])
      else case fdstat of
          None \<Rightarrow> Inr (None, [])
        | Some fdstat \<Rightarrow>
            if \<not> chr then Inr (None, [])
            else bnd (searchdir F fdstat ''/dev'' []) (\<lambda>(rval, ds).
                 bnd (if rval = None then list_loop k F fdstat 0 ds else Inr (rval, ds)) (\<lambda>(rval, ds).
                 Inr (rval, cleanup ds))))"

section \<open>What is searched\<close>

definition entries :: "devfs \<Rightarrow> string \<Rightarrow> string list" where
  "entries F d = (case opendir F d of None \<Rightarrow> [] | Some names \<Rightarrow> map (\<lambda>x. d @ ''/'' @ x) names)"

definition is_subdir :: "devfs \<Rightarrow> string \<Rightarrow> bool" where
  "is_subdir F p \<longleftrightarrow> \<not> is_alias p \<and> \<not> skipped p \<and> (\<exists>st. stat F p = Some st \<and> st_isdir st)"

definition is_terminal :: "devfs \<Rightarrow> filestat \<Rightarrow> string \<Rightarrow> bool" where
  "is_terminal F fdstat p \<longleftrightarrow> \<not> is_alias p \<and>
     (\<exists>st. stat F p = Some st \<and> \<not> st_isdir st \<and> st_ino st = st_ino fdstat \<and> st_dev st = st_dev fdstat)"

text \<open>The directories below \<^verbatim>\<open>/dev\<close> that are reached without the skipped ones.\<close>

inductive_set devdirs :: "devfs \<Rightarrow> string set" for F where
  dev: "''/dev'' \<in> devdirs F"
| sub: "d \<in> devdirs F \<Longrightarrow> p \<in> set (entries F d) \<Longrightarrow> is_subdir F p \<Longrightarrow> p \<in> devdirs F"

definition devfs_ok :: "devfs \<Rightarrow> bool" where
  "devfs_ok F \<longleftrightarrow> finite (devdirs F) \<and>
     (\<forall>d \<in> devdirs F. \<forall>names. opendir F d = Some names \<longrightarrow>
        length d < POSIX_PATH_MAX \<and> distinct names \<and>
        (\<forall>x \<in> set names. x \<noteq> [] \<and> CHR ''/'' \<notin> set x \<and> length d + 1 + length x \<le> POSIX_PATH_MAX)) \<and>
     (\<forall>d \<in> devdirs F. length d \<le> POSIX_PATH_MAX)"

text \<open>What a scan of the paths \<open>ps\<close> gives.\<close>

definition scanned :: "devfs \<Rightarrow> filestat \<Rightarrow> string list \<Rightarrow> string list \<Rightarrow> string option \<times> string list \<Rightarrow> bool" where
  "scanned F fdstat ps ds r \<longleftrightarrow> (case r of
      (Some p, ds') \<Rightarrow> p \<in> set ps \<and> is_terminal F fdstat p
    | (None, ds') \<Rightarrow> (\<forall>p \<in> set ps. \<not> is_terminal F fdstat p) \<and> ds' = ds @ filter (is_subdir F) ps)"

lemma scanned_next:
  assumes "\<not> is_terminal F fdstat p" "scanned F fdstat ps (ds @ filter (is_subdir F) [p]) r"
  shows "scanned F fdstat (p # ps) ds r"
proof -
  obtain rval ds' where "r = (rval, ds')" by fastforce
  then show ?thesis using assms by (cases rval) (auto simp: scanned_def)
qed

lemma scan_dir_spec:
  "\<forall>x \<in> set names. length prefix + length x \<le> POSIX_PATH_MAX \<Longrightarrow>
   scanned F fdstat (map ((@) prefix) names) ds (scan_dir F fdstat prefix names ds)"
proof (induction names arbitrary: ds)
  case (Cons x names)
  let ?p = "prefix @ x"
  have p: "prefix @ take (POSIX_PATH_MAX - length prefix) x = ?p" using Cons.prems by auto
  have rest: "scanned F fdstat (map ((@) prefix) names) ds (scan_dir F fdstat prefix names ds)" for ds
    using Cons by simp
  show ?case
  proof (cases "is_terminal F fdstat ?p")
    case True
    then have "scan_dir F fdstat prefix (x # names) ds = (Some ?p, ds)"
      unfolding scan_dir.simps p by (auto simp: Let_def is_terminal_def)
    with True show ?thesis by (simp add: scanned_def)
  next
    case False
    then have "scan_dir F fdstat prefix (x # names) ds = scan_dir F fdstat prefix names (ds @ filter (is_subdir F) [?p])"
      unfolding scan_dir.simps p by (auto simp: Let_def is_terminal_def is_subdir_def add_def split: option.split)
    then show ?thesis using scanned_next [OF False rest] by simp
  qed
qed (simp add: scanned_def)

lemma searchdir_spec:
  assumes "devfs_ok F" "d \<in> devdirs F"
  shows "(\<exists>p ds'. searchdir F fdstat d ds = Inr (Some p, ds') \<and> p \<in> set (entries F d) \<and> is_terminal F fdstat p) \<or>
    searchdir F fdstat d ds = Inr (None, ds @ filter (is_subdir F) (entries F d)) \<and>
    (\<forall>p \<in> set (entries F d). \<not> is_terminal F fdstat p)"
proof (cases "opendir F d")
  case None
  with assms show ?thesis by (auto simp: searchdir_def entries_def devfs_ok_def)
next
  case (Some names)
  with assms have ok: "length d < POSIX_PATH_MAX" "\<forall>x \<in> set names. length (d @ ''/'') + length x \<le> POSIX_PATH_MAX"
    by (auto simp: devfs_ok_def)
  have ps: "map ((@) (d @ ''/'')) names = entries F d" by (simp add: entries_def Some fun_eq_iff)
  obtain rval ds' where r: "scan_dir F fdstat (d @ ''/'') names ds = (rval, ds')" by fastforce
  from scan_dir_spec [OF ok(2), of F fdstat ds] show ?thesis
    unfolding ps scanned_def r using Some ok(1) r by (cases rval) (auto simp: searchdir_def)
qed

section \<open>Every directory is searched once\<close>

abbreviation "root \<equiv> ''/dev''"

text \<open>After \<open>k\<close> directories, \<^verbatim>\<open>/dev\<close> first: what is known of the list.\<close>

definition searched :: "devfs \<Rightarrow> filestat \<Rightarrow> nat \<Rightarrow> string list \<Rightarrow> bool" where
  "searched F fdstat k ds \<longleftrightarrow> set ds \<subseteq> devdirs F \<and> distinct (root # ds) \<and> k \<le> length (root # ds) \<and>
     (\<forall>d \<in> set (take k (root # ds)). \<forall>p \<in> set (entries F d). \<not> is_terminal F fdstat p \<and> (is_subdir F p \<longrightarrow> p \<in> set ds)) \<and>
     (\<forall>p \<in> set ds. \<exists>d \<in> set (take k (root # ds)). \<exists>x. x \<noteq> [] \<and> CHR ''/'' \<notin> set x \<and> p = d @ ''/'' @ x)"

lemma entry_unique:
  assumes "d @ ''/'' @ x = d' @ ''/'' @ x'" "CHR ''/'' \<notin> set x" "CHR ''/'' \<notin> set x'"
  shows "d = d' \<and> x = x'"
proof -
  have tw: "takeWhile (\<lambda>c. c \<noteq> CHR ''/'') (rev (d @ ''/'' @ x)) = rev x" if "CHR ''/'' \<notin> set x" for d x
    using that by (simp add: takeWhile_append takeWhile_eq_self)
  from tw [OF assms(2), of d] tw [OF assms(3), of d'] assms(1) have "rev x = rev x'" by metis
  with assms(1) show ?thesis by simp
qed

lemma entries_ok:
  assumes "devfs_ok F" "d \<in> devdirs F"
  shows "distinct (entries F d)" "p \<in> set (entries F d) \<Longrightarrow> \<exists>x. x \<noteq> [] \<and> CHR ''/'' \<notin> set x \<and> p = d @ ''/'' @ x"
proof -
  show "distinct (entries F d)"
    using assms by (auto simp: entries_def devfs_ok_def distinct_map inj_on_def split: option.split)
  show "p \<in> set (entries F d) \<Longrightarrow> \<exists>x. x \<noteq> [] \<and> CHR ''/'' \<notin> set x \<and> p = d @ ''/'' @ x"
  proof (cases "opendir F d")
    case (Some names)
    assume "p \<in> set (entries F d)"
    with Some obtain x where "x \<in> set names" "p = d @ ''/'' @ x" by (auto simp: entries_def)
    with assms Some show ?thesis unfolding devfs_ok_def by blast
  qed (simp add: entries_def)
qed

lemma devdirs_root: "p \<in> devdirs F \<Longrightarrow> devfs_ok F \<Longrightarrow> p = root \<or> length root < length p"
proof (induction rule: devdirs.induct)
  case (sub d p)
  with entries_ok(2) [of F d p] show ?case by auto
qed simp

lemma searched_step:
  assumes ok: "devfs_ok F" and s: "searched F fdstat k ds" and k: "k < length (root # ds)"
    and no: "\<forall>p \<in> set (entries F ((root # ds) ! k)). \<not> is_terminal F fdstat p"
  shows "searched F fdstat (Suc k) (ds @ filter (is_subdir F) (entries F ((root # ds) ! k)))"
proof -
  let ?L = "root # ds"
  let ?d = "?L ! k" and ?new = "filter (is_subdir F) (entries F (?L ! k))"
  have "?d \<in> set ?L" using k by (rule nth_mem)
  then have d: "?d \<in> devdirs F" using s by (auto simp: searched_def intro: devdirs.dev)
  have take: "take (Suc k) (root # ds @ ?new) = take k ?L @ [?d]"
    using k take_Suc_conv_app_nth [of k ?L] by (simp del: take_Suc_Cons add: take_Cons')
  have dnew: "?d \<notin> set (take k ?L)"
    using s k id_take_nth_drop [OF k] unfolding searched_def
    by (metis distinct_append disjoint_iff list.set_intros(1))
  have new: "p \<in> devdirs F \<and> p \<noteq> root \<and> p \<notin> set ds" if p: "p \<in> set ?new" for p
  proof -
    have "p \<in> devdirs F" using p d by (auto intro: devdirs.sub)
    obtain x where x: "x \<noteq> []" "CHR ''/'' \<notin> set x" "p = ?d @ ''/'' @ x" using entries_ok(2) [OF ok d] p by auto
    have "length root \<le> length ?d" using devdirs_root [OF d ok] by auto
    with x(1,3) have "length root < length p" by simp
    then have "p \<noteq> root" by blast
    moreover have "p \<notin> set ds"
    proof
      assume "p \<in> set ds"
      with s obtain d' x' where "d' \<in> set (take k ?L)" "CHR ''/'' \<notin> set x'" "p = d' @ ''/'' @ x'"
        unfolding searched_def by blast
      with x entry_unique [of ?d x d' x'] dnew show False by metis
    qed
    ultimately show ?thesis using \<open>p \<in> devdirs F\<close> by blast
  qed
  show ?thesis
    unfolding searched_def take
  proof (intro conjI)
    show "set (ds @ ?new) \<subseteq> devdirs F" using s new by (auto simp: searched_def)
    show "distinct (root # ds @ ?new)"
      using s new entries_ok(1) [OF ok d] by (auto simp: searched_def)
    show "Suc k \<le> length (root # ds @ ?new)" using k by simp
    show "\<forall>d \<in> set (take k ?L @ [?d]). \<forall>p \<in> set (entries F d). \<not> is_terminal F fdstat p \<and> (is_subdir F p \<longrightarrow> p \<in> set (ds @ ?new))"
      using s no unfolding searched_def by auto
    show "\<forall>p \<in> set (ds @ ?new). \<exists>d \<in> set (take k ?L @ [?d]). \<exists>x. x \<noteq> [] \<and> CHR ''/'' \<notin> set x \<and> p = d @ ''/'' @ x"
      using s entries_ok(2) [OF ok d] unfolding searched_def by fastforce
  qed
qed

lemma searched_all:
  assumes "searched F fdstat (length (root # ds)) ds"
  shows "devdirs F \<subseteq> set (root # ds)"
proof
  fix p assume "p \<in> devdirs F"
  then show "p \<in> set (root # ds)"
  proof induction
    case (sub d p)
    with assms show ?case by (auto simp: searched_def)
  qed simp
qed

lemma searched_length:
  assumes "devfs_ok F" "searched F fdstat k ds"
  shows "length (root # ds) \<le> card (devdirs F)"
proof -
  have "set (root # ds) \<subseteq> devdirs F" using assms(2) by (auto simp: searched_def intro: devdirs.dev)
  then have "card (set (root # ds)) \<le> card (devdirs F)" using assms(1) by (intro card_mono) (auto simp: devfs_ok_def)
  then show ?thesis using assms(2) distinct_card [of "root # ds"] by (simp add: searched_def)
qed

text \<open>The files that are looked at.\<close>

definition dev_terminals :: "devfs \<Rightarrow> filestat \<Rightarrow> string set" where
  "dev_terminals F fdstat = {p. \<exists>d \<in> devdirs F. p \<in> set (entries F d) \<and> is_terminal F fdstat p}"

lemma list_loop_spec:
  assumes "devfs_ok F"
  shows "searched F fdstat (Suc i) ds \<Longrightarrow> card (devdirs F) < k + Suc i \<Longrightarrow>
    \<exists>rval ds'. list_loop k F fdstat i ds = Inr (rval, ds') \<and>
      (case rval of Some p \<Rightarrow> p \<in> dev_terminals F fdstat | None \<Rightarrow> dev_terminals F fdstat = {})"
proof (induction k arbitrary: i ds)
  case 0
  with searched_length [OF assms 0(1)] show ?case by (auto simp: searched_def)
next
  case (Suc k)
  show ?case
  proof (cases "i < length ds")
    case False
    with Suc.prems(1) have "searched F fdstat (length (root # ds)) ds" by (auto simp: searched_def le_antisym)
    moreover from this have "dev_terminals F fdstat = {}"
      using searched_all [of F fdstat ds] by (fastforce simp: dev_terminals_def searched_def)
    ultimately show ?thesis using False by simp
  next
    case True
    have d: "ds ! i \<in> devdirs F" using Suc.prems(1) True by (auto simp: searched_def)
    from searchdir_spec [OF assms d, of fdstat ds] show ?thesis
    proof (elim disjE exE conjE)
      fix p ds'
      assume "searchdir F fdstat (ds ! i) ds = Inr (Some p, ds')" "p \<in> set (entries F (ds ! i))" "is_terminal F fdstat p"
      with True d show ?thesis by (auto simp: dev_terminals_def)
    next
      let ?ds = "ds @ filter (is_subdir F) (entries F (ds ! i))"
      assume no: "searchdir F fdstat (ds ! i) ds = Inr (None, ?ds)" "\<forall>p \<in> set (entries F (ds ! i)). \<not> is_terminal F fdstat p"
      have "searched F fdstat (Suc (Suc i)) ?ds"
        using searched_step [OF assms Suc.prems(1)] True no(2) by simp
      from Suc.IH [OF this] Suc.prems(2) no(1) True show ?thesis by simp
    qed
  qed
qed

text \<open>
  A directory whose path has 255 characters: the name of its first entry is cut to nothing, the
  directory itself is added with a slash, and searching that writes past the buffer.
\<close>

lemma long_directory_added:
  assumes "length d + 1 = POSIX_PATH_MAX" "stat F (d @ ''/'') = Some st" "st_isdir st" "\<not> is_alias (d @ ''/'')"
  shows "scan_dir F fdstat (d @ ''/'') (x # names) ds = scan_dir F fdstat (d @ ''/'') names (ds @ [d @ ''/''])"
proof -
  have "\<not> skipped (d @ ''/'')" by (auto simp: skipped_def nth_append)
  then show ?thesis using assms by (simp add: add_def Let_def)
qed

lemma searchdir_overrun:
  "length d = POSIX_PATH_MAX \<Longrightarrow> opendir F d = Some names \<Longrightarrow> searchdir F fdstat d ds = Inl (Undef ''pathname overrun'')"
  by (simp add: searchdir_def)

section \<open>Properties\<close>

text \<open>
  C12. When the directories below /dev are finitely many and their paths short, the search ends, and
  \<open>ttyname\<close> returns a path below /dev whose file is the one the descriptor refers to, if there is
  one that is not an alias, and NULL otherwise; no directory is left in the list. It does not search
  when the descriptor is no terminal.
\<close>

theorem ttyname_correct:
  assumes "devfs_ok F" "card (devdirs F) < k"
  shows "(\<exists>rval. ttyname k F True (Some st) True = Inr (rval, []) \<and>
      (case rval of Some p \<Rightarrow> p \<in> dev_terminals F st | None \<Rightarrow> dev_terminals F st = {})) \<and>
    ttyname k F False fdstat chr = Inr (None, []) \<and> ttyname k F tty None chr = Inr (None, []) \<and>
    ttyname k F tty fdstat False = Inr (None, [])"
proof (intro conjI)
  from searchdir_spec [OF assms(1) devdirs.dev, of st "[]"]
  show "\<exists>rval. ttyname k F True (Some st) True = Inr (rval, []) \<and>
      (case rval of Some p \<Rightarrow> p \<in> dev_terminals F st | None \<Rightarrow> dev_terminals F st = {})"
  proof (elim disjE exE conjE)
    fix p ds
    assume "searchdir F st root [] = Inr (Some p, ds)" "p \<in> set (entries F root)" "is_terminal F st p"
    then show ?thesis by (auto simp: ttyname_def cleanup_def dev_terminals_def intro: devdirs.dev)
  next
    let ?ds = "[] @ filter (is_subdir F) (entries F root)"
    assume no: "searchdir F st root [] = Inr (None, ?ds)" "\<forall>p \<in> set (entries F root). \<not> is_terminal F st p"
    have "searched F st 0 []" by (simp add: searched_def)
    from searched_step [OF assms(1) this] no(2) have "searched F st (Suc 0) ?ds" by simp
    from list_loop_spec [OF assms(1) this, of k] assms(2) no(1) show ?thesis
      by (auto simp: ttyname_def cleanup_def)
  qed
qed (auto simp: ttyname_def split: option.split)

definition small_dev :: devfs where
  "small_dev = \<lparr>
     stat = (\<lambda>p. if p = ''/dev/pts'' \<or> p = ''/dev/fd'' then Some \<lparr>st_isdir = True, st_ino = 1, st_dev = 5\<rparr>
       else if p = ''/dev/tty'' then Some \<lparr>st_isdir = False, st_ino = 9, st_dev = 5\<rparr>
       else if p = ''/dev/stdin'' \<or> p = ''/dev/pts/0'' then Some \<lparr>st_isdir = False, st_ino = 3, st_dev = 6\<rparr> else None),
     opendir = (\<lambda>p. if p = ''/dev'' then Some [''stdin'', ''fd'', ''pts'', ''tty'']
       else if p = ''/dev/pts'' then Some [''0''] else None)\<rparr>"

lemma small_dev_dirs: "devdirs small_dev = {''/dev'', ''/dev/pts''}"
proof
  show "devdirs small_dev \<subseteq> {''/dev'', ''/dev/pts''}"
  proof
    fix p assume "p \<in> devdirs small_dev"
    then show "p \<in> {''/dev'', ''/dev/pts''}"
      by induction (auto simp: small_dev_def entries_def is_subdir_def is_alias_def skipped_def)
  qed
  have "''/dev/pts'' \<in> devdirs small_dev"
    by (rule devdirs.sub [OF devdirs.dev])
      (simp_all add: small_dev_def entries_def is_subdir_def is_alias_def skipped_def)
  then show "{''/dev'', ''/dev/pts''} \<subseteq> devdirs small_dev" by (simp add: devdirs.dev)
qed

lemma ttyname_correct_witness:
  "ttyname 3 small_dev True (Some \<lparr>st_isdir = False, st_ino = 3, st_dev = 6\<rparr>) True = Inr (Some ''/dev/pts/0'', [])"
proof -
  let ?st = "\<lparr>st_isdir = False, st_ino = 3, st_dev = 6\<rparr>"
  have ok: "devfs_ok small_dev" by (auto simp: devfs_ok_def small_dev_dirs) (auto simp: small_dev_def POSIX_PATH_MAX_def)
  have t: "dev_terminals small_dev ?st = {''/dev/pts/0''}"
    by (auto simp: dev_terminals_def small_dev_dirs) (auto simp: small_dev_def entries_def is_terminal_def is_alias_def split: if_splits)
  have "card (devdirs small_dev) < 3" by (simp add: small_dev_dirs)
  from ttyname_correct [OF ok this, of ?st None False True] obtain rval where "ttyname 3 small_dev True (Some ?st) True = Inr (rval, [])"
      "case rval of Some p \<Rightarrow> p \<in> dev_terminals small_dev ?st | None \<Rightarrow> dev_terminals small_dev ?st = {}"
    by blast
  with t show ?thesis by (cases rval) auto
qed

end
