(* ===== verification/MsgRelay.thy ===== *)
theory MsgRelay
  imports Prelude "HOL-Library.Sublist"
begin

text \<open>
  Waiting for messages of several queues with \<^verbatim>\<open>poll\<close>: a helper thread for each queue moves its
  messages to a socket. In \<^verbatim>\<open>ipc2/pollmsg.c\<close> the message goes through the socket; in
  \<^verbatim>\<open>exercises/pollmsg2.c\<close> it stays in memory shared with the main thread, which wakes the helper by a
  condition variable when it has printed it.
\<close>

section \<open>Messages\<close>

definition MAXMSZ :: nat where "MAXMSZ = 512"
definition NQ :: nat where "NQ = 3"

abbreviation "NULB \<equiv> CHR 0x00"

text \<open>What \<^verbatim>\<open>printf\<close> shows of a message that \<^verbatim>\<open>msgrcv\<close> has cut to \<open>MAXMSZ\<close> bytes.\<close>

definition shown :: "string \<Rightarrow> string" where
  "shown x = takeWhile (\<lambda>c. c \<noteq> NULB) (take MAXMSZ x)"

text \<open>The messages that were sent to the queues, and the lines printed, which name the queue.\<close>

definition texts :: "nat \<Rightarrow> (nat \<times> string) list \<Rightarrow> string list" where
  "texts i printed = map snd (filter (\<lambda>p. fst p = i) printed)"

lemma texts_simps [simp]:
  "texts i [] = []"
  "texts i (ps @ [(j, x)]) = texts i ps @ (if j = i then [x] else [])"
  by (simp_all add: texts_def)

section \<open>Shared memory: pollmsg2.c\<close>

text \<open>
  Where a helper is: before \<^verbatim>\<open>memset\<close>, \<^verbatim>\<open>msgrcv\<close>, the assignment of the length, taking the lock, writing
  to the socket and \<^verbatim>\<open>pthread_cond_wait\<close>; asleep there, woken and waiting for the lock, and before
  releasing it. The main thread waits in \<^verbatim>\<open>poll\<close>, looks at the queues one after the other, and works on one.
\<close>

datatype hpc = H_clear | H_recv | H_len nat | H_lock | H_write | H_wait | H_sleep | H_wake | H_unlock
datatype mpos = Away | At_print | At_lock | At_signal | At_unlock
datatype mpc = M_poll | M_scan nat "nat \<Rightarrow> bool" | M_at nat mpos "nat \<Rightarrow> bool"
datatype owner = Helper_thread | Main_thread

record threadinfo =
  queue :: "string list"
  helper_pc :: hpc
  mtext :: string
  len :: nat
  tokens :: nat
  mutex :: "owner option"

record relay =
  ti :: "nat \<Rightarrow> threadinfo"
  mainpc :: mpc
  printed :: "(nat \<times> string) list"
  sent :: "nat \<Rightarrow> string list"

definition zeros :: string where "zeros = replicate (MAXMSZ + 1) NULB"

fun helper :: "hpc \<Rightarrow> threadinfo \<Rightarrow> threadinfo option" where
  "helper H_clear t = Some (t\<lparr>mtext := zeros, helper_pc := H_recv\<rparr>)"
| "helper H_recv t = (case queue t of
       [] \<Rightarrow> None
     | x # q \<Rightarrow> let d = take MAXMSZ x in
         Some (t\<lparr>queue := q, mtext := d @ drop (length d) (mtext t), helper_pc := H_len (length d)\<rparr>))"
| "helper (H_len n) t = Some (t\<lparr>len := n, helper_pc := H_lock\<rparr>)"
| "helper H_lock t = (if mutex t = None then Some (t\<lparr>mutex := Some Helper_thread, helper_pc := H_write\<rparr>) else None)"
| "helper H_write t = Some (t\<lparr>tokens := tokens t + 1, helper_pc := H_wait\<rparr>)"
| "helper H_wait t = Some (t\<lparr>mutex := None, helper_pc := H_sleep\<rparr>)"
| "helper H_sleep t = None"
| "helper H_wake t = (if mutex t = None then Some (t\<lparr>mutex := Some Helper_thread, helper_pc := H_unlock\<rparr>) else None)"
| "helper H_unlock t = Some (t\<lparr>mutex := None, helper_pc := H_clear\<rparr>)"

definition set_ti :: "nat \<Rightarrow> threadinfo \<Rightarrow> relay \<Rightarrow> relay" where
  "set_ti i t s = s\<lparr>ti := (ti s)(i := t)\<rparr>"

fun main_at :: "nat \<Rightarrow> mpos \<Rightarrow> (nat \<Rightarrow> bool) \<Rightarrow> relay \<Rightarrow> relay option" where
  "main_at i At_print R s = (let t = ti s i; m = (mtext t)[len t := NULB] in
     Some ((set_ti i (t\<lparr>mtext := m\<rparr>) s)\<lparr>printed := printed s @ [(i, takeWhile (\<lambda>c. c \<noteq> NULB) m)], mainpc := M_at i At_lock R\<rparr>))"
| "main_at i At_lock R s = (if mutex (ti s i) = None
     then Some ((set_ti i ((ti s i)\<lparr>mutex := Some Main_thread\<rparr>) s)\<lparr>mainpc := M_at i At_signal R\<rparr>) else None)"
| "main_at i At_signal R s = (let t = ti s i in
     Some ((set_ti i (if helper_pc t = H_sleep then t\<lparr>helper_pc := H_wake\<rparr> else t) s)\<lparr>mainpc := M_at i At_unlock R\<rparr>))"
| "main_at i At_unlock R s = Some ((set_ti i ((ti s i)\<lparr>mutex := None\<rparr>) s)\<lparr>mainpc := M_scan (i + 1) R\<rparr>)"
| "main_at i Away R s = None"

definition main_thread :: "relay \<Rightarrow> relay option" where
  "main_thread s = (case mainpc s of
       M_poll \<Rightarrow> if \<exists>i<NQ. 0 < tokens (ti s i) then Some (s\<lparr>mainpc := M_scan 0 (\<lambda>i. 0 < tokens (ti s i))\<rparr>) else None
     | M_scan i R \<Rightarrow>
         if i < NQ then
           if R i then
             if tokens (ti s i) = 0 then None
             else Some ((set_ti i ((ti s i)\<lparr>tokens := tokens (ti s i) - 1\<rparr>) s)\<lparr>mainpc := M_at i At_print R\<rparr>)
           else Some (s\<lparr>mainpc := M_scan (i + 1) R\<rparr>)
         else Some (s\<lparr>mainpc := M_poll\<rparr>)
     | M_at i p R \<Rightarrow> main_at i p R s)"

text \<open>A schedule; other processes send, and \<^verbatim>\<open>pthread_cond_wait\<close> may return without a signal.\<close>

datatype act = Send nat string | Helper nat | Main | Spurious nat

definition relay_act :: "act \<Rightarrow> relay \<Rightarrow> relay option" where
  "relay_act a s = (case a of
       Send i x \<Rightarrow> if i < NQ then Some ((set_ti i ((ti s i)\<lparr>queue := queue (ti s i) @ [x]\<rparr>) s)\<lparr>sent := (sent s)(i := sent s i @ [x])\<rparr>) else None
     | Helper i \<Rightarrow> if i < NQ then map_option (\<lambda>t. set_ti i t s) (helper (helper_pc (ti s i)) (ti s i)) else None
     | Main \<Rightarrow> main_thread s
     | Spurious i \<Rightarrow> if i < NQ \<and> helper_pc (ti s i) = H_sleep then Some (set_ti i ((ti s i)\<lparr>helper_pc := H_wake\<rparr>) s) else None)"

fun relay_run :: "act list \<Rightarrow> relay \<Rightarrow> relay option" where
  "relay_run [] s = Some s"
| "relay_run (a # as) s = (case relay_act a s of None \<Rightarrow> None | Some s' \<Rightarrow> relay_run as s')"

definition relay_start :: relay where
  "relay_start = \<lparr>ti = (\<lambda>i. \<lparr>queue = [], helper_pc = H_clear, mtext = zeros, len = 0, tokens = 0, mutex = None\<rparr>),
     mainpc = M_poll, printed = [], sent = (\<lambda>i. [])\<rparr>"

section \<open>One queue\<close>

text \<open>What main prints when the length is \<open>n\<close>.\<close>

definition line :: "string \<Rightarrow> nat \<Rightarrow> string" where
  "line m n = takeWhile (\<lambda>c. c \<noteq> NULB) (m[n := NULB])"

lemma line_received: "line (take MAXMSZ x @ drop (length (take MAXMSZ x)) zeros) (length (take MAXMSZ x)) = shown x"
proof -
  let ?d = "take MAXMSZ x"
  have "drop (length ?d) zeros = NULB # replicate (MAXMSZ - length ?d) NULB"
    by (simp add: zeros_def Suc_diff_le flip: replicate_Suc)
  then have "(?d @ drop (length ?d) zeros)[length ?d := NULB] = ?d @ NULB # replicate (MAXMSZ - length ?d) NULB"
    by (simp del: length_take)
  then show ?thesis by (simp add: line_def shown_def takeWhile_append takeWhile_eq_self)
qed

text \<open>
  The message that is on its way from the queue to the printer, where the helper is and where the main
  thread is with this queue, and how socket and lock stand then.
\<close>

definition underway :: "threadinfo \<Rightarrow> mpos \<Rightarrow> string list" where
  "underway t p = (case helper_pc t of
       H_len n \<Rightarrow> [line (mtext t) n]
     | H_lock \<Rightarrow> [line (mtext t) (len t)]
     | H_write \<Rightarrow> [line (mtext t) (len t)]
     | H_wait \<Rightarrow> if p = Away \<or> p = At_print then [line (mtext t) (len t)] else []
     | H_sleep \<Rightarrow> if p = Away \<or> p = At_print then [line (mtext t) (len t)] else []
     | _ \<Rightarrow> [])"

definition shape :: "threadinfo \<Rightarrow> mpos \<Rightarrow> bool" where
  "shape t p \<longleftrightarrow> (case helper_pc t of
       H_clear \<Rightarrow> tokens t = 0 \<and> mutex t = None \<and> p = Away
     | H_recv \<Rightarrow> tokens t = 0 \<and> mutex t = None \<and> p = Away \<and> mtext t = zeros
     | H_len n \<Rightarrow> tokens t = 0 \<and> mutex t = None \<and> p = Away
     | H_lock \<Rightarrow> tokens t = 0 \<and> mutex t = None \<and> p = Away
     | H_write \<Rightarrow> tokens t = 0 \<and> mutex t = Some Helper_thread \<and> p = Away
     | H_wait \<Rightarrow> mutex t = Some Helper_thread \<and> (p = Away \<and> tokens t = 1 \<or> (p = At_print \<or> p = At_lock) \<and> tokens t = 0)
     | H_sleep \<Rightarrow> mutex t = None \<and> (p = Away \<and> tokens t = 1 \<or> (p = At_print \<or> p = At_lock) \<and> tokens t = 0)
          \<or> mutex t = Some Main_thread \<and> p = At_signal \<and> tokens t = 0
     | H_wake \<Rightarrow> tokens t = 0 \<and> (mutex t = Some Main_thread \<and> p = At_unlock \<or> mutex t = None \<and> p = Away)
     | H_unlock \<Rightarrow> tokens t = 0 \<and> mutex t = Some Helper_thread \<and> p = Away)"

definition chan_ok :: "string list \<Rightarrow> string list \<Rightarrow> threadinfo \<Rightarrow> mpos \<Rightarrow> bool" where
  "chan_ok xs P t p \<longleftrightarrow> shape t p \<and> map shown xs = P @ underway t p @ map shown (queue t)"

lemmas chan_defs = chan_ok_def shape_def underway_def

lemma chan_send: "chan_ok xs P t p \<Longrightarrow> chan_ok (xs @ [x]) P (t\<lparr>queue := queue t @ [x]\<rparr>) p"
  by (cases "helper_pc t") (simp_all add: chan_defs)

lemma chan_helper:
  assumes "chan_ok xs P t p" "helper (helper_pc t) t = Some t'"
  shows "chan_ok xs P t' p"
proof (cases "helper_pc t")
  case H_recv
  with assms show ?thesis
    by (auto simp: chan_defs Let_def line_received simp del: length_take split: list.splits)
qed (use assms in \<open>auto simp: chan_defs split: if_splits\<close>)

lemma chan_read:
  "chan_ok xs P t Away \<Longrightarrow> tokens t = Suc 0 \<Longrightarrow> chan_ok xs P (t\<lparr>tokens := 0\<rparr>) At_print"
  by (cases "helper_pc t") (simp_all add: chan_defs)

lemma chan_print:
  "chan_ok xs P t At_print \<Longrightarrow>
    chan_ok xs (P @ [line (mtext t) (len t)]) (t\<lparr>mtext := (mtext t)[len t := NULB]\<rparr>) At_lock"
  by (cases "helper_pc t") (simp_all add: chan_defs)

lemma chan_lock:
  "chan_ok xs P t At_lock \<Longrightarrow> mutex t = None \<Longrightarrow> chan_ok xs P (t\<lparr>mutex := Some Main_thread\<rparr>) At_signal"
  by (cases "helper_pc t") (simp_all add: chan_defs)

lemma chan_signal:
  "chan_ok xs P t At_signal \<Longrightarrow>
    chan_ok xs P (if helper_pc t = H_sleep then t\<lparr>helper_pc := H_wake\<rparr> else t) At_unlock"
  by (cases "helper_pc t") (simp_all add: chan_defs)

lemma chan_unlock: "chan_ok xs P t At_unlock \<Longrightarrow> chan_ok xs P (t\<lparr>mutex := None\<rparr>) Away"
  by (cases "helper_pc t") (simp_all add: chan_defs)

section \<open>All queues\<close>

text \<open>Where the main thread is with queue \<open>i\<close>, and what it believes to be readable.\<close>

definition position :: "mpc \<Rightarrow> nat \<Rightarrow> mpos" where
  "position m i = (case m of M_at j p R \<Rightarrow> if i = j then p else Away | _ \<Rightarrow> Away)"

definition expects :: "mpc \<Rightarrow> nat \<Rightarrow> bool" where
  "expects m i \<longleftrightarrow> (case m of M_poll \<Rightarrow> False | M_scan j R \<Rightarrow> j \<le> i \<and> R i | M_at j p R \<Rightarrow> j < i \<and> R i)"

definition relay_inv :: "relay \<Rightarrow> bool" where
  "relay_inv s \<longleftrightarrow> (\<forall>i<NQ. chan_ok (sent s i) (texts i (printed s)) (ti s i) (position (mainpc s) i) \<and>
       (expects (mainpc s) i \<longrightarrow> tokens (ti s i) = 1)) \<and>
     (case mainpc s of M_at i p R \<Rightarrow> i < NQ \<and> p \<noteq> Away | _ \<Rightarrow> True)"

lemma relay_inv_start: "relay_inv relay_start"
  by (simp add: relay_inv_def relay_start_def chan_defs position_def expects_def)

text \<open>A helper never takes a token away; only one is ever in the socket.\<close>

lemma helper_tokens: "helper (helper_pc t) t = Some t' \<Longrightarrow> tokens t \<le> tokens t'"
  by (cases "helper_pc t") (auto simp: Let_def split: list.splits if_splits)

lemma chan_tokens: "chan_ok xs P t p \<Longrightarrow> tokens t \<le> 1"
  by (cases "helper_pc t") (auto simp: chan_defs)

lemma position_simps [simp]:
  "position M_poll i = Away"
  "position (M_scan j R) i = Away"
  "position (M_at j p R) i = (if i = j then p else Away)"
  by (simp_all add: position_def)

lemma expects_simps [simp]:
  "expects M_poll i \<longleftrightarrow> False"
  "expects (M_scan j R) i \<longleftrightarrow> j \<le> i \<and> R i"
  "expects (M_at j p R) i \<longleftrightarrow> j < i \<and> R i"
  by (simp_all add: expects_def)

lemma set_ti_simps [simp]:
  "ti (set_ti i t s) = (ti s)(i := t)"
  "mainpc (set_ti i t s) = mainpc s"
  "printed (set_ti i t s) = printed s"
  "sent (set_ti i t s) = sent s"
  by (simp_all add: set_ti_def)

lemma relay_inv_chan:
  "relay_inv s \<Longrightarrow> i < NQ \<Longrightarrow> chan_ok (sent s i) (texts i (printed s)) (ti s i) (position (mainpc s) i)"
  "relay_inv s \<Longrightarrow> i < NQ \<Longrightarrow> expects (mainpc s) i \<Longrightarrow> tokens (ti s i) = 1"
  "relay_inv s \<Longrightarrow> mainpc s = M_at i p R \<Longrightarrow> i < NQ \<and> p \<noteq> Away"
  by (auto simp: relay_inv_def)

lemma relay_invI:
  "(\<And>i. i < NQ \<Longrightarrow> chan_ok (sent s i) (texts i (printed s)) (ti s i) (position (mainpc s) i)) \<Longrightarrow>
   (\<And>i. i < NQ \<Longrightarrow> expects (mainpc s) i \<Longrightarrow> tokens (ti s i) = 1) \<Longrightarrow>
   (\<And>i p R. mainpc s = M_at i p R \<Longrightarrow> i < NQ \<and> p \<noteq> Away) \<Longrightarrow> relay_inv s"
  by (auto simp: relay_inv_def split: mpc.splits)

lemma relay_inv_send:
  assumes "relay_inv s" "relay_act (Send i x) s = Some s'" shows "relay_inv s'"
  using assms(2) relay_inv_chan [OF assms(1)]
  by (auto simp: relay_act_def split: if_splits intro!: relay_invI chan_send)

lemma relay_inv_helper:
  assumes "relay_inv s" "relay_act (Helper i) s = Some s'" shows "relay_inv s'"
proof -
  from assms(2) obtain t where i: "i < NQ" and t: "helper (helper_pc (ti s i)) (ti s i) = Some t"
    and s': "s' = set_ti i t s"
    by (auto simp: relay_act_def split: if_splits)
  have c: "chan_ok (sent s i) (texts i (printed s)) t (position (mainpc s) i)"
    by (rule chan_helper [OF relay_inv_chan(1) [OF assms(1) i] t])
  show ?thesis
  proof (rule relay_invI)
    fix j assume "j < NQ" "expects (mainpc s') j"
    then have "tokens (ti s j) = 1"
      using relay_inv_chan(2) [OF assms(1)] by (simp add: s')
    then show "tokens (ti s' j) = 1"
      using helper_tokens [OF t] chan_tokens [OF c] by (auto simp: s')
  qed (use c relay_inv_chan [OF assms(1)] in \<open>auto simp: s'\<close>)
qed

lemma line_update: "takeWhile (\<lambda>c. c \<noteq> NULB) (m[n := NULB]) = line m n"
  by (simp add: line_def)

lemma relay_inv_main_at:
  assumes "relay_inv s" "mainpc s = M_at i p R" "main_at i p R s = Some s'" shows "relay_inv s'"
proof -
  have i: "i < NQ" and c: "chan_ok (sent s i) (texts i (printed s)) (ti s i) p"
    using relay_inv_chan(1,3) [OF assms(1)] assms(2) by (metis position_simps(3))+
  have other: "\<And>j. j < NQ \<Longrightarrow> j \<noteq> i \<Longrightarrow> chan_ok (sent s j) (texts j (printed s)) (ti s j) Away"
    using relay_inv_chan(1) [OF assms(1)] assms(2) by (metis position_simps(3))
  have e: "\<And>j. j < NQ \<Longrightarrow> i < j \<Longrightarrow> R j \<Longrightarrow> tokens (ti s j) = 1"
    using relay_inv_chan(2) [OF assms(1)] assms(2) by simp
  show ?thesis
  proof (cases p)
    case At_print
    with assms(3) c i other e show ?thesis
      by (auto simp: Let_def line_update intro!: relay_invI chan_print)
  next
    case At_lock
    with assms(3) c i other e show ?thesis
      by (auto split: if_splits intro!: relay_invI chan_lock)
  next
    case At_signal
    have "chan_ok (sent s i) (texts i (printed s))
        (if helper_pc (ti s i) = H_sleep then (ti s i)\<lparr>helper_pc := H_wake\<rparr> else ti s i) At_unlock"
      using c At_signal by (intro chan_signal) simp
    with At_signal assms(3) i other e show ?thesis
      by (auto simp: Let_def intro!: relay_invI)
  next
    case At_unlock
    with assms(3) c i other e show ?thesis
      by (auto intro!: relay_invI chan_unlock)
  qed (use assms(3) in simp)
qed

lemma relay_inv_main:
  assumes "relay_inv s" "main_thread s = Some s'" shows "relay_inv s'"
proof (cases "mainpc s")
  case M_poll
  with assms(2) have "s' = s\<lparr>mainpc := M_scan 0 (\<lambda>i. 0 < tokens (ti s i))\<rparr>"
    by (auto simp: main_thread_def split: if_splits)
  then show ?thesis
    using relay_inv_chan [OF assms(1)] M_poll chan_tokens
    by (intro relay_invI) (fastforce simp: le_antisym Suc_leI)+
next
  case (M_scan i R)
  with assms show ?thesis
    using relay_inv_chan [OF assms(1)]
    by (auto simp: main_thread_def split: if_splits intro!: relay_invI chan_read)
next
  case (M_at i p R)
  with assms relay_inv_main_at show ?thesis by (auto simp: main_thread_def)
qed

fun spurious :: "act \<Rightarrow> bool" where
  "spurious (Spurious i) = True"
| "spurious _ = False"

lemma relay_inv_run:
  "relay_run as s = Some s' \<Longrightarrow> relay_inv s \<Longrightarrow> \<forall>a\<in>set as. \<not> spurious a \<Longrightarrow> relay_inv s'"
proof (induction as arbitrary: s)
  case (Cons a as)
  then obtain s1 where a: "relay_act a s = Some s1" "relay_run as s1 = Some s'"
    by (auto split: option.splits)
  have "relay_inv s1"
  proof (cases a)
    case (Send i x)
    with a Cons.prems(2) show ?thesis by (metis relay_inv_send)
  next
    case (Helper i)
    with a Cons.prems(2) show ?thesis by (metis relay_inv_helper)
  next
    case Main
    with a have "main_thread s = Some s1" by (simp add: relay_act_def)
    with Cons.prems(2) show ?thesis by (rule relay_inv_main)
  qed (use Cons.prems(3) in simp)
  moreover have "\<forall>a\<in>set as. \<not> spurious a" using Cons.prems(3) by simp
  ultimately show ?case using Cons.IH a(2) by blast
qed simp

lemma relay_prefix:
  assumes "relay_inv s" "i < NQ"
  shows "prefix (texts i (printed s)) (map shown (sent s i))"
  using relay_inv_chan(1) [OF assms] by (auto simp: chan_ok_def)

text \<open>Nobody but a sender can go on: the helpers wait in \<^verbatim>\<open>msgrcv\<close> and the main thread in \<^verbatim>\<open>poll\<close>.\<close>

definition relay_idle :: "relay \<Rightarrow> bool" where
  "relay_idle s \<longleftrightarrow> relay_act Main s = None \<and> (\<forall>i<NQ. relay_act (Helper i) s = None)"

lemma stuck_helper:
  assumes "chan_ok xs P t Away" "tokens t = 0" "helper (helper_pc t) t = None"
  shows "P = map shown xs"
  using assms by (cases "helper_pc t") (auto simp: chan_defs Let_def split: if_splits list.splits)

lemma stuck_lock: "chan_ok xs P t At_lock \<Longrightarrow> mutex t \<noteq> None \<Longrightarrow> helper (helper_pc t) t \<noteq> None"
  by (cases "helper_pc t") (auto simp: chan_defs)

lemma relay_complete:
  assumes "relay_inv s" "relay_idle s" "i < NQ"
  shows "texts i (printed s) = map shown (sent s i)"
proof -
  have h: "\<And>j. j < NQ \<Longrightarrow> helper (helper_pc (ti s j)) (ti s j) = None" and m: "main_thread s = None"
    using assms(2) by (auto simp: relay_idle_def relay_act_def)
  note inv = relay_inv_chan [OF assms(1)]
  have "mainpc s = M_poll"
  proof (cases "mainpc s")
    case (M_scan j R)
    with m inv(2) [of j] show ?thesis by (auto simp: main_thread_def split: if_splits)
  next
    case (M_at j p R)
    with inv(1) [of j] inv(3) [of j p R] have j: "j < NQ" "p \<noteq> Away" "chan_ok (sent s j) (texts j (printed s)) (ti s j) p"
      by auto
    with M_at m have "p = At_lock" "mutex (ti s j) \<noteq> None"
      by (cases p; auto simp: main_thread_def Let_def split: if_splits)+
    with j stuck_lock h show ?thesis by metis
  qed
  with m have "tokens (ti s i) = 0" "position (mainpc s) i = Away"
    using assms(3) by (auto simp: main_thread_def split: if_splits)
  with stuck_helper [OF _ _ h] inv(1) assms(3) show ?thesis by metis
qed

lemma three_queues: "(\<exists>i<3::nat. P i) \<longleftrightarrow> P 0 \<or> P 1 \<or> P 2" "(\<forall>i<3::nat. P i) \<longleftrightarrow> P 0 \<and> P 1 \<and> P 2"
  by (auto simp: less_Suc_eq numeral_eq_Suc)

text \<open>A message handed over by its helper, woken by main, and one read after a wakeup without a signal.\<close>

definition to_sleep :: "nat \<Rightarrow> act list" where
  "to_sleep i = [Helper i, Helper i, Helper i, Helper i, Helper i, Helper i]"

definition scan_one :: "act list" where
  "scan_one = [Main, Main, Main, Main, Main, Main, Main, Main, Main]"

definition one_message :: "act list" where
  "one_message = Send 0 ''hi'' # to_sleep 0 @ scan_one @ [Helper 0, Helper 0, Helper 0, Helper 1, Helper 2]"

definition woken_early :: "act list" where
  "woken_early = [Send 0 ''A'', Send 0 ''B''] @ to_sleep 0 @ [Spurious 0, Helper 0, Helper 0] @ to_sleep 0 @ scan_one @ scan_one"

lemmas relay_eval = to_sleep_def scan_one_def relay_start_def relay_act_def main_thread_def set_ti_def
  three_queues Let_def MAXMSZ_def NQ_def

lemma drop_zeros: "drop (Suc 0) zeros = NULB # replicate 511 NULB"
  by (simp add: zeros_def MAXMSZ_def replicate_Suc [of 511, simplified] flip: Suc_eq_plus1 drop_replicate)
    (simp add: flip: replicate_Suc)

lemma one_message_run:
  "\<exists>s. relay_run one_message relay_start = Some s \<and> relay_idle s \<and> sent s 0 = [''hi'']"
  by (simp add: one_message_def relay_idle_def relay_eval)

lemma woken_early_run:
  "\<exists>s. relay_run woken_early relay_start = Some s \<and> sent s 0 = [''A'', ''B''] \<and> texts 0 (printed s) = [''B'', ''B'']"
  by (simp add: woken_early_def relay_eval drop_zeros texts_def)

text \<open>
  The helpers and the main thread of \<^verbatim>\<open>exercises/pollmsg2.c\<close> hand over every message: in every
  schedule of three helpers, main thread and senders, as long as \<^verbatim>\<open>pthread_cond_wait\<close> returns only when
  it is signalled, what was printed for a queue is a prefix of what was sent to it, cut to \<open>MAXMSZ\<close> bytes
  and at the first zero byte; no message is doubled, reordered or mixed with another, though both threads
  use one buffer and the lock is not held when main prints. When nobody but a sender can go on everything
  is printed, so that no wakeup is lost. A single return of \<^verbatim>\<open>pthread_cond_wait\<close> without a signal, for
  which the helper has no loop, is enough to lose a message and to print another twice.
\<close>

lemma shared_relayed:
  "(\<forall>as s. relay_run as relay_start = Some s \<and> (\<forall>a\<in>set as. \<not> spurious a) \<longrightarrow>
      (\<forall>i<NQ. prefix (texts i (printed s)) (map shown (sent s i)) \<and>
        (relay_idle s \<longrightarrow> texts i (printed s) = map shown (sent s i)))) \<and>
   (\<exists>as s. relay_run as relay_start = Some s \<and> length (filter spurious as) = 1 \<and>
      sent s 0 = [''A'', ''B''] \<and> texts 0 (printed s) = [''B'', ''B''])"
proof (intro conjI allI impI)
  fix as s i assume "relay_run as relay_start = Some s \<and> (\<forall>a\<in>set as. \<not> spurious a)" and i: "i < NQ"
  then have "relay_inv s" using relay_inv_run relay_inv_start by blast
  with i show "prefix (texts i (printed s)) (map shown (sent s i))"
    "relay_idle s \<Longrightarrow> texts i (printed s) = map shown (sent s i)"
    using relay_prefix relay_complete by blast+
next
  have "length (filter spurious woken_early) = 1" by (simp add: woken_early_def to_sleep_def scan_one_def)
  with woken_early_run show "\<exists>as s. relay_run as relay_start = Some s \<and> length (filter spurious as) = 1 \<and>
      sent s 0 = [''A'', ''B''] \<and> texts 0 (printed s) = [''B'', ''B'']" by blast
qed

section \<open>Through the socket: pollmsg.c\<close>

text \<open>
  The helper has a message of its own and sends its text as one datagram; \<^verbatim>\<open>buf\<close> is the only buffer of the
  main thread. A step of \<^verbatim>\<open>msgrcv\<close>, \<^verbatim>\<open>poll\<close> or \<^verbatim>\<open>read\<close> with nothing to receive is \<open>Waits\<close>. Writing no byte
  sends an empty datagram here, which POSIX leaves open: the property is about messages with a text.
\<close>

datatype hpc1 = R_clear | R_recv | R_write nat

record threadinfo1 =
  queue1 :: "string list"
  helper1_pc :: hpc1
  mtext1 :: string
  socket1 :: "string list"

datatype mpc1 = P_poll | P_scan nat "nat \<Rightarrow> bool"

record relay1 =
  ti1 :: "nat \<Rightarrow> threadinfo1"
  mainpc1 :: mpc1
  buf1 :: string
  printed1 :: "(nat \<times> string) list"
  sent1 :: "nat \<Rightarrow> string list"

fun helper1 :: "hpc1 \<Rightarrow> threadinfo1 \<Rightarrow> threadinfo1 res" where
  "helper1 R_clear t = Inr (t\<lparr>mtext1 := replicate MAXMSZ NULB, helper1_pc := R_recv\<rparr>)"
| "helper1 R_recv t = (case queue1 t of
       [] \<Rightarrow> Inl Waits
     | x # q \<Rightarrow> let d = take MAXMSZ x in
         Inr (t\<lparr>queue1 := q, mtext1 := d @ drop (length d) (mtext1 t), helper1_pc := R_write (length d)\<rparr>))"
| "helper1 (R_write n) t = Inr (t\<lparr>socket1 := socket1 t @ [take n (mtext1 t)], helper1_pc := R_clear\<rparr>)"

definition main1 :: "relay1 \<Rightarrow> relay1 res" where
  "main1 s = (case mainpc1 s of
       P_poll \<Rightarrow> if \<exists>i<NQ. socket1 (ti1 s i) \<noteq> [] then Inr (s\<lparr>mainpc1 := P_scan 0 (\<lambda>i. socket1 (ti1 s i) \<noteq> [])\<rparr>) else Inl Waits
     | P_scan i R \<Rightarrow>
         if i < NQ then
           if R i then (case socket1 (ti1 s i) of
               [] \<Rightarrow> Inl Waits
             | d # ds \<Rightarrow>
                 if length d < MAXMSZ then
                   let b = (d @ drop (length d) (buf1 s))[length d := NULB] in
                   Inr (s\<lparr>ti1 := (ti1 s)(i := (ti1 s i)\<lparr>socket1 := ds\<rparr>), buf1 := b,
                     printed1 := printed1 s @ [(i, takeWhile (\<lambda>c. c \<noteq> NULB) b)], mainpc1 := P_scan (i + 1) R\<rparr>)
                 else Inl (Undef ''buf[n]''))
           else Inr (s\<lparr>mainpc1 := P_scan (i + 1) R\<rparr>)
         else Inr (s\<lparr>mainpc1 := P_poll\<rparr>))"

definition relay1_act :: "act \<Rightarrow> relay1 \<Rightarrow> relay1 res" where
  "relay1_act a s = (case a of
       Send i x \<Rightarrow> if i < NQ then Inr (s\<lparr>ti1 := (ti1 s)(i := (ti1 s i)\<lparr>queue1 := queue1 (ti1 s i) @ [x]\<rparr>), sent1 := (sent1 s)(i := sent1 s i @ [x])\<rparr>) else Inl Waits
     | Helper i \<Rightarrow> if i < NQ then bnd (helper1 (helper1_pc (ti1 s i)) (ti1 s i)) (\<lambda>t. Inr (s\<lparr>ti1 := (ti1 s)(i := t)\<rparr>)) else Inl Waits
     | Main \<Rightarrow> main1 s
     | Spurious i \<Rightarrow> Inl Waits)"

fun relay1_run :: "act list \<Rightarrow> relay1 \<Rightarrow> relay1 res" where
  "relay1_run [] s = Inr s"
| "relay1_run (a # as) s = bnd (relay1_act a s) (relay1_run as)"

definition relay1_start :: relay1 where
  "relay1_start = \<lparr>ti1 = (\<lambda>i. \<lparr>queue1 = [], helper1_pc = R_clear, mtext1 = replicate MAXMSZ NULB, socket1 = []\<rparr>),
     mainpc1 = P_poll, buf1 = replicate MAXMSZ NULB, printed1 = [], sent1 = (\<lambda>i. [])\<rparr>"

text \<open>What is underway of one queue, with the buffer of its helper and the socket.\<close>

definition cut :: "string \<Rightarrow> string" where "cut x = takeWhile (\<lambda>c. c \<noteq> NULB) x"

definition underway1 :: "threadinfo1 \<Rightarrow> string list" where
  "underway1 t = map cut (socket1 t) @ (case helper1_pc t of R_write n \<Rightarrow> [cut (take n (mtext1 t))] | _ \<Rightarrow> [])"

definition chan1_ok :: "string list \<Rightarrow> string list \<Rightarrow> threadinfo1 \<Rightarrow> bool" where
  "chan1_ok xs P t \<longleftrightarrow> map shown xs = P @ underway1 t @ map shown (queue1 t)"

lemmas chan1_defs = chan1_ok_def underway1_def

lemma chan1_send: "chan1_ok xs P t \<Longrightarrow> chan1_ok (xs @ [x]) P (t\<lparr>queue1 := queue1 t @ [x]\<rparr>)"
  by (cases "helper1_pc t") (simp_all add: chan1_defs)

lemma take_received: "take (min (length x) n) (take n x @ ys) = take n x"
  by (simp add: min_def)

lemma chan1_helper:
  assumes "chan1_ok xs P t" "helper1 (helper1_pc t) t = Inr t'"
  shows "chan1_ok xs P t'"
  using assms by (cases "helper1_pc t") (auto simp: chan1_defs Let_def cut_def shown_def take_received simp del: take_append split: list.splits)

lemma chan1_print:
  assumes "chan1_ok xs P t" "socket1 t = d # ds" "length d < length b"
  shows "chan1_ok xs (P @ [takeWhile (\<lambda>c. c \<noteq> NULB) ((d @ drop (length d) b)[length d := NULB])]) (t\<lparr>socket1 := ds\<rparr>)"
proof -
  have "takeWhile (\<lambda>c. c \<noteq> NULB) ((d @ drop (length d) b)[length d := NULB]) = cut d"
    using assms(3) by (simp add: list_update_append Cons_nth_drop_Suc [symmetric] cut_def takeWhile_append takeWhile_eq_self)
  with assms(1,2) show ?thesis by (cases "helper1_pc t") (simp_all add: chan1_defs)
qed

text \<open>Every message fits into \<^verbatim>\<open>buf\<close> with the zero byte behind it.\<close>

definition fits1 :: "threadinfo1 \<Rightarrow> bool" where
  "fits1 t \<longleftrightarrow> (\<forall>x\<in>set (queue1 t). length x < MAXMSZ) \<and> (\<forall>x\<in>set (socket1 t). length x < MAXMSZ) \<and>
     (case helper1_pc t of R_write n \<Rightarrow> n < MAXMSZ | _ \<Rightarrow> True)"

lemma fits1_updates:
  "fits1 t \<Longrightarrow> length x < MAXMSZ \<Longrightarrow> fits1 (t\<lparr>queue1 := queue1 t @ [x]\<rparr>)"
  "fits1 t \<Longrightarrow> socket1 t = d # ds \<Longrightarrow> fits1 (t\<lparr>socket1 := ds\<rparr>)"
  "fits1 t \<Longrightarrow> socket1 t = d # ds \<Longrightarrow> length d < MAXMSZ"
  by (cases "helper1_pc t"; auto simp: fits1_def)+

lemma fits1_helper: "fits1 t \<Longrightarrow> helper1 (helper1_pc t) t = Inr t' \<Longrightarrow> fits1 t'"
  by (cases "helper1_pc t") (auto simp: fits1_def Let_def split: list.splits)

lemma helper1_socket: "helper1 (helper1_pc t) t = Inr t' \<Longrightarrow> socket1 t \<noteq> [] \<Longrightarrow> socket1 t' \<noteq> []"
  by (cases "helper1_pc t") (auto simp: Let_def split: list.splits)

lemma helper1_waits: "helper1 (helper1_pc t) t = Inl e \<Longrightarrow> e = Waits \<and> helper1_pc t = R_recv \<and> queue1 t = []"
  by (cases "helper1_pc t") (auto simp: Let_def split: list.splits)

definition expects1 :: "mpc1 \<Rightarrow> nat \<Rightarrow> bool" where
  "expects1 m i \<longleftrightarrow> (case m of P_poll \<Rightarrow> False | P_scan j R \<Rightarrow> j \<le> i \<and> R i)"

lemma expects1_simps [simp]:
  "expects1 P_poll i \<longleftrightarrow> False"
  "expects1 (P_scan j R) i \<longleftrightarrow> j \<le> i \<and> R i"
  by (simp_all add: expects1_def)

definition relay1_inv :: "relay1 \<Rightarrow> bool" where
  "relay1_inv s \<longleftrightarrow> length (buf1 s) = MAXMSZ \<and> (\<forall>i<NQ. chan1_ok (sent1 s i) (texts i (printed1 s)) (ti1 s i) \<and>
     fits1 (ti1 s i) \<and> (expects1 (mainpc1 s) i \<longrightarrow> socket1 (ti1 s i) \<noteq> []))"

lemma relay1_inv_start: "relay1_inv relay1_start"
  by (simp add: relay1_inv_def relay1_start_def chan1_defs fits1_def)

text \<open>A step keeps the invariant or waits; it never leaves \<^verbatim>\<open>buf\<close>.\<close>

lemma relay1_inv_main:
  assumes "relay1_inv s" shows "case main1 s of Inl e \<Rightarrow> e = Waits | Inr s' \<Rightarrow> relay1_inv s'"
proof (cases "mainpc1 s")
  case P_poll
  with assms show ?thesis by (auto simp: main1_def relay1_inv_def)
next
  case (P_scan i R)
  show ?thesis
  proof (cases "i < NQ \<and> R i")
    case True
    with assms P_scan have "socket1 (ti1 s i) \<noteq> []" by (simp add: relay1_inv_def)
    then obtain d ds where d: "socket1 (ti1 s i) = d # ds" by (cases "socket1 (ti1 s i)") auto
    with assms True have "length d < MAXMSZ" "fits1 ((ti1 s i)\<lparr>socket1 := ds\<rparr>)"
      by (auto simp: relay1_inv_def intro: fits1_updates)
    moreover from this(1) assms True d have "chan1_ok (sent1 s i)
        (texts i (printed1 s) @ [takeWhile (\<lambda>c. c \<noteq> NULB) ((d @ drop (length d) (buf1 s))[length d := NULB])])
        ((ti1 s i)\<lparr>socket1 := ds\<rparr>)"
      by (intro chan1_print) (auto simp: relay1_inv_def)
    ultimately show ?thesis
      using assms True P_scan d by (auto simp: main1_def Let_def relay1_inv_def)
  qed (use assms P_scan in \<open>auto simp: main1_def relay1_inv_def Suc_le_eq\<close>)
qed

lemma relay1_inv_helper:
  assumes "relay1_inv s" "i < NQ"
  shows "case relay1_act (Helper i) s of Inl e \<Rightarrow> e = Waits | Inr s' \<Rightarrow> relay1_inv s'"
proof (cases "helper1 (helper1_pc (ti1 s i)) (ti1 s i)")
  case (Inl e)
  with assms(2) helper1_waits show ?thesis by (auto simp: relay1_act_def)
next
  case (Inr t)
  moreover have "chan1_ok (sent1 s i) (texts i (printed1 s)) t" "fits1 t"
    using assms Inr chan1_helper fits1_helper unfolding relay1_inv_def by blast+
  ultimately show ?thesis
    using assms helper1_socket [OF Inr] by (auto simp: relay1_act_def relay1_inv_def)
qed

text \<open>Messages have a text, and room for the zero byte behind it.\<close>

fun small :: "act \<Rightarrow> bool" where
  "small (Send i x) \<longleftrightarrow> 0 < length x \<and> length x < MAXMSZ"
| "small _ \<longleftrightarrow> True"

lemma relay1_inv_act:
  assumes "relay1_inv s" "small a"
  shows "case relay1_act a s of Inl e \<Rightarrow> e = Waits | Inr s' \<Rightarrow> relay1_inv s'"
proof (cases a)
  case (Send i x)
  with assms show ?thesis
    by (auto simp: relay1_act_def relay1_inv_def intro: chan1_send fits1_updates)
next
  case (Helper i)
  with assms(1) relay1_inv_helper show ?thesis by (cases "i < NQ") (auto simp: relay1_act_def)
qed (use assms(1) relay1_inv_main in \<open>auto simp: relay1_act_def\<close>)

lemma relay1_inv_run:
  "relay1_inv s \<Longrightarrow> \<forall>a\<in>set as. small a \<Longrightarrow>
    (case relay1_run as s of Inl e \<Rightarrow> e = Waits | Inr s' \<Rightarrow> relay1_inv s')"
proof (induction as arbitrary: s)
  case (Cons a as)
  with relay1_inv_act [of s a] show ?case by (cases "relay1_act a s") auto
qed simp

definition relay1_idle :: "relay1 \<Rightarrow> bool" where
  "relay1_idle s \<longleftrightarrow> relay1_act Main s = Inl Waits \<and> (\<forall>i<NQ. relay1_act (Helper i) s = Inl Waits)"

lemma relay1_complete:
  assumes "relay1_inv s" "relay1_idle s" "i < NQ"
  shows "texts i (printed1 s) = map shown (sent1 s i)"
proof -
  have "helper1_pc (ti1 s i) = R_recv \<and> queue1 (ti1 s i) = []"
    using assms(2,3) helper1_waits by (auto simp: relay1_idle_def relay1_act_def bnd_Inl_iff)
  moreover have "socket1 (ti1 s i) = []"
  proof (cases "mainpc1 s")
    case P_poll
    with assms(2,3) show ?thesis by (auto simp: relay1_idle_def relay1_act_def main1_def split: if_splits)
  next
    case (P_scan j R)
    with assms(1,2) show ?thesis
      by (auto simp: relay1_idle_def relay1_act_def main1_def relay1_inv_def Let_def split: if_splits list.splits)
  qed
  ultimately show ?thesis using assms(1,3) by (simp add: relay1_inv_def chan1_defs)
qed

lemma relay1_prefix: "relay1_inv s \<Longrightarrow> i < NQ \<Longrightarrow> prefix (texts i (printed1 s)) (map shown (sent1 s i))"
  by (auto simp: relay1_inv_def chan1_ok_def)

lemmas relay1_eval = relay1_start_def relay1_act_def main1_def three_queues Let_def NQ_def

lemma longest_message:
  "length x = MAXMSZ \<Longrightarrow>
    relay1_run [Send 0 x, Helper 0, Helper 0, Helper 0, Main, Main] relay1_start = Inl (Undef ''buf[n]'')"
  by (simp add: relay1_eval)

text \<open>
  \<^verbatim>\<open>ipc2/pollmsg.c\<close> does the same with one datagram for each message: for messages of 1 to 511
  bytes, in every schedule, what was printed for a queue is a prefix of what was sent to it, everything
  is printed when the threads wait, and no step writes outside \<^verbatim>\<open>buf\<close>. A message of \<open>MAXMSZ\<close> bytes, which
  \<^verbatim>\<open>msgrcv\<close> is asked for, makes the zero byte go behind the end of \<^verbatim>\<open>buf\<close>.
\<close>

lemma datagrams_relayed:
  "(\<forall>as. (\<forall>a\<in>set as. small a) \<longrightarrow> (case relay1_run as relay1_start of
        Inl e \<Rightarrow> e = Waits
      | Inr s \<Rightarrow> \<forall>i<NQ. prefix (texts i (printed1 s)) (map shown (sent1 s i)) \<and>
          (relay1_idle s \<longrightarrow> texts i (printed1 s) = map shown (sent1 s i)))) \<and>
   (\<forall>x. length x = MAXMSZ \<longrightarrow> relay1_run [Send 0 x, Helper 0, Helper 0, Helper 0, Main, Main] relay1_start =
      Inl (Undef ''buf[n]''))"
proof (intro conjI allI impI)
  fix as assume "\<forall>a\<in>set as. small a"
  with relay1_inv_run [OF relay1_inv_start]
  have "case relay1_run as relay1_start of Inl e \<Rightarrow> e = Waits | Inr s \<Rightarrow> relay1_inv s" by blast
  then show "case relay1_run as relay1_start of Inl e \<Rightarrow> e = Waits
      | Inr s \<Rightarrow> \<forall>i<NQ. prefix (texts i (printed1 s)) (map shown (sent1 s i)) \<and>
          (relay1_idle s \<longrightarrow> texts i (printed1 s) = map shown (sent1 s i))"
    using relay1_prefix relay1_complete by (auto split: sum.splits)
qed (rule longest_message)

definition one_datagram :: "act list" where
  "one_datagram = [Send 0 ''hi'', Helper 0, Helper 0, Helper 0, Main, Main, Main, Main, Main, Helper 0, Helper 1, Helper 2]"

lemma one_datagram_run:
  "\<exists>s. relay1_run one_datagram relay1_start = Inr s \<and> relay1_idle s \<and> sent1 s 0 = [''hi'']"
  by (simp add: one_datagram_def relay1_idle_def relay1_eval MAXMSZ_def)

text \<open>
  C35. Both programs that wait for messages of several queues with \<^verbatim>\<open>poll\<close> hand over every message: in
  every schedule of three helpers, main thread and senders, what was printed for a queue is a prefix of
  what was sent to it (cut to \<open>MAXMSZ\<close> bytes and at the first zero byte), and when nobody but a sender can
  go on everything is printed: no message is lost, doubled, reordered or mixed with another, and no
  wakeup is lost. For \<^verbatim>\<open>exercises/pollmsg2.c\<close>, where both threads use one buffer, this rests on
  \<^verbatim>\<open>pthread_cond_wait\<close> returning only when it is signalled: a single other return, for which the helper
  has no loop, loses a message and prints another twice. For \<^verbatim>\<open>ipc2/pollmsg.c\<close> it rests on messages of 1
  to 511 bytes: then no step writes outside \<^verbatim>\<open>buf\<close>, whereas a message of \<open>MAXMSZ\<close> bytes, which
  \<^verbatim>\<open>msgrcv\<close> accepts, makes the zero byte go behind the end of \<^verbatim>\<open>buf\<close>.
\<close>

theorem messages_relayed:
  "(\<forall>as s. relay_run as relay_start = Some s \<and> (\<forall>a\<in>set as. \<not> spurious a) \<longrightarrow>
      (\<forall>i<NQ. prefix (texts i (printed s)) (map shown (sent s i)) \<and>
        (relay_idle s \<longrightarrow> texts i (printed s) = map shown (sent s i)))) \<and>
   (\<exists>as s. relay_run as relay_start = Some s \<and> length (filter spurious as) = 1 \<and>
      sent s 0 = [''A'', ''B''] \<and> texts 0 (printed s) = [''B'', ''B'']) \<and>
   (\<forall>as. (\<forall>a\<in>set as. small a) \<longrightarrow> (case relay1_run as relay1_start of
        Inl e \<Rightarrow> e = Waits
      | Inr s \<Rightarrow> \<forall>i<NQ. prefix (texts i (printed1 s)) (map shown (sent1 s i)) \<and>
          (relay1_idle s \<longrightarrow> texts i (printed1 s) = map shown (sent1 s i)))) \<and>
   (\<forall>x. length x = MAXMSZ \<longrightarrow> relay1_run [Send 0 x, Helper 0, Helper 0, Helper 0, Main, Main] relay1_start =
      Inl (Undef ''buf[n]''))"
  using shared_relayed datagrams_relayed by blast

theorem messages_relayed_witness:
  "(\<exists>s. relay_run one_message relay_start = Some s \<and> texts 0 (printed s) = [''hi'']) \<and>
   (\<exists>s. relay1_run one_datagram relay1_start = Inr s \<and> texts 0 (printed1 s) = [''hi''])"
proof
  show "\<exists>s. relay_run one_message relay_start = Some s \<and> texts 0 (printed s) = [''hi'']"
  proof -
  obtain s where s: "relay_run one_message relay_start = Some s" "relay_idle s" "sent s 0 = [''hi'']"
    using one_message_run by blast
  moreover have "\<forall>a\<in>set one_message. \<not> spurious a" by (simp add: one_message_def to_sleep_def scan_one_def)
  ultimately have "texts 0 (printed s) = map shown (sent s 0)"
    using messages_relayed by (auto simp: NQ_def)
  with s show ?thesis by (auto simp: shown_def MAXMSZ_def)
qed
next
  show "\<exists>s. relay1_run one_datagram relay1_start = Inr s \<and> texts 0 (printed1 s) = [''hi'']"
  proof -
  obtain s where s: "relay1_run one_datagram relay1_start = Inr s" "relay1_idle s" "sent1 s 0 = [''hi'']"
    using one_datagram_run by blast
  have "\<forall>a\<in>set one_datagram. small a" by (simp add: one_datagram_def MAXMSZ_def)
  with messages_relayed have "case relay1_run one_datagram relay1_start of Inl e \<Rightarrow> e = Waits
      | Inr s \<Rightarrow> \<forall>i<NQ. prefix (texts i (printed1 s)) (map shown (sent1 s i)) \<and>
          (relay1_idle s \<longrightarrow> texts i (printed1 s) = map shown (sent1 s i))" by blast
  with s have "texts 0 (printed1 s) = map shown (sent1 s 0)" by (auto simp: NQ_def)
  with s show ?thesis by (auto simp: shown_def MAXMSZ_def)
qed
qed

end
