(* ===== verification/Timeout.thy ===== *)
theory Timeout
  imports Prelude "HOL-Library.Multiset"
begin

text \<open>
  \<^verbatim>\<open>threadctl/timeout.c\<close> and \<^verbatim>\<open>makethread\<close> of \<^verbatim>\<open>threadctl/detach.c\<close>: calling a function at a given time
  from a detached thread, or at once where no thread can do it, and the recursive mutex that this needs.
\<close>

section \<open>Times\<close>

record timespec =
  tv_sec :: int
  tv_nsec :: int

definition SECTONSEC :: int where "SECTONSEC = 1000000000"
definition USECTONSEC :: int where "USECTONSEC = 1000"

definition nanos :: "timespec \<Rightarrow> int" where "nanos ts = tv_sec ts * SECTONSEC + tv_nsec ts"
definition valid_ts :: "timespec \<Rightarrow> bool" where "valid_ts ts \<longleftrightarrow> 0 \<le> tv_nsec ts \<and> tv_nsec ts < SECTONSEC"

text \<open>
  The clock counts nanoseconds. \<^verbatim>\<open>clock_gettime\<close> of the library splits them; the one that the source
  defines for systems without it has the microseconds of \<^verbatim>\<open>gettimeofday\<close>.
\<close>

definition clock_gettime :: "int \<Rightarrow> timespec" where
  "clock_gettime t = \<lparr>tv_sec = t div SECTONSEC, tv_nsec = t mod SECTONSEC\<rparr>"

definition gettimeofday :: "int \<Rightarrow> int \<times> int" where
  "gettimeofday t = (t div SECTONSEC, t mod SECTONSEC div USECTONSEC)"

definition clock_gettime_usec :: "int \<Rightarrow> timespec" where
  "clock_gettime_usec t = (let tv = gettimeofday t in \<lparr>tv_sec = fst tv, tv_nsec = snd tv * USECTONSEC\<rparr>)"

definition later :: "timespec \<Rightarrow> timespec \<Rightarrow> bool" where
  "later when now \<longleftrightarrow> tv_sec when > tv_sec now \<or> tv_sec when = tv_sec now \<and> tv_nsec when > tv_nsec now"

definition wait_until :: "timespec \<Rightarrow> timespec \<Rightarrow> timespec" where
  "wait_until when now = (let s = tv_sec when - tv_sec now in
     if tv_nsec when \<ge> tv_nsec now then \<lparr>tv_sec = s, tv_nsec = tv_nsec when - tv_nsec now\<rparr>
     else \<lparr>tv_sec = s - 1, tv_nsec = SECTONSEC - tv_nsec now + tv_nsec when\<rparr>)"

lemma nanos_clock [simp]: "nanos (clock_gettime t) = t"
  by (simp add: nanos_def clock_gettime_def)

lemma valid_clock [simp]: "valid_ts (clock_gettime t)"
  by (simp add: valid_ts_def clock_gettime_def SECTONSEC_def)

lemma clock_gettime_usec:
  "valid_ts (clock_gettime_usec t)"
  "nanos (clock_gettime_usec t) \<le> t" "t < nanos (clock_gettime_usec t) + USECTONSEC"
proof -
  define r where "r = t mod 1000000000"
  have r: "0 \<le> r" "r < 1000000000" "t = t div 1000000000 * 1000000000 + r" by (simp_all add: r_def)
  have "r div 1000 * 1000 \<le> r" "r < r div 1000 * 1000 + 1000" "0 \<le> r div 1000 * 1000" using r
    by (linarith, linarith, simp add: pos_imp_zdiv_nonneg_iff)
  with r show "valid_ts (clock_gettime_usec t)"
    "nanos (clock_gettime_usec t) \<le> t" "t < nanos (clock_gettime_usec t) + USECTONSEC"
    unfolding valid_ts_def nanos_def clock_gettime_usec_def gettimeofday_def SECTONSEC_def USECTONSEC_def Let_def
      r_def [symmetric] by simp_all
qed

lemma later_iff:
  assumes "valid_ts when" "valid_ts now" shows "later when now \<longleftrightarrow> nanos now < nanos when"
  using assms unfolding later_def nanos_def valid_ts_def SECTONSEC_def by linarith

lemma wait_until:
  assumes "valid_ts when" "valid_ts now" "later when now"
  shows "valid_ts (wait_until when now)" "0 \<le> tv_sec (wait_until when now)"
    "nanos now + nanos (wait_until when now) = nanos when"
  using assms unfolding later_def nanos_def valid_ts_def wait_until_def Let_def SECTONSEC_def
  by (auto split: if_splits)

section \<open>Detached threads\<close>

text \<open>
  The results of the three calls of \<^verbatim>\<open>pthread_attr_init\<close>, \<^verbatim>\<open>pthread_attr_setdetachstate\<close> and
  \<^verbatim>\<open>pthread_create\<close> are given; the result has the error, whether the thread was started, and how many
  attribute objects are left.
\<close>

record made =
  err :: int
  started :: bool
  attrs :: nat

fun makethread :: "int \<times> int \<times> int \<Rightarrow> made" where
  "makethread (init, setdetach, create) =
    (if init \<noteq> 0 then \<lparr>err = init, started = False, attrs = 0\<rparr>
     else
       let e = (if setdetach = 0 then create else setdetach);
           m = \<lparr>err = e, started = (setdetach = 0 \<and> create = 0), attrs = 1\<rparr> in
       m\<lparr>attrs := attrs m - 1\<rparr>)"

lemma makethread: "started (makethread pt) \<longleftrightarrow> err (makethread pt) = 0" "attrs (makethread pt) = 0"
  by (cases pt; auto simp: Let_def)+

section \<open>Calls and their threads\<close>

record ('f, 'a) to_info =
  to_fn :: 'f
  to_arg :: 'a
  to_wait :: timespec

text \<open>
  A thread is before \<^verbatim>\<open>clock_nanosleep\<close>, asleep until a time, before the call, before \<^verbatim>\<open>free\<close> and at its
  end. What \<^verbatim>\<open>due\<close> says is not in the program: it is the time that was asked for.
\<close>

datatype tpc = T_start | T_sleep int | T_call | T_free | T_end

record thread =
  tpc :: tpc
  tip :: nat
  due :: int

record ('f, 'a, 'm) world =
  clock :: int
  infos :: "nat \<Rightarrow> ('f, 'a) to_info option"
  threads :: "thread list"
  calls :: "('f \<times> 'a \<times> int \<times> int) list"
  mem :: 'm

text \<open>The function does with the memory of the program what the parameter \<open>ap\<close> says.\<close>

type_synonym ('f, 'a, 'm) applies = "'f \<Rightarrow> 'a \<Rightarrow> nat \<Rightarrow> 'm \<Rightarrow> 'm res"

definition call_fn :: "('f, 'a, 'm) applies \<Rightarrow> 'f \<Rightarrow> 'a \<Rightarrow> int \<Rightarrow> nat \<Rightarrow> ('f, 'a, 'm) world \<Rightarrow> ('f, 'a, 'm) world res" where
  "call_fn ap f a d tid w =
     bnd (ap f a tid (mem w)) (\<lambda>m. Inr (w\<lparr>mem := m, calls := calls w @ [(f, a, d, clock w)]\<rparr>))"

text \<open>
  \<open>p\<close> is what \<^verbatim>\<open>malloc\<close> returns, and \<open>pt\<close> has the results of the calls that \<^verbatim>\<open>makethread\<close> does. A
  thread that was started runs whatever the error that \<^verbatim>\<open>makethread\<close> returns.
\<close>

definition timeout :: "('f, 'a, 'm) applies \<Rightarrow> timespec \<Rightarrow> 'f \<Rightarrow> 'a \<Rightarrow> nat option \<Rightarrow> int \<times> int \<times> int \<Rightarrow> nat
    \<Rightarrow> ('f, 'a, 'm) world \<Rightarrow> ('f, 'a, 'm) world res" where
  "timeout ap when func arg p pt tid w =
    (let now = clock_gettime (clock w);
         at_once = call_fn ap func arg (nanos when) tid in
     if later when now then
       (case p of
          None \<Rightarrow> at_once w
        | Some q \<Rightarrow>
            let t = \<lparr>to_fn = func, to_arg = arg, to_wait = wait_until when now\<rparr>;
                w' = w\<lparr>infos := (infos w)(q \<mapsto> t)\<rparr>;
                m = makethread pt;
                w'' = (if started m then w'\<lparr>threads := threads w' @ [\<lparr>tpc = T_start, tip = q, due = nanos when\<rparr>]\<rparr> else w') in
            if err m = 0 then Inr w''
            else at_once (w''\<lparr>infos := (infos w'')(q := None)\<rparr>))
     else at_once w)"

text \<open>
  The steps of the thread with number \<open>i\<close>. \<^verbatim>\<open>clock_nanosleep\<close> gives \<open>EINVAL\<close> at once for a time that is
  not valid, and \<open>EINTR\<close> when a signal handler has run.
\<close>

definition set_thread :: "nat \<Rightarrow> tpc \<Rightarrow> ('f, 'a, 'm) world \<Rightarrow> ('f, 'a, 'm) world" where
  "set_thread i pc w = w\<lparr>threads := (threads w)[i := (threads w ! i)\<lparr>tpc := pc\<rparr>]\<rparr>"

definition timeout_helper :: "('f, 'a, 'm) applies \<Rightarrow> bool \<Rightarrow> nat \<Rightarrow> ('f, 'a, 'm) world \<Rightarrow> ('f, 'a, 'm) world res" where
  "timeout_helper ap signalled i w = (let t = threads w ! i in
    case infos w (tip t) of
      None \<Rightarrow> if tpc t = T_end then Inl Waits else Inl (Undef ''tip'')
    | Some info \<Rightarrow> (case tpc t of
        T_start \<Rightarrow> Inr (set_thread i
          (if valid_ts (to_wait info) \<and> 0 \<le> tv_sec (to_wait info) then T_sleep (clock w + nanos (to_wait info)) else T_call) w)
      | T_sleep u \<Rightarrow> if u \<le> clock w \<or> signalled then Inr (set_thread i T_call w) else Inl Waits
      | T_call \<Rightarrow> bnd (call_fn ap (to_fn info) (to_arg info) (due t) (i + 1) w) (\<lambda>w'. Inr (set_thread i T_free w'))
      | T_free \<Rightarrow> Inr (set_thread i T_end (w\<lparr>infos := (infos w)(tip t := None)\<rparr>))
      | T_end \<Rightarrow> Inl Waits))"

text \<open>
  A schedule: the clock moves on, the program calls \<^verbatim>\<open>timeout\<close>, a thread does a step, perhaps after a
  signal. \<^verbatim>\<open>malloc\<close> returns an address that is not in use.
\<close>

datatype ('f, 'a) tact = Tick nat | Timeout timespec 'f 'a "nat option" "int \<times> int \<times> int" | Step nat | Signal nat

definition timeout_act :: "('f, 'a, 'm) applies \<Rightarrow> ('f, 'a) tact \<Rightarrow> ('f, 'a, 'm) world \<Rightarrow> ('f, 'a, 'm) world res" where
  "timeout_act ap a w = (case a of
       Tick d \<Rightarrow> Inr (w\<lparr>clock := clock w + int d\<rparr>)
     | Timeout when f x p pt \<Rightarrow>
         if \<exists>q. p = Some q \<and> infos w q \<noteq> None then Inl Waits else timeout ap when f x p pt 0 w
     | Step i \<Rightarrow> if i < length (threads w) then timeout_helper ap False i w else Inl Waits
     | Signal i \<Rightarrow> if i < length (threads w) then timeout_helper ap True i w else Inl Waits)"

fun timeout_run :: "('f, 'a, 'm) applies \<Rightarrow> ('f, 'a) tact list \<Rightarrow> ('f, 'a, 'm) world \<Rightarrow> ('f, 'a, 'm) world res" where
  "timeout_run ap [] w = Inr w"
| "timeout_run ap (a # as) w = bnd (timeout_act ap a w) (timeout_run ap as)"

definition world_start :: "int \<Rightarrow> 'm \<Rightarrow> ('f, 'a, 'm) world" where
  "world_start t m = \<lparr>clock = t, infos = Map.empty, threads = [], calls = [], mem = m\<rparr>"

section \<open>Every function is called once\<close>

text \<open>What was asked for, what has been called, and what the threads that have not called yet will call.\<close>

fun asked :: "('f, 'a) tact \<Rightarrow> ('f \<times> 'a \<times> int) list" where
  "asked (Timeout when f x p pt) = [(f, x, nanos when)]"
| "asked _ = []"

definition done_calls :: "('f, 'a, 'm) world \<Rightarrow> ('f \<times> 'a \<times> int) multiset" where
  "done_calls w = mset (map (\<lambda>(f, x, d, t). (f, x, d)) (calls w))"

definition will_call :: "(nat \<Rightarrow> ('f, 'a) to_info option) \<Rightarrow> thread \<Rightarrow> ('f \<times> 'a \<times> int) multiset" where
  "will_call h t = (case tpc t of T_free \<Rightarrow> {#} | T_end \<Rightarrow> {#}
     | _ \<Rightarrow> {#(to_fn (the (h (tip t))), to_arg (the (h (tip t))), due t)#})"

definition to_come :: "(nat \<Rightarrow> ('f, 'a) to_info option) \<Rightarrow> thread list \<Rightarrow> ('f \<times> 'a \<times> int) multiset" where
  "to_come h ts = sum_list (map (will_call h) ts)"

text \<open>The \<^verbatim>\<open>to_info\<close> of a thread is its own and exists until the thread frees it.\<close>

definition owners :: "thread list \<Rightarrow> nat list" where
  "owners ts = map tip (filter (\<lambda>t. tpc t \<noteq> T_end) ts)"

definition owned :: "(nat \<Rightarrow> ('f, 'a) to_info option) \<Rightarrow> thread list \<Rightarrow> bool" where
  "owned h ts \<longleftrightarrow> distinct (owners ts) \<and> set (owners ts) = dom h"

lemma owners_append [simp]: "owners (ts @ us) = owners ts @ owners us"
  by (simp add: owners_def)

lemma owners_Cons [simp]: "owners (t # ts) = (if tpc t = T_end then owners ts else tip t # owners ts)"
  by (simp add: owners_def)

lemma owners_Nil [simp]: "owners [] = []"
  by (simp add: owners_def)

lemma to_come_simps [simp]:
  "to_come h [] = {#}"
  "to_come h (t # ts) = will_call h t + to_come h ts"
  "to_come h (ts @ us) = to_come h ts + to_come h us"
  by (simp_all add: to_come_def)

lemma will_call_update: "q \<noteq> tip t \<or> tpc t = T_end \<Longrightarrow> will_call (h(q := v)) t = will_call h t"
  by (auto simp: will_call_def split: tpc.splits)

lemma to_come_update: "q \<notin> set (owners ts) \<Longrightarrow> to_come (h(q := v)) ts = to_come h ts"
  by (induction ts) (auto simp: will_call_update split: if_splits)

lemma owned_new:
  assumes "owned h ts" "h q = None"
  shows "owned (h(q \<mapsto> info)) (ts @ [\<lparr>tpc = T_start, tip = q, due = d\<rparr>])"
    "to_come (h(q \<mapsto> info)) (ts @ [\<lparr>tpc = T_start, tip = q, due = d\<rparr>]) = add_mset (to_fn info, to_arg info, d) (to_come h ts)"
proof -
  have "q \<notin> set (owners ts)" using assms by (auto simp: owned_def)
  then show "owned (h(q \<mapsto> info)) (ts @ [\<lparr>tpc = T_start, tip = q, due = d\<rparr>])"
    "to_come (h(q \<mapsto> info)) (ts @ [\<lparr>tpc = T_start, tip = q, due = d\<rparr>]) = add_mset (to_fn info, to_arg info, d) (to_come h ts)"
    using assms by (auto simp: owned_def to_come_update will_call_def)
qed

lemma owned_step:
  assumes "owned h (xs @ t # ys)" "tpc t \<noteq> T_end" "pc \<noteq> T_end"
  shows "owned h (xs @ t\<lparr>tpc := pc\<rparr> # ys)"
  using assms by (simp add: owned_def)

lemma owned_free:
  assumes "owned h (xs @ t # ys)" "tpc t = T_free"
  shows "owned (h(tip t := None)) (xs @ t\<lparr>tpc := T_end\<rparr> # ys)"
    "to_come (h(tip t := None)) (xs @ t\<lparr>tpc := T_end\<rparr> # ys) = to_come h (xs @ t # ys)"
  using assms by (auto simp: owned_def to_come_update will_call_def)

lemma owned_tip: "owned h (xs @ t # ys) \<Longrightarrow> tpc t \<noteq> T_end \<Longrightarrow> \<exists>info. h (tip t) = Some info"
  by (auto simp: owned_def dom_def)

section \<open>Schedules\<close>

text \<open>The function returns.\<close>

definition returning :: "('f, 'a, 'm) applies \<Rightarrow> bool" where
  "returning ap \<longleftrightarrow> (\<forall>f x i m. \<exists>m'. ap f x i m = Inr m')"

definition accounted :: "('f \<times> 'a \<times> int) multiset \<Rightarrow> ('f, 'a, 'm) world \<Rightarrow> bool" where
  "accounted A w \<longleftrightarrow> owned (infos w) (threads w) \<and> A = done_calls w + to_come (infos w) (threads w)"

lemma accounted_start: "accounted {#} (world_start t m)"
  by (simp add: accounted_def world_start_def owned_def done_calls_def)

lemma call_fn:
  assumes "returning ap"
  obtains m where "call_fn ap f a d tid w = Inr (w\<lparr>mem := m, calls := calls w @ [(f, a, d, clock w)]\<rparr>)"
  using assms that unfolding returning_def call_fn_def by (metis bnd_simps(2))

lemma accounted_timeout:
  assumes "accounted A w" "returning ap" "\<forall>q. p = Some q \<longrightarrow> infos w q = None"
  shows "\<exists>w'. timeout ap when f x p pt tid w = Inr w' \<and> accounted (add_mset (f, x, nanos when) A) w'"
proof -
  obtain mm where c: "call_fn ap f x (nanos when) tid w = Inr (w\<lparr>mem := mm, calls := calls w @ [(f, x, nanos when, clock w)]\<rparr>)"
    by (rule call_fn [OF assms(2)])
  have now: "\<exists>w'. call_fn ap f x (nanos when) tid w = Inr w' \<and> accounted (add_mset (f, x, nanos when) A) w'"
    using c assms(1) by (simp add: accounted_def done_calls_def)
  show ?thesis
  proof (cases "later when (clock_gettime (clock w)) \<and> (\<exists>q. p = Some q)")
    case True
    then obtain q where q: "p = Some q" "infos w q = None" using assms(3) by auto
    then have same: "w\<lparr>infos := (infos w)(q := None)\<rparr> = w" by (simp add: fun_upd_idem)
    show ?thesis
    proof (cases "err (makethread pt) = 0")
      case True': True
      with True q owned_new [where h = "infos w" and ts = "threads w" and q = q] assms(1) show ?thesis
        by (simp add: timeout_def Let_def accounted_def done_calls_def makethread)
    next
      case False
      with True q same now show ?thesis by (simp add: timeout_def Let_def makethread)
    qed
  next
    case False
    with now show ?thesis by (auto simp: timeout_def Let_def)
  qed
qed

lemma set_thread_split: "threads w = xs @ t # ys \<Longrightarrow> set_thread (length xs) pc w = w\<lparr>threads := xs @ t\<lparr>tpc := pc\<rparr> # ys\<rparr>"
  by (simp add: set_thread_def)

lemma accounted_helper:
  assumes "accounted A w" "returning ap" "i < length (threads w)"
  shows "case timeout_helper ap sg i w of Inl e \<Rightarrow> e = Waits | Inr w' \<Rightarrow> accounted A w'"
proof -
  obtain xs t ys where w: "threads w = xs @ t # ys" "i = length xs"
    using assms(3) by (metis id_take_nth_drop length_take min.absorb2 less_imp_le)
  have o: "owned (infos w) (xs @ t # ys)" and A: "A = done_calls w + to_come (infos w) (xs @ t # ys)"
    using assms(1) w by (simp_all add: accounted_def)
  show ?thesis
  proof (cases "tpc t = T_end")
    case True
    with w show ?thesis by (auto simp: timeout_helper_def Let_def split: option.splits)
  next
    case False
    then obtain info where info: "infos w (tip t) = Some info" using owned_tip [OF o] by auto
    show ?thesis
    proof (cases "tpc t")
      case T_call
      obtain m where "call_fn ap (to_fn info) (to_arg info) (due t) (i + 1) w =
          Inr (w\<lparr>mem := m, calls := calls w @ [(to_fn info, to_arg info, due t, clock w)]\<rparr>)"
        by (rule call_fn [OF assms(2)])
      with T_call info w o A show ?thesis
        by (simp add: timeout_helper_def Let_def set_thread_split accounted_def owned_step done_calls_def will_call_def)
    next
      case T_free
      with info w A owned_free [OF o T_free] show ?thesis
        by (simp add: timeout_helper_def Let_def set_thread_split accounted_def done_calls_def)
    qed (use info w o A in \<open>auto simp: timeout_helper_def Let_def set_thread_split accounted_def owned_step done_calls_def will_call_def\<close>)
  qed
qed

lemma accounted_act:
  assumes "accounted A w" "returning ap"
  shows "case timeout_act ap a w of Inl e \<Rightarrow> e = Waits | Inr w' \<Rightarrow> accounted (A + mset (asked a)) w'"
proof (cases a)
  case (Timeout wh f x p pt)
  with accounted_timeout [OF assms, of p wh f x pt 0] show ?thesis by (auto simp: timeout_act_def)
next
  case (Tick d)
  with assms(1) show ?thesis by (simp add: timeout_act_def accounted_def done_calls_def)
next
  case (Step i)
  with accounted_helper [OF assms, of i False] show ?thesis by (auto simp: timeout_act_def split: sum.splits)
next
  case (Signal i)
  with accounted_helper [OF assms, of i True] show ?thesis by (auto simp: timeout_act_def split: sum.splits)
qed

lemma accounted_run:
  assumes "returning ap"
  shows "accounted A w \<Longrightarrow> (case timeout_run ap as w of Inl e \<Rightarrow> e = Waits
    | Inr w' \<Rightarrow> accounted (A + mset (concat (map asked as))) w')"
proof (induction as arbitrary: w A)
  case (Cons a as)
  show ?case
  proof (cases "timeout_act ap a w")
    case (Inr w')
    with accounted_act [OF Cons.prems assms, of a] have "accounted (A + mset (asked a)) w'" by simp
    from Cons.IH [OF this] Inr show ?thesis by (simp add: ac_simps split: sum.splits)
  qed (use accounted_act [OF Cons.prems assms, of a] in simp)
qed simp

section \<open>Never too early\<close>

text \<open>
  Times that are asked for are valid, and no signal handler runs. Then a thread that has not slept, or
  that sleeps, does not call too early; the only early calls are those of \<^verbatim>\<open>timeout\<close> itself for a request
  that got no memory or no thread.
\<close>

fun orderly :: "('f, 'a) tact \<Rightarrow> bool" where
  "orderly (Timeout wh f x p pt) \<longleftrightarrow> valid_ts wh"
| "orderly (Signal i) \<longleftrightarrow> False"
| "orderly _ \<longleftrightarrow> True"

fun no_thread :: "('f, 'a) tact \<Rightarrow> ('f \<times> 'a \<times> int) list" where
  "no_thread (Timeout wh f x p pt) = (if p = None \<or> err (makethread pt) \<noteq> 0 then [(f, x, nanos wh)] else [])"
| "no_thread _ = []"

definition early_calls :: "('f, 'a, 'm) world \<Rightarrow> ('f \<times> 'a \<times> int) multiset" where
  "early_calls w = mset (map (\<lambda>(f, x, d, t). (f, x, d)) (filter (\<lambda>(f, x, d, t). t < d) (calls w)))"

definition in_time :: "int \<Rightarrow> (nat \<Rightarrow> ('f, 'a) to_info option) \<Rightarrow> thread \<Rightarrow> bool" where
  "in_time c h t \<longleftrightarrow> (case tpc t of
       T_start \<Rightarrow> valid_ts (to_wait (the (h (tip t)))) \<and> 0 \<le> tv_sec (to_wait (the (h (tip t)))) \<and> due t \<le> c + nanos (to_wait (the (h (tip t))))
     | T_sleep u \<Rightarrow> due t \<le> u
     | T_call \<Rightarrow> due t \<le> c
     | _ \<Rightarrow> True)"

lemma in_time_mono: "in_time c h t \<Longrightarrow> c \<le> c' \<Longrightarrow> in_time c' h t"
  by (auto simp: in_time_def split: tpc.splits)

lemma in_time_update: "q \<noteq> tip t \<or> tpc t = T_end \<Longrightarrow> in_time c (h(q := v)) t = in_time c h t"
  by (auto simp: in_time_def split: tpc.splits)

definition punctual :: "('f \<times> 'a \<times> int) multiset \<Rightarrow> ('f, 'a, 'm) world \<Rightarrow> bool" where
  "punctual F w \<longleftrightarrow> owned (infos w) (threads w) \<and> (\<forall>t\<in>set (threads w). in_time (clock w) (infos w) t) \<and>
     early_calls w \<subseteq># F"

lemma in_time_others: "q \<notin> set (owners ts) \<Longrightarrow> t \<in> set ts \<Longrightarrow> in_time c (h(q := v)) t = in_time c h t"
  by (rule in_time_update) (auto simp: owners_def)

lemma early_call:
  "call_fn ap f x d tid w = Inr w' \<Longrightarrow> infos w' = infos w \<and> threads w' = threads w \<and> clock w' = clock w \<and>
     early_calls w' = early_calls w + (if clock w < d then {#(f, x, d)#} else {#})"
  by (auto simp: call_fn_def bnd_Inr_iff early_calls_def)

lemma punctual_timeout:
  assumes "punctual F w" "valid_ts wh" "\<forall>q. p = Some q \<longrightarrow> infos w q = None" "timeout ap wh f x p pt tid w = Inr w'"
  shows "punctual (F + mset (no_thread (Timeout wh f x p pt))) w'"
proof (cases "later wh (clock_gettime (clock w)) \<and> p \<noteq> None \<and> err (makethread pt) = 0")
  case True
  then obtain q where p: "p = Some q" by auto
  then have free: "infos w q = None" using assms(3) by simp
  have q: "q \<notin> set (owners (threads w))" using assms(1) free by (auto simp: punctual_def owned_def)
  have "valid_ts (wait_until wh (clock_gettime (clock w)))" "0 \<le> tv_sec (wait_until wh (clock_gettime (clock w)))"
    "clock w + nanos (wait_until wh (clock_gettime (clock w))) = nanos wh"
    using wait_until [OF assms(2) valid_clock] True by auto
  with True assms(1,4) p free q owned_new(1) [of "infos w" "threads w" q] show ?thesis
    by (auto simp: in_time_others [OF q] timeout_def Let_def punctual_def early_calls_def makethread
        in_time_def [of _ _ "\<lparr>tpc = T_start, tip = q, due = d\<rparr>" for d])
next
  case False
  have same: "w\<lparr>infos := (infos w)(q := None)\<rparr> = w" if "p = Some q" for q using assms(3) that by (simp add: fun_upd_idem)
  have "call_fn ap f x (nanos wh) tid w = Inr w'"
    using False assms(4) same by (cases p) (auto simp: timeout_def Let_def makethread split: if_splits)
  note e = early_call [OF this]
  have "clock w < nanos wh \<Longrightarrow> no_thread (Timeout wh f x p pt) = [(f, x, nanos wh)]"
    using False later_iff [OF assms(2) valid_clock] by auto
  with assms(1) e show ?thesis by (auto simp: punctual_def subset_mset.add_increasing2)
qed

lemma punctual_helper:
  assumes "punctual F w" "i < length (threads w)" "timeout_helper ap False i w = Inr w'"
  shows "punctual F w'"
proof -
  obtain xs t ys where w: "threads w = xs @ t # ys" "i = length xs"
    using assms(2) by (metis id_take_nth_drop length_take min.absorb2 less_imp_le)
  have o: "owned (infos w) (xs @ t # ys)" using assms(1) w by (simp add: punctual_def)
  have "tpc t \<noteq> T_end" using assms(3) w by (auto simp: timeout_helper_def Let_def split: option.splits)
  then obtain info where info: "infos w (tip t) = Some info" using owned_tip [OF o] by auto
  have it: "in_time (clock w) (infos w) t" using assms(1) w by (simp add: punctual_def)
  show ?thesis
  proof (cases "tpc t")
    case T_free
    have "tip t \<notin> set (owners xs)" "tip t \<notin> set (owners ys)"
      using o T_free by (auto simp: owned_def)
    with T_free assms(1,3) info w owned_free(1) [OF o T_free] show ?thesis
      by (auto simp: in_time_others in_time_def [of _ _ "t\<lparr>tpc := T_end\<rparr>"] timeout_helper_def Let_def set_thread_split punctual_def in_time_update early_calls_def)
  qed (use it info w o assms(1,3) in \<open>auto simp: timeout_helper_def Let_def set_thread_split punctual_def
      owned_step in_time_def [of _ _ t] in_time_def [of _ _ "t\<lparr>tpc := pc\<rparr>" for pc] call_fn_def bnd_Inr_iff early_calls_def split: if_splits\<close>)
qed

lemma punctual_act:
  assumes "punctual F w" "orderly a" "timeout_act ap a w = Inr w'" shows "punctual (F + mset (no_thread a)) w'"
proof (cases a)
  case (Timeout wh f x p pt)
  with assms punctual_timeout [of F w wh p ap f x pt 0 w'] show ?thesis by (auto simp: timeout_act_def split: if_splits)
next
  case (Tick d)
  with assms show ?thesis
    by (auto simp: timeout_act_def punctual_def early_calls_def intro: in_time_mono [where c = "clock w"])
next
  case (Step i)
  with assms punctual_helper show ?thesis by (auto simp: timeout_act_def split: if_splits)
qed (use assms(2) in simp)

lemma punctual_run:
  "punctual F w \<Longrightarrow> \<forall>a\<in>set as. orderly a \<Longrightarrow> timeout_run ap as w = Inr w' \<Longrightarrow>
    punctual (F + mset (concat (map no_thread as))) w'"
proof (induction as arbitrary: w F)
  case (Cons a as)
  then obtain w1 where w1: "timeout_act ap a w = Inr w1" "timeout_run ap as w1 = Inr w'" by (auto simp: bnd_Inr_iff)
  with Cons.IH [OF punctual_act [OF Cons.prems(1) _ w1(1)]] Cons.prems(2) show ?case by (simp add: ac_simps)
qed simp

lemma punctual_start: "punctual {#} (world_start t m)"
  by (simp add: punctual_def world_start_def owned_def early_calls_def)

lemma helper_goes_on:
  assumes "accounted A w" "returning ap" "i < length (threads w)" "tpc (threads w ! i) \<noteq> T_end"
    "\<forall>u. tpc (threads w ! i) = T_sleep u \<longrightarrow> u \<le> clock w"
  shows "\<exists>w'. timeout_helper ap False i w = Inr w'"
proof -
  have "tip (threads w ! i) \<in> set (owners (threads w))"
    using assms(3,4) by (auto simp: owners_def)
  with assms(1) obtain info where info: "infos w (tip (threads w ! i)) = Some info"
    by (auto simp: accounted_def owned_def)
  obtain m where "call_fn ap (to_fn info) (to_arg info) (due (threads w ! i)) (i + 1) w =
      Inr (w\<lparr>mem := m, calls := calls w @ [(to_fn info, to_arg info, due (threads w ! i), clock w)]\<rparr>)"
    by (rule call_fn [OF assms(2)])
  with assms(4,5) info show ?thesis
    by (cases "tpc (threads w ! i)") (simp_all add: timeout_helper_def Let_def)
qed

lemma all_ended:
  assumes "\<forall>t\<in>set ts. tpc t = T_end" shows "to_come h ts = {#}" "owners ts = []"
  using assms by (induction ts) (auto simp: will_call_def)

text \<open>
  C7. \<^verbatim>\<open>timeout\<close> has its function called exactly once for each call of it, with the argument that was
  given, whatever \<^verbatim>\<open>malloc\<close>, \<^verbatim>\<open>makethread\<close> and signals do and however the threads and the clock go on;
  every \<^verbatim>\<open>to_info\<close> is used by one thread, which frees it once and does not use it afterwards; a thread
  whose time has come can go on, and when all threads have ended every call was made and nothing is left
  allocated. Without signals, and with valid times, the calls before the time that was asked for are
  among those of requests for which there was no memory or no thread, which \<^verbatim>\<open>timeout\<close> makes at once.
\<close>

theorem timeout_calls_once:
  assumes "returning ap"
  shows "case timeout_run ap as (world_start t0 m) of
      Inl e \<Rightarrow> e = Waits
    | Inr w \<Rightarrow>
        mset (concat (map asked as)) = done_calls w + to_come (infos w) (threads w) \<and>
        distinct (owners (threads w)) \<and> set (owners (threads w)) = dom (infos w) \<and>
        (\<forall>i<length (threads w). tpc (threads w ! i) \<noteq> T_end \<and> (\<forall>u. tpc (threads w ! i) = T_sleep u \<longrightarrow> u \<le> clock w) \<longrightarrow>
           (\<exists>w'. timeout_act ap (Step i) w = Inr w')) \<and>
        ((\<forall>t\<in>set (threads w). tpc t = T_end) \<longrightarrow> done_calls w = mset (concat (map asked as)) \<and> infos w = Map.empty) \<and>
        ((\<forall>a\<in>set as. orderly a) \<longrightarrow> early_calls w \<subseteq># mset (concat (map no_thread as)))"
proof (cases "timeout_run ap as (world_start t0 m)")
  case (Inl e)
  with accounted_run [OF assms accounted_start, of as t0 m] show ?thesis by simp
next
  case (Inr w)
  with accounted_run [OF assms accounted_start, of as t0 m] have a: "accounted (mset (concat (map asked as))) w" by simp
  have "(\<forall>a\<in>set as. orderly a) \<longrightarrow> early_calls w \<subseteq># mset (concat (map no_thread as))"
    using punctual_run [OF punctual_start _ Inr] by (auto simp: punctual_def)
  moreover have "(\<forall>t\<in>set (threads w). tpc t = T_end) \<longrightarrow> done_calls w = mset (concat (map asked as)) \<and> infos w = Map.empty"
    using a all_ended [of "threads w"] by (auto simp: accounted_def owned_def simp flip: dom_eq_empty_conv)
  moreover have "\<forall>i<length (threads w). tpc (threads w ! i) \<noteq> T_end \<and> (\<forall>u. tpc (threads w ! i) = T_sleep u \<longrightarrow> u \<le> clock w) \<longrightarrow>
      (\<exists>w'. timeout_act ap (Step i) w = Inr w')"
    using helper_goes_on [OF a assms] by (auto simp: timeout_act_def)
  ultimately show ?thesis using a unfolding Inr accounted_def owned_def sum.case by blast
qed

text \<open>Two calls: one for which there is no memory, and one whose thread wakes up after its second has gone by.\<close>

definition counting :: "(nat, nat, nat) applies" where
  "counting f x i n = Inr (n + x)"

definition two_timeouts :: "(nat, nat) tact list" where
  "two_timeouts =
    [Timeout \<lparr>tv_sec = 8, tv_nsec = 5\<rparr> 1 10 (Some 77) (0, 0, 0),
     Timeout \<lparr>tv_sec = 9, tv_nsec = 0\<rparr> 2 20 None (0, 0, 0),
     Step 0, Tick 2000000000, Step 0, Step 0, Step 0]"

lemma two_timeouts_run:
  "\<exists>w. timeout_run counting two_timeouts (world_start 6500000000 0) = Inr w \<and> (\<forall>t\<in>set (threads w). tpc t = T_end) \<and> mem w = 30"
  by (simp add: two_timeouts_def world_start_def timeout_act_def timeout_def timeout_helper_def later_def clock_gettime_def
      wait_until_def SECTONSEC_def Let_def call_fn_def counting_def set_thread_def valid_ts_def nanos_def)

theorem timeout_calls_once_witness:
  "\<exists>w. timeout_run counting two_timeouts (world_start 6500000000 0) = Inr w \<and>
    done_calls w = {#(1, 10, 8000000005), (2, 20, 9000000000)#} \<and> early_calls w \<subseteq># {#(2, 20, 9000000000)#}"
proof -
  obtain w where w: "timeout_run counting two_timeouts (world_start 6500000000 0) = Inr w" "\<forall>t\<in>set (threads w). tpc t = T_end"
    using two_timeouts_run by blast
  have "returning counting" by (simp add: returning_def counting_def)
  from timeout_calls_once [OF this, of two_timeouts 6500000000 0, unfolded w(1) sum.case] w(2)
  have "done_calls w = mset (concat (map asked two_timeouts))"
    "(\<forall>a\<in>set two_timeouts. orderly a) \<longrightarrow> early_calls w \<subseteq># mset (concat (map no_thread two_timeouts))" by blast+
  moreover have "\<forall>a\<in>set two_timeouts. orderly a" "mset (concat (map no_thread two_timeouts)) = {#(2, 20, 9000000000)#}"
    by (simp_all add: two_timeouts_def valid_ts_def nanos_def SECTONSEC_def)
  moreover have "mset (concat (map asked two_timeouts)) = {#(1, 10, 8000000005), (2, 20, 9000000000)#}"
    by (simp add: two_timeouts_def nanos_def SECTONSEC_def)
  ultimately show ?thesis using w(1) by auto
qed

text \<open>A signal handler that runs while the thread sleeps makes it call too early.\<close>

lemma signal_calls_early:
  "\<exists>w. timeout_run counting [Timeout \<lparr>tv_sec = 8, tv_nsec = 5\<rparr> 1 10 (Some 77) (0, 0, 0), Step 0, Signal 0, Step 0]
      (world_start 6500000000 0) = Inr w \<and> calls w = [(1, 10, 8000000005, 6500000000)]"
  by (simp add: world_start_def timeout_act_def timeout_def timeout_helper_def later_def clock_gettime_def
      wait_until_def SECTONSEC_def Let_def call_fn_def counting_def set_thread_def valid_ts_def nanos_def)

section \<open>The retry of main\<close>

text \<open>
  The main thread has number 0. A normal mutex blocks the thread that holds it, a recursive one counts;
  unlocking a mutex of another thread is not allowed.
\<close>

datatype mkind = Normal | Recursive

record rmutex =
  kind :: mkind
  holder :: "nat option"
  depth :: nat

definition mutex_init :: "mkind \<Rightarrow> rmutex" where
  "mutex_init k = \<lparr>kind = k, holder = None, depth = 0\<rparr>"

definition mutex_lock :: "nat \<Rightarrow> rmutex \<Rightarrow> rmutex res" where
  "mutex_lock i m = (case holder m of
       None \<Rightarrow> Inr (m\<lparr>holder := Some i, depth := 1\<rparr>)
     | Some j \<Rightarrow> if i = j \<and> kind m = Recursive then Inr (m\<lparr>depth := depth m + 1\<rparr>) else Inl Waits)"

definition mutex_unlock :: "nat \<Rightarrow> rmutex \<Rightarrow> rmutex res" where
  "mutex_unlock i m = (if holder m = Some i then
       Inr (if depth m = 1 then m\<lparr>holder := None, depth := 0\<rparr> else m\<lparr>depth := depth m - 1\<rparr>)
     else Inl (Undef ''unlock''))"

record prog =
  mutex :: rmutex
  retries :: nat

datatype fn = Retry

definition retry :: "nat \<Rightarrow> prog \<Rightarrow> prog res" where
  "retry i s = bnd (mutex_lock i (mutex s)) (\<lambda>m.
     let s1 = s\<lparr>mutex := m, retries := retries s + 1\<rparr> in
     bnd (mutex_unlock i (mutex s1)) (\<lambda>m. Inr (s1\<lparr>mutex := m\<rparr>)))"

fun apply_fn :: "(fn, 'a, prog) applies" where
  "apply_fn Retry x i s = retry i s"

definition main_init :: "(fn, 'a, prog) world \<Rightarrow> (fn, 'a, prog) world" where
  "main_init w = w\<lparr>mem := (mem w)\<lparr>mutex := mutex_init Recursive\<rparr>\<rparr>"

text \<open>
  The part of \<^verbatim>\<open>main\<close> under the lock; the clock moves by \<open>d\<close> between the call of \<^verbatim>\<open>clock_gettime\<close> there and the
  one in \<^verbatim>\<open>timeout\<close>.
\<close>

definition main_section :: "bool \<Rightarrow> 'a \<Rightarrow> nat \<Rightarrow> nat option \<Rightarrow> int \<times> int \<times> int \<Rightarrow> (fn, 'a, prog) world \<Rightarrow> (fn, 'a, prog) world res" where
  "main_section condition arg d p pt w =
     bnd (mutex_lock 0 (mutex (mem w))) (\<lambda>mu.
     let w1 = w\<lparr>mem := (mem w)\<lparr>mutex := mu\<rparr>\<rparr> in
     bnd (if condition then
            let now = clock_gettime (clock w1); wh = now\<lparr>tv_sec := tv_sec now + 10\<rparr> in
            timeout apply_fn wh Retry arg p pt 0 (w1\<lparr>clock := clock w1 + int d\<rparr>)
          else Inr w1) (\<lambda>w2.
     bnd (mutex_unlock 0 (mutex (mem w2))) (\<lambda>mu. Inr (w2\<lparr>mem := (mem w2)\<lparr>mutex := mu\<rparr>\<rparr>))))"

lemma retry_free:
  "holder (mutex s) = None \<Longrightarrow> depth (mutex s) = 0 \<Longrightarrow> retry i s = Inr (s\<lparr>retries := retries s + 1\<rparr>)"
  by (simp add: retry_def mutex_lock_def mutex_unlock_def Let_def)

lemma retry_held:
  "holder (mutex s) = Some i \<Longrightarrow> depth (mutex s) = 1 \<Longrightarrow> kind (mutex s) = Recursive \<Longrightarrow>
    retry i s = Inr (s\<lparr>retries := retries s + 1\<rparr>)"
  "holder (mutex s) = Some j \<Longrightarrow> kind (mutex s) = Normal \<or> i \<noteq> j \<Longrightarrow> retry i s = Inl Waits"
  by (auto simp: retry_def mutex_lock_def mutex_unlock_def Let_def)

text \<open>What \<^verbatim>\<open>timeout\<close> does with a function that may stop.\<close>

lemma timeout_cases:
  assumes "\<forall>q. p = Some q \<longrightarrow> infos w q = None"
  shows "timeout ap wh f x p pt tid w =
    (if later wh (clock_gettime (clock w)) \<and> p \<noteq> None \<and> err (makethread pt) = 0
     then Inr (w\<lparr>infos := (infos w)(the p \<mapsto> \<lparr>to_fn = f, to_arg = x, to_wait = wait_until wh (clock_gettime (clock w))\<rparr>),
       threads := threads w @ [\<lparr>tpc = T_start, tip = the p, due = nanos wh\<rparr>]\<rparr>)
     else call_fn ap f x (nanos wh) tid w)"
proof (cases p)
  case (Some q)
  with assms have "w\<lparr>infos := (infos w)(q := None)\<rparr> = w" by (simp add: fun_upd_idem)
  with Some show ?thesis by (simp add: timeout_def Let_def makethread)
qed (simp add: timeout_def Let_def)

lemma ten_seconds:
  "nanos ((clock_gettime t)\<lparr>tv_sec := tv_sec (clock_gettime t) + 10\<rparr>) = t + 10 * SECTONSEC"
  "valid_ts ((clock_gettime t)\<lparr>tv_sec := tv_sec (clock_gettime t) + 10\<rparr>)"
  using nanos_clock [of t] valid_clock [of t] by (simp_all add: nanos_def valid_ts_def algebra_simps del: nanos_clock valid_clock)

lemma lock_unlock:
  assumes "holder mu = None" "depth mu = 0"
  shows "mutex_lock 0 mu = Inr (mu\<lparr>holder := Some 0, depth := 1\<rparr>)"
    "mutex_unlock 0 (mu\<lparr>holder := Some 0, depth := 1\<rparr>) = Inr mu"
  using assms by (simp_all add: mutex_lock_def mutex_unlock_def)

lemma not_yet:
  "later ((clock_gettime t)\<lparr>tv_sec := tv_sec (clock_gettime t) + 10\<rparr>) (clock_gettime (t + int d)) \<longleftrightarrow>
    int d < 10 * SECTONSEC"
  by (subst later_iff) (simp_all add: ten_seconds)

text \<open>
  The part of \<^verbatim>\<open>main\<close> that asks for a retry under the lock returns with the mutex as it was, whatever
  \<^verbatim>\<open>malloc\<close> and \<^verbatim>\<open>makethread\<close> do and however long it takes: either a thread will retry at the time that is
  ten seconds later, or, where there is no memory or thread or the ten seconds are over, \<open>retry\<close> has run
  under the lock. This rests on the mutex being recursive: with a normal mutex exactly the runs that
  retry at once block for ever on the lock that \<^verbatim>\<open>main\<close> itself holds.
\<close>

theorem retry_needs_recursive:
  assumes "holder (mutex (mem w)) = None" "depth (mutex (mem w)) = 0" "\<forall>q. p = Some q \<longrightarrow> infos w q = None"
  shows "if p \<noteq> None \<and> err (makethread pt) = 0 \<and> int d < 10 * SECTONSEC
    then (\<exists>w' q i. main_section True x d p pt w = Inr w' \<and> mem w' = mem w \<and>
      threads w' = threads w @ [\<lparr>tpc = T_start, tip = q, due = clock w + 10 * SECTONSEC\<rparr>] \<and>
      infos w' = (infos w)(q \<mapsto> i) \<and> to_fn i = Retry \<and> nanos (to_wait i) = 10 * SECTONSEC - int d)
    else (case kind (mutex (mem w)) of
        Recursive \<Rightarrow> \<exists>w'. main_section True x d p pt w = Inr w' \<and> threads w' = threads w \<and> infos w' = infos w \<and>
          mem w' = (mem w)\<lparr>retries := retries (mem w) + 1\<rparr>
      | Normal \<Rightarrow> main_section True x d p pt w = Inl Waits)"
proof -
  let ?mu = "(mutex (mem w))\<lparr>holder := Some 0, depth := 1\<rparr>"
  let ?w = "w\<lparr>mem := (mem w)\<lparr>mutex := ?mu\<rparr>, clock := clock w + int d\<rparr>"
  let ?wh = "(clock_gettime (clock w))\<lparr>tv_sec := tv_sec (clock_gettime (clock w)) + 10\<rparr>"
  note lu = lock_unlock [OF assms(1,2)]
  have m: "main_section True x d p pt w = bnd (timeout apply_fn ?wh Retry x p pt 0 ?w)
      (\<lambda>w2. bnd (mutex_unlock 0 (mutex (mem w2))) (\<lambda>mu. Inr (w2\<lparr>mem := (mem w2)\<lparr>mutex := mu\<rparr>\<rparr>)))"
    using lu(1) by (simp add: main_section_def Let_def)
  have c: "timeout apply_fn ?wh Retry x p pt 0 ?w =
    (if p \<noteq> None \<and> err (makethread pt) = 0 \<and> int d < 10 * SECTONSEC
     then Inr (?w\<lparr>infos := (infos w)(the p \<mapsto> \<lparr>to_fn = Retry, to_arg = x, to_wait = wait_until ?wh (clock_gettime (clock w + int d))\<rparr>),
       threads := threads w @ [\<lparr>tpc = T_start, tip = the p, due = clock w + 10 * SECTONSEC\<rparr>]\<rparr>)
     else call_fn apply_fn Retry x (clock w + 10 * SECTONSEC) 0 ?w)"
    using assms(3) by (subst timeout_cases) (auto simp: not_yet ten_seconds)
  show ?thesis
  proof (cases "p \<noteq> None \<and> err (makethread pt) = 0 \<and> int d < 10 * SECTONSEC")
    case True
    have "nanos (wait_until ?wh (clock_gettime (clock w + int d))) = 10 * SECTONSEC - int d"
      using wait_until(3) [OF ten_seconds(2) valid_clock, of "clock w" "clock w + int d"] not_yet True
      by (simp add: ten_seconds)
    with True show ?thesis
      by (simp add: m c lu(2) del: One_nat_def) (rule exI, rule conjI, rule refl, simp)
  next
    case False
    show ?thesis
      unfolding m c if_not_P [OF False] using retry_held [of "mem ?w" 0] lu(2)
      by (cases "kind (mutex (mem w))") (simp_all add: call_fn_def del: One_nat_def)
  qed
qed

definition before_section :: "(fn, nat, prog) world" where
  "before_section = main_init (world_start 5 \<lparr>mutex = mutex_init Normal, retries = 0\<rparr>)"

theorem retry_needs_recursive_witness:
  "\<exists>w'. main_section True 0 7 None (0, 0, 0) before_section = Inr w' \<and> retries (mem w') = 1"
proof -
  have "holder (mutex (mem before_section)) = None" "depth (mutex (mem before_section)) = 0"
    "kind (mutex (mem before_section)) = Recursive" "retries (mem before_section) = 0"
    by (simp_all add: before_section_def main_init_def mutex_init_def world_start_def)
  with retry_needs_recursive [of before_section None "(0, 0, 0)" 7 0] show ?thesis by auto
qed

end
