(* ===== verification/PtyLoop.thy ===== *)
theory PtyLoop
  imports Prelude "HOL-Library.Sublist"
begin

text \<open>
  \<^verbatim>\<open>loop\<close> and \<^verbatim>\<open>sig_term\<close> of \<^verbatim>\<open>pty/loop.c\<close>: a child copies the standard input to the master side of a pseudo
  terminal, the parent copies what comes from there to the standard output, and each tells the other
  to stop by \<^verbatim>\<open>SIGTERM\<close>.
\<close>

section \<open>State\<close>

definition BUFFSIZE :: nat where "BUFFSIZE = 512"

text \<open>
  The child reads, writes what it has read, sends the signal, exits, and has exited; it may be killed by
  the signal of the parent, or leave by \<^verbatim>\<open>err_sys\<close>. The parent installs its handler, is about to call
  \<^verbatim>\<open>read\<close>, waits in it, writes, waits in \<^verbatim>\<open>write\<close>, tests \<^verbatim>\<open>sigcaught\<close>, sends the signal, returns.
\<close>

datatype cpc = C_read | C_write string | C_kill | C_exit | C_end | C_killed | C_failed
datatype ppc = P_install | P_read | P_blocked | P_write string | P_wblocked string | P_test | P_kill | P_done | P_killed | P_failed

record pty =
  child :: cpc
  parent :: ppc
  sigcaught :: bool
  stdin :: string
  stdin_eof :: bool
  to_slave :: string
  from_slave :: string
  slave_closed :: bool
  stdout :: string
  typed :: string
  answered :: string

text \<open>The last two are not in the program: all that was typed, and all that the slave has written.\<close>

definition pty_start :: pty where
  "pty_start = \<lparr>child = C_read, parent = P_install, sigcaught = False, stdin = [], stdin_eof = False,
     to_slave = [], from_slave = [], slave_closed = False, stdout = [], typed = [], answered = []\<rparr>"

section \<open>Steps\<close>

text \<open>
  \<^verbatim>\<open>SIGTERM\<close> ends a parent that has no handler yet; \<open>sig_term\<close> sets the flag, and \<^verbatim>\<open>read\<close> and \<^verbatim>\<open>write\<close> are
  interrupted when they wait, since \<^verbatim>\<open>signal_intr\<close> does not restart them. \<^verbatim>\<open>loop\<close> then ends by its \<^verbatim>\<open>break\<close>
  or, in \<^verbatim>\<open>writen\<close>, by \<^verbatim>\<open>err_sys\<close>.
\<close>

definition sig_term :: "pty \<Rightarrow> pty" where
  "sig_term s = s\<lparr>sigcaught := True\<rparr>"

definition to_parent :: "pty \<Rightarrow> pty" where
  "to_parent s = (case parent s of
       P_install \<Rightarrow> s\<lparr>parent := P_killed\<rparr>
     | P_blocked \<Rightarrow> (sig_term s)\<lparr>parent := P_test\<rparr>
     | P_wblocked d \<Rightarrow> (sig_term s)\<lparr>parent := P_failed\<rparr>
     | P_killed \<Rightarrow> s
     | P_failed \<Rightarrow> s
     | _ \<Rightarrow> sig_term s)"

definition to_child :: "pty \<Rightarrow> pty" where
  "to_child s = (if child s \<in> {C_end, C_failed, C_killed} then s else s\<lparr>child := C_killed\<rparr>)"

text \<open>\<open>n\<close> is the number of bytes that \<^verbatim>\<open>read\<close> returns.\<close>

definition child_step :: "bool \<Rightarrow> nat \<Rightarrow> pty \<Rightarrow> pty option" where
  "child_step ignoreeof n s = (case child s of
       C_read \<Rightarrow>
         if stdin s = [] then
           if stdin_eof s then Some (s\<lparr>child := (if ignoreeof then C_exit else C_kill)\<rparr>) else None
         else if 0 < n \<and> n \<le> min BUFFSIZE (length (stdin s))
         then Some (s\<lparr>child := C_write (take n (stdin s)), stdin := drop n (stdin s)\<rparr>) else None
     | C_write d \<Rightarrow> Some (s\<lparr>child := C_read, to_slave := to_slave s @ d\<rparr>)
     | C_kill \<Rightarrow> Some ((to_parent s)\<lparr>child := C_exit\<rparr>)
     | C_exit \<Rightarrow> Some (s\<lparr>child := C_end\<rparr>)
     | _ \<Rightarrow> None)"

definition parent_step :: "nat \<Rightarrow> pty \<Rightarrow> pty option" where
  "parent_step n s = (case parent s of
       P_install \<Rightarrow> Some (s\<lparr>parent := P_read\<rparr>)
     | P_read \<Rightarrow> Some (s\<lparr>parent := P_blocked\<rparr>)
     | P_blocked \<Rightarrow>
         if from_slave s = [] then
           if slave_closed s then Some (s\<lparr>parent := P_test\<rparr>) else None
         else if 0 < n \<and> n \<le> min BUFFSIZE (length (from_slave s))
         then Some (s\<lparr>parent := P_write (take n (from_slave s)), from_slave := drop n (from_slave s)\<rparr>) else None
     | P_write d \<Rightarrow> Some (s\<lparr>parent := P_wblocked d\<rparr>)
     | P_wblocked d \<Rightarrow> Some (s\<lparr>parent := P_read, stdout := stdout s @ d\<rparr>)
     | P_test \<Rightarrow> Some (s\<lparr>parent := (if sigcaught s then P_done else P_kill)\<rparr>)
     | P_kill \<Rightarrow> Some ((to_child s)\<lparr>parent := P_done\<rparr>)
     | _ \<Rightarrow> None)"

text \<open>Calls that fail; \<^verbatim>\<open>writen\<close> has written \<open>k\<close> bytes then.\<close>

definition child_fails :: "nat \<Rightarrow> pty \<Rightarrow> pty option" where
  "child_fails k s = (case child s of
       C_read \<Rightarrow> Some (s\<lparr>child := C_failed\<rparr>)
     | C_write d \<Rightarrow> if k < length d then Some (s\<lparr>child := C_failed, to_slave := to_slave s @ take k d\<rparr>) else None
     | _ \<Rightarrow> None)"

definition parent_fails :: "nat \<Rightarrow> pty \<Rightarrow> pty option" where
  "parent_fails k s = (case parent s of
       P_install \<Rightarrow> Some (s\<lparr>parent := P_failed\<rparr>)
     | P_blocked \<Rightarrow> Some (s\<lparr>parent := P_test\<rparr>)
     | P_wblocked d \<Rightarrow> if k < length d then Some (s\<lparr>parent := P_failed, stdout := stdout s @ take k d\<rparr>) else None
     | _ \<Rightarrow> None)"

text \<open>A schedule, with the user at the terminal and the process on the slave side.\<close>

datatype act = Child nat | Parent nat | Child_fails nat | Parent_fails nat
  | Type string | End_input | Slave string | Slave_closes

definition pty_act :: "bool \<Rightarrow> act \<Rightarrow> pty \<Rightarrow> pty option" where
  "pty_act ignoreeof a s = (case a of
       Child n \<Rightarrow> child_step ignoreeof n s
     | Parent n \<Rightarrow> parent_step n s
     | Child_fails k \<Rightarrow> child_fails k s
     | Parent_fails k \<Rightarrow> parent_fails k s
     | Type x \<Rightarrow> if stdin_eof s then None else Some (s\<lparr>stdin := stdin s @ x, typed := typed s @ x\<rparr>)
     | End_input \<Rightarrow> Some (s\<lparr>stdin_eof := True\<rparr>)
     | Slave x \<Rightarrow> if slave_closed s then None else Some (s\<lparr>from_slave := from_slave s @ x, answered := answered s @ x\<rparr>)
     | Slave_closes \<Rightarrow> Some (s\<lparr>slave_closed := True\<rparr>))"

fun pty_run :: "bool \<Rightarrow> act list \<Rightarrow> pty \<Rightarrow> pty option" where
  "pty_run ie [] s = Some s"
| "pty_run ie (a # as) s = (case pty_act ie a s of None \<Rightarrow> None | Some s' \<Rightarrow> pty_run ie as s')"

section \<open>Invariant\<close>

definition child_data :: "pty \<Rightarrow> bool" where
  "child_data s \<longleftrightarrow> (case child s of
       C_read \<Rightarrow> typed s = to_slave s @ stdin s
     | C_write d \<Rightarrow> typed s = to_slave s @ d @ stdin s
     | C_killed \<Rightarrow> prefix (to_slave s) (typed s)
     | C_failed \<Rightarrow> prefix (to_slave s) (typed s)
     | _ \<Rightarrow> stdin_eof s \<and> typed s = to_slave s)"

definition parent_data :: "pty \<Rightarrow> bool" where
  "parent_data s \<longleftrightarrow> (case parent s of
       P_write d \<Rightarrow> answered s = stdout s @ d @ from_slave s
     | P_wblocked d \<Rightarrow> answered s = stdout s @ d @ from_slave s
     | P_failed \<Rightarrow> prefix (stdout s) (answered s)
     | _ \<Rightarrow> answered s = stdout s @ from_slave s)"

text \<open>Who has told whom.\<close>

definition told :: "bool \<Rightarrow> pty \<Rightarrow> bool" where
  "told ie s \<longleftrightarrow>
     (sigcaught s \<longrightarrow> \<not> ie \<and> child s \<in> {C_exit, C_end, C_killed}) \<and>
     (child s = C_killed \<longrightarrow> parent s = P_done) \<and>
     (child s = C_kill \<longrightarrow> \<not> ie) \<and>
     (child s \<in> {C_exit, C_end} \<and> \<not> ie \<longrightarrow> sigcaught s \<or> parent s \<in> {P_killed, P_failed}) \<and>
     (parent s = P_killed \<longrightarrow> \<not> ie \<and> child s \<in> {C_exit, C_end}) \<and>
     (parent s = P_done \<longrightarrow> child s \<in> {C_exit, C_end, C_killed, C_failed})"

definition pty_inv :: "bool \<Rightarrow> pty \<Rightarrow> bool" where
  "pty_inv ie s \<longleftrightarrow> child_data s \<and> parent_data s \<and> told ie s"

lemma pty_inv_start: "pty_inv ie pty_start"
  by (simp add: pty_inv_def pty_start_def child_data_def parent_data_def told_def)

text \<open>Each process leaves the data of the other alone.\<close>

lemma parent_data_upd [simp]:
  "parent_data (s\<lparr>child := c\<rparr>) = parent_data s" "parent_data (s\<lparr>to_slave := x\<rparr>) = parent_data s"
  "parent_data (s\<lparr>stdin := x\<rparr>) = parent_data s" "parent_data (s\<lparr>typed := x\<rparr>) = parent_data s"
  "parent_data (s\<lparr>stdin_eof := b\<rparr>) = parent_data s" "parent_data (s\<lparr>sigcaught := b\<rparr>) = parent_data s"
  "parent_data (s\<lparr>slave_closed := b\<rparr>) = parent_data s"
  by (cases "parent s"; simp add: parent_data_def)+

lemma child_data_upd [simp]:
  "child_data (s\<lparr>parent := q\<rparr>) = child_data s" "child_data (s\<lparr>stdout := x\<rparr>) = child_data s"
  "child_data (s\<lparr>from_slave := x\<rparr>) = child_data s" "child_data (s\<lparr>answered := x\<rparr>) = child_data s"
  "child_data (s\<lparr>slave_closed := b\<rparr>) = child_data s" "child_data (s\<lparr>sigcaught := b\<rparr>) = child_data s"
  by (cases "child s"; simp add: child_data_def)+

lemma to_parent_data [simp]:
  "child_data (to_parent s) = child_data s" "parent_data s \<Longrightarrow> parent_data (to_parent s)"
  "child (to_parent s) = child s"
  by (cases "parent s"; auto simp: to_parent_def sig_term_def parent_data_def prefix_def)+

lemma to_child_data [simp]:
  "parent_data (to_child s) = parent_data s" "child_data s \<Longrightarrow> child_data (to_child s)"
  "parent (to_child s) = parent s"
  by (cases "child s"; auto simp: to_child_def child_data_def prefix_def)+

lemma child_step_data:
  "child_data s \<Longrightarrow> child_step ie n s = Some s' \<Longrightarrow> child_data s'"
  "parent_data s \<Longrightarrow> child_step ie n s = Some s' \<Longrightarrow> parent_data s'"
proof -
  assume s': "child_step ie n s = Some s'"
  then show "parent_data s \<Longrightarrow> parent_data s'"
    by (cases "child s") (auto simp: child_step_def split: if_splits)
  have k: "\<And>c. child_data (to_parent s\<lparr>child := C_exit\<rparr>) \<longleftrightarrow> child_data (s\<lparr>child := C_exit\<rparr>)"
    by (cases "parent s") (simp_all add: to_parent_def sig_term_def child_data_def)
  show "child_data s \<Longrightarrow> child_data s'"
    using s' k by (cases "child s") (auto simp: child_step_def child_data_def split: if_splits)
qed

lemma child_step_told: "told ie s \<Longrightarrow> child_step ie n s = Some s' \<Longrightarrow> told ie s'"
proof (cases "child s")
  case C_kill
  assume t: "told ie s" and "child_step ie n s = Some s'"
  then have "s' = (to_parent s)\<lparr>child := C_exit\<rparr>" using C_kill by (simp add: child_step_def)
  with t C_kill show ?thesis by (cases "parent s") (simp_all add: to_parent_def sig_term_def told_def)
qed (auto simp: child_step_def told_def split: if_splits)

lemma parent_step_data:
  "child_data s \<Longrightarrow> parent_step n s = Some s' \<Longrightarrow> child_data s'"
  "parent_data s \<Longrightarrow> parent_step n s = Some s' \<Longrightarrow> parent_data s'"
proof -
  assume s': "parent_step n s = Some s'"
  then show "child_data s \<Longrightarrow> child_data s'"
    by (cases "parent s") (auto simp: parent_step_def split: if_splits)
  have k: "parent_data (to_child s\<lparr>parent := P_done\<rparr>) \<longleftrightarrow> parent_data (s\<lparr>parent := P_done\<rparr>)"
    by (cases "child s") (simp_all add: to_child_def parent_data_def)
  show "parent_data s \<Longrightarrow> parent_data s'"
    using s' k by (cases "parent s") (auto simp: parent_step_def parent_data_def split: if_splits)
qed

lemma told_upd [simp]:
  "told ie (s\<lparr>stdout := x\<rparr>) = told ie s" "told ie (s\<lparr>to_slave := x\<rparr>) = told ie s"
  "told ie (s\<lparr>from_slave := x\<rparr>) = told ie s" "told ie (s\<lparr>stdin := x\<rparr>) = told ie s"
  "told ie (s\<lparr>answered := x\<rparr>) = told ie s" "told ie (s\<lparr>typed := x\<rparr>) = told ie s"
  "told ie (s\<lparr>stdin_eof := b\<rparr>) = told ie s" "told ie (s\<lparr>slave_closed := b\<rparr>) = told ie s"
  by (simp_all add: told_def)

text \<open>In the loop the parent has not told and not ended.\<close>

definition in_loop :: "ppc \<Rightarrow> bool" where
  "in_loop q \<longleftrightarrow> q \<noteq> P_killed \<and> q \<noteq> P_failed \<and> q \<noteq> P_done"

lemma told_parent: "told ie s \<Longrightarrow> in_loop (parent s) \<Longrightarrow> in_loop q \<Longrightarrow> told ie (s\<lparr>parent := q\<rparr>)"
  unfolding told_def in_loop_def by auto

lemma told_done: "told ie s \<Longrightarrow> in_loop (parent s) \<Longrightarrow> sigcaught s \<Longrightarrow> told ie (s\<lparr>parent := P_done\<rparr>)"
  unfolding told_def in_loop_def by auto

lemma told_kill: "told ie s \<Longrightarrow> parent s = P_kill \<Longrightarrow> told ie (to_child s\<lparr>parent := P_done\<rparr>)"
  by (cases "child s") (simp_all add: told_def to_child_def)

lemma parent_step_told:
  assumes t: "told ie s" and st: "parent_step n s = Some s'" shows "told ie s'"
proof (cases "parent s")
  case P_test
  with st have "s' = s\<lparr>parent := (if sigcaught s then P_done else P_kill)\<rparr>" by (simp add: parent_step_def)
  with t P_test told_done told_parent show ?thesis by (simp add: in_loop_def)
next
  case P_kill
  with st t told_kill show ?thesis by (auto simp: parent_step_def)
qed (use t st told_parent in \<open>auto simp: parent_step_def in_loop_def split: if_splits\<close>)

lemma told_failed:
  "told ie s \<Longrightarrow> child s = C_read \<or> child s = C_write d \<Longrightarrow> told ie (s\<lparr>child := C_failed\<rparr>)"
  "told ie s \<Longrightarrow> in_loop (parent s) \<Longrightarrow> told ie (s\<lparr>parent := P_failed\<rparr>)"
  by (elim disjE, simp_all add: told_def) (cases "child s"; simp add: told_def in_loop_def)

lemma pty_inv_steps:
  "pty_inv ie s \<Longrightarrow> child_step ie n s = Some s' \<Longrightarrow> pty_inv ie s'"
  "pty_inv ie s \<Longrightarrow> parent_step n s = Some s' \<Longrightarrow> pty_inv ie s'"
  by (simp_all add: pty_inv_def child_step_data [of s ie n s'] child_step_told [of ie s n s']
      parent_step_data [of s n s'] parent_step_told [of ie s n s'])

lemma prefix_take: "prefix (take k ys) (ys @ zs)"
  by (metis append.assoc append_take_drop_id prefixI)

lemma child_fails_inv:
  assumes "pty_inv ie s" "child_fails k s = Some s'" shows "pty_inv ie s'"
proof (cases "child s")
  case C_read
  with assms told_failed(1) [of ie s] show ?thesis
    by (auto simp: pty_inv_def child_fails_def child_data_def)
next
  case (C_write d)
  with assms told_failed(1) [of ie s d] show ?thesis
    by (auto simp: pty_inv_def child_fails_def child_data_def prefix_take split: if_splits)
qed (use assms(2) in \<open>simp_all add: child_fails_def\<close>)

lemma parent_fails_inv:
  assumes "pty_inv ie s" "parent_fails k s = Some s'" shows "pty_inv ie s'"
proof (cases "parent s")
  case P_install
  with assms told_failed(2) [of ie s] show ?thesis
    by (auto simp: pty_inv_def parent_fails_def parent_data_def in_loop_def)
next
  case P_blocked
  with assms told_parent [of ie s P_test] show ?thesis
    by (auto simp: pty_inv_def parent_fails_def parent_data_def in_loop_def)
next
  case (P_wblocked d)
  with assms told_failed(2) [of ie s] show ?thesis
    by (auto simp: pty_inv_def parent_fails_def parent_data_def in_loop_def prefix_take split: if_splits)
qed (use assms(2) in \<open>simp_all add: parent_fails_def\<close>)

lemma pty_inv_others:
  assumes "pty_inv ie s"
  shows "\<not> stdin_eof s \<Longrightarrow> pty_inv ie (s\<lparr>stdin := stdin s @ x, typed := typed s @ x\<rparr>)"
    "pty_inv ie (s\<lparr>stdin_eof := True\<rparr>)"
    "pty_inv ie (s\<lparr>from_slave := from_slave s @ x, answered := answered s @ x\<rparr>)"
    "pty_inv ie (s\<lparr>slave_closed := True\<rparr>)"
proof -
  have "child_data (s\<lparr>stdin := stdin s @ x, typed := typed s @ x\<rparr>)" if "\<not> stdin_eof s"
    using assms that by (cases "child s") (simp_all add: pty_inv_def child_data_def)
  moreover have "child_data (s\<lparr>stdin_eof := True\<rparr>)"
    using assms by (cases "child s") (simp_all add: pty_inv_def child_data_def)
  moreover have "parent_data (s\<lparr>from_slave := from_slave s @ x, answered := answered s @ x\<rparr>)"
    using assms by (cases "parent s") (simp_all add: pty_inv_def parent_data_def)
  ultimately show "\<not> stdin_eof s \<Longrightarrow> pty_inv ie (s\<lparr>stdin := stdin s @ x, typed := typed s @ x\<rparr>)"
    "pty_inv ie (s\<lparr>stdin_eof := True\<rparr>)"
    "pty_inv ie (s\<lparr>from_slave := from_slave s @ x, answered := answered s @ x\<rparr>)"
    "pty_inv ie (s\<lparr>slave_closed := True\<rparr>)"
    using assms by (auto simp: pty_inv_def)
qed

lemma pty_inv_act: "pty_inv ie s \<Longrightarrow> pty_act ie a s = Some s' \<Longrightarrow> pty_inv ie s'"
  by (cases a) (auto simp: pty_act_def split: if_splits intro: pty_inv_steps child_fails_inv parent_fails_inv pty_inv_others)

lemma pty_inv_run: "pty_inv ie s \<Longrightarrow> pty_run ie as s = Some s' \<Longrightarrow> pty_inv ie s'"
proof (induction as arbitrary: s)
  case (Cons a as)
  then obtain s1 where "pty_act ie a s = Some s1" "pty_run ie as s1 = Some s'" by (auto split: option.splits)
  with Cons.prems(1) show ?case using Cons.IH pty_inv_act by blast
qed simp

section \<open>Copying and stopping\<close>

lemma told_facts:
  assumes "pty_inv ie s"
  shows "prefix (to_slave s) (typed s)" "prefix (stdout s) (answered s)"
    "child s = C_end \<Longrightarrow> stdin_eof s \<and> to_slave s = typed s"
    "parent s = P_done \<Longrightarrow> child s \<in> {C_exit, C_end, C_killed, C_failed}"
    "child s = C_killed \<Longrightarrow> parent s = P_done"
    "ie \<Longrightarrow> \<not> sigcaught s \<and> parent s \<noteq> P_killed"
    "\<not> ie \<Longrightarrow> child s = C_end \<Longrightarrow> sigcaught s \<or> parent s = P_killed \<or> parent s = P_failed"
proof -
  have c: "child_data s" "parent_data s" "told ie s" using assms by (simp_all add: pty_inv_def)
  show "prefix (to_slave s) (typed s)" using c(1) by (cases "child s") (simp_all add: child_data_def)
  show "prefix (stdout s) (answered s)" using c(2) by (cases "parent s") (simp_all add: parent_data_def)
  show "child s = C_end \<Longrightarrow> stdin_eof s \<and> to_slave s = typed s" using c(1) by (simp add: child_data_def)
  show "parent s = P_done \<Longrightarrow> child s \<in> {C_exit, C_end, C_killed, C_failed}"
    "child s = C_killed \<Longrightarrow> parent s = P_done"
    "ie \<Longrightarrow> \<not> sigcaught s \<and> parent s \<noteq> P_killed"
    "\<not> ie \<Longrightarrow> child s = C_end \<Longrightarrow> sigcaught s \<or> parent s = P_killed \<or> parent s = P_failed"
    using c(3) by (simp_all add: told_def)
qed

text \<open>What a process has read and not yet written.\<close>

fun child_holds :: "cpc \<Rightarrow> string" where
  "child_holds (C_write d) = d"
| "child_holds _ = []"

fun parent_holds :: "ppc \<Rightarrow> string" where
  "parent_holds (P_write d) = d"
| "parent_holds (P_wblocked d) = d"
| "parent_holds _ = []"

lemma nothing_lost:
  assumes "pty_inv ie s"
  shows "child s \<notin> {C_failed, C_killed} \<Longrightarrow> typed s = to_slave s @ child_holds (child s) @ stdin s \<or>
      child s \<in> {C_kill, C_exit, C_end} \<and> typed s = to_slave s"
    "parent s \<noteq> P_failed \<Longrightarrow> answered s = stdout s @ parent_holds (parent s) @ from_slave s"
proof -
  have c: "child_data s" "parent_data s" using assms by (simp_all add: pty_inv_def)
  show "child s \<notin> {C_failed, C_killed} \<Longrightarrow> typed s = to_slave s @ child_holds (child s) @ stdin s \<or>
      child s \<in> {C_kill, C_exit, C_end} \<and> typed s = to_slave s"
    using c(1) by (cases "child s") (simp_all add: child_data_def)
  show "parent s \<noteq> P_failed \<Longrightarrow> answered s = stdout s @ parent_holds (parent s) @ from_slave s"
    using c(2) by (cases "parent s") (simp_all add: parent_data_def)
qed

text \<open>Everything that the slave wrote is on the standard output, and the slave has ended.\<close>

definition all_out :: "pty \<Rightarrow> bool" where
  "all_out s \<longleftrightarrow> slave_closed s \<and> from_slave s = [] \<and> stdout s = answered s"

definition left_loop :: "pty \<Rightarrow> bool" where
  "left_loop s \<longleftrightarrow> (parent s \<in> {P_test, P_done} \<longrightarrow> sigcaught s \<or> all_out s) \<and>
     (parent s = P_kill \<or> child s = C_killed \<longrightarrow> all_out s)"

fun parent_ok :: "act \<Rightarrow> bool" where
  "parent_ok (Parent_fails k) \<longleftrightarrow> False"
| "parent_ok _ \<longleftrightarrow> True"

lemma all_out_simps [simp]:
  "all_out (s\<lparr>child := c\<rparr>) = all_out s" "all_out (s\<lparr>parent := q\<rparr>) = all_out s" "all_out (s\<lparr>to_slave := x\<rparr>) = all_out s"
  "all_out (s\<lparr>stdin := x\<rparr>) = all_out s" "all_out (s\<lparr>typed := x\<rparr>) = all_out s" "all_out (s\<lparr>stdin_eof := b\<rparr>) = all_out s"
  "all_out (s\<lparr>sigcaught := b\<rparr>) = all_out s"
  by (simp_all add: all_out_def)

lemma all_out_told [simp]: "all_out (to_parent s) = all_out s" "all_out (to_child s) = all_out s"
  by (cases "parent s"; simp add: to_parent_def sig_term_def all_out_def) (simp add: to_child_def all_out_def)

lemma child_left:
  assumes "left_loop s" "child_step ie n s = Some s'" shows "left_loop s'"
proof (cases "child s")
  case C_kill
  with assms have "s' = (to_parent s)\<lparr>child := C_exit\<rparr>" by (simp add: child_step_def)
  with assms(1) C_kill show ?thesis
    by (cases "parent s") (simp_all add: left_loop_def to_parent_def sig_term_def)
qed (use assms in \<open>auto simp: child_step_def left_loop_def split: if_splits\<close>)

lemma parent_left:
  assumes "left_loop s" "pty_inv ie s" "parent_step n s = Some s'" shows "left_loop s'"
proof -
  have k: "child s = C_killed \<Longrightarrow> parent s = P_done" using assms(2) by (simp add: pty_inv_def told_def)
  show ?thesis
  proof (cases "parent s")
    case P_blocked
    have a: "answered s = stdout s @ from_slave s" using nothing_lost(2) [OF assms(2)] P_blocked by simp
    show ?thesis
    proof (cases "from_slave s = []")
      case True
      with assms(3) P_blocked have "slave_closed s" "s' = s\<lparr>parent := P_test\<rparr>" by (auto simp: parent_step_def split: if_splits)
      with True a k P_blocked show ?thesis by (simp add: left_loop_def all_out_def)
    next
      case False
      with assms(3) P_blocked have "s' = s\<lparr>parent := P_write (take n (from_slave s)), from_slave := drop n (from_slave s)\<rparr>"
        by (auto simp: parent_step_def split: if_splits)
      with k P_blocked show ?thesis by (auto simp: left_loop_def)
    qed
  next
    case P_kill
    with assms(3) have "s' = (to_child s)\<lparr>parent := P_done\<rparr>" by (simp add: parent_step_def)
    with assms(1) P_kill show ?thesis by (simp add: left_loop_def)
  next
    case P_test
    with assms(3) have "s' = s\<lparr>parent := (if sigcaught s then P_done else P_kill)\<rparr>" by (simp add: parent_step_def)
    with assms(1) P_test k show ?thesis by (auto simp: left_loop_def)
  qed (use assms(3) k in \<open>auto simp: parent_step_def left_loop_def\<close>)
qed

lemma left_loop_act:
  assumes "left_loop s" "pty_inv ie s" "parent_ok a" "pty_act ie a s = Some s'"
  shows "left_loop s'"
proof (cases a)
  case (Child_fails k)
  with assms(1,4) show ?thesis
    by (cases "child s") (auto simp: pty_act_def child_fails_def left_loop_def split: if_splits)
next
  case (Slave x)
  with assms(4) have "\<not> slave_closed s" "s' = s\<lparr>from_slave := from_slave s @ x, answered := answered s @ x\<rparr>"
    by (auto simp: pty_act_def split: if_splits)
  with assms(1) show ?thesis by (simp add: left_loop_def all_out_def)
next
  case (Child n)
  with assms(1,4) show ?thesis by (simp add: pty_act_def child_left [of s ie n s'])
next
  case (Parent n)
  with assms(1,2,4) show ?thesis by (simp add: pty_act_def parent_left [of s ie n s'])
next
  case (Type x)
  with assms(1,4) show ?thesis by (auto simp: pty_act_def left_loop_def split: if_splits)
next
  case Slave_closes
  with assms(1,4) have "s' = s\<lparr>slave_closed := True\<rparr>" by (simp add: pty_act_def)
  with assms(1) show ?thesis by (auto simp: left_loop_def all_out_def)
qed (use assms in \<open>auto simp: pty_act_def left_loop_def\<close>)

lemma left_loop_run:
  "pty_inv ie s \<Longrightarrow> left_loop s \<Longrightarrow> list_all parent_ok as \<Longrightarrow> pty_run ie as s = Some s' \<Longrightarrow> left_loop s'"
proof (induction as arbitrary: s)
  case (Cons a as)
  then obtain s1 where s1: "pty_act ie a s = Some s1" "pty_run ie as s1 = Some s'" by (auto split: option.splits)
  have "left_loop s1" "pty_inv ie s1" using left_loop_act [OF Cons.prems(2,1) _ s1(1)] pty_inv_act [OF Cons.prems(1) s1(1)] Cons.prems(3) by auto
  with s1(2) Cons show ?case by simp
qed simp

lemma left_loop_start: "left_loop pty_start"
  by (simp add: left_loop_def pty_start_def)

text \<open>As long as there is something to copy, or the slave has ended, the parent can go on.\<close>

lemma parent_goes_on:
  "in_loop (parent s) \<Longrightarrow> parent s = P_blocked \<longrightarrow> from_slave s \<noteq> [] \<or> slave_closed s \<Longrightarrow> \<exists>s'. pty_act ie (Parent 1) s = Some s'"
  by (cases "parent s"; cases "from_slave s") (auto simp: pty_act_def parent_step_def in_loop_def BUFFSIZE_def)

lemma told_in_read:
  "child s = C_kill \<Longrightarrow> parent s = P_blocked \<Longrightarrow>
    pty_run ie [Child 0, Parent 0] s = Some (s\<lparr>sigcaught := True, parent := P_done, child := C_exit\<rparr>)"
  by (simp add: pty_act_def child_step_def to_parent_def sig_term_def parent_step_def)

text \<open>The signal comes before the parent calls \<^verbatim>\<open>read\<close>; it comes before there is a handler.\<close>

definition told_outside_read :: "act list" where
  "told_outside_read = [Parent 0, End_input, Child 0, Child 0, Child 0, Parent 0]"

definition told_too_early :: "act list" where
  "told_too_early = [Slave ''bye'', End_input, Child 0, Child 0]"

lemmas pty_eval = pty_start_def pty_act_def child_step_def parent_step_def to_parent_def sig_term_def

text \<open>
  C25. What the slave gets is a prefix of what was typed and what appears on the standard output a prefix of
  what the slave wrote, in every schedule of \<^verbatim>\<open>loop\<close>, failing calls included; a child that ends by itself
  has copied everything. Nothing is lost on the way: until its last \<^verbatim>\<open>writen\<close> fails, what the slave wrote is
  the standard output, followed by what the parent holds, followed by what it can still read, and the parent
  can go on as long as there is something to read or the slave has ended. If no call of the parent
  fails, it leaves the loop only because of the signal or when all that the slave wrote is on the standard output
  and the slave has closed; only in that case it kills the child. The parent returns only when the child has finished, was killed by it, or is at
  its \<^verbatim>\<open>exit\<close>; with \<^verbatim>\<open>ignoreeof\<close> it gets no signal, otherwise it has been told
  when the child has ended, and it returns at once if it was waiting in \<^verbatim>\<open>read\<close>. If it was not, the flag
  \<^verbatim>\<open>sigcaught\<close>, which the loop does not test, is lost: the parent waits for a slave that waits for input.
  Before the handler is installed the signal kills the parent.
\<close>

theorem pty_loop_copies:
  "(\<forall>ie as s. pty_run ie as pty_start = Some s \<longrightarrow>
      prefix (to_slave s) (typed s) \<and> prefix (stdout s) (answered s) \<and>
      (child s = C_end \<longrightarrow> stdin_eof s \<and> to_slave s = typed s) \<and>
      (parent s = P_done \<longrightarrow> child s \<in> {C_exit, C_end, C_killed, C_failed}) \<and>
      (child s = C_killed \<longrightarrow> parent s = P_done) \<and>
      (ie \<longrightarrow> \<not> sigcaught s \<and> parent s \<noteq> P_killed) \<and>
      (\<not> ie \<and> child s = C_end \<longrightarrow> sigcaught s \<or> parent s = P_killed \<or> parent s = P_failed) \<and>
      (child s = C_kill \<and> parent s = P_blocked \<longrightarrow>
        pty_run ie [Child 0, Parent 0] s = Some (s\<lparr>sigcaught := True, parent := P_done, child := C_exit\<rparr>)) \<and>
      (child s \<notin> {C_failed, C_killed} \<longrightarrow> typed s = to_slave s @ child_holds (child s) @ stdin s \<or>
        child s \<in> {C_kill, C_exit, C_end} \<and> typed s = to_slave s) \<and>
      (parent s \<noteq> P_failed \<longrightarrow> answered s = stdout s @ parent_holds (parent s) @ from_slave s) \<and>
      (in_loop (parent s) \<and> (parent s = P_blocked \<longrightarrow> from_slave s \<noteq> [] \<or> slave_closed s) \<longrightarrow>
        (\<exists>n s'. pty_act ie (Parent n) s = Some s')) \<and>
      (list_all parent_ok as \<longrightarrow>
        (parent s \<in> {P_test, P_done} \<longrightarrow> sigcaught s \<or> all_out s) \<and>
        (parent s = P_kill \<or> child s = C_killed \<longrightarrow> all_out s))) \<and>
   (\<exists>s. pty_run False told_outside_read pty_start = Some s \<and> child s = C_end \<and> sigcaught s \<and> parent s = P_blocked \<and>
      (\<forall>n. pty_act False (Child n) s = None \<and> pty_act False (Parent n) s = None)) \<and>
   (\<exists>s. pty_run False told_too_early pty_start = Some s \<and> parent s = P_killed \<and> answered s = ''bye'' \<and> stdout s = [])"
proof (intro conjI allI impI)
  fix ie as s assume r: "pty_run ie as pty_start = Some s"
  note f = told_facts [OF pty_inv_run [OF pty_inv_start r]]
  show "prefix (to_slave s) (typed s)" "prefix (stdout s) (answered s)" by (rule f)+
  show "child s = C_end \<Longrightarrow> stdin_eof s" "child s = C_end \<Longrightarrow> to_slave s = typed s" using f(3) by auto
  show "parent s = P_done \<Longrightarrow> child s \<in> {C_exit, C_end, C_killed, C_failed}" by (rule f)
  show "child s = C_killed \<Longrightarrow> parent s = P_done" by (rule f)
  show "ie \<Longrightarrow> \<not> sigcaught s" "ie \<Longrightarrow> parent s \<noteq> P_killed" using f(6) by auto
  show "\<not> ie \<and> child s = C_end \<Longrightarrow> sigcaught s \<or> parent s = P_killed \<or> parent s = P_failed" using f(7) by blast
  show "child s = C_kill \<and> parent s = P_blocked \<Longrightarrow>
      pty_run ie [Child 0, Parent 0] s = Some (s\<lparr>sigcaught := True, parent := P_done, child := C_exit\<rparr>)"
    using told_in_read by blast
  note l = nothing_lost [OF pty_inv_run [OF pty_inv_start r]]
  show "child s \<notin> {C_failed, C_killed} \<Longrightarrow> typed s = to_slave s @ child_holds (child s) @ stdin s \<or>
      child s \<in> {C_kill, C_exit, C_end} \<and> typed s = to_slave s"
    "parent s \<noteq> P_failed \<Longrightarrow> answered s = stdout s @ parent_holds (parent s) @ from_slave s" by (rule l; assumption)+
  show "in_loop (parent s) \<and> (parent s = P_blocked \<longrightarrow> from_slave s \<noteq> [] \<or> slave_closed s) \<Longrightarrow>
      \<exists>n s'. pty_act ie (Parent n) s = Some s'" using parent_goes_on by blast
  show "list_all parent_ok as \<Longrightarrow> parent s \<in> {P_test, P_done} \<Longrightarrow> sigcaught s \<or> all_out s"
    "list_all parent_ok as \<Longrightarrow> parent s = P_kill \<or> child s = C_killed \<Longrightarrow> all_out s"
    using left_loop_run [OF pty_inv_start left_loop_start _ r] by (auto simp: left_loop_def)
next
  show "\<exists>s. pty_run False told_outside_read pty_start = Some s \<and> child s = C_end \<and> sigcaught s \<and> parent s = P_blocked \<and>
      (\<forall>n. pty_act False (Child n) s = None \<and> pty_act False (Parent n) s = None)"
    by (simp add: told_outside_read_def pty_eval)
  show "\<exists>s. pty_run False told_too_early pty_start = Some s \<and> parent s = P_killed \<and> answered s = ''bye'' \<and> stdout s = []"
    by (simp add: told_too_early_def pty_eval)
qed

definition copies_all :: "act list" where
  "copies_all = [Type ''ls'', Parent 0, Child 2, Parent 0, Child 0, Slave ''a b'', Parent 3, Parent 0, Parent 0,
     End_input, Child 0, Parent 0, Child 0, Child 0]"

theorem pty_loop_copies_witness:
  "\<exists>s. pty_run False copies_all pty_start = Some s \<and> to_slave s = ''ls'' \<and> sigcaught s"
proof -
  have s: "\<exists>s. pty_run False copies_all pty_start = Some s \<and> child s = C_end \<and> typed s = ''ls'' \<and> parent s = P_test"
    by (simp add: copies_all_def pty_eval BUFFSIZE_def)
  then show ?thesis using pty_loop_copies by (metis ppc.distinct)
qed

end
