(* ===== verification/FileCopy.thy ===== *)
theory FileCopy
  imports Prelude "HOL-Library.Sublist"
begin

text \<open>
  Programs that copy a file: through a buffer (\<^verbatim>\<open>fileio/mycat.c\<close> and its variant \<^verbatim>\<open>ch03/mycat.c\<close>), through a
  buffer with a translation (\<^verbatim>\<open>advio/rot13a.c\<close>), and through memory mapped segments (\<^verbatim>\<open>advio/mcopy2.c\<close>).
\<close>

unbundle bit_operations_syntax

type_synonym byte = "8 word"
type_synonym files = "string \<Rightarrow> byte list option"

section \<open>Reads and writes\<close>

text \<open>
  What \<^verbatim>\<open>read\<close> returns at a rest of the input, and what \<^verbatim>\<open>write\<close> returns for a buffer: nothing but the
  documented bounds is known of them.
\<close>

definition reads :: "nat \<Rightarrow> (byte list \<Rightarrow> int) \<Rightarrow> bool" where
  "reads bsz rd \<longleftrightarrow> (\<forall>r. rd r = - 1 \<or> (if r = [] then rd r = 0 else 0 < rd r \<and> rd r \<le> int (min bsz (length r))))"

definition writes :: "(byte list \<Rightarrow> int) \<Rightarrow> bool" where
  "writes wr \<longleftrightarrow> (\<forall>b. - 1 \<le> wr b \<and> wr b \<le> int (length b))"

section \<open>mycat\<close>

definition BUFFSIZE :: nat where "BUFFSIZE = 4096"

text \<open>The bytes written, and how the program ended (\<open>None\<close> is \<^verbatim>\<open>exit(0)\<close>).\<close>

type_synonym copy_result = "byte list \<times> stop option"

function mycat :: "(byte list \<Rightarrow> int) \<Rightarrow> (byte list \<Rightarrow> int) \<Rightarrow> byte list \<Rightarrow> byte list \<Rightarrow> copy_result" where
  "mycat rd wr rest out = (let n = rd rest in
     if 0 < n \<and> rest \<noteq> [] then
       let buf = take (nat n) rest in
       if wr buf \<noteq> n then (out @ take (nat (wr buf)) buf, Some (Err_sys ''write error''))
       else mycat rd wr (drop (nat n) rest) (out @ buf)
     else if n < 0 then (out, Some (Err_sys ''read error''))
     else (out, None))"
  by pat_completeness auto
termination by (relation "measure (\<lambda>(rd, wr, rest, out). length rest)") auto

declare mycat.simps [simp del]

lemma reads_zero: "reads bsz rd \<Longrightarrow> rd r = 0 \<Longrightarrow> r = []"
  unfolding reads_def by (metis less_irrefl zero_neq_neg_one)

lemma prefix_rest: "prefix ys (drop n rest) \<Longrightarrow> prefix (take n rest @ ys) rest"
  by (metis append_take_drop_id same_prefix_prefix)

lemma mycat_prefix:
  "mycat rd wr rest out = (res, st) \<Longrightarrow> \<exists>ys. res = out @ ys \<and> prefix ys rest \<and> (st = None \<and> reads bsz rd \<longrightarrow> ys = rest)"
proof (induction rd wr rest out arbitrary: res st rule: mycat.induct)
  case (1 rd wr rest out)
  define n where "n = rd rest"
  show ?case
  proof (cases "0 < n \<and> rest \<noteq> [] \<and> wr (take (nat n) rest) = n")
    case True
    then have "mycat rd wr (drop (nat n) rest) (out @ take (nat n) rest) = (res, st)"
      using "1.prems" by (subst (asm) mycat.simps) (simp add: n_def [symmetric] Let_def)
    then obtain ys where "res = (out @ take (nat n) rest) @ ys" "prefix ys (drop (nat n) rest)"
        "st = None \<and> reads bsz rd \<longrightarrow> ys = drop (nat n) rest"
      using "1.IH" [OF n_def _ refl] True by auto
    then show ?thesis
      by (intro exI [of _ "take (nat n) rest @ ys"]) (auto intro: prefix_rest)
  next
    case False
    with "1.prems" show ?thesis using reads_zero [of bsz rd rest, folded n_def]
      by (subst (asm) mycat.simps) (auto simp: n_def [symmetric] Let_def take_is_prefix split: if_splits)
  qed
qed

text \<open>It succeeds where no call fails.\<close>

definition reads_all :: "nat \<Rightarrow> (byte list \<Rightarrow> int) \<Rightarrow> bool" where
  "reads_all bsz rd \<longleftrightarrow> reads bsz rd \<and> (\<forall>r. rd r \<noteq> - 1)"

definition writes_all :: "(byte list \<Rightarrow> int) \<Rightarrow> bool" where
  "writes_all wr \<longleftrightarrow> (\<forall>b. wr b = int (length b))"

lemma reads_all_bounds:
  "reads_all bsz rd \<Longrightarrow> r \<noteq> [] \<Longrightarrow> 0 < rd r \<and> nat (rd r) \<le> length r \<and> int (min (length r) (nat (rd r))) = rd r"
  "reads_all bsz rd \<Longrightarrow> rd [] = 0"
proof -
  assume r: "reads_all bsz rd"
  then show "rd [] = 0" unfolding reads_all_def reads_def by metis
  assume "r \<noteq> []"
  with r have "0 < rd r \<and> rd r \<le> int (min bsz (length r))" unfolding reads_all_def reads_def by metis
  then show "0 < rd r \<and> nat (rd r) \<le> length r \<and> int (min (length r) (nat (rd r))) = rd r" by auto
qed

lemma mycat_succeeds:
  "reads_all bsz rd \<Longrightarrow> writes_all wr \<Longrightarrow> mycat rd wr rest out = (out @ rest, None)"
proof (induction "length rest" arbitrary: rest out rule: less_induct)
  case less
  show ?case
  proof (cases "rest = []")
    case True
    with less.prems show ?thesis by (subst mycat.simps) (simp add: reads_all_bounds(2))
  next
    case False
    with less.prems reads_all_bounds(1) [of bsz rd rest] have b: "0 < rd rest" "nat (rd rest) \<le> length rest"
        "wr (take (nat (rd rest)) rest) = rd rest"
      by (auto simp: writes_all_def)
    with False have "mycat rd wr (drop (nat (rd rest)) rest) (out @ take (nat (rd rest)) rest) = (out @ rest, None)"
      using less by simp
    with b False show ?thesis by (subst mycat.simps) (simp add: Let_def)
  qed
qed

text \<open>
  The variant of \<^verbatim>\<open>ch03\<close> writes to \<^verbatim>\<open>2.dat\<close>, which it opens without \<^verbatim>\<open>O_TRUNC\<close> and without looking at the
  result: the new bytes go over the first bytes of the old contents.
\<close>

definition mycat3 :: "(byte list \<Rightarrow> int) \<Rightarrow> (byte list \<Rightarrow> int) \<Rightarrow> bool \<Rightarrow> byte list \<Rightarrow> files \<Rightarrow> files \<times> stop option" where
  "mycat3 rd wr opened inp fs =
    (if opened then
       let old = (case fs ''2.dat'' of None \<Rightarrow> [] | Some x \<Rightarrow> x); r = mycat rd wr inp [] in
       (fs(''2.dat'' \<mapsto> fst r @ drop (length (fst r)) old), snd r)
     else (fs, snd (mycat rd (\<lambda>b. - 1) inp [])))"

text \<open>
  \<^verbatim>\<open>mycat\<close> writes a prefix of its input whatever \<^verbatim>\<open>read\<close> and \<^verbatim>\<open>write\<close> return, and exits with 0 only when
  it has written all of it; it does so when they do not fail, however few bytes each \<^verbatim>\<open>read\<close> gives. The
  variant that writes to \<^verbatim>\<open>2.dat\<close> leaves the end of a longer old file behind the copy, and when the file
  could not be opened it reports an error of \<^verbatim>\<open>write\<close>, or nothing when the input is empty.
\<close>

theorem mycat_copies:
  assumes "reads BUFFSIZE rd" "writes wr"
  shows "(case mycat rd wr inp [] of
      (res, st) \<Rightarrow> prefix res inp \<and> (st = None \<longrightarrow> res = inp) \<and>
        (reads_all BUFFSIZE rd \<and> writes_all wr \<longrightarrow> st = None)) \<and>
    (reads_all BUFFSIZE rd \<and> writes_all wr \<longrightarrow>
      mycat3 rd wr True inp fs =
        (fs(''2.dat'' \<mapsto> inp @ drop (length inp) (case fs ''2.dat'' of None \<Rightarrow> [] | Some x \<Rightarrow> x)), None)) \<and>
    (reads_all BUFFSIZE rd \<longrightarrow>
      mycat3 rd wr False inp fs = (fs, if inp = [] then None else Some (Err_sys ''write error'')))"
proof -
  obtain res st where r: "mycat rd wr inp [] = (res, st)" by (cases "mycat rd wr inp []") auto
  have "snd (mycat rd (\<lambda>b. - 1) inp []) = (if inp = [] then None else Some (Err_sys ''write error''))"
    if "reads_all BUFFSIZE rd"
    using reads_all_bounds [OF that] by (cases "inp = []") (subst mycat.simps, fastforce simp: Let_def)+
  with mycat_prefix [OF r, of BUFFSIZE] mycat_succeeds [of BUFFSIZE rd wr inp "[]"] assms(1) r
  show ?thesis by (auto simp: mycat3_def Let_def)
qed

definition one_byte :: "byte list \<Rightarrow> int" where
  "one_byte r = (if r = [] then 0 else 1)"

theorem mycat_copies_witness:
  "mycat3 one_byte (\<lambda>b. int (length b)) True [1, 2] [''2.dat'' \<mapsto> [7, 8, 9]] = ([''2.dat'' \<mapsto> [1, 2, 9]], None)"
proof -
  have "reads BUFFSIZE one_byte" "writes (\<lambda>b. int (length b))" "reads_all BUFFSIZE one_byte" "writes_all (\<lambda>b. int (length b))"
    by (auto simp: reads_def writes_def reads_all_def writes_all_def one_byte_def BUFFSIZE_def Suc_le_eq)
  from mycat_copies [OF this(1,2), of "[1, 2]" "[''2.dat'' \<mapsto> [7, 8, 9]]"] this(3,4) show ?thesis
    by simp
qed

section \<open>rot13\<close>

definition BSZ :: nat where "BSZ = 4096"

text \<open>The letters are those of the C locale.\<close>

definition isalpha :: "byte \<Rightarrow> bool" where
  "isalpha c \<longleftrightarrow> 65 \<le> c \<and> c \<le> 90 \<or> 97 \<le> c \<and> c \<le> 122"

definition translate :: "byte \<Rightarrow> byte" where
  "translate c = (if isalpha c then
       if c \<ge> 110 then c - 13
       else if c \<ge> 97 then c + 13
       else if c \<ge> 78 then c - 13
       else c + 13
     else c)"

lemma translate_unat:
  "unat (translate c) = (if 65 \<le> unat c \<and> unat c \<le> 77 \<or> 97 \<le> unat c \<and> unat c \<le> 109 then unat c + 13
     else if 78 \<le> unat c \<and> unat c \<le> 90 \<or> 110 \<le> unat c \<and> unat c \<le> 122 then unat c - 13 else unat c)"
  by (simp add: translate_def isalpha_def word_le_nat_alt unat_word_ariths unat_sub_if' unat_add_lem unat_of_nat)

lemma translate_translate [simp]: "translate (translate c) = c"
proof -
  have "unat (translate (translate c)) = unat c" unfolding translate_unat by auto
  then show ?thesis by (simp add: word_unat_eq_iff)
qed

text \<open>The loop of \<^verbatim>\<open>main\<close>; a read that fails ends it like the end of the file.\<close>

function rot13 :: "(byte list \<Rightarrow> int) \<Rightarrow> (byte list \<Rightarrow> int) \<Rightarrow> byte list \<Rightarrow> byte list \<Rightarrow> copy_result" where
  "rot13 rd wr rest out = (let n = rd rest in
     if 0 < n \<and> rest \<noteq> [] then
       let buf = map translate (take (nat n) rest); nw = wr buf in
       if nw \<noteq> n then
         (out @ take (nat nw) buf, Some (if nw < 0 then Err_sys ''write failed'' else Err_quit ''short write (%d/%d)''))
       else rot13 rd wr (drop (nat n) rest) (out @ buf)
     else (out, None))"
  by pat_completeness auto
termination by (relation "measure (\<lambda>(rd, wr, rest, out). length rest)") auto

declare rot13.simps [simp del]

text \<open>
  \<^verbatim>\<open>main\<close>: \<open>cin\<close> and \<open>cout\<close> say whether the files can be opened. The output file is emptied before the first
  read, also when it is the input file.
\<close>

definition rot13_main :: "string list \<Rightarrow> bool \<Rightarrow> bool \<Rightarrow> (byte list \<Rightarrow> int) \<Rightarrow> (byte list \<Rightarrow> int) \<Rightarrow> files \<Rightarrow> files \<times> stop option" where
  "rot13_main argv cin cout rd wr fs = (case argv of
       [a0, a1, a2] \<Rightarrow>
         if fs a1 = None \<or> \<not> cin then (fs, Some (Err_sys ''can't open %s''))
         else if \<not> cout then (fs, Some (Err_sys ''can't create %s''))
         else
           let fs1 = fs(a2 \<mapsto> []); r = rot13 rd wr (the (fs1 a1)) [] in
           (fs1(a2 \<mapsto> fst r), snd r)
     | _ \<Rightarrow> (fs, Some (Err_quit ''usage: rot13 infile outfile'')))"

lemma rot13_prefix:
  "rot13 rd wr rest out = (res, st) \<Longrightarrow> \<exists>ys. res = out @ ys \<and> prefix ys (map translate rest) \<and>
     (st = None \<and> reads_all bsz rd \<longrightarrow> ys = map translate rest)"
proof (induction rd wr rest out arbitrary: res st rule: rot13.induct)
  case (1 rd wr rest out)
  define n where "n = rd rest"
  define buf where "buf = map translate (take (nat n) rest)"
  have buf: "buf = take (nat n) (map translate rest)" by (simp add: buf_def take_map)
  show ?case
  proof (cases "0 < n \<and> rest \<noteq> [] \<and> wr buf = n")
    case True
    then have "rot13 rd wr (drop (nat n) rest) (out @ buf) = (res, st)"
      using "1.prems" by (subst (asm) rot13.simps) (simp add: n_def [symmetric] buf_def [symmetric] Let_def)
    then obtain ys where "res = (out @ buf) @ ys" "prefix ys (drop (nat n) (map translate rest))"
        "st = None \<and> reads_all bsz rd \<longrightarrow> ys = drop (nat n) (map translate rest)"
      using "1.IH" [OF n_def _ buf_def refl] True by (auto simp: drop_map)
    then show ?thesis
      by (intro exI [of _ "buf @ ys"]) (auto simp: buf intro: prefix_rest)
  next
    case False
    have "rest = [] \<or> 0 < n" if "reads_all bsz rd"
      using reads_all_bounds(1) [OF that] n_def by auto
    with False "1.prems" show ?thesis
      by (subst (asm) rot13.simps)
        (auto simp: n_def [symmetric] buf_def [symmetric] Let_def buf take_is_prefix split: if_splits)
  qed
qed

lemma rot13_succeeds:
  "reads_all bsz rd \<Longrightarrow> writes_all wr \<Longrightarrow> rot13 rd wr rest out = (out @ map translate rest, None)"
proof (induction "length rest" arbitrary: rest out rule: less_induct)
  case less
  show ?case
  proof (cases "rest = []")
    case True
    with less.prems show ?thesis by (subst rot13.simps) (simp add: reads_all_bounds(2))
  next
    case False
    with less.prems reads_all_bounds(1) [of bsz rd rest] have b: "0 < rd rest" "nat (rd rest) \<le> length rest"
        "wr (map translate (take (nat (rd rest)) rest)) = rd rest"
      by (auto simp: writes_all_def)
    with False have "rot13 rd wr (drop (nat (rd rest)) rest) (out @ map translate (take (nat (rd rest)) rest)) =
        ((out @ map translate (take (nat (rd rest)) rest)) @ map translate (drop (nat (rd rest)) rest), None)"
      using less by simp
    with b False show ?thesis by (subst rot13.simps) (simp add: Let_def flip: map_append)
  qed
qed

text \<open>
  C39. \<^verbatim>\<open>rot13a\<close> writes its input with the letters of the C locale moved by 13, and other bytes as they are:
  when no call fails, exactly this, so that running it again on its output gives the first file back; when
  \<^verbatim>\<open>write\<close> fails, a prefix of it and an error. When \<^verbatim>\<open>read\<close> fails the output is cut off there and the
  program still exits with 0. When both names are the same the file is lost.
\<close>

theorem rot13_roundtrip:
  assumes "fs a = Some x" "a \<noteq> b" "b \<noteq> c"
  shows "(reads_all BSZ rd \<and> writes_all wr \<longrightarrow>
      (case rot13_main [n, a, b] True True rd wr fs of (fs1, st) \<Rightarrow>
        st = None \<and> fs1 = fs(b \<mapsto> map translate x) \<and>
        rot13_main [n, b, c] True True rd wr fs1 = (fs1(c \<mapsto> x), None))) \<and>
    (case rot13_main [n, a, b] True True rd wr fs of (fs1, st) \<Rightarrow>
        \<exists>y. fs1 = fs(b \<mapsto> y) \<and> prefix y (map translate x) \<and> (st = None \<and> reads_all BSZ rd \<longrightarrow> y = map translate x)) \<and>
    rot13_main [n, a, b] True True (\<lambda>r. - 1) wr fs = (fs(b \<mapsto> []), None) \<and>
    (reads_all BSZ rd \<longrightarrow> rot13_main [n, a, a] True True rd wr fs = (fs(a \<mapsto> []), None))"
proof -
  obtain y st where r: "rot13 rd wr x [] = (y, st)" by (cases "rot13 rd wr x []") auto
  have "rot13 (\<lambda>r. - 1) wr x [] = ([], None)" by (subst rot13.simps) simp
  moreover have "rot13 rd wr [] [] = ([], None)" by (subst rot13.simps) (simp add: Let_def)
  ultimately show ?thesis
    using assms rot13_prefix [OF r, of BSZ] rot13_succeeds [of BSZ rd wr _ "[]"] r
    by (auto simp: rot13_main_def Let_def comp_def)
qed

theorem rot13_roundtrip_witness:
  "rot13_main [''rot13'', ''in'', ''out''] True True one_byte (\<lambda>b. int (length b)) [''in'' \<mapsto> [104, 105]] =
    ([''in'' \<mapsto> [104, 105], ''out'' \<mapsto> [117, 118]], None)"
proof -
  have "reads_all BSZ one_byte" "writes_all (\<lambda>b. int (length b))"
    by (auto simp: reads_def reads_all_def writes_all_def one_byte_def BSZ_def Suc_le_eq)
  with rot13_roundtrip [of "[''in'' \<mapsto> [104, 105]]" "''in''" "[104, 105]" "''out''" "''in''" one_byte "\<lambda>b. int (length b)" "''rot13''"]
  show ?thesis by (auto simp: translate_def isalpha_def)
qed

section \<open>mcopy2\<close>

definition COPYINCR :: nat where "COPYINCR = 1024 * 1024 * 1024"

lemma COPYINCR_pos: "0 < COPYINCR"
  by (simp add: COPYINCR_def)

text \<open>
  The loop: \<open>bad_src\<close> and \<open>bad_dst\<close> say at which offsets \<^verbatim>\<open>mmap\<close> fails. The result has the output file, how
  the program ended, and the segments that were mapped, with offset and length.
\<close>

function mcopy_loop :: "(nat \<Rightarrow> bool) \<Rightarrow> (nat \<Rightarrow> bool) \<Rightarrow> byte list \<Rightarrow> nat \<Rightarrow> byte list \<Rightarrow> byte list \<times> stop option \<times> (nat \<times> nat) list" where
  "mcopy_loop bad_src bad_dst inp fsz out =
    (if fsz < length inp then
       let copysz = (if length inp - fsz > COPYINCR then COPYINCR else length inp - fsz) in
       if bad_src fsz then (out, Some (Err_sys ''mmap error for input''), [])
       else if bad_dst fsz then (out, Some (Err_sys ''mmap error for output''), [])
       else
         let out' = take fsz out @ take copysz (drop fsz inp) @ drop (fsz + copysz) out;
             (res, st, segs) = mcopy_loop bad_src bad_dst inp (fsz + copysz) out' in
         (res, st, (fsz, copysz) # segs)
     else (out, None, []))"
  by pat_completeness auto
termination by (relation "measure (\<lambda>(b, b', inp, fsz, out). length inp - fsz)") (auto simp: COPYINCR_def)

declare mcopy_loop.simps [simp del]

definition mcopy_main :: "string list \<Rightarrow> bool \<Rightarrow> bool \<Rightarrow> bool \<Rightarrow> bool \<Rightarrow> (nat \<Rightarrow> bool) \<Rightarrow> (nat \<Rightarrow> bool) \<Rightarrow> files \<Rightarrow> files \<times> stop option" where
  "mcopy_main argv cin cout stat trunc bad_src bad_dst fs = (case argv of
       [a0, a1, a2] \<Rightarrow>
         if fs a1 = None \<or> \<not> cin then (fs, Some (Err_sys ''can't open %s for reading''))
         else if \<not> cout then (fs, Some (Err_sys ''can't creat %s for writing''))
         else
           let fs1 = fs(a2 \<mapsto> []); inp = the (fs1 a1) in
           if \<not> stat then (fs1, Some (Err_sys ''fstat error''))
           else if \<not> trunc then (fs1, Some (Err_sys ''ftruncate error''))
           else
             let (res, st, segs) = mcopy_loop bad_src bad_dst inp 0 (replicate (length inp) 0) in
             (fs1(a2 \<mapsto> res), st)
     | _ \<Rightarrow> (fs, Some (Err_quit ''usage: %s <fromfile> <tofile>'')))"

text \<open>Up to an offset copied, zeros behind it.\<close>

definition copied :: "byte list \<Rightarrow> nat \<Rightarrow> byte list" where
  "copied inp n = take n inp @ replicate (length inp - n) 0"

lemma copied_next:
  assumes "n + k \<le> length inp"
  shows "take n (copied inp n) @ take k (drop n inp) @ drop (n + k) (copied inp n) = copied inp (n + k)"
  using assms by (simp add: copied_def take_add)

text \<open>The segments from an offset to the end.\<close>

definition segments :: "nat \<Rightarrow> nat \<Rightarrow> (nat \<times> nat) list" where
  "segments sz k = map (\<lambda>i. (i * COPYINCR, min COPYINCR (sz - i * COPYINCR))) [k..<(sz + COPYINCR - 1) div COPYINCR]"

lemma segments_end: "sz \<le> k * COPYINCR \<Longrightarrow> segments sz k = []"
  using COPYINCR_pos by (simp add: segments_def less_mult_imp_div_less Suc_le_eq less_Suc_eq_le [symmetric])

lemma segments_next:
  assumes "k * COPYINCR < sz"
  shows "segments sz k = (k * COPYINCR, min COPYINCR (sz - k * COPYINCR)) # segments sz (Suc k)"
proof -
  have "Suc k \<le> (sz + COPYINCR - 1) div COPYINCR"
    using assms COPYINCR_pos by (subst less_eq_div_iff_mult_less_eq) auto
  then show ?thesis by (simp add: segments_def upt_conv_Cons)
qed

lemma mcopy_loop_step:
  assumes "n < length inp" "\<not> bs n" "\<not> bd n" "c = min COPYINCR (length inp - n)"
  shows "mcopy_loop bs bd inp n (copied inp n) =
    (case mcopy_loop bs bd inp (n + c) (copied inp (n + c)) of (res, st, segs) \<Rightarrow> (res, st, (n, c) # segs))"
proof -
  have c: "(if length inp - n > COPYINCR then COPYINCR else length inp - n) = c" "n + c \<le> length inp"
    using assms(1,4) by auto
  show ?thesis
    using assms(1-3) by (subst mcopy_loop.simps) (simp only: c(1) copied_next [OF c(2)] Let_def if_True if_False)
qed

lemma mcopy_loop_end:
  "\<not> n < length inp \<Longrightarrow> mcopy_loop bs bd inp n out = (out, None, [])"
  "n < length inp \<Longrightarrow> bs n \<or> bd n \<Longrightarrow> \<exists>e. mcopy_loop bs bd inp n out = (out, Some e, [])"
  by (subst mcopy_loop.simps, auto simp: Let_def)+

lemma mcopy_loop_ok:
  assumes "\<forall>i. \<not> bs i \<and> \<not> bd i"
  shows "n = min (k * COPYINCR) (length inp) \<Longrightarrow> mcopy_loop bs bd inp n (copied inp n) = (inp, None, segments (length inp) k)"
proof (induction "length inp - n" arbitrary: n k rule: less_induct)
  case less
  show ?case
  proof (cases "n < length inp")
    case True
    define c where "c = min COPYINCR (length inp - n)"
    have n: "n = k * COPYINCR" using less.prems True by (simp add: min_def split: if_splits)
    have "length inp - (n + c) < length inp - n" "n + c = min (Suc k * COPYINCR) (length inp)"
      using True COPYINCR_pos by (auto simp: c_def n min_def)
    then have "mcopy_loop bs bd inp (n + c) (copied inp (n + c)) = (inp, None, segments (length inp) (Suc k))"
      by (rule less.hyps)
    with mcopy_loop_step [of n inp bs bd c] True assms c_def segments_next [of k "length inp"] n
    show ?thesis by simp
  next
    case False
    with less.prems mcopy_loop_end(1) show ?thesis
      by (simp add: copied_def segments_end min_def split: if_splits)
  qed
qed

lemma mcopy_loop_any:
  "n \<le> length inp \<Longrightarrow> \<exists>m st segs. mcopy_loop bs bd inp n (copied inp n) = (copied inp m, st, segs) \<and> m \<le> length inp \<and>
    (st = None \<longleftrightarrow> m = length inp) \<and> (st \<noteq> None \<longrightarrow> bs m \<or> bd m)"
proof (induction "length inp - n" arbitrary: n rule: less_induct)
  case less
  show ?case
  proof (cases "n < length inp \<and> \<not> bs n \<and> \<not> bd n")
    case True
    define c where "c = min COPYINCR (length inp - n)"
    have "length inp - (n + c) < length inp - n" "n + c \<le> length inp" using True COPYINCR_pos by (auto simp: c_def)
    from less.hyps [OF this] mcopy_loop_step [of n inp bs bd c] True c_def
    show ?thesis by force
  next
    case False
    then show ?thesis
    proof (cases "n < length inp")
      case True
      with False mcopy_loop_end(2) [of n inp bs bd "copied inp n"] show ?thesis by (auto intro!: exI [of _ n])
    qed (use less.prems mcopy_loop_end(1) in auto)
  qed
qed

lemma copied_all [simp]: "copied x (length x) = x"
  by (simp add: copied_def)

lemma copied_none [simp]: "copied x 0 = replicate (length x) 0"
  by (simp add: copied_def)

text \<open>
  \<^verbatim>\<open>mcopy2\<close> makes the output file equal to the input file, by segments that cover it from the first byte
  to the last, each of 1 to \<open>COPYINCR\<close> bytes at a multiple of \<open>COPYINCR\<close>, so that \<^verbatim>\<open>mmap\<close> gets neither a
  length of 0 nor an offset inside a page. When a call of \<^verbatim>\<open>mmap\<close> fails the output has the right size, the
  bytes before that offset, zeros behind, and the program ends with an error. When both names are the
  same the file is lost.
\<close>

theorem mcopy_copies:
  assumes "fs a = Some x"
  shows "(a \<noteq> b \<longrightarrow> (\<exists>m st. mcopy_main [n, a, b] True True True True bs bd fs = (fs(b \<mapsto> copied x m), st) \<and>
      m \<le> length x \<and> (st = None \<longleftrightarrow> m = length x) \<and> (st \<noteq> None \<longrightarrow> bs m \<or> bd m))) \<and>
    ((\<forall>i. \<not> bs i \<and> \<not> bd i) \<longrightarrow>
      mcopy_loop bs bd x 0 (replicate (length x) 0) = (x, None, segments (length x) 0) \<and>
      (a \<noteq> b \<longrightarrow> mcopy_main [n, a, b] True True True True bs bd fs = (fs(b \<mapsto> x), None))) \<and>
    (\<forall>(off, len)\<in>set (segments (length x) 0). COPYINCR dvd off \<and> 0 < len \<and> len \<le> COPYINCR \<and> off + len \<le> length x) \<and>
    mcopy_main [n, a, a] True True True True bs bd fs = (fs(a \<mapsto> []), None)"
proof (intro conjI impI)
  obtain m st segs where m: "mcopy_loop bs bd x 0 (replicate (length x) 0) = (copied x m, st, segs)" "m \<le> length x"
      "st = None \<longleftrightarrow> m = length x" "st \<noteq> None \<longrightarrow> bs m \<or> bd m"
    using mcopy_loop_any [of 0 x bs bd] by auto
  then show "\<exists>m st. mcopy_main [n, a, b] True True True True bs bd fs = (fs(b \<mapsto> copied x m), st) \<and>
      m \<le> length x \<and> (st = None \<longleftrightarrow> m = length x) \<and> (st \<noteq> None \<longrightarrow> bs m \<or> bd m)" if "a \<noteq> b"
    using assms that by (intro exI [of _ m] exI [of _ st]) (simp add: mcopy_main_def)
  show all: "mcopy_loop bs bd x 0 (replicate (length x) 0) = (x, None, segments (length x) 0)" if "\<forall>i. \<not> bs i \<and> \<not> bd i"
    using mcopy_loop_ok [OF that, of 0 0 x] by simp
  show "mcopy_main [n, a, b] True True True True bs bd fs = (fs(b \<mapsto> x), None)" if "\<forall>i. \<not> bs i \<and> \<not> bd i" "a \<noteq> b"
    using assms that all by (simp add: mcopy_main_def)
  show "\<forall>(off, len)\<in>set (segments (length x) 0). COPYINCR dvd off \<and> 0 < len \<and> len \<le> COPYINCR \<and> off + len \<le> length x"
  proof clarify
    fix off len assume "(off, len) \<in> set (segments (length x) 0)"
    then obtain i where i: "off = i * COPYINCR" "len = min COPYINCR (length x - i * COPYINCR)"
        "Suc i \<le> (length x + COPYINCR - 1) div COPYINCR"
      by (fastforce simp: segments_def Suc_le_eq)
    have "i * COPYINCR < length x"
      using i(3) COPYINCR_pos by (subst (asm) less_eq_div_iff_mult_less_eq) auto
    with i COPYINCR_pos show "COPYINCR dvd off \<and> 0 < len \<and> len \<le> COPYINCR \<and> off + len \<le> length x" by auto
  qed
  show "mcopy_main [n, a, a] True True True True bs bd fs = (fs(a \<mapsto> []), None)"
    using assms mcopy_loop_end(1) [of 0 "[]"] by (simp add: mcopy_main_def)
qed

theorem mcopy_copies_witness:
  "mcopy_main [''mcopy2'', ''f'', ''g''] True True True True (\<lambda>i. False) (\<lambda>i. False) [''f'' \<mapsto> [1, 2, 3]] =
    ([''f'' \<mapsto> [1, 2, 3], ''g'' \<mapsto> [1, 2, 3]], None)"
proof -
  have "[''f'' \<mapsto> [1, 2, 3]] ''f'' = Some [1, 2, 3]" "''f'' \<noteq> ''g''" by simp_all
  with mcopy_copies [of "[''f'' \<mapsto> [1, 2, 3]]" "''f''" "[1, 2, 3]" "''g''" "''mcopy2''" "\<lambda>i. False" "\<lambda>i. False"]
  show ?thesis by blast
qed

end
