(* ===== verification/SigFuns.thy ===== *)
theory SigFuns
  imports Prelude
begin

text \<open>
  Functions that must leave the signals of their caller as they were, or end in spite of them:
  \<^verbatim>\<open>signals/system.c\<close> and \<^verbatim>\<open>signals/abort.c\<close>; and \<^verbatim>\<open>connect_retry\<close> of \<^verbatim>\<open>sockets/clconn.c\<close> and
  \<^verbatim>\<open>clconn2.c\<close>.
\<close>

section \<open>Signals of a process\<close>

datatype sg = SIGINT | SIGQUIT | SIGCHLD | SIGABRT | Other_sig nat
datatype disp = Dfl | Ign | Catch nat

record sigs =
  sa :: "sg \<Rightarrow> disp"
  blocked :: "sg \<Rightarrow> bool"

section \<open>system\<close>

text \<open>What \<^verbatim>\<open>waitpid\<close> gives, and what \<^verbatim>\<open>fork\<close> gives: nothing, or a child, which comes with its own signals.\<close>

datatype wait = W_intr | W_error | W_status int

text \<open>The loop of the parent; with no further result of \<^verbatim>\<open>waitpid\<close> it sleeps.\<close>

fun system_wait :: "wait list \<Rightarrow> int res" where
  "system_wait [] = Inl Waits"
| "system_wait (W_intr # ws) = system_wait ws"
| "system_wait (W_error # ws) = Inr (- 1)"
| "system_wait (W_status v # ws) = Inr v"

text \<open>
  The six calls that change signals succeed or not; \<open>forked\<close> says whether \<^verbatim>\<open>fork\<close> succeeds. The result has
  the value returned, the signals of the caller, and those with which the child calls \<^verbatim>\<open>execl\<close>.
\<close>

record system_env =
  act_int :: bool
  act_quit :: bool
  mask_chld :: bool
  forked :: bool
  waits :: "wait list"
  back_int :: bool
  back_quit :: bool
  back_mask :: bool

definition system :: "string option \<Rightarrow> system_env \<Rightarrow> sigs \<Rightarrow> (int \<times> sigs \<times> (string \<times> sigs) option) res" where
  "system cmdstring e s = (case cmdstring of
       None \<Rightarrow> Inr (1, s, None)
     | Some cmd \<Rightarrow>
         if \<not> act_int e then Inr (- 1, s, None)
         else
           let saveintr = sa s SIGINT; s1 = s\<lparr>sa := (sa s)(SIGINT := Ign)\<rparr> in
           if \<not> act_quit e then Inr (- 1, s1, None)
           else
             let savequit = sa s1 SIGQUIT; s2 = s1\<lparr>sa := (sa s1)(SIGQUIT := Ign)\<rparr> in
             if \<not> mask_chld e then Inr (- 1, s2, None)
             else
               let savemask = blocked s2; s3 = s2\<lparr>blocked := (blocked s2)(SIGCHLD := True)\<rparr>;
                   child = (if forked e
                     then Some (cmd, s3\<lparr>sa := (sa s3)(SIGINT := saveintr, SIGQUIT := savequit), blocked := savemask\<rparr>)
                     else None) in
               bnd (if forked e then system_wait (waits e) else Inr (- 1)) (\<lambda>status.
                 if \<not> back_int e then Inr (- 1, s3, child)
                 else
                   let s4 = s3\<lparr>sa := (sa s3)(SIGINT := saveintr)\<rparr> in
                   if \<not> back_quit e then Inr (- 1, s4, child)
                   else
                     let s5 = s4\<lparr>sa := (sa s4)(SIGQUIT := savequit)\<rparr> in
                     if \<not> back_mask e then Inr (- 1, s5, child)
                     else Inr (status, s5\<lparr>blocked := savemask\<rparr>, child)))"

lemma system_wait_intr: "system_wait (replicate n W_intr @ ws) = system_wait ws"
  by (induction n) auto

text \<open>
  \<^verbatim>\<open>system\<close> returns the status of the command, however often \<^verbatim>\<open>waitpid\<close> is interrupted, and -1 when there is
  no child or its status is not to be had; in each case the actions and the mask of the caller are those
  from before, and the command runs with them. When a call to set up the signals fails, those
  that were already changed stay so: \<^verbatim>\<open>SIGINT\<close> is then ignored for the rest of the program.
\<close>

theorem system_restores:
  assumes "act_int e" "act_quit e" "mask_chld e" "back_int e" "back_quit e" "back_mask e"
  shows "system (Some cmd) e s =
    (if forked e then bnd (system_wait (waits e)) (\<lambda>v. Inr (v, s, Some (cmd, s))) else Inr (- 1, s, None))"
proof -
  have "(sa s)(SIGINT := Ign, SIGQUIT := Ign, SIGINT := sa s SIGINT, SIGQUIT := sa s SIGQUIT) = sa s"
    by (auto simp: fun_eq_iff)
  then have "s\<lparr>sa := (sa s)(SIGINT := Ign, SIGQUIT := Ign, SIGINT := sa s SIGINT, SIGQUIT := sa s SIGQUIT)\<rparr> = s" by simp
  with assms show ?thesis by (cases "system_wait (waits e)") (simp_all add: system_def Let_def fun_upd_twist)
qed

lemma system_leaves_ignored:
  "act_int e \<Longrightarrow> \<not> act_quit e \<Longrightarrow> system (Some cmd) e s = Inr (- 1, s\<lparr>sa := (sa s)(SIGINT := Ign)\<rparr>, None)"
  by (simp add: system_def Let_def)

section \<open>abort\<close>

text \<open>
  The process is killed by the signal, or a handler jumps out of \<^verbatim>\<open>abort\<close>, or \<^verbatim>\<open>exit(1)\<close> is reached. A handler
  that returns may have changed the signals in any way: the parameter \<open>h\<close> gives what it leaves, or
  nothing when it jumps. The number counts the calls of \<^verbatim>\<open>fflush\<close>.
\<close>

datatype ended = Killed | Jumped | Exit_1

definition kill_abrt :: "(nat \<Rightarrow> sigs \<Rightarrow> sigs option) \<Rightarrow> sigs \<Rightarrow> ended + sigs" where
  "kill_abrt h s = (if blocked s SIGABRT then Inr s
     else (case sa s SIGABRT of
         Dfl \<Rightarrow> Inl Killed
       | Ign \<Rightarrow> Inr s
       | Catch n \<Rightarrow> (case h n s of None \<Rightarrow> Inl Jumped | Some s' \<Rightarrow> Inr s')))"

definition c_abort :: "(nat \<Rightarrow> sigs \<Rightarrow> sigs option) \<Rightarrow> sigs \<Rightarrow> ended \<times> nat" where
  "c_abort h s =
    (let action = sa s SIGABRT;
         (s, action) = (if action = Ign then (s\<lparr>sa := (sa s)(SIGABRT := Dfl)\<rparr>, Dfl) else (s, action));
         flushed = (if action = Dfl then 1 else 0);
         mask = (\<lambda>g. g \<noteq> SIGABRT);
         s = s\<lparr>blocked := mask\<rparr> in
     case kill_abrt h s of
       Inl x \<Rightarrow> (x, flushed)
     | Inr s \<Rightarrow>
         let s = s\<lparr>sa := (sa s)(SIGABRT := Dfl), blocked := mask\<rparr> in
         (case kill_abrt h s of Inl x \<Rightarrow> (x, flushed + 1) | Inr s \<Rightarrow> (Exit_1, flushed + 1)))"

text \<open>
  \<^verbatim>\<open>abort\<close> does not return and never reaches its \<^verbatim>\<open>exit\<close>: the process is killed by \<^verbatim>\<open>SIGABRT\<close>, whether the
  signal was ignored, blocked or caught and whatever the handler does to the signals, after exactly one
  flush of the streams, unless the handler itself jumps away.
\<close>

theorem abort_kills:
  "c_abort h s = (case sa s SIGABRT of
      Catch n \<Rightarrow> (case h n (s\<lparr>blocked := (\<lambda>g. g \<noteq> SIGABRT)\<rparr>) of None \<Rightarrow> (Jumped, 0) | Some s' \<Rightarrow> (Killed, 1))
    | _ \<Rightarrow> (Killed, 1))"
  by (cases "sa s SIGABRT") (auto simp: c_abort_def kill_abrt_def Let_def split: option.splits)

section \<open>connect_retry\<close>

definition MAXSLEEP :: nat where "MAXSLEEP = 128"

text \<open>
  \<open>connects k\<close> says whether the attempt number \<open>k\<close> is accepted. The result is whether there is a connection, the
  number of attempts, and the delays. In \<^verbatim>\<open>clconn2.c\<close> each attempt has a socket of its own: \<open>sockets k\<close> is its
  descriptor, and the descriptors still open at the end are in the result.
\<close>

function retry_loop :: "(nat \<Rightarrow> bool) \<Rightarrow> nat \<Rightarrow> nat \<Rightarrow> nat list \<Rightarrow> bool \<times> nat \<times> nat list" where
  "retry_loop connects k numsec delays =
    (if 0 < numsec \<and> numsec \<le> MAXSLEEP then
       if connects k then (True, k + 1, delays)
       else retry_loop connects (k + 1) (2 * numsec) (if numsec \<le> MAXSLEEP div 2 then delays @ [numsec] else delays)
     else (False, k, delays))"
  by pat_completeness auto
termination by (relation "measure (\<lambda>(c, k, n, d). MAXSLEEP + 1 - n)") auto

definition connect_retry :: "(nat \<Rightarrow> bool) \<Rightarrow> bool \<times> nat \<times> nat list" where
  "connect_retry connects = retry_loop connects 0 1 []"

function retry2_loop :: "(nat \<Rightarrow> int) \<Rightarrow> (nat \<Rightarrow> bool) \<Rightarrow> nat \<Rightarrow> nat \<Rightarrow> nat list \<Rightarrow> int list \<Rightarrow> int \<times> nat list \<times> int list" where
  "retry2_loop sockets connects k numsec delays opened =
    (if 0 < numsec \<and> numsec \<le> MAXSLEEP then
       let fd = sockets k in
       if fd < 0 then (- 1, delays, opened)
       else if connects k then (fd, delays, fd # opened)
       else retry2_loop sockets connects (k + 1) (2 * numsec)
         (if numsec \<le> MAXSLEEP div 2 then delays @ [numsec] else delays) (remove1 fd (fd # opened))
     else (- 1, delays, opened))"
  by pat_completeness auto
termination by (relation "measure (\<lambda>(s, c, k, n, d, p). MAXSLEEP + 1 - n)") auto

definition connect_retry2 :: "(nat \<Rightarrow> int) \<Rightarrow> (nat \<Rightarrow> bool) \<Rightarrow> int \<times> nat list \<times> int list" where
  "connect_retry2 sockets connects = retry2_loop sockets connects 0 1 [] []"

declare retry_loop.simps [simp del] retry2_loop.simps [simp del]

lemma pow_le_MAXSLEEP: "2 ^ k \<le> MAXSLEEP \<longleftrightarrow> k \<le> 7"
  using power_increasing_iff [of "2::nat" k 7] by (simp add: MAXSLEEP_def)

lemma pow_le_half: "2 ^ k \<le> MAXSLEEP div 2 \<longleftrightarrow> k \<le> 6"
  using power_increasing_iff [of "2::nat" k 6] by (simp add: MAXSLEEP_def)

text \<open>The delays before attempt \<open>k\<close>.\<close>

definition delays_of :: "nat \<Rightarrow> nat list" where
  "delays_of k = map (\<lambda>i. 2 ^ i) [0..<min k 7]"

lemma delays_step: "k \<le> 7 \<Longrightarrow> (if k \<le> 6 then delays_of k @ [2 ^ k] else delays_of k) = delays_of (Suc k)"
  by (cases "k = 7") (simp_all add: delays_of_def min_def)

lemma retry_loop_run:
  "k \<le> 8 \<Longrightarrow> retry_loop c k (2 ^ k) (delays_of k) =
    (if \<exists>i. k \<le> i \<and> i < 8 \<and> c i then (let i = (LEAST i. k \<le> i \<and> c i) in (True, i + 1, delays_of i))
     else (False, 8, delays_of 8))"
proof (induction "8 - k" arbitrary: k)
  case 0
  then have "k = 8" by simp
  then show ?case by (subst retry_loop.simps) (auto simp: MAXSLEEP_def)
next
  case (Suc n)
  then have k: "k \<le> 7" by simp
  show ?case
  proof (cases "c k")
    case True
    then have "(LEAST i. k \<le> i \<and> c i) = k" by (intro Least_equality) auto
    moreover from True k have "\<exists>i. k \<le> i \<and> i < 8 \<and> c i" by (intro exI [of _ k]) simp
    ultimately show ?thesis using True k by (subst retry_loop.simps) (simp add: pow_le_MAXSLEEP)
  next
    case False
    then have "(k \<le> i \<and> c i) = (Suc k \<le> i \<and> c i)" for i using le_eq_less_or_eq Suc_le_eq by auto
    moreover from this have "(k \<le> i \<and> i < 8 \<and> c i) = (Suc k \<le> i \<and> i < 8 \<and> c i)" for i by blast
    ultimately show ?thesis
      using Suc.hyps(1) [of "Suc k"] Suc.hyps(2) k False delays_step [OF k]
      by (subst retry_loop.simps) (simp add: pow_le_MAXSLEEP pow_le_half, blast)
  qed
qed

lemma retry2_loop_run:
  assumes "\<And>k. 0 \<le> so k"
  shows "retry2_loop so c k n d [] = (case retry_loop c k n d of
      (got, m, d') \<Rightarrow> if got then (so (m - 1), d', [so (m - 1)]) else (- 1, d', []))"
proof (induction c k n d rule: retry_loop.induct)
  case (1 c k n d)
  then show ?case
    using assms [of k] by (subst retry_loop.simps, subst retry2_loop.simps) (simp add: Let_def not_less)
qed

text \<open>
  \<^verbatim>\<open>connect_retry\<close> tries up to 8 times and stops at the first attempt that is accepted; the delays are 1, 2,
  4, ... seconds, 127 seconds in all when every attempt fails, and there is none after the last. The
  version of \<^verbatim>\<open>clconn2.c\<close> makes the same attempts with a new socket for each, returns that of the
  attempt that was accepted, and leaves no other open. When a socket is not to be had it gives up.
\<close>

theorem connect_retry_backoff:
  "connect_retry c = (if \<exists>i<8. c i then (let i = (LEAST i. c i) in (True, i + 1, delays_of i)) else (False, 8, delays_of 8)) \<and>
   sum_list (delays_of 8) = 127 \<and>
   ((\<forall>k. 0 \<le> so k) \<longrightarrow> connect_retry2 so c =
     (if \<exists>i<8. c i then (let i = (LEAST i. c i) in (so i, delays_of i, [so i])) else (- 1, delays_of 8, []))) \<and>
   (so 0 < 0 \<longrightarrow> connect_retry2 so c = (- 1, [], []))"
proof -
  have r: "connect_retry c = (if \<exists>i<8. c i then (let i = (LEAST i. c i) in (True, i + 1, delays_of i)) else (False, 8, delays_of 8))"
    using retry_loop_run [of 0 c] unfolding connect_retry_def by (simp add: delays_of_def [of 0], blast?)
  moreover have "connect_retry2 so c = (if \<exists>i<8. c i then (let i = (LEAST i. c i) in (so i, delays_of i, [so i])) else (- 1, delays_of 8, []))"
    if "\<forall>k. 0 \<le> so k"
    using retry2_loop_run [of so c 0 1 "[]"] that r by (simp add: connect_retry_def connect_retry2_def Let_def)
  moreover have "sum_list (delays_of 8) = 127" by (simp add: delays_of_def upt_rec)
  moreover have "so 0 < 0 \<Longrightarrow> connect_retry2 so c = (- 1, [], [])"
    unfolding connect_retry2_def by (subst retry2_loop.simps) (simp add: MAXSLEEP_def)
  ultimately show ?thesis by blast
qed

end
