(* ===== verification/EnvPass.thy ===== *)
theory EnvPass
  imports CLib
begin

text \<open>
  The three versions of \<^verbatim>\<open>getenv\<close> in \<^verbatim>\<open>threadctl\<close> (a static buffer, a buffer of the caller, a buffer for
  each thread), and \<^verbatim>\<open>termios/getpass.c\<close>.
\<close>

section \<open>Searching the environment\<close>

definition MAXSTRINGSZ :: nat where "MAXSTRINGSZ = 4096"
definition ENOENT :: int where "ENOENT = 2"
definition ENOSPC :: int where "ENOSPC = 28"

text \<open>\<^verbatim>\<open>environ\<close> as the list of its strings; the result is the text behind the equals sign.\<close>

fun env_find :: "string \<Rightarrow> string list \<Rightarrow> string option" where
  "env_find name [] = None"
| "env_find name (e # es) =
    (if take (length name) e = name \<and> length name < length e \<and> e ! length name = CHR ''=''
     then Some (drop (length name + 1) e) else env_find name es)"

text \<open>What the environment means: the first entry for the name counts.\<close>

definition entry :: "string \<Rightarrow> string \<Rightarrow> string" where
  "entry name v = name @ CHR ''='' # v"

lemma entry_test:
  "take (length name) e = name \<and> length name < length e \<and> e ! length name = CHR ''='' \<longleftrightarrow> (\<exists>v. e = entry name v)"
proof
  assume a: "take (length name) e = name \<and> length name < length e \<and> e ! length name = CHR ''=''"
  then have "e = entry name (drop (Suc (length name)) e)"
    unfolding entry_def by (metis id_take_nth_drop)
  then show "\<exists>v. e = entry name v" by blast
qed (auto simp: entry_def)

lemma env_find_Cons:
  "env_find name (entry name v # es) = Some v"
  "\<forall>v. e \<noteq> entry name v \<Longrightarrow> env_find name (e # es) = env_find name es"
  by (simp add: entry_def) (simp add: entry_test del: not_less)

lemma env_find_iff:
  "env_find name env = Some v \<longleftrightarrow>
    (\<exists>pre post. env = pre @ entry name v # post \<and> (\<forall>e\<in>set pre. \<forall>w. e \<noteq> entry name w))"
proof
  show "env_find name env = Some v \<Longrightarrow> \<exists>pre post. env = pre @ entry name v # post \<and> (\<forall>e\<in>set pre. \<forall>w. e \<noteq> entry name w)"
  proof (induction env)
    case (Cons e es)
    show ?case
    proof (cases "\<exists>w. e = entry name w")
      case True
      with Cons.prems have "e # es = [] @ entry name v # es" using env_find_Cons(1) by fastforce
      then show ?thesis by (metis empty_iff list.set(1))
    next
      case False
      with Cons env_find_Cons(2) obtain pre post where "es = pre @ entry name v # post" "\<forall>e\<in>set pre. \<forall>w. e \<noteq> entry name w"
        by metis
      with False show ?thesis by (intro exI [of _ "e # pre"] exI [of _ post]) simp
    qed
  qed simp
next
  assume "\<exists>pre post. env = pre @ entry name v # post \<and> (\<forall>e\<in>set pre. \<forall>w. e \<noteq> entry name w)"
  then obtain pre post where "env = pre @ entry name v # post" "\<forall>e\<in>set pre. \<forall>w. e \<noteq> entry name w" by blast
  then show "env_find name env = Some v"
  proof (induction pre arbitrary: env)
    case Nil
    then show ?case using env_find_Cons(1) by simp
  next
    case (Cons e pre)
    then show ?case using env_find_Cons(2) [of e name] by simp
  qed
qed

lemma env_find_entry: "env_find name env = Some v \<Longrightarrow> entry name v \<in> set env"
  using env_find_iff by fastforce

section \<open>A buffer of the caller\<close>

text \<open>\<open>buf\<close> has \<open>buflen\<close> bytes; a write outside of it is \<open>Undef\<close>.\<close>

definition getenv_r :: "string \<Rightarrow> string list \<Rightarrow> string \<Rightarrow> int \<Rightarrow> (int \<times> string) res" where
  "getenv_r name env buf buflen = (case env_find name env of
       None \<Rightarrow> Inr (ENOENT, buf)
     | Some v \<Rightarrow>
         if int (length v) \<ge> buflen then Inr (ENOSPC, buf)
         else if length v < length buf then Inr (0, buf_put buf (v @ [NUL])) else Inl (Undef ''buf''))"

text \<open>
  \<^verbatim>\<open>getenv_r\<close> gives the value of the first entry for the name, as a string in the buffer, when it fits
  with its null byte; otherwise the error tells what is wrong and the buffer is as before. It never
  writes outside of a buffer with at least \<open>buflen\<close> bytes.
\<close>

theorem getenv_r_correct:
  assumes "buflen \<le> int (length buf)" "\<forall>e\<in>set env. NUL \<notin> set e"
  shows "case env_find name env of
      None \<Rightarrow> getenv_r name env buf buflen = Inr (ENOENT, buf)
    | Some v \<Rightarrow> if int (length v) < buflen
        then \<exists>buf'. getenv_r name env buf buflen = Inr (0, buf') \<and> length buf' = length buf \<and> cstr_at buf' 0 = v
        else getenv_r name env buf buflen = Inr (ENOSPC, buf)"
proof (cases "env_find name env")
  case (Some v)
  then have "NUL \<notin> set (entry name v)" using assms(2) env_find_entry by blast
  then have "NUL \<notin> set v" by (simp add: entry_def)
  then have "cstr_at (buf_put buf (v @ [NUL])) 0 = v" using cstr_at_append [of 0 "[]" v] by (simp add: buf_put_def)
  with Some assms(1) show ?thesis by (auto simp: getenv_r_def buf_put_def)
qed (simp add: getenv_r_def)

section \<open>A static buffer, and one for each thread\<close>

text \<open>
  What a call returns is whether there is a value; the caller reads it from the buffer. In \<^verbatim>\<open>getenv3.c\<close> the
  first call of a thread allocates its buffer, whose contents \<open>junk\<close> are not known.
\<close>

definition getenv1 :: "string \<Rightarrow> string list \<Rightarrow> string \<Rightarrow> bool \<times> string" where
  "getenv1 name env envbuf = (case env_find name env of
       None \<Rightarrow> (False, envbuf)
     | Some v \<Rightarrow> (True, buf_put envbuf (strncpy (MAXSTRINGSZ - 1) v)))"

definition getenv3 :: "nat \<Rightarrow> string \<Rightarrow> string list \<Rightarrow> string option \<Rightarrow> (nat \<Rightarrow> string option) \<Rightarrow> bool \<times> (nat \<Rightarrow> string option)" where
  "getenv3 t name env junk key =
    (case (case key t of None \<Rightarrow> junk | Some b \<Rightarrow> Some b) of
       None \<Rightarrow> (False, key)
     | Some envbuf \<Rightarrow>
         let key1 = key(t \<mapsto> envbuf) in
         (case env_find name env of
            None \<Rightarrow> (False, key1)
          | Some v \<Rightarrow> (True, key1(t \<mapsto> buf_put envbuf (strncpy (MAXSTRINGSZ - 1) v)))))"

text \<open>Threads call one after the other, as the mutex makes them; \<open>last_found\<close> is what each should see.\<close>

fun calls1 :: "(nat \<times> string) list \<Rightarrow> string list \<Rightarrow> string \<Rightarrow> string" where
  "calls1 [] env b = b"
| "calls1 ((t, name) # cs) env b = calls1 cs env (snd (getenv1 name env b))"

fun calls3 :: "(nat \<times> string) list \<Rightarrow> string list \<Rightarrow> (nat \<Rightarrow> string) \<Rightarrow> (nat \<Rightarrow> string option) \<Rightarrow> (nat \<Rightarrow> string option)" where
  "calls3 [] env junk key = key"
| "calls3 ((t, name) # cs) env junk key = calls3 cs env junk (snd (getenv3 t name env (Some (junk t)) key))"

fun last_found :: "nat \<Rightarrow> (nat \<times> string) list \<Rightarrow> string list \<Rightarrow> string option \<Rightarrow> string option" where
  "last_found t [] env v = v"
| "last_found t ((u, name) # cs) env v =
    last_found t cs env (if t = u \<and> env_find name env \<noteq> None then env_find name env else v)"

lemma cstr_strncpy:
  "length v < n \<Longrightarrow> NUL \<notin> set v \<Longrightarrow> cstr_at (buf_put b (strncpy n v)) 0 = v"
proof -
  assume v: "length v < n" "NUL \<notin> set v"
  then have "replicate (n - length v) NUL = NUL # replicate (n - length v - 1) NUL"
    by (cases "n - length v") auto
  with v have "strncpy n v = v @ NUL # replicate (n - length v - 1) NUL"
    by (simp add: strncpy_def)
  then show ?thesis using cstr_at_append [of 0 "[]" v] v(2) by (simp add: buf_put_def)
qed

lemma calls3_keeps:
  assumes "\<forall>e\<in>set env. NUL \<notin> set e \<and> length e < MAXSTRINGSZ - 1"
  shows "(v = None \<or> (\<exists>b. key t = Some b \<and> cstr_at b 0 = the v)) \<Longrightarrow>
    last_found t cs env v = Some w \<Longrightarrow> \<exists>b. calls3 cs env junk key t = Some b \<and> cstr_at b 0 = w"
proof (induction cs arbitrary: key v)
  case (Cons c cs)
  obtain u name where c: "c = (u, name)" by fastforce
  let ?key = "snd (getenv3 u name env (Some (junk u)) key)"
  let ?v = "if t = u \<and> env_find name env \<noteq> None then env_find name env else v"
  have "?v = None \<or> (\<exists>b. ?key t = Some b \<and> cstr_at b 0 = the ?v)"
  proof (cases "t = u \<and> env_find name env \<noteq> None")
    case True
    then obtain x where x: "env_find name env = Some x" "t = u" by auto
    then have "NUL \<notin> set (entry name x)" "length (entry name x) < MAXSTRINGSZ - 1" using assms env_find_entry by blast+
    then have "NUL \<notin> set x" "length x < MAXSTRINGSZ - 1" by (simp_all add: entry_def)
    with x show ?thesis by (auto simp: getenv3_def Let_def cstr_strncpy split: option.splits)
  next
    case False
    with Cons.prems(1) show ?thesis by (auto simp: getenv3_def Let_def split: option.splits)
  qed
  with Cons.IH [of ?v ?key] Cons.prems(2) show ?case by (simp add: c)
qed auto

text \<open>
  With a buffer for each thread every thread has the value of its own last successful call, whatever the
  other threads have asked for since. With the static buffer another call replaces the value.
\<close>

theorem getenv_per_thread:
  assumes "\<forall>e\<in>set env. NUL \<notin> set e \<and> length e < MAXSTRINGSZ - 1"
  shows "(last_found t cs env None = Some w \<longrightarrow>
      (\<exists>b. calls3 cs env junk Map.empty t = Some b \<and> cstr_at b 0 = w)) \<and>
    last_found 1 [(1, ''A''), (2, ''B'')] [''A=x'', ''B=y''] None = Some ''x'' \<and>
    cstr_at (calls1 [(1, ''A''), (2, ''B'')] [''A=x'', ''B=y''] (replicate MAXSTRINGSZ NUL)) 0 = ''y''"
proof -
  have "cstr_at (calls1 [(1, ''A''), (2, ''B'')] [''A=x'', ''B=y''] (replicate MAXSTRINGSZ NUL)) 0 = ''y''"
    by (simp add: getenv1_def cstr_strncpy MAXSTRINGSZ_def)
  then show ?thesis using calls3_keeps [OF assms, of None Map.empty t cs w junk] by auto
qed

text \<open>
  A value of 4095 bytes fills the buffer up to the last byte, which is null in the static buffer, but not
  in one that \<^verbatim>\<open>malloc\<close> has returned.
\<close>

lemma getenv3_not_terminated:
  assumes "env_find name env = Some v" "length v = MAXSTRINGSZ - 1" "NUL \<notin> set v" "length j = MAXSTRINGSZ" "last j \<noteq> NUL"
  shows "\<exists>b. snd (getenv3 t name env (Some j) Map.empty) t = Some b \<and> NUL \<notin> set b"
proof -
  have j: "drop (MAXSTRINGSZ - 1) j = [last j]"
    using assms(4) by (metis append_butlast_last_id append_eq_conv_conj length_butlast list.size(3) MAXSTRINGSZ_def zero_neq_numeral)
  have "strncpy (MAXSTRINGSZ - 1) v = v" using assms(2) by (simp add: strncpy_def)
  then show ?thesis using assms j by (simp add: getenv3_def Let_def buf_put_def)
qed

section \<open>getpass\<close>

text \<open>
  The terminal: the flags \<^verbatim>\<open>ECHO\<close>, \<^verbatim>\<open>ECHOE\<close>, \<^verbatim>\<open>ECHOK\<close>, \<^verbatim>\<open>ECHONL\<close> as one set, its other settings, what was typed, and
  what it shows, characters with echo included. The mask of signals is that of the process.
\<close>

datatype psig = P_INT | P_TSTP | P_other nat
datatype lflag = ECHO | ECHOE | ECHOK | ECHONL

record tty =
  lflags :: "lflag set"
  settings :: nat
  typed_in :: string
  screen :: string

definition MAX_PASS_LEN :: nat where "MAX_PASS_LEN = 8"

text \<open>The loop with \<^verbatim>\<open>getc\<close>: \<open>inp\<close> is what is typed until the end of the file.\<close>

fun pass_loop :: "string \<Rightarrow> string \<Rightarrow> string \<times> string" where
  "pass_loop [] buf = (buf, [])"
| "pass_loop (c # inp) buf =
    (if c = CHR 0x0A then (buf, inp)
     else pass_loop inp (if length buf < MAX_PASS_LEN then buf @ [c] else buf))"

definition read_pass :: "tty \<Rightarrow> string \<times> tty" where
  "read_pass t = (case pass_loop (typed_in t) [] of (buf, rest) \<Rightarrow>
     (buf, t\<lparr>typed_in := rest, screen := screen t @ (if ECHO \<in> lflags t then take (length (typed_in t) - length rest) (typed_in t) else [])\<rparr>))"

definition getpass :: "bool \<Rightarrow> string \<Rightarrow> tty \<Rightarrow> psig set \<Rightarrow> string option \<times> tty \<times> psig set" where
  "getpass opened prompt t sigmask = (if \<not> opened then (None, t, sigmask) else
     (let osig = sigmask; sigmask = sigmask \<union> {P_INT, P_TSTP};
          ots = (lflags t, settings t);
          t = t\<lparr>lflags := lflags t - {ECHO, ECHOE, ECHOK, ECHONL}\<rparr>;
          t = t\<lparr>screen := screen t @ prompt\<rparr>;
          (buf, t) = read_pass t;
          t = t\<lparr>screen := screen t @ [CHR 0x0A]\<rparr>;
          t = t\<lparr>lflags := fst ots, settings := snd ots\<rparr>;
          sigmask = osig in
      (Some buf, t, sigmask)))"

lemma pass_loop_line:
  "pass_loop inp buf = (buf @ take (MAX_PASS_LEN - length buf) (takeWhile (\<lambda>c. c \<noteq> CHR 0x0A) inp),
     tl (dropWhile (\<lambda>c. c \<noteq> CHR 0x0A) inp))"
  by (induction inp arbitrary: buf) (auto simp: take_Cons' Suc_diff_Suc not_less)

text \<open>
  \<^verbatim>\<open>getpass\<close> returns the first 8 characters of the line and reads all of it; what was typed is not shown,
  only the prompt and a newline, and the settings of the terminal and the mask of signals are those
  from before.
\<close>

theorem getpass_restores:
  "getpass True prompt t sigmask =
    (Some (take MAX_PASS_LEN (takeWhile (\<lambda>c. c \<noteq> CHR 0x0A) (typed_in t))),
     t\<lparr>typed_in := tl (dropWhile (\<lambda>c. c \<noteq> CHR 0x0A) (typed_in t)), screen := screen t @ prompt @ [CHR 0x0A]\<rparr>, sigmask)"
  by (simp add: getpass_def read_pass_def pass_loop_line Let_def)

end
