(* ===== verification/Spec2Isabelle.thy ===== *)
theory Spec2Isabelle
  imports DbSpec RwQueue PrintClient OpenLoop MemStream SemLib TtyModes FooTable BarrierSort FtwTree TellWait Popen ErrLog TtyName MsgRelay Timeout PtyLoop FileCopy SigFuns EnvPass
begin

text \<open>
  A model of the programs under \<^verbatim>\<open>src/apue.3e\<close> that have logic of their own: the database library
  (\<^verbatim>\<open>db\<close>), the print server and its client (\<^verbatim>\<open>printer\<close>), the open server and the passing of
  descriptors (\<^verbatim>\<open>ipc2\<close>, \<^verbatim>\<open>lib\<close>), the input and output functions of \<^verbatim>\<open>lib\<close> they use, the
  semaphores, terminal modes, streams to commands and error functions of \<^verbatim>\<open>lib\<close>, the memory streams
  of \<^verbatim>\<open>exercises\<close>, the queue, the table of counted objects and the parallel sort of \<^verbatim>\<open>threads\<close>, the walk
  through a file hierarchy of \<^verbatim>\<open>filedir\<close>, the synchronization of processes of \<^verbatim>\<open>lib\<close> and \<^verbatim>\<open>ipc1\<close>, the
  relays of messages of \<^verbatim>\<open>ipc2\<close> and \<^verbatim>\<open>exercises\<close>, the timer threads of \<^verbatim>\<open>threadctl\<close>, the copy loop of \<^verbatim>\<open>pty\<close>,
  and programs that copy files (\<^verbatim>\<open>advio\<close>, \<^verbatim>\<open>fileio\<close>).

  \<^bold>\<open>Conventions.\<close> A C function is a function of the state of its component that returns the new
  state and its result. The ways not to return are values of type \<open>stop\<close> in the left summand of
  \<open>'a res\<close> (theory Prelude): the exits through \<^verbatim>\<open>err_dump\<close>, \<^verbatim>\<open>err_sys\<close>, \<^verbatim>\<open>log_sys\<close> and so on, a
  call that sleeps (\<open>Waits\<close>, and \<open>Sleeps\<close> with the bytes of the files of a database), a loop without end, and \<open>Undef\<close> for an access outside of an object. Strings
  are lists of bytes (\<open>char list\<close>); sizes and counts are \<open>nat\<close>, C integers \<open>int\<close> or words where
  they can wrap around. What the kernel, another process or a library outside the repository
  answers is an argument: a list of read results, an event, a function. Executing the model on a
  concrete input is evaluating it.

  \<^bold>\<open>Shared theories.\<close>
  \<^item> Prelude: results, \<open>bnd\<close>, hints. CLib: the parts of the C library in use (\<^verbatim>\<open>strtol\<close>, \<^verbatim>\<open>atol\<close>,
    \<^verbatim>\<open>sprintf\<close> of decimal numbers, \<^verbatim>\<open>strchr\<close>, strings ended by a null byte). Bytes: integers as bytes
    in host and network order.

  \<^bold>\<open>The database library\<close>, \<^verbatim>\<open>db/db.c\<close> with \<^verbatim>\<open>lib/lockreg.c\<close> and \<^verbatim>\<open>db/t4.c\<close>.
  \<^item> DbFile: open files with offset and record locks; \<^verbatim>\<open>lseek\<close>, \<^verbatim>\<open>read\<close>, \<^verbatim>\<open>write\<close>, \<^verbatim>\<open>lock_reg\<close>. A
    request that conflicts with another process's lock is the stop \<open>Waits\<close>.
  \<^item> Db, DbOps, DbOpen: every function of \<^verbatim>\<open>db.c\<close> on the handle \<open>DB\<close>, with the files in their
    on-disk format. The access mode matters in \<^verbatim>\<open>db_open\<close>, whose write lock a file opened for reading
    refuses; the other functions are those on a handle opened with \<^verbatim>\<open>O_RDWR\<close>. In \<^verbatim>\<open>_db_dodelete\<close> source
    and target of \<^verbatim>\<open>sprintf\<close> overlap, which C leaves undefined: the model has the effect of a copy from
    left to right, and C1 and C3 hold for libraries that do that.
  \<^item> DbLayout and DbExec relate structured contents (records, chains) to the bytes and compute the
    low-level functions on them; DbInv has the invariant (each chain and the free list well formed,
    no record in two lists, keys once), DbChange and DbCorrect that searching and the three kinds
    of change preserve it; DbApi the refinement of a finite map, DbScan opening and sequential
    access.
  \<^item> DbSpec: the contract of the store as a locale, its interpretation on the library, C1 to C6,
    C9 and C10, and what \<^verbatim>\<open>t4.c\<close> stores. The searches have fuel in the length of the index file, which is enough because a chain
    visits every record at most once.

  \<^bold>\<open>Input and output of exact counts\<close>, \<^verbatim>\<open>lib/readn.c\<close>, \<^verbatim>\<open>lib/writen.c\<close>, \<^verbatim>\<open>printer/util.c\<close>: theory
  Stream, C13.

  \<^bold>\<open>Queues.\<close> DList has doubly linked lists in a heap and their operations, with the contract of a
  double-ended queue; RwQueue the queue of \<^verbatim>\<open>threads/rwlock.c\<close> (C15).

  \<^bold>\<open>The print server\<close>, \<^verbatim>\<open>printer/printd.c\<close>, \<^verbatim>\<open>print.c\<close>, \<^verbatim>\<open>util.c\<close>.
  \<^item> PrintQueue: pending jobs, job numbers, worker threads, the signal thread (C17, C18, C20).
  \<^item> PrintSpool: \<^verbatim>\<open>client_thread\<close>, which stores a job in the spool, and \<^verbatim>\<open>build_qonstart\<close>, which finds
    the stored jobs at a restart (C21 to C23); which flags the stored request has, by the first
    bytes that arrive.
  \<^item> PrintStatus: \<^verbatim>\<open>readmore\<close> and \<^verbatim>\<open>printer_status\<close>, on the bytes of the read buffer (C24).
    \<^verbatim>\<open>printer_status\<close> may loop for ever; its fuel is the third argument of the loop, C24 has inputs
    for which it is enough and others for which none is, by the place where the response is cut in two.
  \<^item> PrintJob: the IPP and HTTP headers and a round of \<^verbatim>\<open>printer_thread\<close> (C26 to C28), with the
    bytes sent, and the jobs that clients add while \<^verbatim>\<open>joblock\<close> is free.
  \<^item> PrintClient: \<^verbatim>\<open>submit_file\<close> and the configuration file; what is submitted is what is stored
    (C29, C30).

  \<^bold>\<open>The open server\<close>, \<^verbatim>\<open>ipc2\<close> and \<^verbatim>\<open>lib\<close>.
  \<^item> FdPass: \<^verbatim>\<open>send_fd\<close>, \<^verbatim>\<open>send_err\<close>, \<^verbatim>\<open>recv_fd\<close>, \<^verbatim>\<open>recv_ufd\<close> (C31). Bytes without
    control data may be cut anywhere; a descriptor comes in one piece with its two bytes.
  \<^item> OpenServer: \<^verbatim>\<open>buf_args\<close>, \<^verbatim>\<open>cli_args\<close>, \<^verbatim>\<open>handle_request\<close> and \<^verbatim>\<open>csopen\<close> (C32, C33).
  \<^item> OpenLoop: the table of clients and the loops with \<^verbatim>\<open>select\<close> and \<^verbatim>\<open>poll\<close>, as step relations over
    the events the kernel reports (C34); they are not equivalent (theorem \<open>poll_loop_wrong_user\<close>).

  \<^bold>\<open>Other functions of the library and the exercises.\<close>
  \<^item> MemStream: \<^verbatim>\<open>exercises/fmemopen.c\<close> and its refinement of files of bounded size (C36, C37). Every
    byte stored is checked to lie in the buffer.
  \<^item> SemLib: \<^verbatim>\<open>lib/semaph.c\<close>, machines of system calls run by many processes, with the invariant
    of all interleavings (C38) and two races (theorem \<open>semaphore_races\<close>).
  \<^item> FooTable: \<^verbatim>\<open>threads/mutex2.c\<close>, a table of counted objects used by many threads, with the
    invariant of all interleavings, and its comparison with \<^verbatim>\<open>threads/mutex3.c\<close> (C16). The counts are
    unbounded integers.
  \<^item> BarrierSort: \<^verbatim>\<open>threads/barrier.c\<close>, threads that sort the pieces of an array, a barrier and the
    merge, under every schedule (C8). The number and size of the pieces are arguments, 8 and 1000000
    in the program.
  \<^item> FtwTree: \<^verbatim>\<open>filedir/ftw8.c\<close> and \<^verbatim>\<open>lib/pathalloc.c\<close>, compared with the list of the files of the
    hierarchy in the order of a depth-first walk (C14). The depth of the recursion is bounded by fuel;
    more than the limit of the kernel for paths is enough, because \<^verbatim>\<open>lstat\<close> refuses longer paths.
  \<^item> TellWait: \<^verbatim>\<open>lib/tellwait.c\<close> (signals) and \<^verbatim>\<open>ipc1/tellwait.c\<close> (pipes) as two implementations of one
    contract, the locale \<open>handshake\<close>, and \<^verbatim>\<open>ipc1/devzero.c\<close> over both (C19).
  \<^item> Popen: \<^verbatim>\<open>lib/popen.c\<close> (C11).
  \<^item> ErrLog: \<^verbatim>\<open>lib/error.c\<close> and \<^verbatim>\<open>lib/errorlog.c\<close>: what the error exits, elsewhere values of type
    \<open>stop\<close>, write and how they end.
  \<^item> TtyName: \<^verbatim>\<open>termios/ttyname.c\<close>, the breadth-first search for the name of a terminal (C12). The
    rounds of the search are bounded by fuel; the number of directories below \<^verbatim>\<open>/dev\<close> is enough.
  \<^item> TtyModes: \<^verbatim>\<open>lib/ttymodes.c\<close> (C40).
  \<^item> MsgRelay: \<^verbatim>\<open>ipc2/pollmsg.c\<close> and \<^verbatim>\<open>exercises/pollmsg2.c\<close>, threads that pass messages on to a thread
    which waits with \<^verbatim>\<open>poll\<close>, under every schedule; the invariant says for each queue where its messages
    are, by the positions of both threads (C35).
  \<^item> Timeout: \<^verbatim>\<open>threadctl/timeout.c\<close> and \<^verbatim>\<open>makethread\<close> of \<^verbatim>\<open>threadctl/detach.c\<close>, with a clock that counts
    nanoseconds: every function is called once, and early only after a signal or where there is no memory
    or no thread (C7), and the retry of \<^verbatim>\<open>main\<close> needs a
    recursive mutex (theorem \<open>retry_needs_recursive\<close>).
  \<^item> PtyLoop: \<^verbatim>\<open>pty/loop.c\<close>, two processes that copy and tell each other to stop by a signal, under
    every schedule (C25). Reads, writes and signals are steps of their own; what each process holds
    between a read and a write is part of the state.
  \<^item> FileCopy: \<^verbatim>\<open>advio/rot13a.c\<close> (C39), \<^verbatim>\<open>advio/mcopy2.c\<close> and two versions of \<^verbatim>\<open>mycat.c\<close> (theorems
    \<open>mcopy_copies\<close>, \<open>mycat_copies\<close>).
  \<^item> SigFuns: \<^verbatim>\<open>signals/system.c\<close> gives its caller the signals back, \<^verbatim>\<open>signals/abort.c\<close> ends the process
    whatever is done with \<^verbatim>\<open>SIGABRT\<close>, and \<^verbatim>\<open>connect_retry\<close> of \<^verbatim>\<open>sockets\<close> makes at most 8 attempts (theorems
    \<open>system_restores\<close>, \<open>abort_kills\<close>, \<open>connect_retry_backoff\<close>).
  \<^item> EnvPass: the versions of \<^verbatim>\<open>getenv\<close> in \<^verbatim>\<open>threadctl\<close> and \<^verbatim>\<open>termios/getpass.c\<close> (theorems
    \<open>getenv_r_correct\<close>, \<open>getenv_per_thread\<close>, \<open>getpass_restores\<close>).

  \<^bold>\<open>Not modelled.\<close> The example programs of the other directories, which call the kernel or the
  C library once or print what it returns; daemonizing, option parsing; the
  connection set-up with \<^verbatim>\<open>getaddrinfo\<close>; permission bits; failing \<^verbatim>\<open>malloc\<close>, except in MemStream
  and Timeout.
\<close>

end
